(* ===== verification/Prelude.thy ===== *)
theory Prelude
  imports Main "HOL-Library.Word"
begin

text \<open>
  What the components share: the machine integer types of the C and C++ sources, the
  reachable states of a transition system with the interfaces every concurrent component is
  proved through (an inductive invariant; a measure that every step decreases; a phase in
  which it does; an abstract system that the steps implement), runs by a schedule, and sums over the threads of a
  program.
\<close>

section \<open>Machine types\<close>

type_synonym u8 = "8 word"
type_synonym u32 = "32 word"
type_synonym u64 = "64 word"

text \<open>Threads are numbered.\<close>

type_synonym tid = nat

abbreviation INT_MAX :: int where
  "INT_MAX \<equiv> 2147483647"

abbreviation INT_MIN :: int where
  "INT_MIN \<equiv> - 2147483648"

text \<open>Invariants, program-counter classifications and steps, unfolded together in proofs.\<close>

named_theorems inv_defs
named_theorems step_defs

section \<open>Reachable states\<close>

inductive reach :: "'s \<Rightarrow> ('s \<Rightarrow> 's \<Rightarrow> bool) \<Rightarrow> 's \<Rightarrow> bool" for s0 step where
  reach_init: "reach s0 step s0"
| reach_step: "reach s0 step s \<Longrightarrow> step s t \<Longrightarrow> reach s0 step t"

lemma reach_relpowp: "(step ^^ n) s0 s \<Longrightarrow> reach s0 step s"
proof (induction n arbitrary: s)
  case 0
  then show ?case by (simp add: reach_init)
next
  case (Suc n)
  then obtain u where "(step ^^ n) s0 u" "step u s" by (auto elim: relpowp_Suc_E)
  with Suc.IH show ?case by (blast intro: reach_step)
qed

lemma reach_extend: "reach s step t \<Longrightarrow> reach s0 step s \<Longrightarrow> reach s0 step t"
  by (induction rule: reach.induct) (auto intro: reach_step)

lemma reach_first: "step s u \<Longrightarrow> reach u step t \<Longrightarrow> reach s step t"
  by (rule reach_extend [OF _ reach_step [OF reach_init]])

lemma reach_mono:
  assumes "reach s0 r s" and "\<And>s s'. r s s' \<Longrightarrow> q s s'"
  shows "reach s0 q s"
  using assms(1) by (induction rule: reach.induct) (auto intro: reach.intros assms(2))

text \<open>A run by a schedule: each label is an action that may be possible.\<close>

primrec follow :: "('l \<Rightarrow> 's \<Rightarrow> 's option) \<Rightarrow> 'l list \<Rightarrow> 's \<Rightarrow> 's option" where
  "follow act [] s = Some s"
| "follow act (l # ls) s = (case act l s of None \<Rightarrow> None | Some t \<Rightarrow> follow act ls t)"

lemma follow_reach:
  assumes "follow act ls s = Some t" and "\<And>l u v. act l u = Some v \<Longrightarrow> step u v"
  shows "reach s step t"
  using assms(1)
proof (induction ls arbitrary: s)
  case Nil
  then show ?case by (simp add: reach_init)
next
  case (Cons l ls)
  then obtain u where "act l s = Some u" "follow act ls u = Some t" by (auto split: option.splits)
  with Cons.IH assms(2) show ?case by (blast intro: reach_first)
qed

text \<open>The interface of a component with an inductive invariant.\<close>

locale invariant_system =
  fixes init :: 's
    and step :: "'s \<Rightarrow> 's \<Rightarrow> bool"
    and inv :: "'s \<Rightarrow> bool"
  assumes inv_init: "inv init"
    and inv_step: "inv s \<Longrightarrow> step s t \<Longrightarrow> inv t"
begin

lemma reach_inv: "reach init step s \<Longrightarrow> inv s"
  by (induction rule: reach.induct) (auto intro: inv_init inv_step)

end

text \<open>
  The interface of a component that always finishes: every step spends some of a measure,
  and a state that is not final has a step. Then every run is bounded, a stuck state is
  final, and a final state is reached from everywhere.
\<close>

locale terminating_system = invariant_system +
  fixes \<mu> :: "'s \<Rightarrow> nat"
    and final :: "'s \<Rightarrow> bool"
  assumes decreases: "inv s \<Longrightarrow> step s t \<Longrightarrow> \<mu> t < \<mu> s"
    and progress: "inv s \<Longrightarrow> \<not> final s \<Longrightarrow> \<exists>t. step s t"
begin

lemma inv_reach: "reach s step t \<Longrightarrow> inv s \<Longrightarrow> inv t"
  by (induction rule: reach.induct) (auto intro: inv_step)

lemma stuck_final: "reach init step s \<Longrightarrow> \<nexists>t. step s t \<Longrightarrow> final s"
  using progress reach_inv by blast

lemma run_measure: "(step ^^ n) s t \<Longrightarrow> inv s \<Longrightarrow> n + \<mu> t \<le> \<mu> s"
proof (induction n arbitrary: t)
  case 0
  then show ?case by simp
next
  case (Suc n)
  then obtain u where u: "(step ^^ n) s u" "step u t" by (auto elim: relpowp_Suc_E)
  with Suc have "n + \<mu> u \<le> \<mu> s" by blast
  moreover have "inv u" using u Suc.prems by (blast intro: inv_reach reach_relpowp)
  then have "\<mu> t < \<mu> u" using u(2) by (rule decreases)
  ultimately show ?case by simp
qed

lemma run_bounded: "(step ^^ n) init s \<Longrightarrow> n \<le> \<mu> init"
  using run_measure inv_init by fastforce

lemma inv_reaches_final: "inv s \<Longrightarrow> \<exists>t. reach s step t \<and> final t"
proof (induction "\<mu> s" arbitrary: s rule: less_induct)
  case less
  show ?case
  proof (cases "final s")
    case True
    then show ?thesis by (blast intro: reach_init)
  next
    case False
    with less.prems obtain u where u: "step s u" using progress by blast
    with less.prems have "inv u" "\<mu> u < \<mu> s" by (blast intro: inv_step decreases)+
    then obtain t where "reach u step t" "final t" using less.hyps by blast
    moreover have "reach s step u" using u by (blast intro: reach_init reach_step)
    ultimately show ?thesis by (blast intro: reach_extend)
  qed
qed

lemma reaches_final: "reach init step s \<Longrightarrow> \<exists>t. reach s step t \<and> final t"
  by (blast intro: inv_reaches_final reach_inv)

end

text \<open>
  The interface of a component that runs until it is told to stop: once in the phase of its
  end it stays there, every step spends some of a measure, and only a final state is stuck.
\<close>

locale ending_phase = invariant_system +
  fixes phase :: "'s \<Rightarrow> bool"
    and \<mu> :: "'s \<Rightarrow> nat"
    and final :: "'s \<Rightarrow> bool"
  assumes stays: "inv s \<Longrightarrow> phase s \<Longrightarrow> step s t \<Longrightarrow> phase t \<and> \<mu> t < \<mu> s"
    and goes_on: "inv s \<Longrightarrow> phase s \<Longrightarrow> \<not> final s \<Longrightarrow> \<exists>t. step s t"
begin

lemma from_phase:
  assumes "inv s0" "phase s0"
  shows "terminating_system s0 step (\<lambda>s. inv s \<and> phase s) \<mu> final"
  by unfold_locales (use assms inv_step stays goes_on in blast)+

lemma phase_run_bounded:
  assumes "reach init step s" "phase s" "(step ^^ n) s t"
  shows "n \<le> \<mu> s"
  using terminating_system.run_bounded [OF from_phase [OF reach_inv [OF assms(1)] assms(2)] assms(3)] .

lemma phase_reaches_final:
  assumes "reach init step s" "phase s"
  shows "\<exists>t. reach s step t \<and> final t"
  using terminating_system.reaches_final [OF from_phase [OF reach_inv [OF assms(1)] assms(2)] reach_init] .

end

text \<open>
  The interface of a detailed system that implements an abstract one: each of its steps is
  one abstract step or none. Then its reachable states are those of the abstract system,
  seen through the abstraction.
\<close>

locale refinement_system = invariant_system +
  fixes ainit :: 'a
    and astep :: "'a \<Rightarrow> 'a \<Rightarrow> bool"
    and abs :: "'s \<Rightarrow> 'a"
  assumes abs_init: "abs init = ainit"
    and abs_step: "inv s \<Longrightarrow> step s t \<Longrightarrow> abs t = abs s \<or> astep (abs s) (abs t)"
begin

lemma reach_abs: "reach init step s \<Longrightarrow> reach ainit astep (abs s)"
proof (induction rule: reach.induct)
  case reach_init
  show ?case by (simp add: abs_init reach.reach_init)
next
  case (reach_step s t)
  from abs_step [OF reach_inv [OF reach_step(1)] reach_step(2)] reach_step(3) show ?case
    by (auto intro: reach.reach_step)
qed

end

section \<open>Sums over the threads of a program\<close>

definition thread_sum :: "nat \<Rightarrow> ('p \<Rightarrow> nat) \<Rightarrow> (tid \<Rightarrow> 'p) \<Rightarrow> nat" where
  "thread_sum n w ps = (\<Sum>i<n. w (ps i))"

lemma thread_sum_upd:
  assumes "i < n"
  shows "thread_sum n w (ps(i := p)) + w (ps i) = thread_sum n w ps + w p"
proof -
  have "thread_sum n w ps = w (ps i) + (\<Sum>j\<in>{..<n} - {i}. w (ps j))"
    using assms by (simp add: thread_sum_def sum.remove)
  moreover have "thread_sum n w (ps(i := p)) = w p + (\<Sum>j\<in>{..<n} - {i}. w (ps j))"
    using assms by (simp add: thread_sum_def sum.remove)
  ultimately show ?thesis by simp
qed

lemma thread_sum_const: "\<forall>i<n. w (ps i) = c \<Longrightarrow> thread_sum n w ps = n * c"
  by (simp add: thread_sum_def)

lemma thread_sum_le: "\<forall>i<n. w (ps i) \<le> c \<Longrightarrow> thread_sum n w ps \<le> n * c"
  using sum_bounded_above [of "{..<n}" "\<lambda>i. w (ps i)" c] by (auto simp: thread_sum_def)

lemma thread_sum_ge_one: "i < n \<Longrightarrow> w (ps i) \<le> thread_sum n w ps"
  by (auto simp: thread_sum_def intro: member_le_sum)

lemma thread_sum_pos: "0 < thread_sum n w ps \<longleftrightarrow> (\<exists>i<n. 0 < w (ps i))"
  by (auto simp: thread_sum_def sum_eq_0_iff simp flip: neq0_conv)

end
