(* ===== verification/Pthread.thy ===== *)
theory Pthread
  imports Prelude
begin

text \<open>
  The POSIX synchronisation objects the sources use, as POSIX documents them, and the
  \<open>lock_guard\<close> class the sources wrap around them. A blocking call that cannot proceed
  is \<open>Block\<close>, an error number is \<open>Fail\<close>, a call POSIX leaves undefined is \<open>Undefined\<close>.
  The interface \<open>exclusive_lock\<close> states what a client of a lock relies on; mutexes,
  spin locks and \<open>lock_guard\<close> provide it.
\<close>

section \<open>Results of a call\<close>

datatype errno = EDEADLK | EPERM | EAGAIN | EINTR | ENOSYS | ECONNRESET | ECONNREFUSED | EOTHER

datatype 'a outcome = Done 'a | Block | Fail errno | Undefined

section \<open>Mutexes\<close>

datatype mutex_kind = NORMAL | ERRORCHECK | RECURSIVE

record mutex =
  m_kind :: mutex_kind
  m_owner :: "tid option"
  m_count :: nat

definition mutex_init :: "mutex_kind \<Rightarrow> mutex" where
  "mutex_init k = \<lparr>m_kind = k, m_owner = None, m_count = 0\<rparr>"

definition mutex_lock :: "tid \<Rightarrow> mutex \<Rightarrow> mutex outcome" where
  "mutex_lock t m =
     (case m_owner m of
        None \<Rightarrow> Done (m\<lparr>m_owner := Some t, m_count := 1\<rparr>)
      | Some u \<Rightarrow>
          if u \<noteq> t then Block
          else (case m_kind m of
                  NORMAL \<Rightarrow> Block
                | ERRORCHECK \<Rightarrow> Fail EDEADLK
                | RECURSIVE \<Rightarrow> Done (m\<lparr>m_count := Suc (m_count m)\<rparr>)))"

definition mutex_unlock :: "tid \<Rightarrow> mutex \<Rightarrow> mutex outcome" where
  "mutex_unlock t m =
     (if m_owner m = Some t
      then if m_count m \<le> 1 then Done (m\<lparr>m_owner := None, m_count := 0\<rparr>)
           else Done (m\<lparr>m_count := m_count m - 1\<rparr>)
      else case m_kind m of NORMAL \<Rightarrow> Undefined | _ \<Rightarrow> Fail EPERM)"

text \<open>A mutex between two calls of non-nested sections: free, or taken exactly once.\<close>

definition mutex_flat :: "mutex \<Rightarrow> bool" where
  "mutex_flat m \<longleftrightarrow> m_count m = (if m_owner m = None then 0 else 1)"

lemma mutex_lock_free:
  "m_owner m = None \<Longrightarrow> mutex_lock t m = Done (m\<lparr>m_owner := Some t, m_count := 1\<rparr>)"
  by (simp add: mutex_lock_def)

lemma mutex_lock_busy: "m_owner m = Some u \<Longrightarrow> u \<noteq> t \<Longrightarrow> mutex_lock t m = Block"
  by (simp add: mutex_lock_def)

lemma mutex_lock_owner:
  "mutex_lock t m = Done m' \<Longrightarrow> m_owner m' = Some t \<and> m_kind m' = m_kind m"
  by (auto simp: mutex_lock_def split: option.splits if_splits mutex_kind.splits)

text \<open>A recursive mutex counts its holder's locks up and down.\<close>

lemma mutex_lock_recursive:
  "mutex_lock t m = Done m' \<Longrightarrow> m_kind m = RECURSIVE \<Longrightarrow>
   m_kind m' = RECURSIVE \<and> m_owner m' = Some t
   \<and> (case m_owner m of None \<Rightarrow> m_count m' = 1 | Some u \<Rightarrow> u = t \<and> m_count m' = Suc (m_count m))"
  by (auto simp: mutex_lock_def split: option.splits if_splits)

lemma mutex_unlock_recursive:
  "mutex_unlock t m = Done m' \<Longrightarrow> m_kind m = RECURSIVE \<Longrightarrow> 0 < m_count m \<Longrightarrow>
   m_kind m' = RECURSIVE \<and> m_owner m = Some t \<and> Suc (m_count m') = m_count m
   \<and> m_owner m' = (if m_count m' = 0 then None else Some t)"
  by (auto simp: mutex_unlock_def split: if_splits)

lemma mutex_unlock_last:
  "m_owner m = Some t \<Longrightarrow> m_count m \<le> 1 \<Longrightarrow>
   mutex_unlock t m = Done (m\<lparr>m_owner := None, m_count := 0\<rparr>)"
  by (simp add: mutex_unlock_def)

lemma mutex_unlock_lock:
  assumes "mutex_lock t m = Done m'" and "m_owner m = None \<longleftrightarrow> m_count m = 0"
  shows "mutex_unlock t m' = Done m"
  using assms
  by (cases m) (auto simp: mutex_lock_def mutex_unlock_def
    split: option.splits if_splits mutex_kind.splits)

section \<open>Spin locks\<close>

type_synonym spinlock = "tid option"

definition spin_lock :: "tid \<Rightarrow> spinlock \<Rightarrow> spinlock outcome" where
  "spin_lock t s = (case s of None \<Rightarrow> Done (Some t) | Some u \<Rightarrow> Block)"

definition spin_unlock :: "tid \<Rightarrow> spinlock \<Rightarrow> spinlock outcome" where
  "spin_unlock t s = (if s = Some t then Done None else Undefined)"

section \<open>The lock guard\<close>

text \<open>
  The constructor locks and the destructor unlocks; both drop the error number the call
  returns, so a failed call leaves the mutex as it was and the program goes on.
\<close>

definition ignore_errno :: "'a \<Rightarrow> 'a outcome \<Rightarrow> 'a outcome" where
  "ignore_errno old r = (case r of Fail e \<Rightarrow> Done old | _ \<Rightarrow> r)"

definition lock_guard_ctor :: "tid \<Rightarrow> mutex \<Rightarrow> mutex outcome" where
  "lock_guard_ctor t lk = ignore_errno lk (mutex_lock t lk)"

definition lock_guard_dtor :: "tid \<Rightarrow> mutex \<Rightarrow> mutex outcome" where
  "lock_guard_dtor t lk = ignore_errno lk (mutex_unlock t lk)"

lemma ignore_errno_simps [simp]:
  "ignore_errno old (Done x) = Done x"
  "ignore_errno old Block = Block"
  "ignore_errno old (Fail e) = Done old"
  "ignore_errno old Undefined = Undefined"
  by (simp_all add: ignore_errno_def)

section \<open>The interface of an exclusive lock\<close>

text \<open>
  What a critical section relies on: a free lock is taken, a lock held by another thread
  blocks, and the holder's release frees it. \<open>okl\<close> is the provider's own invariant.
\<close>

locale exclusive_lock =
  fixes acq :: "tid \<Rightarrow> 'l \<Rightarrow> 'l outcome"
    and rel :: "tid \<Rightarrow> 'l \<Rightarrow> 'l outcome"
    and holder :: "'l \<Rightarrow> tid option"
    and okl :: "'l \<Rightarrow> bool"
  assumes acq_free:
      "okl l \<Longrightarrow> holder l = None \<Longrightarrow> \<exists>l'. acq t l = Done l' \<and> holder l' = Some t \<and> okl l'"
    and acq_busy: "okl l \<Longrightarrow> holder l = Some u \<Longrightarrow> u \<noteq> t \<Longrightarrow> acq t l = Block"
    and rel_held:
      "okl l \<Longrightarrow> holder l = Some t \<Longrightarrow> \<exists>l'. rel t l = Done l' \<and> holder l' = None \<and> okl l'"
begin

lemma acq_Done:
  "okl l \<Longrightarrow> holder l \<noteq> Some t \<Longrightarrow> acq t l = Done l' \<Longrightarrow>
   holder l = None \<and> holder l' = Some t \<and> okl l'"
  using acq_free [of l t] acq_busy [of l _ t] by (cases "holder l") auto

lemma rel_Done:
  "okl l \<Longrightarrow> holder l = Some t \<Longrightarrow> rel t l = Done l' \<Longrightarrow> holder l' = None \<and> okl l'"
  using rel_held [of l t] by auto

end

interpretation mutex_excl: exclusive_lock mutex_lock mutex_unlock m_owner mutex_flat
  by unfold_locales
    (auto simp: mutex_flat_def mutex_lock_def mutex_unlock_def split: option.splits)

interpretation guard_excl: exclusive_lock lock_guard_ctor lock_guard_dtor m_owner mutex_flat
  by unfold_locales
    (auto simp: mutex_flat_def mutex_lock_def mutex_unlock_def lock_guard_ctor_def
      lock_guard_dtor_def split: option.splits)

interpretation spin_excl: exclusive_lock spin_lock spin_unlock "\<lambda>s. s" "\<lambda>s. True"
  by unfold_locales (auto simp: spin_lock_def spin_unlock_def split: option.splits)

section \<open>Read-write locks\<close>

record rwlock =
  rw_writer :: "tid option"
  rw_readers :: "tid list"

definition rwlock_init :: rwlock where
  "rwlock_init = \<lparr>rw_writer = None, rw_readers = []\<rparr>"

definition rwlock_wrlock :: "tid \<Rightarrow> rwlock \<Rightarrow> rwlock outcome" where
  "rwlock_wrlock t l =
     (if rw_writer l = Some t then Fail EDEADLK
      else if rw_writer l = None \<and> rw_readers l = [] then Done (l\<lparr>rw_writer := Some t\<rparr>)
      else Block)"

definition rwlock_rdlock :: "tid \<Rightarrow> rwlock \<Rightarrow> rwlock outcome" where
  "rwlock_rdlock t l =
     (if rw_writer l = Some t then Fail EDEADLK
      else if rw_writer l = None then Done (l\<lparr>rw_readers := t # rw_readers l\<rparr>)
      else Block)"

definition rwlock_unlock :: "tid \<Rightarrow> rwlock \<Rightarrow> rwlock outcome" where
  "rwlock_unlock t l =
     (if rw_writer l = Some t then Done (l\<lparr>rw_writer := None\<rparr>)
      else if t \<in> set (rw_readers l) then Done (l\<lparr>rw_readers := remove1 t (rw_readers l)\<rparr>)
      else Undefined)"

text \<open>A writer excludes every reader.\<close>

definition rwlock_ok :: "rwlock \<Rightarrow> bool" where
  "rwlock_ok l \<longleftrightarrow> (rw_writer l = None \<or> rw_readers l = [])"

lemma rwlock_ok_init: "rwlock_ok rwlock_init"
  by (simp add: rwlock_ok_def rwlock_init_def)

lemma rwlock_ok_step:
  "rwlock_ok l \<Longrightarrow> rwlock_wrlock t l = Done l' \<Longrightarrow> rwlock_ok l'"
  "rwlock_ok l \<Longrightarrow> rwlock_rdlock t l = Done l' \<Longrightarrow> rwlock_ok l'"
  "rwlock_ok l \<Longrightarrow> rwlock_unlock t l = Done l' \<Longrightarrow> rwlock_ok l'"
  by (auto simp: rwlock_ok_def rwlock_wrlock_def rwlock_rdlock_def rwlock_unlock_def
    split: if_splits)

end
