(* ===== verification/Lock_Counter.thy ===== *)
theory Lock_Counter
  imports Pthread
begin

text \<open>
  The shared counters of \<open>day1/05_mutex\<close> and \<open>day2/08_spin\<close>: threads that each add one
  to a global variable a fixed number of times under a lock. The read and the write of the
  variable are separate steps, so that the lock is what makes the sum come out right. The
  worker takes its lock operations as arguments, as the source chooses between the mutex
  and the spin lock by \<open>#ifdef MUTEX\<close>; its lemmas are proved once over the interface
  \<open>exclusive_lock\<close>.
\<close>

section \<open>The worker\<close>

text \<open>Where a worker stands: the loop test, the lock call, the read, the write, the unlock.\<close>

datatype worker_pc =
    W_Test nat
  | W_Lock nat
  | W_Read nat
  | W_Write nat int
  | W_Unlock nat
  | W_Return

record 'l counter_state =
  ct_lock :: 'l
  ct_val :: int
  ct_pc :: "tid \<Rightarrow> worker_pc"

definition counter_start :: "'l \<Rightarrow> 'l counter_state" where
  "counter_start l = \<lparr>ct_lock = l, ct_val = 0, ct_pc = (\<lambda>t. W_Test 0)\<rparr>"

text \<open>
  One atomic step of thread \<open>t\<close>; \<open>None\<close> when it has returned, is blocked, or its lock
  call fails or is undefined.
\<close>

fun worker_step ::
  "(tid \<Rightarrow> 'l \<Rightarrow> 'l outcome) \<Rightarrow> (tid \<Rightarrow> 'l \<Rightarrow> 'l outcome) \<Rightarrow> nat \<Rightarrow> tid \<Rightarrow>
   'l counter_state \<Rightarrow> 'l counter_state option" where
  "worker_step acq rel k t s =
     (case ct_pc s t of
        W_Test i \<Rightarrow>
          Some (s\<lparr>ct_pc := (ct_pc s)(t := if i < k then W_Lock i else W_Return)\<rparr>)
      | W_Lock i \<Rightarrow>
          (case acq t (ct_lock s) of
             Done l \<Rightarrow> Some (s\<lparr>ct_lock := l, ct_pc := (ct_pc s)(t := W_Read i)\<rparr>)
           | _ \<Rightarrow> None)
      | W_Read i \<Rightarrow> Some (s\<lparr>ct_pc := (ct_pc s)(t := W_Write i (ct_val s))\<rparr>)
      | W_Write i v \<Rightarrow> Some (s\<lparr>ct_val := v + 1, ct_pc := (ct_pc s)(t := W_Unlock i)\<rparr>)
      | W_Unlock i \<Rightarrow>
          (case rel t (ct_lock s) of
             Done l \<Rightarrow> Some (s\<lparr>ct_lock := l, ct_pc := (ct_pc s)(t := W_Test (Suc i))\<rparr>)
           | _ \<Rightarrow> None)
      | W_Return \<Rightarrow> None)"

declare worker_step.simps [simp del]

text \<open>The workers of the two programs.\<close>

definition perf_worker_step :: "nat \<Rightarrow> tid \<Rightarrow> mutex counter_state \<Rightarrow> mutex counter_state option"
  where "perf_worker_step = worker_step lock_guard_ctor lock_guard_dtor"

definition spin_thread_step ::
  "nat \<Rightarrow> tid \<Rightarrow> spinlock counter_state \<Rightarrow> spinlock counter_state option"
  where "spin_thread_step = worker_step spin_lock spin_unlock"

definition mutex_thread_step ::
  "nat \<Rightarrow> tid \<Rightarrow> mutex counter_state \<Rightarrow> mutex counter_state option"
  where "mutex_thread_step = worker_step mutex_lock mutex_unlock"

text \<open>Any of the \<open>n\<close> threads may move next.\<close>

inductive counter_step ::
  "(tid \<Rightarrow> 's \<Rightarrow> 's option) \<Rightarrow> nat \<Rightarrow> 's \<Rightarrow> 's \<Rightarrow> bool" for thread_step n where
  "t < n \<Longrightarrow> thread_step t s = Some s' \<Longrightarrow> counter_step thread_step n s s'"

inductive_simps counter_step_simps: "counter_step thread_step n s s'"

definition all_returned :: "nat \<Rightarrow> 'l counter_state \<Rightarrow> bool" where
  "all_returned n s \<longleftrightarrow> (\<forall>t<n. ct_pc s t = W_Return)"

text \<open>The verdict \<open>main\<close> prints after joining the threads.\<close>

definition counter_verdict :: "nat \<Rightarrow> nat \<Rightarrow> 'l counter_state \<Rightarrow> string" where
  "counter_verdict n k s = (if ct_val s \<noteq> int (n * k) then ''error!'' else ''ok'')"

section \<open>Progress of a thread\<close>

fun in_section :: "worker_pc \<Rightarrow> bool" where
  "in_section (W_Read i) = True"
| "in_section (W_Write i v) = True"
| "in_section (W_Unlock i) = True"
| "in_section _ = False"

fun added :: "nat \<Rightarrow> worker_pc \<Rightarrow> nat" where
  "added k (W_Test i) = i"
| "added k (W_Lock i) = i"
| "added k (W_Read i) = i"
| "added k (W_Write i v) = i"
| "added k (W_Unlock i) = Suc i"
| "added k W_Return = k"

fun pc_ok :: "nat \<Rightarrow> int \<Rightarrow> worker_pc \<Rightarrow> bool" where
  "pc_ok k c (W_Test i) \<longleftrightarrow> i \<le> k"
| "pc_ok k c (W_Lock i) \<longleftrightarrow> i < k"
| "pc_ok k c (W_Read i) \<longleftrightarrow> i < k"
| "pc_ok k c (W_Write i v) \<longleftrightarrow> i < k \<and> v = c"
| "pc_ok k c (W_Unlock i) \<longleftrightarrow> i < k"
| "pc_ok k c W_Return \<longleftrightarrow> True"

fun work_left :: "nat \<Rightarrow> worker_pc \<Rightarrow> nat" where
  "work_left k (W_Test i) = 5 * (k - i) + 1"
| "work_left k (W_Lock i) = 5 * (k - i)"
| "work_left k (W_Read i) = 5 * (k - i) - 1"
| "work_left k (W_Write i v) = 5 * (k - i) - 2"
| "work_left k (W_Unlock i) = 5 * (k - i) - 3"
| "work_left k W_Return = 0"

lemma added_le: "pc_ok k c p \<Longrightarrow> added k p \<le> k"
  by (cases p) auto

lemma pc_ok_frame: "\<not> in_section p \<Longrightarrow> pc_ok k c p \<Longrightarrow> pc_ok k c' p"
  by (cases p) auto

section \<open>The client of the lock interface\<close>

definition counter_inv :: "('l \<Rightarrow> tid option) \<Rightarrow> ('l \<Rightarrow> bool) \<Rightarrow> nat \<Rightarrow> nat \<Rightarrow> 'l counter_state \<Rightarrow> bool"
  where [inv_defs]: "counter_inv holder okl n k s \<longleftrightarrow>
     okl (ct_lock s)
     \<and> (\<forall>t<n. in_section (ct_pc s t) \<longleftrightarrow> holder (ct_lock s) = Some t)
     \<and> (\<forall>t. holder (ct_lock s) = Some t \<longrightarrow> t < n)
     \<and> (\<forall>t<n. pc_ok k (ct_val s) (ct_pc s t))
     \<and> ct_val s = int (thread_sum n (added k) (ct_pc s))"

definition counter_measure :: "nat \<Rightarrow> nat \<Rightarrow> 'l counter_state \<Rightarrow> nat" where
  "counter_measure n k s = thread_sum n (work_left k) (ct_pc s)"

text \<open>
  A step of thread \<open>t\<close> either keeps lock and variable, or takes the lock, or writes, or
  releases it: the cases the invariant is proved over.
\<close>

lemma worker_step_cases:
  assumes "worker_step acq rel k t s = Some s'"
  obtains
    (Test) i where "ct_pc s t = W_Test i"
      "s' = s\<lparr>ct_pc := (ct_pc s)(t := if i < k then W_Lock i else W_Return)\<rparr>"
  | (Lock) i l where "ct_pc s t = W_Lock i" "acq t (ct_lock s) = Done l"
      "s' = s\<lparr>ct_lock := l, ct_pc := (ct_pc s)(t := W_Read i)\<rparr>"
  | (Read) i where "ct_pc s t = W_Read i"
      "s' = s\<lparr>ct_pc := (ct_pc s)(t := W_Write i (ct_val s))\<rparr>"
  | (Write) i v where "ct_pc s t = W_Write i v"
      "s' = s\<lparr>ct_val := v + 1, ct_pc := (ct_pc s)(t := W_Unlock i)\<rparr>"
  | (Unlock) i l where "ct_pc s t = W_Unlock i" "rel t (ct_lock s) = Done l"
      "s' = s\<lparr>ct_lock := l, ct_pc := (ct_pc s)(t := W_Test (Suc i))\<rparr>"
  using assms
  by (cases "ct_pc s t") (auto simp: worker_step.simps split: outcome.splits)

context exclusive_lock
begin

lemma counter_inv_start:
  "okl l \<Longrightarrow> holder l = None \<Longrightarrow> counter_inv holder okl n k (counter_start l)"
  by (simp add: counter_inv_def counter_start_def thread_sum_def)

lemma counter_inv_worker:
  assumes inv: "counter_inv holder okl n k s" and t: "t < n"
    and step: "worker_step acq rel k t s = Some s'"
  shows "counter_inv holder okl n k s'"
proof -
  let ?P = "ct_pc s"
  have sum: "thread_sum n (added k) (?P(t := p)) + added k (?P t)
      = thread_sum n (added k) ?P + added k p" for p
    using t by (rule thread_sum_upd)
  have ok: "okl (ct_lock s)" and sec: "\<forall>u<n. in_section (?P u) \<longleftrightarrow> holder (ct_lock s) = Some u"
    and own: "\<forall>u. holder (ct_lock s) = Some u \<longrightarrow> u < n"
    and pcs: "\<forall>u<n. pc_ok k (ct_val s) (?P u)"
    and val: "ct_val s = int (thread_sum n (added k) ?P)"
    using inv unfolding counter_inv_def by blast+
  from step show ?thesis
  proof (cases rule: worker_step_cases)
    case (Test i)
    have "\<not> in_section (?P t)" "pc_ok k (ct_val s) (?P t)" using pcs t Test(1) by auto
    with Test ok sec own pcs val t sum [of "if i < k then W_Lock i else W_Return"] show ?thesis
      by (auto simp: counter_inv_def)
  next
    case (Lock i l)
    have "holder (ct_lock s) \<noteq> Some t" using sec t Lock(1) by auto
    with ok Lock(2) have l: "holder (ct_lock s) = None" "holder l = Some t" "okl l"
      using acq_Done by blast+
    have "pc_ok k (ct_val s) (?P t)" using pcs t by blast
    with Lock l sec pcs val t sum [of "W_Read i"] show ?thesis
      by (auto simp: counter_inv_def)
  next
    case (Read i)
    have "holder (ct_lock s) = Some t" "pc_ok k (ct_val s) (?P t)" using sec pcs t Read(1) by auto
    with Read ok sec own pcs val t sum [of "W_Write i (ct_val s)"] show ?thesis
      by (auto simp: counter_inv_def)
  next
    case (Write i v)
    have h: "holder (ct_lock s) = Some t" and p: "pc_ok k (ct_val s) (?P t)"
      using sec pcs t Write(1) by auto
    have "pc_ok k (v + 1) (?P u)" if "u < n" "u \<noteq> t" for u
      using that sec pcs h by (auto intro: pc_ok_frame)
    with Write ok sec own h p val t sum [of "W_Unlock i"] show ?thesis
      by (auto simp: counter_inv_def)
  next
    case (Unlock i l)
    have h: "holder (ct_lock s) = Some t" and p: "pc_ok k (ct_val s) (?P t)"
      using sec pcs t Unlock(1) by auto
    with ok Unlock(2) have l: "holder l = None" "okl l" using rel_Done by blast+
    with Unlock h p sec pcs val t sum [of "W_Test (Suc i)"] show ?thesis
      by (auto simp: counter_inv_def)
  qed
qed

lemma counter_measure_worker:
  assumes inv: "counter_inv holder okl n k s" and t: "t < n"
    and step: "worker_step acq rel k t s = Some s'"
  shows "counter_measure n k s' < counter_measure n k s"
proof -
  have ok: "pc_ok k (ct_val s) (ct_pc s t)" using inv t unfolding counter_inv_def by blast
  from step obtain p where p: "ct_pc s' = (ct_pc s)(t := p)"
      "work_left k p < work_left k (ct_pc s t)"
    using ok by (cases rule: worker_step_cases) auto
  from t have "thread_sum n (work_left k) ((ct_pc s)(t := p)) + work_left k (ct_pc s t)
      = thread_sum n (work_left k) (ct_pc s) + work_left k p"
    by (rule thread_sum_upd)
  with p show ?thesis by (simp add: counter_measure_def)
qed

lemma counter_progress:
  assumes inv: "counter_inv holder okl n k s" and left: "\<not> all_returned n s"
  shows "\<exists>t<n. \<exists>s'. worker_step acq rel k t s = Some s'"
proof (cases "holder (ct_lock s)")
  case (Some t)
  with inv have t: "t < n" and "in_section (ct_pc s t)" and ok: "okl (ct_lock s)"
    by (auto simp: counter_inv_def)
  then have "\<exists>s'. worker_step acq rel k t s = Some s'"
    using rel_held [OF ok Some] by (cases "ct_pc s t") (auto simp: worker_step.simps)
  with t show ?thesis by blast
next
  case None
  from left obtain t where t: "t < n" "ct_pc s t \<noteq> W_Return" by (auto simp: all_returned_def)
  with inv None have "\<not> in_section (ct_pc s t)" and ok: "okl (ct_lock s)"
    by (auto simp: counter_inv_def)
  with t(2) have "\<exists>s'. worker_step acq rel k t s = Some s'"
    using acq_free [OF ok None, of t] by (cases "ct_pc s t") (auto simp: worker_step.simps)
  with t show ?thesis by blast
qed

lemma counter_system:
  assumes "okl l" and "holder l = None"
  shows "terminating_system (counter_start l) (counter_step (worker_step acq rel k) n)
    (counter_inv holder okl n k) (counter_measure n k) (all_returned n)"
proof unfold_locales
  show "counter_inv holder okl n k (counter_start l)"
    using assms by (rule counter_inv_start)
next
  fix s t
  assume "counter_inv holder okl n k s" "counter_step (worker_step acq rel k) n s t"
  then show "counter_inv holder okl n k t" "counter_measure n k t < counter_measure n k s"
    by (auto simp: counter_step_simps intro: counter_inv_worker counter_measure_worker)
next
  fix s
  assume "counter_inv holder okl n k s" "\<not> all_returned n s"
  then show "\<exists>t. counter_step (worker_step acq rel k) n s t"
    using counter_progress by (fastforce simp: counter_step_simps)
qed

lemma counter_bounds:
  assumes "counter_inv holder okl n k s"
  shows "0 \<le> ct_val s \<and> ct_val s \<le> int (n * k)"
proof -
  have "thread_sum n (added k) (ct_pc s) \<le> n * k"
    using assms by (intro thread_sum_le) (auto simp: counter_inv_def intro: added_le)
  with assms show ?thesis by (simp add: counter_inv_def flip: of_nat_mult)
qed

lemma counter_result:
  assumes "counter_inv holder okl n k s" and "all_returned n s"
  shows "ct_val s = int (n * k)"
proof -
  have "thread_sum n (added k) (ct_pc s) = n * k"
    using assms(2) by (intro thread_sum_const) (auto simp: all_returned_def)
  with assms(1) show ?thesis by (simp add: counter_inv_def)
qed

lemma counter_exclusion:
  assumes "counter_inv holder okl n k s" "t < n" "u < n"
    and "in_section (ct_pc s t)" "in_section (ct_pc s u)"
  shows "t = u"
  using assms by (auto simp: counter_inv_def)

end

section \<open>The two programs\<close>

interpretation perf_sys: terminating_system "counter_start (mutex_init NORMAL)"
    "counter_step (perf_worker_step k) n" "counter_inv m_owner mutex_flat n k"
    "counter_measure n k" "all_returned n" for n k
  unfolding perf_worker_step_def
  by (rule guard_excl.counter_system) (simp_all add: mutex_init_def mutex_flat_def)

interpretation spin_sys: terminating_system "counter_start None"
    "counter_step (spin_thread_step k) n" "counter_inv (\<lambda>s. s) (\<lambda>s. True) n k"
    "counter_measure n k" "all_returned n" for n k
  unfolding spin_thread_step_def by (rule spin_excl.counter_system) simp_all

interpretation mutex_sys: terminating_system "counter_start (mutex_init NORMAL)"
    "counter_step (mutex_thread_step k) n" "counter_inv m_owner mutex_flat n k"
    "counter_measure n k" "all_returned n" for n k
  unfolding mutex_thread_step_def
  by (rule mutex_excl.counter_system) (simp_all add: mutex_init_def mutex_flat_def)

section \<open>Properties\<close>

text \<open>
  Whatever the interleaving, the workers of \<open>pthread_mutex_perf\<close> can always go on to
  the end; a state in which nobody can move is one where all have returned; and then the
  counter is exactly the number of threads times the number of iterations, so that
  \<open>main\<close> prints "ok".
\<close>

theorem perf_counter_total:
  assumes "reach (counter_start (mutex_init NORMAL)) (counter_step (perf_worker_step k) n) s"
  shows "(\<exists>f. reach s (counter_step (perf_worker_step k) n) f \<and> all_returned n f)
    \<and> ((\<nexists>s'. counter_step (perf_worker_step k) n s s') \<longrightarrow> all_returned n s)
    \<and> (all_returned n s \<longrightarrow> ct_val s = int (n * k) \<and> counter_verdict n k s = ''ok'')"
proof -
  have "counter_inv m_owner mutex_flat n k s" using assms by (rule perf_sys.reach_inv)
  then have "all_returned n s \<longrightarrow> ct_val s = int (n * k)"
    using guard_excl.counter_result by blast
  with perf_sys.reaches_final [OF assms] perf_sys.stuck_final [OF assms] show ?thesis
    by (auto simp: counter_verdict_def)
qed

theorem perf_counter_total_witness:
  "\<exists>f. reach (counter_start (mutex_init NORMAL)) (counter_step (perf_worker_step 3) 2) f
     \<and> all_returned 2 f \<and> ct_val f = 6"
proof -
  let ?s = "counter_start (mutex_init NORMAL)" and ?st = "counter_step (perf_worker_step 3) 2"
  obtain f where f: "reach ?s ?st f" "all_returned 2 f"
    using perf_counter_total [OF reach_init, of 3 2] by blast
  then have "ct_val f = 6" using perf_counter_total [OF f(1)] by simp
  with f show ?thesis by blast
qed

text \<open>
  In the spin-lock program (25 threads, 100000 iterations each) the \<open>int\<close> counter never
  leaves its range, so no increment overflows; every run is bounded; and when all threads
  have returned the counter is 2500000 and the verdict is "ok".
\<close>

theorem spin_counter_bounds:
  assumes run: "(counter_step (spin_thread_step 100000) 25 ^^ m) (counter_start None) s"
  shows "0 \<le> ct_val s \<and> ct_val s + 1 \<le> INT_MAX \<and> m \<le> 25 * 500001
    \<and> (all_returned 25 s \<longrightarrow> ct_val s = 2500000 \<and> counter_verdict 25 100000 s = ''ok'')"
proof -
  have inv: "counter_inv (\<lambda>s. s) (\<lambda>s. True) 25 100000 s"
    using run by (blast intro: spin_sys.reach_inv reach_relpowp)
  have "counter_measure 25 100000 (counter_start None :: spinlock counter_state) = 25 * 500001"
    using thread_sum_const [of 25 "work_left 100000" "\<lambda>t. W_Test 0" 500001]
    by (simp add: counter_measure_def counter_start_def)
  with spin_sys.run_bounded [OF run] have "m \<le> 25 * 500001" by simp
  moreover have "all_returned 25 s \<longrightarrow> ct_val s = 2500000"
    using spin_excl.counter_result [OF inv] by simp
  ultimately show ?thesis
    using spin_excl.counter_bounds [OF inv] by (simp add: counter_verdict_def)
qed

theorem spin_counter_bounds_witness:
  "0 \<le> ct_val (counter_start None :: spinlock counter_state)"
  using spin_counter_bounds [of 0 "counter_start None"] by simp

text \<open>
  In the mutex build of the same loop two threads are never both between the lock and
  the unlock, so no thread writes back a value another has made stale: whoever is about to
  write holds the current value of the counter.
\<close>

theorem mutex_counter_exclusion:
  assumes "reach (counter_start (mutex_init NORMAL)) (counter_step (mutex_thread_step k) n) s"
    and "t < n" and "u < n"
  shows "(in_section (ct_pc s t) \<and> in_section (ct_pc s u) \<longrightarrow> t = u)
    \<and> (ct_pc s t = W_Write i v \<longrightarrow> v = ct_val s)"
proof -
  have inv: "counter_inv m_owner mutex_flat n k s" using assms(1) by (rule mutex_sys.reach_inv)
  then have "pc_ok k (ct_val s) (ct_pc s t)" using assms(2) unfolding counter_inv_def by blast
  with mutex_excl.counter_exclusion [OF inv assms(2,3)] show ?thesis by auto
qed

theorem mutex_counter_exclusion_witness:
  "\<not> (in_section (ct_pc (counter_start (mutex_init NORMAL)) 0)
      \<and> in_section (ct_pc (counter_start (mutex_init NORMAL)) 1))"
  using mutex_counter_exclusion [OF reach_init, of 0 2 1 3] by auto

end
