(* ===== verification/Counter_Main.thy ===== *)
theory Counter_Main
  imports Lock_Counter
begin

text \<open>
  The \<open>main\<close> functions around the counters of \<open>Lock_Counter\<close>: initialise, create the threads,
  join them, report. Every call whose result \<open>test_errno\<close> looks at may fail, and a failure
  ends the process whatever its threads are doing. The set of error numbers the calls may
  give is an argument; 0 is success.
\<close>

section \<open>The programs\<close>

text \<open>
  \<open>ms_sleep\<close> of \<open>08_spin\<close>: what it asks \<open>nanosleep\<close> for, the seconds and nanoseconds, computed in
  \<open>unsigned\<close>.
\<close>

definition ms_sleep :: "32 word \<Rightarrow> int \<times> int" where
  "ms_sleep ms = (uint (ms div 1000), uint (ms mod 1000 * 1000000))"

text \<open>Nothing wraps: the request is valid and is the time asked for.\<close>

lemma ms_sleep_exact:
  assumes "ms_sleep ms = (sec, nsec)"
  shows "0 \<le> nsec \<and> nsec < 10 ^ 9 \<and> sec * 1000 + nsec div 1000000 = uint ms"
proof -
  define r where "r = uint ms mod 1000"
  have r: "0 \<le> r" "r < 1000" by (simp_all add: r_def)
  have "uint (ms mod 1000 * 1000000) = (r * 1000000) mod 2 ^ 32"
    by (simp add: uint_word_ariths uint_mod r_def)
  then have n: "nsec = r * 1000000" using assms r by (simp add: ms_sleep_def)
  have "sec = uint ms div 1000" using assms by (simp add: ms_sleep_def uint_div)
  with n r show ?thesis by (simp add: r_def)
qed

datatype cm_pc = CInit nat | CCreate nat | CJoin nat | CReport | CExit int

text \<open>\<open>printf\<close> of the counter, of the report, and \<open>perror\<close>.\<close>

datatype cm_msg = Counter int | Report int int string | Perror string

record 'l cm_state =
  cm_main :: cm_pc
  cm_threads :: "'l counter_state"
  cm_out :: "cm_msg list"

definition cm_start :: "'l \<Rightarrow> cm_msg list \<Rightarrow> 'l cm_state" where
  "cm_start l out = \<lparr>cm_main = CInit 0, cm_threads = counter_start l, cm_out = out\<rparr>"

text \<open>\<open>test_errno\<close>: go on to \<open>pc\<close>, or print the call's name and exit.\<close>

definition test_errno :: "string \<Rightarrow> int \<Rightarrow> cm_pc \<Rightarrow> 'l cm_state \<Rightarrow> 'l cm_state" where
  "test_errno msg err pc s =
     (if err \<noteq> 0 then s\<lparr>cm_main := CExit 1, cm_out := cm_out s @ [Perror msg]\<rparr>
      else s\<lparr>cm_main := pc\<rparr>)"

text \<open>
  A step of \<open>main\<close>; \<open>err\<close> is the result of the call it makes. \<open>inits\<close> are the names under
  which the initialisations are reported.
\<close>

definition counter_main :: "string list \<Rightarrow> nat \<Rightarrow> nat \<Rightarrow> int \<Rightarrow> 'l cm_state \<Rightarrow> 'l cm_state option" where
  "counter_main inits n k err s =
     (case cm_main s of
        CInit i \<Rightarrow>
          Some (if i < length inits then test_errno (inits ! i) err (CInit (Suc i)) s
                else s\<lparr>cm_main := CCreate 0\<rparr>)
      | CCreate i \<Rightarrow>
          Some (if i < n then test_errno ''pthread_create'' err (CCreate (Suc i)) s
                else s\<lparr>cm_main := CJoin 0\<rparr>)
      | CJoin i \<Rightarrow>
          if \<not> i < n then Some (s\<lparr>cm_main := CReport\<rparr>)
          else if err \<noteq> 0 \<or> ct_pc (cm_threads s) i = W_Return
          then Some (test_errno ''pthread_join'' err (CJoin (Suc i)) s)
          else None
      | CReport \<Rightarrow>
          Some (s\<lparr>cm_main := CExit 0,
                  cm_out := cm_out s @ [Report (ct_val (cm_threads s)) (int (n * k)) (counter_verdict n k (cm_threads s))]\<rparr>)
      | CExit c \<Rightarrow> None)"

text \<open>The threads that exist.\<close>

fun created :: "nat \<Rightarrow> cm_pc \<Rightarrow> nat" where
  "created n (CInit i) = 0"
| "created n (CCreate i) = i"
| "created n (CJoin i) = n"
| "created n CReport = n"
| "created n (CExit c) = 0"

inductive cm_step :: "(tid \<Rightarrow> 'l counter_state \<Rightarrow> 'l counter_state option) \<Rightarrow> string list \<Rightarrow> nat \<Rightarrow> nat \<Rightarrow>
    int set \<Rightarrow> 'l cm_state \<Rightarrow> 'l cm_state \<Rightarrow> bool" for thread_step inits n k errs where
  main: "err \<in> errs \<Longrightarrow> counter_main inits n k err s = Some s' \<Longrightarrow> cm_step thread_step inits n k errs s s'"
| worker: "t < created n (cm_main s) \<Longrightarrow> thread_step t (cm_threads s) = Some c \<Longrightarrow>
    cm_step thread_step inits n k errs s (s\<lparr>cm_threads := c\<rparr>)"

lemma cm_stepE:
  assumes "cm_step thread_step inits n k errs s s'"
  obtains (Main) err where "err \<in> errs" "counter_main inits n k err s = Some s'"
  | (Worker) t c where "t < created n (cm_main s)" "thread_step t (cm_threads s) = Some c" "s' = s\<lparr>cm_threads := c\<rparr>"
  using assms by (auto elim: cm_step.cases)

definition cm_ended :: "'l cm_state \<Rightarrow> bool" where
  "cm_ended s \<longleftrightarrow> (\<exists>c. cm_main s = CExit c)"

text \<open>The two programs: 10 threads of 10000 rounds, and 25 of 100000.\<close>

definition perf_main_start :: "mutex cm_state" where
  "perf_main_start = cm_start (mutex_init NORMAL) []"

definition perf_main_step :: "int set \<Rightarrow> mutex cm_state \<Rightarrow> mutex cm_state \<Rightarrow> bool" where
  "perf_main_step = cm_step (perf_worker_step 10000) [''pthread mutex init''] 10 10000"

definition spin_main_start :: "spinlock cm_state" where
  "spin_main_start = cm_start None [Counter 0]"

definition spin_main_step :: "int set \<Rightarrow> spinlock cm_state \<Rightarrow> spinlock cm_state \<Rightarrow> bool" where
  "spin_main_step = cm_step (spin_thread_step 100000) [''pthread_mutex_init'', ''pthread_spin_init''] 25 100000"

section \<open>The invariant\<close>

fun returned_before :: "nat \<Rightarrow> cm_pc \<Rightarrow> nat" where
  "returned_before n (CJoin i) = i"
| "returned_before n CReport = n"
| "returned_before n _ = 0"

fun cm_pc_ok :: "nat \<Rightarrow> nat \<Rightarrow> cm_pc \<Rightarrow> bool" where
  "cm_pc_ok ni n (CInit i) \<longleftrightarrow> i \<le> ni"
| "cm_pc_ok ni n (CCreate i) \<longleftrightarrow> i \<le> n"
| "cm_pc_ok ni n (CJoin i) \<longleftrightarrow> i \<le> n"
| "cm_pc_ok ni n CReport \<longleftrightarrow> True"
| "cm_pc_ok ni n (CExit c) \<longleftrightarrow> True"

text \<open>
  What has been printed after the first lines: nothing while the program runs. \<open>fails\<close>: calls
  may fail.
\<close>

definition cm_out_ok :: "bool \<Rightarrow> cm_msg list \<Rightarrow> nat \<Rightarrow> nat \<Rightarrow> 'l cm_state \<Rightarrow> bool" where
  "cm_out_ok fails out n k s \<longleftrightarrow>
     (case cm_main s of
        CExit c \<Rightarrow> c = 0 \<and> cm_out s = out @ [Report (int (n * k)) (int (n * k)) ''ok'']
          \<or> c = 1 \<and> fails \<and> (\<exists>msg. cm_out s = out @ [Perror msg])
      | _ \<Rightarrow> cm_out s = out)"

definition cm_inv :: "bool \<Rightarrow> ('l \<Rightarrow> tid option) \<Rightarrow> ('l \<Rightarrow> bool) \<Rightarrow> cm_msg list \<Rightarrow> nat \<Rightarrow> nat \<Rightarrow> nat \<Rightarrow> 'l cm_state \<Rightarrow> bool" where
  "cm_inv fails holder okl out ni n k s \<longleftrightarrow>
     counter_inv holder okl n k (cm_threads s)
     \<and> cm_pc_ok ni n (cm_main s)
     \<and> (\<forall>t<returned_before n (cm_main s). ct_pc (cm_threads s) t = W_Return)
     \<and> cm_out_ok fails out n k s"

fun cm_left :: "nat \<Rightarrow> nat \<Rightarrow> cm_pc \<Rightarrow> nat" where
  "cm_left ni n (CInit i) = ni - i + 2 * n + 4"
| "cm_left ni n (CCreate i) = n - i + n + 3"
| "cm_left ni n (CJoin i) = n - i + 2"
| "cm_left ni n CReport = 1"
| "cm_left ni n (CExit c) = 0"

definition cm_measure :: "nat \<Rightarrow> nat \<Rightarrow> nat \<Rightarrow> 'l cm_state \<Rightarrow> nat" where
  "cm_measure ni n k s = cm_left ni n (cm_main s) + counter_measure n k (cm_threads s)"

lemma cm_out_ok_threads [simp]: "cm_out_ok fails out n k (s\<lparr>cm_threads := c\<rparr>) = cm_out_ok fails out n k s"
  by (simp add: cm_out_ok_def split: cm_pc.split)

lemma created_le: "cm_pc_ok ni n pc \<Longrightarrow> created n pc \<le> n"
  by (cases pc) auto

text \<open>A thread that has returned does not move.\<close>

lemma worker_keeps_returned:
  assumes "worker_step acq rel k t c = Some c'" "ct_pc c u = W_Return"
  shows "ct_pc c' u = W_Return"
  using assms by (cases rule: worker_step_cases) auto

lemma counter_main_left:
  "counter_main inits n k err s = Some s' \<Longrightarrow> cm_pc_ok (length inits) n (cm_main s) \<Longrightarrow>
   cm_threads s' = cm_threads s \<and> cm_left (length inits) n (cm_main s') < cm_left (length inits) n (cm_main s)"
  by (cases "cm_main s") (auto simp: counter_main_def test_errno_def split: if_splits)

context exclusive_lock
begin

lemma cm_inv_worker:
  assumes inv: "cm_inv fails holder okl out ni n k s" and t: "t < created n (cm_main s)"
    and step: "worker_step acq rel k t (cm_threads s) = Some c"
  shows "cm_inv fails holder okl out ni n k (s\<lparr>cm_threads := c\<rparr>) \<and> counter_measure n k c < counter_measure n k (cm_threads s)"
proof -
  have n: "t < n" using inv t created_le unfolding cm_inv_def by fastforce
  have "counter_inv holder okl n k (cm_threads s)" using inv by (simp add: cm_inv_def)
  from counter_inv_worker [OF this n step] counter_measure_worker [OF this n step]
  show ?thesis using inv worker_keeps_returned [OF step] by (simp add: cm_inv_def)
qed

lemma cm_inv_main:
  assumes inv: "cm_inv fails holder okl out (length inits) n k s" and step: "counter_main inits n k err s = Some s'"
    and "err \<noteq> 0 \<longrightarrow> fails"
  shows "cm_inv fails holder okl out (length inits) n k s'"
proof (cases "cm_main s")
  case CReport
  with inv have "ct_val (cm_threads s) = int (n * k)"
    by (intro counter_result) (simp_all add: cm_inv_def all_returned_def)
  with inv step CReport show ?thesis
    by (auto simp: counter_main_def cm_inv_def cm_out_ok_def counter_verdict_def)
qed (use inv step assms(3) in \<open>auto simp: counter_main_def test_errno_def cm_inv_def cm_out_ok_def less_Suc_eq split: if_splits\<close>)

lemma cm_progress:
  assumes inv: "cm_inv fails holder okl out (length inits) n k s" and "\<not> cm_ended s" "0 \<in> errs"
  shows "\<exists>s'. cm_step (worker_step acq rel k) inits n k errs s s'"
proof (cases "counter_main inits n k 0 s")
  case (Some s')
  with assms(3) show ?thesis by (blast intro: cm_step.main)
next
  case None
  with assms(2) obtain i where i: "cm_main s = CJoin i" "i < n" "ct_pc (cm_threads s) i \<noteq> W_Return"
    by (auto simp: counter_main_def cm_ended_def split: cm_pc.splits if_splits)
  then have "\<not> all_returned n (cm_threads s)" by (auto simp: all_returned_def)
  moreover have "counter_inv holder okl n k (cm_threads s)" using inv by (simp add: cm_inv_def)
  ultimately obtain t c where "t < n" "worker_step acq rel k t (cm_threads s) = Some c"
    using counter_progress by blast
  then have "cm_step (worker_step acq rel k) inits n k errs s (s\<lparr>cm_threads := c\<rparr>)"
    using i(1) by (intro cm_step.worker) simp_all
  then show ?thesis by blast
qed

lemma cm_system:
  assumes "okl l" "holder l = None" "0 \<in> errs" "fails = (errs \<noteq> {0})"
  shows "terminating_system (cm_start l out) (cm_step (worker_step acq rel k) inits n k errs)
    (cm_inv fails holder okl out (length inits) n k) (cm_measure (length inits) n k) cm_ended"
proof unfold_locales
  show "cm_inv fails holder okl out (length inits) n k (cm_start l out)"
    using assms counter_inv_start by (simp add: cm_inv_def cm_start_def cm_out_ok_def)
next
  fix s t
  assume inv: "cm_inv fails holder okl out (length inits) n k s" and "cm_step (worker_step acq rel k) inits n k errs s t"
  from this(2) have "cm_inv fails holder okl out (length inits) n k t
      \<and> cm_measure (length inits) n k t < cm_measure (length inits) n k s"
  proof (cases rule: cm_stepE)
    case (Main err)
    then have "err \<noteq> 0 \<longrightarrow> fails" using assms(4) by auto
    moreover have "cm_pc_ok (length inits) n (cm_main s)" using inv by (simp add: cm_inv_def)
    ultimately show ?thesis
      using cm_inv_main [OF inv Main(2)] counter_main_left [OF Main(2)] by (simp add: cm_measure_def)
  next
    case (Worker t c)
    then show ?thesis using cm_inv_worker [OF inv Worker(1,2)] by (simp add: cm_measure_def)
  qed
  then show "cm_inv fails holder okl out (length inits) n k t"
    and "cm_measure (length inits) n k t < cm_measure (length inits) n k s" by blast+
next
  fix s
  assume "cm_inv fails holder okl out (length inits) n k s" "\<not> cm_ended s"
  then show "\<exists>t. cm_step (worker_step acq rel k) inits n k errs s t"
    using cm_progress assms(3) by blast
qed

end

section \<open>The two programs\<close>

interpretation perf_main_sys: terminating_system perf_main_start "perf_main_step (insert 0 errs)"
    "cm_inv (insert 0 errs \<noteq> {0}) m_owner mutex_flat [] (length [''pthread mutex init'']) 10 10000"
    "cm_measure (length [''pthread mutex init'']) 10 10000" cm_ended for errs
  unfolding perf_main_start_def perf_main_step_def perf_worker_step_def
  by (rule guard_excl.cm_system) (simp_all add: mutex_init_def mutex_flat_def)

interpretation spin_main_sys: terminating_system spin_main_start "spin_main_step (insert 0 errs)"
    "cm_inv (insert 0 errs \<noteq> {0}) (\<lambda>s. s) (\<lambda>s. True) [Counter 0] (length [''pthread_mutex_init'', ''pthread_spin_init'']) 25 100000"
    "cm_measure (length [''pthread_mutex_init'', ''pthread_spin_init'']) 25 100000" cm_ended for errs
  unfolding spin_main_start_def spin_main_step_def spin_thread_step_def
  by (rule spin_excl.cm_system) simp_all

lemma cm_inv_exit:
  "cm_inv fails holder okl out ni n k s \<Longrightarrow> cm_main s = CExit c \<Longrightarrow>
   c = 0 \<and> cm_out s = out @ [Report (int (n * k)) (int (n * k)) ''ok'']
   \<or> c = 1 \<and> fails \<and> (\<exists>msg. cm_out s = out @ [Perror msg])"
  by (simp add: cm_inv_def cm_out_ok_def)

section \<open>Properties\<close>



text \<open>The same of the program with the spin lock, which also prints the counter first.\<close>

lemma spin_main_reports:
  assumes "reach spin_main_start (spin_main_step (insert 0 errs)) s"
  shows "(\<exists>f. reach s (spin_main_step (insert 0 errs)) f \<and> cm_ended f)
    \<and> (\<forall>c. cm_main s = CExit c \<longrightarrow>
        c = 0 \<and> cm_out s = [Counter 0, Report 2500000 2500000 ''ok'']
        \<or> c = 1 \<and> errs - {0} \<noteq> {} \<and> (\<exists>msg. cm_out s = [Counter 0, Perror msg]))"
proof -
  note inv = spin_main_sys.reach_inv [OF assms]
  have "c = 0 \<and> cm_out s = [Counter 0, Report 2500000 2500000 ''ok'']
      \<or> c = 1 \<and> errs - {0} \<noteq> {} \<and> (\<exists>msg. cm_out s = [Counter 0, Perror msg])" if "cm_main s = CExit c" for c
    using cm_inv_exit [OF inv that] by auto
  with spin_main_sys.reaches_final [OF assms] show ?thesis by blast
qed

end
