(* ===== verification/Safe_Queue.thy ===== *)
theory Safe_Queue
  imports Pthread
begin

text \<open>
  The class \<open>thread_safe_queue\<close> of \<open>day2/ex_ThreadPool\<close> (and, line for line,
  \<open>day3/socknet/thread\<close>) and its variant in \<open>day2/x_active_object\<close>: the methods as one
  thread executes them when no other thread interferes. A method that would wait on the
  condition variable, or on the mutex, is \<open>Block\<close>. The interface \<open>fifo_queue\<close> states what
  the thread pool and the active object rely on, and both classes provide it; that the
  methods behave atomically when threads do interfere is \<open>Queue_Threads\<close>.
\<close>

section \<open>The queue object\<close>

record 'a tsq =
  tq_items :: "'a list"
  tq_mtx :: mutex

text \<open>Running a call and continuing with its result; anything but \<open>Done\<close> ends the method.\<close>

fun and_then :: "'a outcome \<Rightarrow> ('a \<Rightarrow> 'b outcome) \<Rightarrow> 'b outcome" where
  "and_then (Done x) f = f x"
| "and_then Block f = Block"
| "and_then (Fail e) f = Fail e"
| "and_then Undefined f = Undefined"

text \<open>\<open>front\<close> and \<open>pop\<close> of an empty \<open>std::queue\<close> are undefined.\<close>

definition queue_front :: "'a list \<Rightarrow> 'a outcome" where
  "queue_front xs = (case xs of [] \<Rightarrow> Undefined | x # _ \<Rightarrow> Done x)"

definition queue_pop :: "'a list \<Rightarrow> 'a list outcome" where
  "queue_pop xs = (case xs of [] \<Rightarrow> Undefined | _ # ys \<Rightarrow> Done ys)"

section \<open>The queue of the thread pool: recursive mutex, scoped guards\<close>

definition tsq_ctor :: "'a tsq" where
  "tsq_ctor = \<lparr>tq_items = [], tq_mtx = mutex_init RECURSIVE\<rparr>"

definition tsq_is_empty :: "tid \<Rightarrow> 'a tsq \<Rightarrow> (bool \<times> 'a tsq) outcome" where
  "tsq_is_empty t s =
     and_then (lock_guard_ctor t (tq_mtx s)) (\<lambda>m.
       let e = (tq_items s = [])
       in and_then (lock_guard_dtor t m) (\<lambda>m'. Done (e, s\<lparr>tq_mtx := m'\<rparr>)))"

definition tsq_push :: "tid \<Rightarrow> 'a \<Rightarrow> 'a tsq \<Rightarrow> 'a tsq outcome" where
  "tsq_push t item s =
     and_then (lock_guard_ctor t (tq_mtx s)) (\<lambda>m.
       let xs = tq_items s @ [item]
       in and_then (lock_guard_dtor t m) (\<lambda>m'. Done (s\<lparr>tq_items := xs, tq_mtx := m'\<rparr>)))"

definition tsq_pop :: "tid \<Rightarrow> 'a tsq \<Rightarrow> ('a \<times> 'a tsq) outcome" where
  "tsq_pop t s =
     and_then (lock_guard_ctor t (tq_mtx s)) (\<lambda>m.
       and_then (tsq_is_empty t (s\<lparr>tq_mtx := m\<rparr>)) (\<lambda>(e, s1).
         if e then Block
         else and_then (queue_front (tq_items s1)) (\<lambda>item.
           and_then (queue_pop (tq_items s1)) (\<lambda>xs.
             and_then (lock_guard_dtor t (tq_mtx s1)) (\<lambda>m'.
               Done (item, s1\<lparr>tq_items := xs, tq_mtx := m'\<rparr>))))))"

definition tsq_try_pop :: "tid \<Rightarrow> 'a tsq \<Rightarrow> ('a option \<times> 'a tsq) outcome" where
  "tsq_try_pop t s =
     and_then (lock_guard_ctor t (tq_mtx s)) (\<lambda>m.
       and_then (tsq_is_empty t (s\<lparr>tq_mtx := m\<rparr>)) (\<lambda>(e, s1).
         if e then and_then (lock_guard_dtor t (tq_mtx s1)) (\<lambda>m'. Done (None, s1\<lparr>tq_mtx := m'\<rparr>))
         else and_then (queue_front (tq_items s1)) (\<lambda>item.
           and_then (queue_pop (tq_items s1)) (\<lambda>xs.
             and_then (lock_guard_dtor t (tq_mtx s1)) (\<lambda>m'.
               Done (Some item, s1\<lparr>tq_items := xs, tq_mtx := m'\<rparr>))))))"

text \<open>The object between calls: the recursive mutex is free.\<close>

definition tsq_idle :: "'a tsq \<Rightarrow> bool" where
  "tsq_idle s \<longleftrightarrow> tq_mtx s = mutex_init RECURSIVE"

section \<open>The queue of the active object: plain mutex, explicit unlocks\<close>

definition aoq_ctor :: "'a tsq" where
  "aoq_ctor = \<lparr>tq_items = [], tq_mtx = mutex_init NORMAL\<rparr>"

definition aoq_is_empty :: "'a tsq \<Rightarrow> bool" where
  "aoq_is_empty s \<longleftrightarrow> tq_items s = []"

definition aoq_push :: "tid \<Rightarrow> 'a \<Rightarrow> 'a tsq \<Rightarrow> 'a tsq outcome" where
  "aoq_push t item s =
     and_then (ignore_errno (tq_mtx s) (mutex_lock t (tq_mtx s))) (\<lambda>m.
       let xs = tq_items s @ [item]
       in and_then (ignore_errno m (mutex_unlock t m)) (\<lambda>m'.
            Done (s\<lparr>tq_items := xs, tq_mtx := m'\<rparr>)))"

definition aoq_pop :: "tid \<Rightarrow> 'a tsq \<Rightarrow> ('a \<times> 'a tsq) outcome" where
  "aoq_pop t s =
     and_then (ignore_errno (tq_mtx s) (mutex_lock t (tq_mtx s))) (\<lambda>m.
       if aoq_is_empty s then Block
       else and_then (queue_front (tq_items s)) (\<lambda>item.
         and_then (queue_pop (tq_items s)) (\<lambda>xs.
           and_then (ignore_errno m (mutex_unlock t m)) (\<lambda>m'.
             Done (item, s\<lparr>tq_items := xs, tq_mtx := m'\<rparr>)))))"

text \<open>On an empty queue \<open>try_pop\<close> returns without unlocking.\<close>

definition aoq_try_pop :: "tid \<Rightarrow> 'a tsq \<Rightarrow> ('a option \<times> 'a tsq) outcome" where
  "aoq_try_pop t s =
     and_then (ignore_errno (tq_mtx s) (mutex_lock t (tq_mtx s))) (\<lambda>m.
       if aoq_is_empty s then Done (None, s\<lparr>tq_mtx := m\<rparr>)
       else and_then (queue_front (tq_items s)) (\<lambda>item.
         and_then (queue_pop (tq_items s)) (\<lambda>xs.
           and_then (ignore_errno m (mutex_unlock t m)) (\<lambda>m'.
             Done (Some item, s\<lparr>tq_items := xs, tq_mtx := m'\<rparr>)))))"

definition aoq_idle :: "'a tsq \<Rightarrow> bool" where
  "aoq_idle s \<longleftrightarrow> tq_mtx s = mutex_init NORMAL"

section \<open>The interface of a blocking first-in first-out queue\<close>

locale fifo_queue =
  fixes push :: "tid \<Rightarrow> 'a \<Rightarrow> 'q \<Rightarrow> 'q outcome"
    and pop :: "tid \<Rightarrow> 'q \<Rightarrow> ('a \<times> 'q) outcome"
    and items :: "'q \<Rightarrow> 'a list"
    and idle :: "'q \<Rightarrow> bool"
  assumes push_items:
      "idle q \<Longrightarrow> \<exists>q'. push t x q = Done q' \<and> idle q' \<and> items q' = items q @ [x]"
    and pop_empty: "idle q \<Longrightarrow> items q = [] \<Longrightarrow> pop t q = Block"
    and pop_items:
      "idle q \<Longrightarrow> items q = x # xs \<Longrightarrow> \<exists>q'. pop t q = Done (x, q') \<and> idle q' \<and> items q' = xs"
begin

lemma push_Done: "idle q \<Longrightarrow> push t x q = Done q' \<Longrightarrow> idle q' \<and> items q' = items q @ [x]"
  using push_items [of q t x] by auto

lemma pop_Done: "idle q \<Longrightarrow> pop t q = Done (x, q') \<Longrightarrow> idle q' \<and> items q = x # items q'"
  using pop_empty [of q t] pop_items [of q _ _ t] by (cases "items q") fastforce+

lemma pop_enabled: "idle q \<Longrightarrow> items q \<noteq> [] \<Longrightarrow> \<exists>x q'. pop t q = Done (x, q')"
  using pop_items [of q _ _ t] by (cases "items q") fastforce+

end

lemmas mutex_eval = mutex_init_def mutex_lock_def mutex_unlock_def lock_guard_ctor_def
  lock_guard_dtor_def

lemmas queue_eval = mutex_eval queue_front_def queue_pop_def

interpretation tsq_fifo: fifo_queue tsq_push tsq_pop tq_items tsq_idle
  by unfold_locales
    (auto simp: tsq_idle_def tsq_push_def tsq_pop_def tsq_is_empty_def queue_eval)

interpretation aoq_fifo: fifo_queue aoq_push aoq_pop tq_items aoq_idle
  by unfold_locales
    (auto simp: aoq_idle_def aoq_push_def aoq_pop_def aoq_is_empty_def queue_eval)

lemma tsq_try_pop_result:
  "tsq_idle s \<Longrightarrow>
   (case tq_items s of
      [] \<Rightarrow> tsq_try_pop t s = Done (None, s)
    | x # xs \<Rightarrow> tsq_try_pop t s = Done (Some x, s\<lparr>tq_items := xs\<rparr>))"
  by (auto simp: tsq_idle_def tsq_try_pop_def tsq_is_empty_def queue_eval split: list.split)

lemma aoq_try_pop_nonempty:
  "aoq_idle s \<Longrightarrow> tq_items s = x # xs \<Longrightarrow> aoq_try_pop t s = Done (Some x, s\<lparr>tq_items := xs\<rparr>)"
  by (auto simp: aoq_idle_def aoq_try_pop_def aoq_is_empty_def queue_eval)

lemma aoq_try_pop_empty:
  "aoq_idle s \<Longrightarrow> tq_items s = [] \<Longrightarrow>
   aoq_try_pop t s = Done (None, s\<lparr>tq_mtx := (mutex_init NORMAL)\<lparr>m_owner := Some t, m_count := 1\<rparr>\<rparr>)"
  by (auto simp: aoq_idle_def aoq_try_pop_def aoq_is_empty_def queue_eval)

end
