(* ===== verification/Queue_Threads.thy ===== *)
theory Queue_Threads
  imports Safe_Queue
begin

text \<open>
  \<open>thread_safe_queue\<close> of \<open>day2/ex_ThreadPool\<close> and \<open>day3/socknet/thread\<close> under any number
  of threads that call its methods at will: one program counter per statement of each
  method, the recursive mutex taken and released by the lock guards, the condition
  variable with the thread that \<open>pthread_cond_signal\<close> wakes left open and with spurious
  wake-ups. The lemmas: the mutex excludes, the queue is first-in first-out, \<open>front\<close> and
  \<open>pop\<close> never meet an empty queue, no wake-up is lost, and nothing but an empty queue keeps
  a caller waiting.
\<close>

section \<open>Program counters of the methods\<close>

datatype 'a tsq_pc =
    Idle
  \<comment> \<open>\<open>pop\<close>: guard, \<open>is_empty\<close> with its own guard, the wait, front, pop, guard's end\<close>
  | P_Lock | P_EmptyLock | P_EmptyTest | P_EmptyUnlock bool
  | P_Wait | P_Blocked | P_Reacq | P_Front | P_Pop 'a | P_Unlock 'a
  \<comment> \<open>\<open>try_pop\<close>\<close>
  | T_Lock | T_EmptyLock | T_EmptyTest | T_EmptyUnlock bool
  | T_Front | T_Pop 'a | T_Unlock "'a option"
  \<comment> \<open>\<open>push\<close>: the signal is sent after the guard's end\<close>
  | U_Lock 'a | U_Enq 'a | U_Unlock | U_Signal
  \<comment> \<open>\<open>is_empty\<close> called from outside\<close>
  | E_Lock | E_Test | E_Unlock bool

datatype 'a tsq_call = Call_push 'a | Call_pop | Call_try_pop | Call_is_empty

fun tsq_entry :: "'a tsq_call \<Rightarrow> 'a tsq_pc" where
  "tsq_entry (Call_push x) = U_Lock x"
| "tsq_entry Call_pop = P_Lock"
| "tsq_entry Call_try_pop = T_Lock"
| "tsq_entry Call_is_empty = E_Lock"

text \<open>
  The threads blocked on the condition variable are those at \<open>P_Blocked\<close>. The histories
  record what was pushed and what was popped, in the order of the queue's own operations.
\<close>

record 'a qsys =
  qs_items :: "'a list"
  qs_mtx :: mutex
  qs_pc :: "tid \<Rightarrow> 'a tsq_pc"
  qs_pushed :: "'a list"
  qs_popped :: "'a list"

definition qsys_start :: "'a qsys" where
  "qsys_start = \<lparr>qs_items = [], qs_mtx = mutex_init RECURSIVE, qs_pc = (\<lambda>t. Idle),
     qs_pushed = [], qs_popped = []\<rparr>"

abbreviation goto :: "tid \<Rightarrow> 'a tsq_pc \<Rightarrow> 'a qsys \<Rightarrow> 'a qsys" where
  "goto t p s \<equiv> s\<lparr>qs_pc := (qs_pc s)(t := p)\<rparr>"

text \<open>A lock call: continue at \<open>p\<close> with the mutex it leaves, or not at all.\<close>

definition on_mutex :: "mutex outcome \<Rightarrow> tid \<Rightarrow> 'a tsq_pc \<Rightarrow> 'a qsys \<Rightarrow> 'a qsys option" where
  "on_mutex r t p s = (case r of Done m \<Rightarrow> Some ((goto t p s)\<lparr>qs_mtx := m\<rparr>) | _ \<Rightarrow> None)"

definition tsq_exec :: "tid \<Rightarrow> 'a qsys \<Rightarrow> 'a qsys option" where
  "tsq_exec t s =
     (let lock = lock_guard_ctor t (qs_mtx s); unlock = lock_guard_dtor t (qs_mtx s);
          e = (qs_items s = [])
      in case qs_pc s t of
        P_Lock \<Rightarrow> on_mutex lock t P_EmptyLock s
      | P_EmptyLock \<Rightarrow> on_mutex lock t P_EmptyTest s
      | P_EmptyTest \<Rightarrow> Some (goto t (P_EmptyUnlock e) s)
      | P_EmptyUnlock e' \<Rightarrow> on_mutex unlock t (if e' then P_Wait else P_Front) s
      | P_Wait \<Rightarrow> on_mutex (mutex_unlock t (qs_mtx s)) t P_Blocked s
      | P_Reacq \<Rightarrow> on_mutex (mutex_lock t (qs_mtx s)) t P_EmptyLock s
      | P_Front \<Rightarrow> (case qs_items s of [] \<Rightarrow> None | x # _ \<Rightarrow> Some (goto t (P_Pop x) s))
      | P_Pop x \<Rightarrow>
          (case qs_items s of
             [] \<Rightarrow> None
           | y # ys \<Rightarrow> Some ((goto t (P_Unlock x) s)\<lparr>qs_items := ys, qs_popped := qs_popped s @ [x]\<rparr>))
      | P_Unlock x \<Rightarrow> on_mutex unlock t Idle s
      | T_Lock \<Rightarrow> on_mutex lock t T_EmptyLock s
      | T_EmptyLock \<Rightarrow> on_mutex lock t T_EmptyTest s
      | T_EmptyTest \<Rightarrow> Some (goto t (T_EmptyUnlock e) s)
      | T_EmptyUnlock e' \<Rightarrow> on_mutex unlock t (if e' then T_Unlock None else T_Front) s
      | T_Front \<Rightarrow> (case qs_items s of [] \<Rightarrow> None | x # _ \<Rightarrow> Some (goto t (T_Pop x) s))
      | T_Pop x \<Rightarrow>
          (case qs_items s of
             [] \<Rightarrow> None
           | y # ys \<Rightarrow>
               Some ((goto t (T_Unlock (Some x)) s)\<lparr>qs_items := ys, qs_popped := qs_popped s @ [x]\<rparr>))
      | T_Unlock r \<Rightarrow> on_mutex unlock t Idle s
      | U_Lock x \<Rightarrow> on_mutex lock t (U_Enq x) s
      | U_Enq x \<Rightarrow>
          Some ((goto t U_Unlock s)\<lparr>qs_items := qs_items s @ [x], qs_pushed := qs_pushed s @ [x]\<rparr>)
      | U_Unlock \<Rightarrow> on_mutex unlock t U_Signal s
      | E_Lock \<Rightarrow> on_mutex lock t E_Test s
      | E_Test \<Rightarrow> Some (goto t (E_Unlock e) s)
      | E_Unlock e' \<Rightarrow> on_mutex unlock t Idle s
      | _ \<Rightarrow> None)"

text \<open>
  Steps of methods under way: a statement, or a signal, which wakes some blocked thread if
  there is one.
\<close>

inductive qsys_run :: "nat \<Rightarrow> 'a qsys \<Rightarrow> 'a qsys \<Rightarrow> bool" for n where
  exec: "t < n \<Longrightarrow> tsq_exec t s = Some s' \<Longrightarrow> qsys_run n s s'"
| signal: "t < n \<Longrightarrow> qs_pc s t = U_Signal \<Longrightarrow> u < n \<Longrightarrow> qs_pc s u = P_Blocked \<Longrightarrow>
    qsys_run n s (goto u P_Reacq (goto t Idle s))"
| no_signal: "t < n \<Longrightarrow> qs_pc s t = U_Signal \<Longrightarrow> \<forall>u<n. qs_pc s u \<noteq> P_Blocked \<Longrightarrow>
    qsys_run n s (goto t Idle s)"

text \<open>All steps: also new calls and spurious wake-ups.\<close>

inductive qsys_step :: "nat \<Rightarrow> 'a qsys \<Rightarrow> 'a qsys \<Rightarrow> bool" for n where
  run: "qsys_run n s s' \<Longrightarrow> qsys_step n s s'"
| call: "t < n \<Longrightarrow> qs_pc s t = Idle \<Longrightarrow> qsys_step n s (goto t (tsq_entry c) s)"
| spurious: "t < n \<Longrightarrow> qs_pc s t = P_Blocked \<Longrightarrow> qsys_step n s (goto t P_Reacq s)"

inductive_cases qsys_runE: "qsys_run n s s'"
inductive_cases qsys_stepE: "qsys_step n s s'"

section \<open>The invariant\<close>

text \<open>How many times a thread holds the mutex.\<close>

fun lock_depth :: "'a tsq_pc \<Rightarrow> nat" where
  "lock_depth P_EmptyLock = 1" | "lock_depth P_EmptyTest = 2"
| "lock_depth (P_EmptyUnlock e) = 2" | "lock_depth P_Wait = 1"
| "lock_depth P_Front = 1" | "lock_depth (P_Pop x) = 1" | "lock_depth (P_Unlock x) = 1"
| "lock_depth T_EmptyLock = 1" | "lock_depth T_EmptyTest = 2"
| "lock_depth (T_EmptyUnlock e) = 2"
| "lock_depth T_Front = 1" | "lock_depth (T_Pop x) = 1" | "lock_depth (T_Unlock r) = 1"
| "lock_depth (U_Enq x) = 1" | "lock_depth U_Unlock = 1"
| "lock_depth E_Test = 1" | "lock_depth (E_Unlock e) = 1"
| "lock_depth _ = 0"

text \<open>What a thread knows of the queue while it holds the mutex.\<close>

fun knows :: "'a list \<Rightarrow> 'a tsq_pc \<Rightarrow> bool" where
  "knows xs (P_EmptyUnlock e) \<longleftrightarrow> e = (xs = [])"
| "knows xs (T_EmptyUnlock e) \<longleftrightarrow> e = (xs = [])"
| "knows xs (E_Unlock e) \<longleftrightarrow> e = (xs = [])"
| "knows xs P_Wait \<longleftrightarrow> xs = []"
| "knows xs P_Front \<longleftrightarrow> xs \<noteq> []"
| "knows xs T_Front \<longleftrightarrow> xs \<noteq> []"
| "knows xs (P_Pop x) \<longleftrightarrow> (\<exists>ys. xs = x # ys)"
| "knows xs (T_Pop x) \<longleftrightarrow> (\<exists>ys. xs = x # ys)"
| "knows xs _ \<longleftrightarrow> True"

text \<open>
  Who answers for an item while some thread waits: a push that has still to signal, or a
  \<open>pop\<close> that has not yet taken its item.
\<close>

fun answers :: "'a tsq_pc \<Rightarrow> nat" where
  "answers U_Unlock = 1" | "answers U_Signal = 1"
| "answers P_Reacq = 1" | "answers P_EmptyLock = 1" | "answers P_EmptyTest = 1"
| "answers (P_EmptyUnlock e) = 1" | "answers P_Wait = 1"
| "answers P_Front = 1" | "answers (P_Pop x) = 1"
| "answers _ = 0"

definition mutex_inv :: "nat \<Rightarrow> 'a qsys \<Rightarrow> bool" where
  "mutex_inv n s \<longleftrightarrow>
     m_kind (qs_mtx s) = RECURSIVE
     \<and> (\<forall>t<n. 0 < lock_depth (qs_pc s t) \<longleftrightarrow> m_owner (qs_mtx s) = Some t)
     \<and> (case m_owner (qs_mtx s) of
          None \<Rightarrow> m_count (qs_mtx s) = 0
        | Some t \<Rightarrow> t < n \<and> m_count (qs_mtx s) = lock_depth (qs_pc s t))"

definition fifo_inv :: "nat \<Rightarrow> 'a qsys \<Rightarrow> bool" where
  "fifo_inv n s \<longleftrightarrow>
     qs_popped s @ qs_items s = qs_pushed s \<and> (\<forall>t<n. knows (qs_items s) (qs_pc s t))"

definition wake_inv :: "nat \<Rightarrow> 'a qsys \<Rightarrow> bool" where
  "wake_inv n s \<longleftrightarrow>
     (\<exists>t<n. qs_pc s t = P_Blocked) \<longrightarrow> length (qs_items s) \<le> thread_sum n answers (qs_pc s)"

definition qsys_inv :: "nat \<Rightarrow> 'a qsys \<Rightarrow> bool" where
  "qsys_inv n s \<longleftrightarrow> mutex_inv n s \<and> fifo_inv n s \<and> wake_inv n s"

section \<open>The mutex excludes\<close>

lemma guard_recursive:
  "m_kind m = RECURSIVE \<Longrightarrow> lock_guard_ctor t m = mutex_lock t m"
  "m_owner m = Some t \<Longrightarrow> lock_guard_dtor t m = mutex_unlock t m"
  by (auto simp: lock_guard_ctor_def lock_guard_dtor_def mutex_lock_def mutex_unlock_def
    split: option.splits)

text \<open>A statement takes the mutex once more, releases it once, or leaves it.\<close>

lemma tsq_exec_mutex:
  assumes inv: "mutex_inv n s" and t: "t < n" and step: "tsq_exec t s = Some s'"
  obtains p where "qs_pc s' = (qs_pc s)(t := p)"
    "lock_depth p = Suc (lock_depth (qs_pc s t)) \<and> mutex_lock t (qs_mtx s) = Done (qs_mtx s')
     \<or> Suc (lock_depth p) = lock_depth (qs_pc s t) \<and> mutex_unlock t (qs_mtx s) = Done (qs_mtx s')
     \<or> lock_depth p = lock_depth (qs_pc s t) \<and> qs_mtx s' = qs_mtx s"
proof -
  have "m_kind (qs_mtx s) = RECURSIVE" using inv by (simp add: mutex_inv_def)
  moreover have "0 < lock_depth (qs_pc s t) \<Longrightarrow> m_owner (qs_mtx s) = Some t"
    using inv t by (simp add: mutex_inv_def)
  ultimately show thesis
    using step that
    by (cases "qs_pc s t")
      (auto simp: tsq_exec_def on_mutex_def guard_recursive split: outcome.splits list.splits)
qed

lemma mutex_inv_upd:
  assumes inv: "mutex_inv n s" and t: "t < n" and pc: "qs_pc s' = (qs_pc s)(t := p)"
    and m: "lock_depth p = Suc (lock_depth (qs_pc s t)) \<and> mutex_lock t (qs_mtx s) = Done (qs_mtx s')
     \<or> Suc (lock_depth p) = lock_depth (qs_pc s t) \<and> mutex_unlock t (qs_mtx s) = Done (qs_mtx s')
     \<or> lock_depth p = lock_depth (qs_pc s t) \<and> qs_mtx s' = qs_mtx s"
  shows "mutex_inv n s'"
proof -
  have k: "m_kind (qs_mtx s) = RECURSIVE"
    and d: "\<forall>u<n. 0 < lock_depth (qs_pc s u) \<longleftrightarrow> m_owner (qs_mtx s) = Some u"
    and c: "case m_owner (qs_mtx s) of
          None \<Rightarrow> m_count (qs_mtx s) = 0
        | Some u \<Rightarrow> u < n \<and> m_count (qs_mtx s) = lock_depth (qs_pc s u)"
    using inv unfolding mutex_inv_def by blast+
  have dt: "0 < lock_depth (qs_pc s t) \<longleftrightarrow> m_owner (qs_mtx s) = Some t" using d t by blast
  from m show ?thesis
  proof (elim disjE conjE)
    assume p: "lock_depth p = Suc (lock_depth (qs_pc s t))"
      and lock: "mutex_lock t (qs_mtx s) = Done (qs_mtx s')"
    from lock k dt c p t have "m_kind (qs_mtx s') = RECURSIVE" "m_owner (qs_mtx s') = Some t"
        "m_count (qs_mtx s') = lock_depth p" "m_owner (qs_mtx s) \<in> {None, Some t}"
      by (auto dest!: mutex_lock_recursive split: option.splits)
    with p d t pc show ?thesis by (auto simp: mutex_inv_def)
  next
    assume p: "Suc (lock_depth p) = lock_depth (qs_pc s t)"
      and unlock: "mutex_unlock t (qs_mtx s) = Done (qs_mtx s')"
    from p dt have o: "m_owner (qs_mtx s) = Some t" by simp
    with unlock k c p t have "m_kind (qs_mtx s') = RECURSIVE" "m_count (qs_mtx s') = lock_depth p"
        "m_owner (qs_mtx s') = (if lock_depth p = 0 then None else Some t)"
      by (auto dest!: mutex_unlock_recursive split: option.splits)
    with o p d t pc show ?thesis by (auto simp: mutex_inv_def)
  next
    assume "lock_depth p = lock_depth (qs_pc s t)" "qs_mtx s' = qs_mtx s"
    with k d c t pc dt show ?thesis by (auto simp: mutex_inv_def split: option.splits)
  qed
qed

lemma mutex_inv_goto:
  "mutex_inv n s \<Longrightarrow> t < n \<Longrightarrow> lock_depth (qs_pc s t) = 0 \<Longrightarrow> lock_depth p = 0 \<Longrightarrow>
   mutex_inv n (goto t p s)"
  by (rule mutex_inv_upd [where t = t and p = p and s = s]) simp_all

lemma lock_depth_entry [simp]: "lock_depth (tsq_entry c) = 0"
  by (cases c) simp_all

lemma mutex_inv_run:
  assumes "mutex_inv n s" and "qsys_run n s s'"
  shows "mutex_inv n s'"
  using assms(2)
proof cases
  case (exec t)
  from assms(1) exec show ?thesis
    by (rule tsq_exec_mutex) (rule mutex_inv_upd [OF assms(1) exec(1)])
next
  case (signal t u)
  with assms(1) have "mutex_inv n (goto t Idle s)" by (intro mutex_inv_goto) simp_all
  with signal show ?thesis
    using mutex_inv_goto [of n "goto t Idle s" u P_Reacq] by (auto simp: fun_upd_def)
next
  case (no_signal t)
  with assms(1) show ?thesis by (simp add: mutex_inv_goto)
qed

lemma mutex_inv_step: "mutex_inv n s \<Longrightarrow> qsys_step n s s' \<Longrightarrow> mutex_inv n s'"
  by (erule qsys_stepE) (simp_all add: mutex_inv_run mutex_inv_goto)

section \<open>First in, first out\<close>

lemma knows_unlocked: "lock_depth p = 0 \<Longrightarrow> knows xs p"
  by (cases p) auto

text \<open>Only the thread that holds the mutex touches the items.\<close>

lemma tsq_exec_fifo:
  assumes m: "mutex_inv n s" and f: "fifo_inv n s" and t: "t < n"
    and step: "tsq_exec t s = Some s'"
  shows "qs_popped s' @ qs_items s' = qs_pushed s' \<and> knows (qs_items s') (qs_pc s' t)
    \<and> (qs_items s' = qs_items s \<or> 0 < lock_depth (qs_pc s t))"
proof -
  have "knows (qs_items s) (qs_pc s t)" "qs_popped s @ qs_items s = qs_pushed s"
    using f t by (auto simp: fifo_inv_def)
  with step show ?thesis
    by (cases "qs_pc s t")
      (auto simp: tsq_exec_def on_mutex_def neq_Nil_conv split: outcome.splits list.splits)
qed

lemma fifo_inv_exec:
  assumes m: "mutex_inv n s" and f: "fifo_inv n s" and t: "t < n"
    and step: "tsq_exec t s = Some s'"
  shows "fifo_inv n s'"
proof -
  from m t step obtain p where p: "qs_pc s' = (qs_pc s)(t := p)" by (rule tsq_exec_mutex)
  note e = tsq_exec_fifo [OF assms]
  have "knows (qs_items s') (qs_pc s' u)" if u: "u < n" "u \<noteq> t" for u
  proof (cases "qs_items s' = qs_items s")
    case True
    with u p f show ?thesis by (simp add: fifo_inv_def)
  next
    case False
    with e m t u have "lock_depth (qs_pc s u) = 0" by (auto simp: mutex_inv_def)
    with u p show ?thesis by (simp add: knows_unlocked)
  qed
  with e show ?thesis by (auto simp: fifo_inv_def)
qed

lemma fifo_inv_goto:
  "fifo_inv n s \<Longrightarrow> t < n \<Longrightarrow> lock_depth p = 0 \<Longrightarrow> fifo_inv n (goto t p s)"
  by (auto simp: fifo_inv_def knows_unlocked)

lemma fifo_inv_run:
  assumes "mutex_inv n s" "fifo_inv n s" and "qsys_run n s s'"
  shows "fifo_inv n s'"
  using assms(3)
proof cases
  case (exec t)
  with assms show ?thesis by (blast intro: fifo_inv_exec)
next
  case (signal t u)
  with assms have "fifo_inv n (goto t Idle s)" by (intro fifo_inv_goto) simp_all
  with signal show ?thesis using fifo_inv_goto [of n "goto t Idle s" u P_Reacq] by simp
next
  case (no_signal t)
  with assms show ?thesis by (simp add: fifo_inv_goto)
qed

lemma fifo_inv_step: "mutex_inv n s \<Longrightarrow> fifo_inv n s \<Longrightarrow> qsys_step n s s' \<Longrightarrow> fifo_inv n s'"
  by (erule qsys_stepE) (simp_all add: fifo_inv_run fifo_inv_goto)

section \<open>No wake-up is lost\<close>

lemma answers_entry [simp]: "answers (tsq_entry c) = 0" "tsq_entry c \<noteq> P_Blocked"
  by (cases c; simp)+

lemma answers_upd:
  "t < n \<Longrightarrow> thread_sum n answers (ps(t := p)) + answers (ps t) = thread_sum n answers ps + answers p"
  by (rule thread_sum_upd)

lemma tsq_exec_answers:
  assumes "tsq_exec t s = Some s'" and "knows (qs_items s) (qs_pc s t)"
  obtains p where "qs_pc s' = (qs_pc s)(t := p)" "qs_pc s t \<noteq> P_Blocked"
    "p = P_Blocked \<and> qs_items s' = []
     \<or> p \<noteq> P_Blocked
       \<and> length (qs_items s') + answers (qs_pc s t) \<le> length (qs_items s) + answers p"
  using assms
  by (cases "qs_pc s t") (auto simp: tsq_exec_def on_mutex_def split: outcome.splits list.splits)

lemma wake_inv_exec:
  assumes f: "fifo_inv n s" and w: "wake_inv n s" and t: "t < n"
    and step: "tsq_exec t s = Some s'"
  shows "wake_inv n s'"
proof -
  have "knows (qs_items s) (qs_pc s t)" using f t by (simp add: fifo_inv_def)
  with step obtain p where p: "qs_pc s' = (qs_pc s)(t := p)" "qs_pc s t \<noteq> P_Blocked"
    and len: "p = P_Blocked \<and> qs_items s' = []
     \<or> p \<noteq> P_Blocked
       \<and> length (qs_items s') + answers (qs_pc s t) \<le> length (qs_items s) + answers p"
    by (rule tsq_exec_answers)
  show ?thesis
    unfolding wake_inv_def
  proof
    assume "\<exists>u<n. qs_pc s' u = P_Blocked"
    then obtain u where u: "u < n" "qs_pc s' u = P_Blocked" by blast
    show "length (qs_items s') \<le> thread_sum n answers (qs_pc s')"
    proof (cases "p = P_Blocked")
      case True
      with len show ?thesis by simp
    next
      case False
      with u p have "qs_pc s u = P_Blocked" by (cases "u = t") auto
      with u w have "length (qs_items s) \<le> thread_sum n answers (qs_pc s)"
        by (auto simp: wake_inv_def)
      with False len p answers_upd [OF t, of "qs_pc s" p] show ?thesis by simp
    qed
  qed
qed

lemma wake_inv_run:
  assumes "fifo_inv n s" "wake_inv n s" and "qsys_run n s s'"
  shows "wake_inv n s'"
  using assms(3)
proof cases
  case (exec t)
  with assms show ?thesis by (blast intro: wake_inv_exec)
next
  case (signal t u)
  then have "length (qs_items s) \<le> thread_sum n answers (qs_pc s)"
    using assms(2) by (auto simp: wake_inv_def)
  moreover have "u \<noteq> t" using signal by auto
  ultimately show ?thesis
    using signal answers_upd [of t n "qs_pc s" Idle]
      answers_upd [of u n "(qs_pc s)(t := Idle)" P_Reacq]
    by (simp add: wake_inv_def)
next
  case (no_signal t)
  then show ?thesis by (auto simp: wake_inv_def split: if_splits)
qed

lemma wake_inv_step:
  assumes "fifo_inv n s" "wake_inv n s" and "qsys_step n s s'"
  shows "wake_inv n s'"
  using assms(3)
proof cases
  case run
  with assms show ?thesis by (blast intro: wake_inv_run)
next
  case (call t c)
  with assms(2) answers_upd [of t n "qs_pc s" "tsq_entry c"] show ?thesis
    by (auto simp: wake_inv_def split: if_splits)
next
  case (spurious t)
  then have "length (qs_items s) \<le> thread_sum n answers (qs_pc s)"
    using assms(2) by (auto simp: wake_inv_def)
  with spurious answers_upd [of t n "qs_pc s" P_Reacq] show ?thesis
    by (simp add: wake_inv_def)
qed

lemma qsys_inv_run: "qsys_inv n s \<Longrightarrow> qsys_run n s s' \<Longrightarrow> qsys_inv n s'"
  by (auto simp: qsys_inv_def intro: mutex_inv_run fifo_inv_run wake_inv_run)

lemma qsys_inv_start: "qsys_inv n qsys_start"
  by (simp add: qsys_inv_def mutex_inv_def fifo_inv_def wake_inv_def qsys_start_def mutex_init_def)

interpretation qsys_sys: invariant_system qsys_start "qsys_step n" "qsys_inv n" for n
  by (unfold_locales, simp add: qsys_inv_start)
    (auto simp: qsys_inv_def
      intro: mutex_inv_step fifo_inv_step wake_inv_step)

section \<open>Methods under way finish or wait for an item\<close>

fun steps_left :: "'a tsq_pc \<Rightarrow> nat" where
  "steps_left Idle = 0" | "steps_left P_Blocked = 0"
| "steps_left P_Lock = 7" | "steps_left P_Reacq = 7" | "steps_left P_EmptyLock = 6"
| "steps_left P_EmptyTest = 5" | "steps_left (P_EmptyUnlock e) = 4" | "steps_left P_Wait = 1"
| "steps_left P_Front = 3" | "steps_left (P_Pop x) = 2" | "steps_left (P_Unlock x) = 1"
| "steps_left T_Lock = 7" | "steps_left T_EmptyLock = 6" | "steps_left T_EmptyTest = 5"
| "steps_left (T_EmptyUnlock e) = 4" | "steps_left T_Front = 3" | "steps_left (T_Pop x) = 2"
| "steps_left (T_Unlock r) = 1"
| "steps_left (U_Lock x) = 11" | "steps_left (U_Enq x) = 10" | "steps_left U_Unlock = 9"
| "steps_left U_Signal = 8"
| "steps_left E_Lock = 3" | "steps_left E_Test = 2" | "steps_left (E_Unlock e) = 1"

definition settled :: "nat \<Rightarrow> 'a qsys \<Rightarrow> bool" where
  "settled n s \<longleftrightarrow> (\<forall>t<n. qs_pc s t = Idle \<or> qs_pc s t = P_Blocked)"

definition qsys_measure :: "nat \<Rightarrow> 'a qsys \<Rightarrow> nat" where
  "qsys_measure n s = thread_sum n steps_left (qs_pc s)"

lemma steps_left_upd:
  "t < n \<Longrightarrow> thread_sum n steps_left (ps(t := p)) + steps_left (ps t)
     = thread_sum n steps_left ps + steps_left p"
  by (rule thread_sum_upd)

lemma tsq_exec_steps_left:
  assumes "tsq_exec t s = Some s'"
  obtains p where "qs_pc s' = (qs_pc s)(t := p)" "steps_left p < steps_left (qs_pc s t)"
  using assms
  by (cases "qs_pc s t") (auto simp: tsq_exec_def on_mutex_def split: outcome.splits list.splits)

lemma qsys_measure_run:
  assumes "qsys_run n s s'"
  shows "qsys_measure n s' < qsys_measure n s"
  using assms
proof cases
  case (exec t)
  from exec(2) obtain p where "qs_pc s' = (qs_pc s)(t := p)" "steps_left p < steps_left (qs_pc s t)"
    by (rule tsq_exec_steps_left)
  with steps_left_upd [OF exec(1), of "qs_pc s" p] show ?thesis by (simp add: qsys_measure_def)
next
  case (signal t u)
  then have "u \<noteq> t" by auto
  with signal steps_left_upd [of t n "qs_pc s" Idle]
    steps_left_upd [of u n "(qs_pc s)(t := Idle)" P_Reacq]
  show ?thesis by (simp add: qsys_measure_def)
next
  case (no_signal t)
  with steps_left_upd [of t n "qs_pc s" Idle] show ?thesis by (simp add: qsys_measure_def)
qed

text \<open>The holder of the mutex can always go on; with the mutex free, anyone can.\<close>

lemma holder_runs:
  assumes m: "mutex_inv n s" and f: "fifo_inv n s" and o: "m_owner (qs_mtx s) = Some t"
  shows "t < n \<and> (\<exists>s'. tsq_exec t s = Some s')"
proof -
  from m o have t: "t < n" "0 < lock_depth (qs_pc s t)" "m_kind (qs_mtx s) = RECURSIVE"
    by (auto simp: mutex_inv_def)
  moreover have "knows (qs_items s) (qs_pc s t)" using f t by (simp add: fifo_inv_def)
  ultimately show ?thesis
    using o
    by (cases "qs_pc s t")
      (auto simp: tsq_exec_def on_mutex_def guard_recursive mutex_lock_def mutex_unlock_def
        split: list.split)
qed

lemma unlocked_runs:
  assumes "m_owner (qs_mtx s) = None" and "lock_depth (qs_pc s t) = 0"
    and "qs_pc s t \<notin> {Idle, P_Blocked, U_Signal}"
  shows "\<exists>s'. tsq_exec t s = Some s'"
  using assms
  by (cases "qs_pc s t")
    (auto simp: tsq_exec_def on_mutex_def lock_guard_ctor_def mutex_lock_def)

lemma signal_runs: "t < n \<Longrightarrow> qs_pc s t = U_Signal \<Longrightarrow> \<exists>s'. qsys_run n s s'"
  by (blast intro: qsys_run.signal qsys_run.no_signal)

lemma qsys_progress:
  assumes inv: "qsys_inv n s" and "\<not> settled n s"
  shows "\<exists>s'. qsys_run n s s'"
proof (cases "m_owner (qs_mtx s)")
  case (Some t)
  with inv show ?thesis
    unfolding qsys_inv_def using holder_runs by (blast intro: qsys_run.exec)
next
  case None
  from assms(2) obtain t where t: "t < n" "qs_pc s t \<noteq> Idle" "qs_pc s t \<noteq> P_Blocked"
    by (auto simp: settled_def)
  have "lock_depth (qs_pc s t) = 0" using inv None t(1) by (auto simp: qsys_inv_def mutex_inv_def)
  with None t show ?thesis
    using signal_runs [OF t(1)] unlocked_runs [OF None] by (blast intro: qsys_run.exec)
qed

interpretation qsys_quiesce: terminating_system qsys_start "qsys_run n" "qsys_inv n"
    "qsys_measure n" "settled n" for n
  by unfold_locales
    (auto simp: qsys_inv_start intro: qsys_inv_run qsys_measure_run qsys_progress)

text \<open>Once nothing moves, a caller still waiting waits for an item: there is none.\<close>

lemma settled_empty:
  assumes "wake_inv n s" and "settled n s" and "t < n" "qs_pc s t = P_Blocked"
  shows "qs_items s = []"
proof -
  have "thread_sum n answers (qs_pc s) = n * 0"
    using assms(2) by (intro thread_sum_const) (auto simp: settled_def)
  with assms show ?thesis by (auto simp: wake_inv_def)
qed

section \<open>Properties\<close>

text \<open>
  The queue is first-in first-out whatever the interleaving: what has been popped,
  followed by what the queue holds, is what has been pushed, in order. And \<open>front\<close> and
  \<open>pop\<close> are only ever called on a queue that is not empty, with the item handed to the
  caller at its head.
\<close>

theorem queue_fifo_order:
  assumes "reach qsys_start (qsys_step n) s" and "t < n"
  shows "qs_popped s @ qs_items s = qs_pushed s
    \<and> (qs_pc s t \<in> {P_Front, T_Front} \<longrightarrow> qs_items s \<noteq> [])
    \<and> (qs_pc s t \<in> {P_Pop x, T_Pop x} \<longrightarrow> (\<exists>xs. qs_items s = x # xs))"
proof -
  have "fifo_inv n s" using qsys_sys.reach_inv [OF assms(1)] by (simp add: qsys_inv_def)
  then have "qs_popped s @ qs_items s = qs_pushed s" "knows (qs_items s) (qs_pc s t)"
    using assms(2) by (simp_all add: fifo_inv_def)
  then show ?thesis by auto
qed

theorem queue_fifo_order_witness:
  "qs_popped (goto 0 (U_Lock (7::int)) qsys_start) @ qs_items (goto 0 (U_Lock 7) qsys_start)
   = qs_pushed (goto 0 (U_Lock 7) qsys_start)"
proof -
  have "reach qsys_start (qsys_step 2) (goto 0 (tsq_entry (Call_push (7::int))) qsys_start)"
    by (rule reach_step [OF reach_init]) (rule qsys_step.call, simp_all add: qsys_start_def)
  from queue_fifo_order [OF this, of 0] show ?thesis by simp
qed

text \<open>
  At most one thread is inside the mutex, it holds it as often as its nested guards say,
  and a thread that waits on the condition variable does so with the recursive mutex held
  exactly once, so that the wait really releases it.
\<close>

theorem queue_mutual_exclusion:
  assumes "reach qsys_start (qsys_step n) s" and "t < n" and "u < n"
    and "0 < lock_depth (qs_pc s t)"
  shows "m_owner (qs_mtx s) = Some t \<and> m_count (qs_mtx s) = lock_depth (qs_pc s t)
    \<and> (0 < lock_depth (qs_pc s u) \<longrightarrow> u = t)
    \<and> (qs_pc s t = P_Wait \<longrightarrow> (\<exists>m. mutex_unlock t (qs_mtx s) = Done m \<and> m_owner m = None))"
proof -
  have m: "mutex_inv n s" using qsys_sys.reach_inv [OF assms(1)] by (simp add: qsys_inv_def)
  with assms have o: "m_owner (qs_mtx s) = Some t" "m_count (qs_mtx s) = lock_depth (qs_pc s t)"
    by (auto simp: mutex_inv_def)
  moreover have "0 < lock_depth (qs_pc s u) \<longrightarrow> u = t" using m o assms(3) by (auto simp: mutex_inv_def)
  ultimately show ?thesis by (auto simp: mutex_unlock_def)
qed

theorem queue_mutual_exclusion_witness:
  "\<exists>s :: int qsys. reach qsys_start (qsys_step 2) s \<and> m_owner (qs_mtx s) = Some 0"
proof -
  let ?s1 = "goto 0 (tsq_entry (Call_push (7::int))) qsys_start"
  let ?s2 = "(goto 0 (U_Enq 7) ?s1)\<lparr>qs_mtx := (mutex_init RECURSIVE)\<lparr>m_owner := Some 0, m_count := 1\<rparr>\<rparr>"
  have "reach qsys_start (qsys_step 2) ?s1"
    by (rule reach_step [OF reach_init]) (rule qsys_step.call, simp_all add: qsys_start_def)
  moreover have "qsys_step 2 ?s1 ?s2"
    by (rule qsys_step.run, rule qsys_run.exec [of 0])
      (simp_all add: tsq_exec_def on_mutex_def qsys_start_def mutex_eval)
  ultimately have r: "reach qsys_start (qsys_step 2) ?s2" by (rule reach_step)
  have "m_owner (qs_mtx ?s2) = Some 0"
    using queue_mutual_exclusion [OF r, of 0 1] by simp
  with r show ?thesis by blast
qed

text \<open>
  C1: No wake-up is lost and nothing deadlocks. From every reachable state the calls under
  way, left to themselves, reach a state where each has returned or is blocked in \<open>pop\<close>;
  they do so within a bounded number of steps; and a caller can only be blocked there when
  the queue is empty.
\<close>

theorem queue_no_lost_wakeup:
  assumes "reach qsys_start (qsys_step n) s"
  shows "(\<exists>f. reach s (qsys_run n) f \<and> settled n f)
    \<and> ((qsys_run n ^^ m) s f \<longrightarrow> m \<le> qsys_measure n s)
    \<and> (reach s (qsys_run n) f \<and> settled n f \<and> t < n \<and> qs_pc f t = P_Blocked \<longrightarrow> qs_items f = [])"
proof -
  have inv: "qsys_inv n s" using assms by (rule qsys_sys.reach_inv)
  have "qs_items f = []"
    if "reach s (qsys_run n) f" "settled n f" "t < n" "qs_pc f t = P_Blocked"
    using settled_empty [OF _ that(2-4)] qsys_quiesce.inv_reach [OF that(1) inv]
    by (simp add: qsys_inv_def)
  moreover have "m \<le> qsys_measure n s" if "(qsys_run n ^^ m) s f"
    using qsys_quiesce.run_measure [OF that inv] by simp
  ultimately show ?thesis using qsys_quiesce.inv_reaches_final [OF inv] by blast
qed

theorem queue_no_lost_wakeup_witness:
  "\<exists>f :: int qsys. reach (goto 0 P_Lock qsys_start) (qsys_run 2) f \<and> settled 2 f"
proof -
  have "reach qsys_start (qsys_step 2) (goto 0 (tsq_entry (Call_pop :: int tsq_call)) qsys_start)"
    by (rule reach_step [OF reach_init]) (rule qsys_step.call, simp_all add: qsys_start_def)
  from queue_no_lost_wakeup [OF this, of 0 qsys_start 0] show ?thesis by simp
qed

end
