(* ===== verification/Thread_Pool.thy ===== *)
theory Thread_Pool
  imports Safe_Queue "HOL-Library.Multiset"
begin

text \<open>
  The thread pool of \<open>day2/ex_ThreadPool\<close> and \<open>day3/socknet/thread\<close>: the workers'
  loop, \<open>add_task\<close>, and the destructor that pushes one empty task per worker and joins
  them. A task is a \<open>std::function\<close>, \<open>None\<close> when empty. The model takes the queue's
  operations as arguments, and its lemmas are proved once over the interface
  \<open>fifo_queue\<close>; the active object, the same loop with one worker over another queue
  class, reuses them. Tasks are taken to return; running one is a single step.
\<close>

section \<open>Workers and the owner of the pool\<close>

datatype 'f pool_worker_pc = K_Pop | K_Run 'f | K_Exit

text \<open>
  The owner submits its tasks, then destroys the pool: it pushes the empty tasks, then
  joins the workers one by one.
\<close>

datatype 'f pool_main_pc = M_Add "'f list" | M_Stop nat | M_Join nat | M_Done

text \<open>\<open>pl_taken\<close> and \<open>pl_log\<close> record the tasks taken from the queue and those run.\<close>

record ('q, 'f) pool =
  pl_queue :: 'q
  pl_worker :: "tid \<Rightarrow> 'f pool_worker_pc"
  pl_main :: "'f pool_main_pc"
  pl_taken :: "'f list"
  pl_log :: "(tid \<times> 'f) list"

definition pool_start :: "'q \<Rightarrow> 'f list \<Rightarrow> ('q, 'f) pool" where
  "pool_start q fs =
     \<lparr>pl_queue = q, pl_worker = (\<lambda>t. K_Pop), pl_main = M_Add fs, pl_taken = [], pl_log = []\<rparr>"

definition pool_worker_step ::
  "(tid \<Rightarrow> 'q \<Rightarrow> ('f option \<times> 'q) outcome) \<Rightarrow> tid \<Rightarrow> ('q, 'f) pool \<Rightarrow> ('q, 'f) pool option"
  where
  "pool_worker_step pop t s =
     (case pl_worker s t of
        K_Pop \<Rightarrow>
          (case pop t (pl_queue s) of
             Done (Some f, q) \<Rightarrow>
               Some (s\<lparr>pl_queue := q, pl_worker := (pl_worker s)(t := K_Run f),
                       pl_taken := pl_taken s @ [f]\<rparr>)
           | Done (None, q) \<Rightarrow>
               Some (s\<lparr>pl_queue := q, pl_worker := (pl_worker s)(t := K_Exit)\<rparr>)
           | _ \<Rightarrow> None)
      | K_Run f \<Rightarrow>
          Some (s\<lparr>pl_worker := (pl_worker s)(t := K_Pop), pl_log := pl_log s @ [(t, f)]\<rparr>)
      | K_Exit \<Rightarrow> None)"

definition add_task ::
  "(tid \<Rightarrow> 'f option \<Rightarrow> 'q \<Rightarrow> 'q outcome) \<Rightarrow> tid \<Rightarrow> 'f option \<Rightarrow> ('q, 'f) pool \<Rightarrow> ('q, 'f) pool option"
  where
  "add_task push t f s =
     (case push t f (pl_queue s) of Done q \<Rightarrow> Some (s\<lparr>pl_queue := q\<rparr>) | _ \<Rightarrow> None)"

text \<open>The owner's steps; its own thread has number \<open>n\<close>, after the workers'.\<close>

definition pool_owner_step ::
  "(tid \<Rightarrow> 'f option \<Rightarrow> 'q \<Rightarrow> 'q outcome) \<Rightarrow> nat \<Rightarrow> ('q, 'f) pool \<Rightarrow> ('q, 'f) pool option" where
  "pool_owner_step push n s =
     (case pl_main s of
        M_Add [] \<Rightarrow> Some (s\<lparr>pl_main := M_Stop 0\<rparr>)
      | M_Add (f # fs) \<Rightarrow>
          map_option (pl_main_update (\<lambda>_. M_Add fs)) (add_task push n (Some f) s)
      | M_Stop i \<Rightarrow>
          (if i < n
           then map_option (pl_main_update (\<lambda>_. M_Stop (Suc i))) (add_task push n None s)
           else Some (s\<lparr>pl_main := M_Join 0\<rparr>))
      | M_Join i \<Rightarrow>
          (if i < n
           then if pl_worker s i = K_Exit then Some (s\<lparr>pl_main := M_Join (Suc i)\<rparr>) else None
           else Some (s\<lparr>pl_main := M_Done\<rparr>))
      | M_Done \<Rightarrow> None)"

inductive pool_step ::
  "(tid \<Rightarrow> 'f option \<Rightarrow> 'q \<Rightarrow> 'q outcome) \<Rightarrow> (tid \<Rightarrow> 'q \<Rightarrow> ('f option \<times> 'q) outcome) \<Rightarrow> nat \<Rightarrow>
   ('q, 'f) pool \<Rightarrow> ('q, 'f) pool \<Rightarrow> bool" for push pop n where
  worker: "t < n \<Longrightarrow> pool_worker_step pop t s = Some s' \<Longrightarrow> pool_step push pop n s s'"
| owner: "pool_owner_step push n s = Some s' \<Longrightarrow> pool_step push pop n s s'"

inductive_cases pool_stepE: "pool_step push pop n s s'"

definition pool_closed :: "('q, 'f) pool \<Rightarrow> bool" where
  "pool_closed s \<longleftrightarrow> pl_main s = M_Done"

text \<open>The case analyses of a worker's and of the owner's step.\<close>

lemma worker_cases:
  assumes "pool_worker_step pop t s = Some s'"
  obtains
    (Take) f q where "pl_worker s t = K_Pop" "pop t (pl_queue s) = Done (Some f, q)"
      "s' = s\<lparr>pl_queue := q, pl_worker := (pl_worker s)(t := K_Run f),
              pl_taken := pl_taken s @ [f]\<rparr>"
  | (Stop) q where "pl_worker s t = K_Pop" "pop t (pl_queue s) = Done (None, q)"
      "s' = s\<lparr>pl_queue := q, pl_worker := (pl_worker s)(t := K_Exit)\<rparr>"
  | (Run) f where "pl_worker s t = K_Run f"
      "s' = s\<lparr>pl_worker := (pl_worker s)(t := K_Pop), pl_log := pl_log s @ [(t, f)]\<rparr>"
  using assms
  by (cases "pl_worker s t")
    (auto simp: pool_worker_step_def split: outcome.splits option.splits prod.splits)

lemma owner_cases:
  assumes "pool_owner_step push n s = Some s'"
  obtains
    (Begin_stop) "pl_main s = M_Add []" "s' = s\<lparr>pl_main := M_Stop 0\<rparr>"
  | (Add) f fs q where "pl_main s = M_Add (f # fs)" "push n (Some f) (pl_queue s) = Done q"
      "s' = s\<lparr>pl_queue := q, pl_main := M_Add fs\<rparr>"
  | (Stop) i q where "pl_main s = M_Stop i" "i < n" "push n None (pl_queue s) = Done q"
      "s' = s\<lparr>pl_queue := q, pl_main := M_Stop (Suc i)\<rparr>"
  | (Begin_join) i where "pl_main s = M_Stop i" "n \<le> i" "s' = s\<lparr>pl_main := M_Join 0\<rparr>"
  | (Join) i where "pl_main s = M_Join i" "i < n" "pl_worker s i = K_Exit"
      "s' = s\<lparr>pl_main := M_Join (Suc i)\<rparr>"
  | (End) i where "pl_main s = M_Join i" "n \<le> i" "s' = s\<lparr>pl_main := M_Done\<rparr>"
  using assms
  by (cases "pl_main s")
    (auto simp: pool_owner_step_def add_task_def split: outcome.splits list.splits if_splits)

section \<open>The invariant\<close>

fun to_add :: "'f pool_main_pc \<Rightarrow> 'f list" where
  "to_add (M_Add fs) = fs"
| "to_add _ = []"

fun stops_pushed :: "nat \<Rightarrow> 'f pool_main_pc \<Rightarrow> nat" where
  "stops_pushed n (M_Add fs) = 0"
| "stops_pushed n (M_Stop i) = i"
| "stops_pushed n _ = n"

fun joined :: "nat \<Rightarrow> 'f pool_main_pc \<Rightarrow> nat" where
  "joined n (M_Join i) = i"
| "joined n M_Done = n"
| "joined n _ = 0"

fun exited :: "'f pool_worker_pc \<Rightarrow> nat" where
  "exited K_Exit = 1"
| "exited _ = 0"

fun running :: "'f pool_worker_pc \<Rightarrow> 'f list" where
  "running (K_Run f) = [f]"
| "running _ = []"

definition run_by :: "tid \<Rightarrow> (tid \<times> 'f) list \<Rightarrow> 'f list" where
  "run_by t xs = map snd (filter (\<lambda>p. fst p = t) xs)"

lemma run_by_simps [simp]:
  "run_by t [] = []"
  "run_by t (xs @ [(u, f)]) = run_by t xs @ (if u = t then [f] else [])"
  by (simp_all add: run_by_def)

text \<open>
  The queue holds the tasks not yet taken, in order, followed by the empty tasks; a worker
  that has left has used up one empty task, and the first to leave saw every task taken.
\<close>

definition pool_inv ::
  "('q \<Rightarrow> 'f option list) \<Rightarrow> ('q \<Rightarrow> bool) \<Rightarrow> nat \<Rightarrow> 'f list \<Rightarrow> ('q, 'f) pool \<Rightarrow> bool" where
  "pool_inv items idle n fs s \<longleftrightarrow>
     idle (pl_queue s)
     \<and> (\<exists>rs j. items (pl_queue s) = map Some rs @ replicate j None
          \<and> pl_taken s @ rs @ to_add (pl_main s) = fs
          \<and> j + thread_sum n exited (pl_worker s) = stops_pushed n (pl_main s)
          \<and> (0 < thread_sum n exited (pl_worker s) \<longrightarrow> rs = []))
     \<and> stops_pushed n (pl_main s) \<le> n
     \<and> joined n (pl_main s) \<le> n
     \<and> (\<forall>t < joined n (pl_main s). pl_worker s t = K_Exit)"

text \<open>Each task taken is run or being run: kept apart, as a multiset over the threads.\<close>

definition taken_inv :: "nat \<Rightarrow> ('q, 'f) pool \<Rightarrow> bool" where
  "taken_inv n s \<longleftrightarrow>
     (\<forall>f. count_list (pl_taken s) f
        = count_list (map snd (pl_log s)) f
          + thread_sum n (\<lambda>p. count_list (running p) f) (pl_worker s))"

fun main_left :: "nat \<Rightarrow> 'f pool_main_pc \<Rightarrow> nat" where
  "main_left n (M_Add fs) = 3 * length fs + 4 * n + 3"
| "main_left n (M_Stop i) = 3 * (n - i) + n + 2"
| "main_left n (M_Join i) = n - i + 1"
| "main_left n M_Done = 0"

definition pool_measure :: "('q \<Rightarrow> 'f option list) \<Rightarrow> nat \<Rightarrow> ('q, 'f) pool \<Rightarrow> nat" where
  "pool_measure items n s =
     main_left n (pl_main s) + 2 * length (items (pl_queue s))
     + thread_sum n (\<lambda>p. length (running p)) (pl_worker s)"

text \<open>With one worker the tasks taken are, in order, those run and then the one running.\<close>

definition serial_inv :: "('q, 'f) pool \<Rightarrow> bool" where
  "serial_inv s \<longleftrightarrow> pl_taken s = map snd (pl_log s) @ running (pl_worker s 0)"

lemma taken_inv_worker:
  fixes s :: "('q, 'f) pool"
  assumes inv: "taken_inv n s" and t: "t < n" and step: "pool_worker_step pop t s = Some s'"
  shows "taken_inv n s'"
  unfolding taken_inv_def
proof
  fix f :: 'f
  define w where "w = (\<lambda>p. count_list (running p) f)"
  have upd: "thread_sum n w ((pl_worker s)(t := p)) + w (pl_worker s t)
      = thread_sum n w (pl_worker s) + w p" for p
    using t by (rule thread_sum_upd)
  have eq: "count_list (pl_taken s) f
      = count_list (map snd (pl_log s)) f + thread_sum n w (pl_worker s)"
    using inv by (simp add: taken_inv_def w_def)
  from step have "count_list (pl_taken s') f
      = count_list (map snd (pl_log s')) f + thread_sum n w (pl_worker s')"
  proof (cases rule: worker_cases)
    case (Take g q)
    have "w K_Pop = 0" "w (K_Run g) = (if g = f then 1 else 0)" by (simp_all add: w_def)
    with Take upd [of "K_Run g"] eq show ?thesis by simp
  next
    case (Stop q)
    have "w K_Pop = 0" "w K_Exit = 0" by (simp_all add: w_def)
    with Stop upd [of K_Exit] eq show ?thesis by simp
  next
    case (Run g)
    have "w K_Pop = 0" "w (K_Run g) = (if g = f then 1 else 0)" by (simp_all add: w_def)
    with Run upd [of K_Pop] eq show ?thesis by (auto split: if_splits)
  qed
  then show "count_list (pl_taken s') f = count_list (map snd (pl_log s')) f
      + thread_sum n (\<lambda>p. count_list (running p) f) (pl_worker s')"
    by (simp add: w_def)
qed

lemma taken_inv_owner:
  "taken_inv n s \<Longrightarrow> pool_owner_step push n s = Some s' \<Longrightarrow> taken_inv n s'"
  by (erule owner_cases) (simp_all add: taken_inv_def)

lemma serial_inv_worker:
  "serial_inv s \<Longrightarrow> pool_worker_step pop 0 s = Some s' \<Longrightarrow> serial_inv s'"
  by (erule worker_cases) (simp_all add: serial_inv_def)

lemma serial_inv_owner:
  "serial_inv s \<Longrightarrow> pool_owner_step push n s = Some s' \<Longrightarrow> serial_inv s'"
  by (erule owner_cases) (simp_all add: serial_inv_def)

section \<open>The client of the queue interface\<close>

text \<open>The queue interface at the type of tasks.\<close>

locale task_queue = fifo_queue push pop items idle
  for push :: "tid \<Rightarrow> 'f option \<Rightarrow> 'q \<Rightarrow> 'q outcome"
    and pop :: "tid \<Rightarrow> 'q \<Rightarrow> ('f option \<times> 'q) outcome"
    and items :: "'q \<Rightarrow> 'f option list"
    and idle :: "'q \<Rightarrow> bool"
begin

lemma pool_inv_worker:
  assumes inv: "pool_inv items idle n fs s" and t: "t < n"
    and step: "pool_worker_step pop t s = Some s'"
  shows "pool_inv items idle n fs s'"
proof -
  have upd: "thread_sum n exited ((pl_worker s)(t := p)) + exited (pl_worker s t)
      = thread_sum n exited (pl_worker s) + exited p" for p
    using t by (rule thread_sum_upd)
  have "idle (pl_queue s)" using inv by (simp add: pool_inv_def)
  from inv obtain rs j where
    q: "items (pl_queue s) = map Some rs @ replicate j None"
    and tk: "pl_taken s @ rs @ to_add (pl_main s) = fs"
    and j: "j + thread_sum n exited (pl_worker s) = stops_pushed n (pl_main s)"
    and ex: "0 < thread_sum n exited (pl_worker s) \<longrightarrow> rs = []"
    by (auto simp: pool_inv_def)
  from step show ?thesis
  proof (cases rule: worker_cases)
    case (Take f q')
    then have "idle q'" "items (pl_queue s) = Some f # items q'"
      using pop_Done \<open>idle (pl_queue s)\<close> by blast+
    with q obtain rs' where "rs = f # rs'" "items q' = map Some rs' @ replicate j None"
      by (cases rs) (auto simp: Cons_replicate_eq)
    with Take \<open>idle q'\<close> inv tk j ex upd [of "K_Run f"] show ?thesis
      by (auto simp: pool_inv_def intro!: exI [of _ rs'] exI [of _ j])
  next
    case (Stop q')
    then have "idle q'" "items (pl_queue s) = None # items q'"
      using pop_Done \<open>idle (pl_queue s)\<close> by blast+
    with q obtain j' where "rs = []" "j = Suc j'" "items q' = replicate j' None"
      by (cases rs) (auto simp: Cons_replicate_eq gr0_conv_Suc)
    with Stop \<open>idle q'\<close> inv tk j ex upd [of K_Exit] show ?thesis
      by (auto simp: pool_inv_def intro!: exI [of _ "[]"] exI [of _ j'])
  next
    case (Run f)
    with inv q tk j ex upd [of K_Pop] show ?thesis
      by (auto simp: pool_inv_def)
  qed
qed

lemma pool_inv_owner:
  assumes inv: "pool_inv items idle n fs s" and step: "pool_owner_step push n s = Some s'"
  shows "pool_inv items idle n fs s'"
proof -
  have "idle (pl_queue s)" using inv by (simp add: pool_inv_def)
  from inv obtain rs j where
    q: "items (pl_queue s) = map Some rs @ replicate j None"
    and tk: "pl_taken s @ rs @ to_add (pl_main s) = fs"
    and j: "j + thread_sum n exited (pl_worker s) = stops_pushed n (pl_main s)"
    and ex: "0 < thread_sum n exited (pl_worker s) \<longrightarrow> rs = []"
    by (auto simp: pool_inv_def)
  from step show ?thesis
  proof (cases rule: owner_cases)
    case (Add f gs q')
    then have "idle q'" "items q' = items (pl_queue s) @ [Some f]"
      using push_Done \<open>idle (pl_queue s)\<close> by blast+
    with Add q j have "items q' = map Some (rs @ [f]) @ replicate 0 None" by simp
    with Add \<open>idle q'\<close> inv tk j ex show ?thesis
      by (auto simp: pool_inv_def intro!: exI [of _ "rs @ [f]"] exI [of _ 0])
  next
    case (Stop i q')
    then have "idle q'" "items q' = items (pl_queue s) @ [None]"
      using push_Done \<open>idle (pl_queue s)\<close> by blast+
    with q have "items q' = map Some rs @ replicate (Suc j) None"
      by (simp add: replicate_append_same)
    with Stop \<open>idle q'\<close> inv tk j ex show ?thesis
      by (auto simp: pool_inv_def intro!: exI [of _ rs] exI [of _ "Suc j"])
  next
    case (Join i)
    with inv q tk j ex show ?thesis by (auto simp: pool_inv_def less_Suc_eq)
  qed (use inv q tk j ex in \<open>auto simp: pool_inv_def\<close>)
qed

lemma pool_measure_worker:
  assumes "pool_inv items idle n fs s" and t: "t < n"
    and step: "pool_worker_step pop t s = Some s'"
  shows "pool_measure items n s' < pool_measure items n s"
proof -
  define w where "w = (\<lambda>p. length (running p :: 'f list))"
  have upd: "thread_sum n w ((pl_worker s)(t := p)) + w (pl_worker s t)
      = thread_sum n w (pl_worker s) + w p" for p
    using t by (rule thread_sum_upd)
  have w: "w K_Pop = 0" "w K_Exit = 0" "w (K_Run f) = 1" for f by (simp_all add: w_def)
  have idle: "idle (pl_queue s)" using assms(1) by (simp add: pool_inv_def)
  have m: "pool_measure items n u = main_left n (pl_main u) + 2 * length (items (pl_queue u))
      + thread_sum n w (pl_worker u)" for u :: "('q, 'f) pool"
    by (simp add: pool_measure_def w_def)
  from step show ?thesis
  proof (cases rule: worker_cases)
    case (Take f q)
    then have "items (pl_queue s) = Some f # items q" using pop_Done idle by blast
    with Take upd [of "K_Run f"] show ?thesis by (simp add: m w)
  next
    case (Stop q)
    then have "items (pl_queue s) = None # items q" using pop_Done idle by blast
    with Stop upd [of K_Exit] show ?thesis by (simp add: m w)
  next
    case (Run f)
    with upd [of K_Pop] show ?thesis by (simp add: m w)
  qed
qed

lemma pool_measure_owner:
  assumes inv: "pool_inv items idle n fs s" and step: "pool_owner_step push n s = Some s'"
  shows "pool_measure items n s' < pool_measure items n s"
proof -
  have idle: "idle (pl_queue s)" using inv by (simp add: pool_inv_def)
  from step show ?thesis
  proof (cases rule: owner_cases)
    case (Add f gs q)
    then have "items q = items (pl_queue s) @ [Some f]" using push_Done idle by blast
    with Add show ?thesis by (simp add: pool_measure_def)
  next
    case (Stop i q)
    then have "items q = items (pl_queue s) @ [None]" using push_Done idle by blast
    with Stop show ?thesis by (simp add: pool_measure_def)
  qed (auto simp: pool_measure_def)
qed

lemma pool_progress:
  assumes inv: "pool_inv items idle n fs s" and "\<not> pool_closed s"
  shows "\<exists>s'. pool_step push pop n s s'"
proof (cases "\<exists>i < n. pl_main s = M_Join i \<and> pl_worker s i \<noteq> K_Exit")
  case False
  have "idle (pl_queue s)" using inv by (simp add: pool_inv_def)
  then have "\<exists>s'. add_task push n x s = Some s'" for x
    using push_items [of "pl_queue s" n x] by (auto simp: add_task_def)
  with False assms(2) have "\<exists>s'. pool_owner_step push n s = Some s'"
    by (cases "pl_main s") (auto simp: pool_closed_def pool_owner_step_def split: list.split)
  then show ?thesis by (blast intro: pool_step.owner)
next
  case True
  then obtain i where i: "i < n" "pl_main s = M_Join i" "pl_worker s i \<noteq> K_Exit" by blast
  from inv i obtain rs j where
    q: "items (pl_queue s) = map Some rs @ replicate j None"
    and j: "j + thread_sum n exited (pl_worker s) = n" and idle: "idle (pl_queue s)"
    by (auto simp: pool_inv_def)
  have le: "\<forall>t<n. exited (pl_worker s t) \<le> 1"
    by (metis exited.elims order_refl zero_le)
  have "thread_sum n exited ((pl_worker s)(i := K_Exit)) \<le> n * 1"
    using le by (intro thread_sum_le) auto
  moreover have "exited (pl_worker s i) = 0" using i(3) by (cases "pl_worker s i") auto
  ultimately have "thread_sum n exited (pl_worker s) < n"
    using thread_sum_upd [OF i(1), of exited "pl_worker s" K_Exit] by simp
  with j q have "items (pl_queue s) \<noteq> []" by auto
  then obtain x q' where "pop i (pl_queue s) = Done (x, q')"
    using pop_enabled idle by blast
  with i(3) have "\<exists>s'. pool_worker_step pop i s = Some s'"
    by (cases "pl_worker s i"; cases x) (auto simp: pool_worker_step_def)
  with i(1) show ?thesis by (blast intro: pool_step.worker)
qed

lemma pool_system:
  assumes "idle q" and "items q = []"
  shows "terminating_system (pool_start q fs) (pool_step push pop n)
    (\<lambda>s. pool_inv items idle n fs s \<and> taken_inv n s) (pool_measure items n) pool_closed"
proof unfold_locales
  show "pool_inv items idle n fs (pool_start q fs) \<and> taken_inv n (pool_start q fs)"
    using assms by (auto simp: pool_inv_def taken_inv_def pool_start_def thread_sum_def
      intro!: exI [of _ 0])
next
  fix s t
  assume "pool_inv items idle n fs s \<and> taken_inv n s" and step: "pool_step push pop n s t"
  then have inv: "pool_inv items idle n fs s" "taken_inv n s" by simp_all
  from step show "pool_inv items idle n fs t \<and> taken_inv n t"
    by (rule pool_stepE) (use inv in \<open>blast intro: pool_inv_worker pool_inv_owner
      taken_inv_worker taken_inv_owner\<close>)+
  from step show "pool_measure items n t < pool_measure items n s"
    by (rule pool_stepE) (use inv in \<open>blast intro: pool_measure_worker pool_measure_owner\<close>)+
next
  fix s
  assume "pool_inv items idle n fs s \<and> taken_inv n s" "\<not> pool_closed s"
  then show "\<exists>t. pool_step push pop n s t" using pool_progress by blast
qed

text \<open>A closed pool with at least one worker has run every task.\<close>

lemma pool_closed_result:
  assumes inv: "pool_inv items idle n fs s" "taken_inv n s" and "pool_closed s" and "0 < n"
  shows "pl_taken s = fs \<and> mset (map snd (pl_log s)) = mset fs \<and> items (pl_queue s) = []"
proof -
  have out: "\<forall>t<n. pl_worker s t = K_Exit"
    using assms by (auto simp: pool_inv_def pool_closed_def)
  then have ex: "thread_sum n exited (pl_worker s) = n"
    using thread_sum_const [of n exited "pl_worker s" 1] by simp
  from inv(1) obtain rs j where
    "items (pl_queue s) = map Some rs @ replicate j None"
    "pl_taken s @ rs = fs" "j + thread_sum n exited (pl_worker s) = n"
    "0 < thread_sum n exited (pl_worker s) \<longrightarrow> rs = []"
    using assms(3) by (auto simp: pool_inv_def pool_closed_def)
  with ex \<open>0 < n\<close> have "pl_taken s = fs" "items (pl_queue s) = []" by auto
  moreover have "count_list (pl_taken s) f = count_list (map snd (pl_log s)) f" for f
  proof -
    have "thread_sum n (\<lambda>p. count_list (running p) f) (pl_worker s) = n * 0"
      using out by (intro thread_sum_const) auto
    with inv(2) show ?thesis by (simp add: taken_inv_def)
  qed
  ultimately show ?thesis
    by (metis (no_types) count_mset multiset_eqI)
qed

end

section \<open>The pool over its queue class\<close>

interpretation tsq_pool: task_queue tsq_push tsq_pop tq_items tsq_idle
  by unfold_locales

interpretation pool_sys: terminating_system "pool_start tsq_ctor fs"
    "pool_step tsq_push tsq_pop n" "\<lambda>s. pool_inv tq_items tsq_idle n fs s \<and> taken_inv n s"
    "pool_measure tq_items n" pool_closed for n fs
  by (rule tsq_pool.pool_system) (simp_all add: tsq_ctor_def tsq_idle_def)

section \<open>The program of ex_ThreadPool\<close>

definition hello_first :: string where
  "hello_first = ''Hello from first task''"

definition hello_second :: string where
  "hello_second = ''Hello from second task''"

definition pool_main_start :: "(string option tsq, string) pool" where
  "pool_main_start = pool_start tsq_ctor [hello_first, hello_second]"

definition pool_main_step :: "(string option tsq, string) pool \<Rightarrow> (string option tsq, string) pool \<Rightarrow> bool" where
  "pool_main_step = pool_step tsq_push tsq_pop 2"

text \<open>The lines printed so far, and a step as a function: the owner, or a worker, moves.\<close>

definition pool_lines :: "(string option tsq, string) pool \<Rightarrow> string list" where
  "pool_lines s = map snd (pl_log s)"

fun pool_act :: "tid option \<Rightarrow> (string option tsq, string) pool \<Rightarrow> (string option tsq, string) pool option" where
  "pool_act None s = pool_owner_step tsq_push 2 s"
| "pool_act (Some t) s = (if t < 2 then pool_worker_step tsq_pop t s else None)"

lemma pool_act_step: "pool_act l s = Some s' \<Longrightarrow> pool_main_step s s'"
  by (cases l) (auto simp: pool_main_step_def split: if_splits intro: pool_step.intros)

text \<open>\<open>main\<close> prints both lines, in either order.\<close>

lemma pool_main_prints_both:
  assumes "reach pool_main_start pool_main_step s" "pool_closed s"
  shows "pool_lines s = [hello_first, hello_second] \<or> pool_lines s = [hello_second, hello_first]"
proof -
  have inv: "pool_inv tq_items tsq_idle 2 [hello_first, hello_second] s" "taken_inv 2 s"
    using pool_sys.reach_inv [OF assms(1) [unfolded pool_main_start_def pool_main_step_def]] by simp_all
  have m: "mset (pool_lines s) = mset [hello_first, hello_second]"
    using tsq_pool.pool_closed_result [OF inv assms(2)] by (simp add: pool_lines_def)
  from mset_eq_length [OF m] obtain x y where l: "pool_lines s = [x, y]"
    by (auto simp: numeral_2_eq_2 length_Suc_conv)
  with m show ?thesis by (simp add: add_eq_conv_ex) blast
qed

lemma pool_main_either_order:
  "\<exists>s. reach pool_main_start pool_main_step s \<and> pool_closed s \<and> pool_lines s = [hello_first, hello_second]"
  "\<exists>s. reach pool_main_start pool_main_step s \<and> pool_closed s \<and> pool_lines s = [hello_second, hello_first]"
proof -
  let ?out = "\<lambda>ls. map_option (\<lambda>s. (pl_main s, pool_lines s)) (follow pool_act ls pool_main_start)"
  have run: "\<exists>s. reach pool_main_start pool_main_step s \<and> pool_closed s \<and> pool_lines s = out"
    if "?out ls = Some (M_Done, out)" for ls out
  proof -
    from that obtain s where s: "follow pool_act ls pool_main_start = Some s" "pl_main s = M_Done" "pool_lines s = out"
      by auto
    from s(1) have "reach pool_main_start pool_main_step s" by (rule follow_reach) (rule pool_act_step)
    with s(2,3) show ?thesis by (auto simp: pool_closed_def)
  qed
  let ?adds = "[None, None, None, None, None, None]" and ?ends = "[Some 0, Some 1, None, None, None]"
  have "?out (?adds @ [Some 0, Some 1, Some 0, Some 1] @ ?ends) = Some (M_Done, [hello_first, hello_second])"
    by code_simp
  then show "\<exists>s. reach pool_main_start pool_main_step s \<and> pool_closed s \<and> pool_lines s = [hello_first, hello_second]"
    by (rule run)
  have "?out (?adds @ [Some 0, Some 1, Some 1, Some 0] @ ?ends) = Some (M_Done, [hello_second, hello_first])"
    by code_simp
  then show "\<exists>s. reach pool_main_start pool_main_step s \<and> pool_closed s \<and> pool_lines s = [hello_second, hello_first]"
    by (rule run)
qed

section \<open>Properties\<close>

text \<open>
  Destroying a pool with at least one worker runs every task submitted to it exactly
  once and then returns: from every reachable state the destructor can finish, nobody is
  ever stuck before that, and when it has finished all workers have left, the queue is
  empty, the tasks were taken in the order they were submitted, and the tasks run are the
  tasks submitted.
\<close>

theorem pool_runs_every_task_once:
  assumes "reach (pool_start tsq_ctor fs) (pool_step tsq_push tsq_pop n) s" and "0 < n"
  shows "(\<exists>f. reach s (pool_step tsq_push tsq_pop n) f \<and> pool_closed f)
    \<and> ((\<nexists>s'. pool_step tsq_push tsq_pop n s s') \<longrightarrow> pool_closed s)
    \<and> (\<exists>rest. pl_taken s @ rest = fs)
    \<and> (pool_closed s \<longrightarrow> pl_taken s = fs \<and> mset (map snd (pl_log s)) = mset fs
         \<and> tq_items (pl_queue s) = [] \<and> (\<forall>t<n. pl_worker s t = K_Exit))"
proof -
  have inv: "pool_inv tq_items tsq_idle n fs s" "taken_inv n s"
    using pool_sys.reach_inv [OF assms(1)] by simp_all
  moreover have "\<exists>rest. pl_taken s @ rest = fs" using inv(1) unfolding pool_inv_def by blast
  moreover have "pool_closed s \<longrightarrow> (\<forall>t<n. pl_worker s t = K_Exit)"
    using inv(1) by (auto simp: pool_inv_def pool_closed_def)
  ultimately show ?thesis
    using pool_sys.reaches_final [OF assms(1)] pool_sys.stuck_final [OF assms(1)]
      tsq_pool.pool_closed_result [OF inv _ assms(2)] by blast
qed

theorem pool_runs_every_task_once_witness:
  "\<exists>f. reach (pool_start tsq_ctor [''a'', ''b'']) (pool_step tsq_push tsq_pop 2) f
     \<and> pool_closed f \<and> mset (map snd (pl_log f)) = {#''a'', ''b''#}"
proof -
  let ?s = "pool_start tsq_ctor [''a'', ''b'']" and ?st = "pool_step tsq_push tsq_pop 2"
  obtain f where f: "reach ?s ?st f" "pool_closed f"
    using pool_runs_every_task_once [OF reach_init, of 2 "[''a'', ''b'']"] by auto
  then have "mset (map snd (pl_log f)) = {#''a'', ''b''#}"
    using pool_runs_every_task_once [OF f(1)] by simp
  with f show ?thesis by blast
qed

end
