(* ===== verification/Active_Object.thy ===== *)
theory Active_Object
  imports Thread_Pool
begin

text \<open>
  \<open>day2/x_active_object\<close>: the active object (one worker over the other queue class), and
  the two loggers. The synchronous logger prints each line before the call returns; the
  asynchronous one sends the printing to the active object with the time of the call.
  A printed line is a task; the output is the sequence of tasks run.
\<close>

section \<open>The active object\<close>

definition ao_start :: "'f list \<Rightarrow> ('f option tsq, 'f) pool" where
  "ao_start fs = pool_start aoq_ctor fs"

definition ao_step :: "('f option tsq, 'f) pool \<Rightarrow> ('f option tsq, 'f) pool \<Rightarrow> bool" where
  "ao_step = pool_step aoq_push aoq_pop 1"

interpretation ao_pool: task_queue aoq_push aoq_pop tq_items aoq_idle
  by unfold_locales

lemma ao_terminating:
  "terminating_system (ao_start fs) ao_step
     (\<lambda>s. pool_inv tq_items aoq_idle 1 fs s \<and> taken_inv 1 s) (pool_measure tq_items 1) pool_closed"
  unfolding ao_start_def ao_step_def
  by (rule ao_pool.pool_system) (simp_all add: aoq_ctor_def aoq_idle_def)

interpretation ao_sys: terminating_system "ao_start fs" ao_step
    "\<lambda>s. pool_inv tq_items aoq_idle 1 fs s \<and> taken_inv 1 s" "pool_measure tq_items 1" pool_closed
    for fs
  by (rule ao_terminating)

interpretation ao_serial: invariant_system "ao_start fs" ao_step serial_inv for fs
proof unfold_locales
  show "serial_inv (ao_start fs)" by (simp add: serial_inv_def ao_start_def pool_start_def)
next
  fix s t :: "('a option tsq, 'a) pool"
  assume "serial_inv s" "ao_step s t"
  then show "serial_inv t"
    unfolding ao_step_def
    by (auto elim!: pool_stepE intro: serial_inv_worker serial_inv_owner)
qed

section \<open>The loggers\<close>

text \<open>\<open>time.erase (time.find (newline, 0), 1)\<close>: erasing at \<open>npos\<close> throws.\<close>

definition chop_newline :: "string \<Rightarrow> string option" where
  "chop_newline time =
     (if CHR ''\<newline>'' \<in> set time
      then Some (takeWhile (\<lambda>c. c \<noteq> CHR ''\<newline>'') time @ tl (dropWhile (\<lambda>c. c \<noteq> CHR ''\<newline>'') time))
      else None)"

definition log_line :: "string \<Rightarrow> string \<Rightarrow> string" where
  "log_line time msg = time @ '' >> '' @ msg @ [CHR ''\<newline>'']"

text \<open>
  A program logs messages, each at the time \<open>ctime\<close> gave; \<open>None\<close> when the time has no
  line end. The synchronous logger prints as it goes; the asynchronous one submits.
\<close>

fun logger_message :: "string \<times> string \<Rightarrow> string \<Rightarrow> string option" where
  "logger_message (now, msg) out =
     (case chop_newline now of None \<Rightarrow> None | Some time \<Rightarrow> Some (out @ log_line time msg))"

fun logger_run :: "(string \<times> string) list \<Rightarrow> string \<Rightarrow> string option" where
  "logger_run [] out = Some out"
| "logger_run (m # ms) out =
     (case logger_message m out of None \<Rightarrow> None | Some out' \<Rightarrow> logger_run ms out')"

text \<open>The closure \<open>LoggerAsync::message\<close> sends: the time and the message it captured.\<close>

fun async_message :: "string \<times> string \<Rightarrow> (string \<times> string) option" where
  "async_message (now, msg) = map_option (\<lambda>time. (time, msg)) (chop_newline now)"

fun async_tasks :: "(string \<times> string) list \<Rightarrow> (string \<times> string) list option" where
  "async_tasks [] = Some []"
| "async_tasks (m # ms) =
     (case async_message m of
        None \<Rightarrow> None
      | Some f \<Rightarrow> map_option (\<lambda>fs. f # fs) (async_tasks ms))"

definition async_output :: "(tid \<times> (string \<times> string)) list \<Rightarrow> string" where
  "async_output log = concat (map (\<lambda>(t, time, msg). log_line time msg) log)"

lemma logger_run_async:
  "async_tasks ms = Some fs \<Longrightarrow>
   logger_run ms out = Some (out @ concat (map (\<lambda>(time, msg). log_line time msg) fs))"
  by (induction ms arbitrary: out fs)
    (auto split: option.splits)

lemma async_output_snd:
  "async_output log = concat (map (\<lambda>(time, msg). log_line time msg) (map snd log))"
  by (simp add: async_output_def case_prod_unfold comp_def)

text \<open>
  \<open>main\<close>: four messages, logged at the times \<open>now\<close>, between two lines of its own. \<open>None\<close> as
  above.
\<close>

definition logger_main :: "string list \<Rightarrow> string option" where
  "logger_main now =
     map_option (\<lambda>out. out @ ''Finished logging'' @ [CHR ''\<newline>''])
       (logger_run (zip now [''Hello World'', ''Message 1'', ''Message 2'', ''Message 3''])
          (''Start logging'' @ [CHR ''\<newline>'']))"

text \<open>The times \<open>ctime\<close> gives are a date and a line end: every message is printed, with its date.\<close>

lemma chop_newline_line: "CHR ''\<newline>'' \<notin> set d \<Longrightarrow> chop_newline (d @ [CHR ''\<newline>'']) = Some d"
proof -
  assume "CHR ''\<newline>'' \<notin> set d"
  then have "\<forall>c \<in> set d. c \<noteq> CHR ''\<newline>''" by metis
  then show ?thesis by (simp add: chop_newline_def takeWhile_append2 dropWhile_append2)
qed

lemma logger_main_prints:
  assumes "length ds = 4" "\<forall>d \<in> set ds. CHR ''\<newline>'' \<notin> set d"
  shows "logger_main (map (\<lambda>d. d @ [CHR ''\<newline>'']) ds)
    = Some (''Start logging'' @ [CHR ''\<newline>'']
        @ concat (map2 log_line ds [''Hello World'', ''Message 1'', ''Message 2'', ''Message 3''])
        @ ''Finished logging'' @ [CHR ''\<newline>''])"
proof -
  obtain a b c d where "ds = [a, b, c, d]"
    using assms(1) by (auto simp: numeral_eq_Suc length_Suc_conv)
  with assms(2) show ?thesis by (simp add: logger_main_def chop_newline_line)
qed

section \<open>Properties\<close>

text \<open>
  The asynchronous logger prints what the synchronous one prints: once the active object
  is destroyed, the lines its worker has printed are, in order and without loss, those the
  plain logger would have printed for the same calls. And the destructor always gets there.
\<close>

theorem async_logger_refines_logger:
  assumes "async_tasks ms = Some fs" and "reach (ao_start fs) ao_step s"
  shows "(\<exists>f. reach s ao_step f \<and> pool_closed f)
    \<and> (\<exists>rest. map snd (pl_log s) @ rest = fs)
    \<and> (pool_closed s \<longrightarrow> logger_run ms [] = Some (async_output (pl_log s)))"
proof -
  have inv: "pool_inv tq_items aoq_idle 1 fs s" "taken_inv 1 s"
    using ao_sys.reach_inv [OF assms(2)] by simp_all
  have serial: "pl_taken s = map snd (pl_log s) @ running (pl_worker s 0)"
    using ao_serial.reach_inv [OF assms(2)] by (simp add: serial_inv_def)
  have "map snd (pl_log s) = fs" if "pool_closed s"
  proof -
    have "pl_taken s = fs" using ao_pool.pool_closed_result [OF inv that] by simp
    moreover have "pl_worker s 0 = K_Exit" using inv(1) that
      by (auto simp: pool_inv_def pool_closed_def)
    ultimately show ?thesis using serial by simp
  qed
  then have "pool_closed s \<longrightarrow> logger_run ms [] = Some (async_output (pl_log s))"
    using logger_run_async [OF assms(1), of "[]"] by (simp add: async_output_snd)
  moreover have "\<exists>rest. map snd (pl_log s) @ rest = fs"
    using serial inv(1) unfolding pool_inv_def by (metis append_assoc)
  ultimately show ?thesis using ao_sys.reaches_final [OF assms(2)] by blast
qed

theorem async_logger_refines_logger_witness:
  "\<exists>f. reach (ao_start [(''Mon'', ''hi'')]) ao_step f \<and> pool_closed f
     \<and> async_output (pl_log f) = ''Mon >> hi'' @ [CHR ''\<newline>'']"
proof -
  let ?ms = "[(''Mon'' @ [CHR ''\<newline>''], ''hi'')]"
  have ms: "async_tasks ?ms = Some [(''Mon'', ''hi'')]" by (simp add: chop_newline_def)
  obtain f where f: "reach (ao_start [(''Mon'', ''hi'')]) ao_step f" "pool_closed f"
    using async_logger_refines_logger [OF ms reach_init] by blast
  have "logger_run ?ms [] = Some (async_output (pl_log f))"
    using async_logger_refines_logger [OF ms f(1)] f(2) by blast
  then have "async_output (pl_log f) = ''Mon >> hi'' @ [CHR ''\<newline>'']"
    by (simp add: chop_newline_def log_line_def)
  with f show ?thesis by blast
qed

text \<open>
  \<open>try_pop\<close> of the active object's queue, called on an empty queue, returns \<open>false\<close>
  with the mutex still locked: after it every \<open>push\<close>, \<open>pop\<close> and \<open>try_pop\<close> blocks, whoever
  calls it. The thread pool's queue leaves its state unchanged in the same situation.
\<close>

theorem aoq_try_pop_keeps_the_lock:
  assumes "aoq_idle s" and "tq_items s = []" and "tsq_idle s'" and "tq_items s' = []"
  shows "(\<exists>s1. aoq_try_pop t s = Done (None, s1)
      \<and> aoq_push u x s1 = Block \<and> aoq_pop u s1 = Block \<and> aoq_try_pop u s1 = Block)
    \<and> tsq_try_pop t s' = Done (None, s')"
proof -
  let ?s1 = "s\<lparr>tq_mtx := (mutex_init NORMAL)\<lparr>m_owner := Some t, m_count := 1\<rparr>\<rparr>"
  have "aoq_push u x ?s1 = Block" "aoq_pop u ?s1 = Block" "aoq_try_pop u ?s1 = Block"
    by (simp_all add: aoq_push_def aoq_pop_def aoq_try_pop_def mutex_eval)
  with aoq_try_pop_empty [OF assms(1,2), of t] tsq_try_pop_result [OF assms(3), of t] assms(4)
  show ?thesis by auto
qed

theorem aoq_try_pop_keeps_the_lock_witness:
  "\<exists>s1. aoq_try_pop 0 (aoq_ctor :: int tsq) = Done (None, s1) \<and> aoq_push 1 5 s1 = Block"
  using aoq_try_pop_keeps_the_lock [of aoq_ctor tsq_ctor 0 1 5]
  by (auto simp: aoq_idle_def aoq_ctor_def tsq_idle_def tsq_ctor_def)

end
