(* ===== verification/RW_Tree.thy ===== *)
theory RW_Tree
  imports Safe_Queue "HOL-Library.Tree" "HOL-Library.Multiset"
begin

text \<open>
  The class \<open>btree\<close> of \<open>day2/07a_rwlock_tree\<close>: a binary search tree of heap nodes linked by
  pointers, behind a read-write lock. The heap is explicit: reading or freeing a node that
  is not allocated is \<open>Undefined\<close>, and a recursion that never returns is \<open>None\<close>. The
  pointer operations are shown to refine insertion and search on functional trees, to
  touch nothing but the tree's own nodes, and to return.
\<close>

section \<open>Nodes and the heap\<close>

type_synonym ptr = "nat option"

record node =
  key_value :: int
  nd_left :: ptr
  nd_right :: ptr

text \<open>The heap: the allocated cells, and the address the next \<open>new\<close> returns.\<close>

record heap =
  hp_cells :: "nat \<Rightarrow> node option"
  hp_next :: nat

definition heap_empty :: heap where
  "heap_empty = \<lparr>hp_cells = (\<lambda>a. None), hp_next = 0\<rparr>"

definition load :: "heap \<Rightarrow> ptr \<Rightarrow> node outcome" where
  "load h p =
     (case p of
        None \<Rightarrow> Undefined
      | Some a \<Rightarrow> (case hp_cells h a of None \<Rightarrow> Undefined | Some nd \<Rightarrow> Done nd))"

text \<open>\<open>new node\<close> with its three fields assigned.\<close>

definition new_node :: "int \<Rightarrow> heap \<Rightarrow> nat \<times> heap" where
  "new_node key h =
     (hp_next h,
      h\<lparr>hp_cells := (hp_cells h)(hp_next h \<mapsto> \<lparr>key_value = key, nd_left = None, nd_right = None\<rparr>),
        hp_next := Suc (hp_next h)\<rparr>)"

definition set_left :: "nat \<Rightarrow> ptr \<Rightarrow> heap \<Rightarrow> heap" where
  "set_left a p h =
     h\<lparr>hp_cells := (hp_cells h)(a := map_option (\<lambda>nd. nd\<lparr>nd_left := p\<rparr>) (hp_cells h a))\<rparr>"

definition set_right :: "nat \<Rightarrow> ptr \<Rightarrow> heap \<Rightarrow> heap" where
  "set_right a p h =
     h\<lparr>hp_cells := (hp_cells h)(a := map_option (\<lambda>nd. nd\<lparr>nd_right := p\<rparr>) (hp_cells h a))\<rparr>"

definition delete_node :: "nat \<Rightarrow> heap \<Rightarrow> heap outcome" where
  "delete_node a h =
     (if hp_cells h a = None then Undefined
      else Done (h\<lparr>hp_cells := (hp_cells h)(a := None)\<rparr>))"

section \<open>The private, recursive methods\<close>

partial_function (option) insert_node :: "int \<Rightarrow> nat \<Rightarrow> heap \<Rightarrow> heap outcome option" where
  "insert_node key leaf h =
     (case load h (Some leaf) of
        Done nd \<Rightarrow>
          if key < key_value nd then
            (case nd_left nd of
               Some l \<Rightarrow> insert_node key l h
             | None \<Rightarrow> (case new_node key h of (a, h1) \<Rightarrow> Some (Done (set_left leaf (Some a) h1))))
          else if key \<ge> key_value nd then
            (case nd_right nd of
               Some r \<Rightarrow> insert_node key r h
             | None \<Rightarrow> (case new_node key h of (a, h1) \<Rightarrow> Some (Done (set_right leaf (Some a) h1))))
          else Some (Done h)
      | _ \<Rightarrow> Some Undefined)"

partial_function (option) search_node :: "int \<Rightarrow> ptr \<Rightarrow> heap \<Rightarrow> ptr outcome option" where
  "search_node key leaf h =
     (case leaf of
        None \<Rightarrow> Some (Done None)
      | Some a \<Rightarrow>
          (case load h (Some a) of
             Done nd \<Rightarrow>
               if key = key_value nd then Some (Done (Some a))
               else if key < key_value nd then search_node key (nd_left nd) h
               else search_node key (nd_right nd) h
           | _ \<Rightarrow> Some Undefined))"

text \<open>
  \<open>leaf = NULL\<close> at the end of the source's method clears the parameter, not the caller's
  pointer.
\<close>

partial_function (option) destroy_node :: "ptr \<Rightarrow> heap \<Rightarrow> heap outcome option" where
  "destroy_node leaf h =
     (case leaf of
        None \<Rightarrow> Some (Done h)
      | Some a \<Rightarrow>
          (case load h (Some a) of
             Done nd \<Rightarrow>
               Option.bind (destroy_node (nd_left nd) h) (\<lambda>r.
                 case r of
                   Done h1 \<Rightarrow>
                     (case load h1 (Some a) of
                        Done nd1 \<Rightarrow>
                          Option.bind (destroy_node (nd_right nd1) h1) (\<lambda>r1.
                            case r1 of Done h2 \<Rightarrow> Some (delete_node a h2) | _ \<Rightarrow> Some r1)
                      | _ \<Rightarrow> Some Undefined)
                 | _ \<Rightarrow> Some r)
           | _ \<Rightarrow> Some Undefined))"

section \<open>The public methods\<close>

record btree =
  bt_root :: ptr
  bt_heap :: heap
  bt_lock :: rwlock

definition btree_ctor :: "heap \<Rightarrow> btree" where
  "btree_ctor h = \<lparr>bt_root = None, bt_heap = h, bt_lock = rwlock_init\<rparr>"

text \<open>The error numbers of the lock calls are dropped, as in the source.\<close>

definition btree_wrlock :: "tid \<Rightarrow> btree \<Rightarrow> btree outcome" where
  "btree_wrlock t b =
     and_then (ignore_errno (bt_lock b) (rwlock_wrlock t (bt_lock b))) (\<lambda>l. Done (b\<lparr>bt_lock := l\<rparr>))"

definition btree_rdlock :: "tid \<Rightarrow> btree \<Rightarrow> btree outcome" where
  "btree_rdlock t b =
     and_then (ignore_errno (bt_lock b) (rwlock_rdlock t (bt_lock b))) (\<lambda>l. Done (b\<lparr>bt_lock := l\<rparr>))"

definition btree_unlock :: "tid \<Rightarrow> btree \<Rightarrow> btree outcome" where
  "btree_unlock t b =
     and_then (ignore_errno (bt_lock b) (rwlock_unlock t (bt_lock b))) (\<lambda>l. Done (b\<lparr>bt_lock := l\<rparr>))"

text \<open>The bodies the locks protect.\<close>

definition insert_body :: "int \<Rightarrow> btree \<Rightarrow> btree outcome option" where
  "insert_body key b =
     (case bt_root b of
        Some r \<Rightarrow>
          map_option (\<lambda>x. and_then x (\<lambda>h. Done (b\<lparr>bt_heap := h\<rparr>))) (insert_node key r (bt_heap b))
      | None \<Rightarrow>
          (case new_node key (bt_heap b) of
             (a, h) \<Rightarrow> Some (Done (b\<lparr>bt_root := Some a, bt_heap := h\<rparr>))))"

definition search_body :: "int \<Rightarrow> btree \<Rightarrow> bool outcome option" where
  "search_body key b =
     map_option (\<lambda>x. and_then x (\<lambda>r. Done (r \<noteq> None))) (search_node key (bt_root b) (bt_heap b))"

definition destroy_body :: "btree \<Rightarrow> btree outcome option" where
  "destroy_body b =
     map_option (\<lambda>x. and_then x (\<lambda>h. Done (b\<lparr>bt_heap := h\<rparr>))) (destroy_node (bt_root b) (bt_heap b))"

text \<open>Running a locked body: \<open>None\<close> only when the body does not return.\<close>

fun and_run :: "'a outcome \<Rightarrow> ('a \<Rightarrow> 'b outcome option) \<Rightarrow> 'b outcome option" where
  "and_run (Done x) f = f x"
| "and_run Block f = Some Block"
| "and_run (Fail e) f = Some (Fail e)"
| "and_run Undefined f = Some Undefined"

definition btree_insert :: "tid \<Rightarrow> int \<Rightarrow> btree \<Rightarrow> btree outcome option" where
  "btree_insert t key b =
     and_run (btree_wrlock t b) (\<lambda>b1.
       map_option (\<lambda>x. and_then x (btree_unlock t)) (insert_body key b1))"

definition btree_search :: "tid \<Rightarrow> int \<Rightarrow> btree \<Rightarrow> (bool \<times> btree) outcome option" where
  "btree_search t key b =
     and_run (btree_rdlock t b) (\<lambda>b1.
       map_option (\<lambda>x. and_then x (\<lambda>found. and_then (btree_unlock t b1) (\<lambda>b2. Done (found, b2))))
         (search_body key b1))"

definition btree_destroy_tree :: "tid \<Rightarrow> btree \<Rightarrow> btree outcome option" where
  "btree_destroy_tree t b =
     and_run (btree_wrlock t b) (\<lambda>b1.
       map_option (\<lambda>x. and_then x (btree_unlock t)) (destroy_body b1))"

text \<open>
  The destructor destroys the tree, then the lock, which leaves nothing to see: the object is
  gone, its heap remains.
\<close>

definition btree_dtor :: "tid \<Rightarrow> btree \<Rightarrow> heap outcome option" where
  "btree_dtor t b =
     map_option (\<lambda>x. and_then x (\<lambda>b1. Done (bt_heap b1))) (btree_destroy_tree t b)"

section \<open>Trees in the heap\<close>

text \<open>\<open>tree_at c p t\<close>: the cells \<open>c\<close> hold at \<open>p\<close> the tree \<open>t\<close> of addresses and keys.\<close>

fun tree_at :: "(nat \<Rightarrow> node option) \<Rightarrow> ptr \<Rightarrow> (nat \<times> int) tree \<Rightarrow> bool" where
  "tree_at c p Leaf \<longleftrightarrow> p = None"
| "tree_at c p (Node l (a, k) r) \<longleftrightarrow>
     p = Some a
     \<and> (case c a of
          None \<Rightarrow> False
        | Some nd \<Rightarrow> key_value nd = k \<and> tree_at c (nd_left nd) l \<and> tree_at c (nd_right nd) r)"

definition addrs :: "(nat \<times> int) tree \<Rightarrow> nat set" where
  "addrs t = fst ` set_tree t"

definition keys :: "(nat \<times> int) tree \<Rightarrow> int multiset" where
  "keys t = image_mset snd (mset (inorder t))"

lemma addrs_simps [simp]:
  "addrs Leaf = {}"
  "addrs (Node l (a, k) r) = insert a (addrs l \<union> addrs r)"
  by (auto simp: addrs_def)

lemma keys_simps [simp]:
  "keys Leaf = {#}"
  "keys (Node l (a, k) r) = add_mset k (keys l + keys r)"
  by (simp_all add: keys_def)

text \<open>No node occurs twice: the pointer structure is a tree.\<close>

fun separate :: "(nat \<times> int) tree \<Rightarrow> bool" where
  "separate Leaf \<longleftrightarrow> True"
| "separate (Node l (a, k) r) \<longleftrightarrow>
     separate l \<and> separate r \<and> a \<notin> addrs l \<and> a \<notin> addrs r \<and> addrs l \<inter> addrs r = {}"

text \<open>Smaller keys to the left, equal and greater keys to the right.\<close>

fun ordered :: "(nat \<times> int) tree \<Rightarrow> bool" where
  "ordered Leaf \<longleftrightarrow> True"
| "ordered (Node l (a, k) r) \<longleftrightarrow>
     ordered l \<and> ordered r \<and> (\<forall>x \<in># keys l. x < k) \<and> (\<forall>x \<in># keys r. k \<le> x)"

text \<open>The functional insertion the heap insertion refines: \<open>a\<close> is the new node's address.\<close>

fun place :: "nat \<Rightarrow> int \<Rightarrow> (nat \<times> int) tree \<Rightarrow> (nat \<times> int) tree" where
  "place a key Leaf = Node Leaf (a, key) Leaf"
| "place a key (Node l (b, k) r) =
     (if key < k then Node (place a key l) (b, k) r else Node l (b, k) (place a key r))"

lemma addrs_place [simp]: "addrs (place a key t) = insert a (addrs t)"
  by (induction a key t rule: place.induct) auto

lemma keys_place [simp]: "keys (place a key t) = add_mset key (keys t)"
  by (induction a key t rule: place.induct) auto

lemma separate_place: "separate t \<Longrightarrow> a \<notin> addrs t \<Longrightarrow> separate (place a key t)"
  by (induction a key t rule: place.induct) auto

lemma ordered_place: "ordered t \<Longrightarrow> ordered (place a key t)"
  by (induction a key t rule: place.induct) auto

lemma tree_at_frame: "(\<And>a. a \<in> addrs t \<Longrightarrow> c' a = c a) \<Longrightarrow> tree_at c' p t = tree_at c p t"
  by (induction c p t rule: tree_at.induct) (auto split: option.split)

lemma tree_at_alloc: "tree_at c p t \<Longrightarrow> a \<in> addrs t \<Longrightarrow> c a \<noteq> None"
  by (induction c p t rule: tree_at.induct) (auto split: option.splits)

lemma tree_at_Leaf_iff: "tree_at c p t \<Longrightarrow> t = Leaf \<longleftrightarrow> p = None"
  by (cases "(c, p, t)" rule: tree_at.cases) auto

text \<open>Addresses not yet handed out are free.\<close>

definition heap_ok :: "heap \<Rightarrow> bool" where
  "heap_ok h \<longleftrightarrow> (\<forall>a \<ge> hp_next h. hp_cells h a = None)"

lemma heap_ok_fresh: "heap_ok h \<Longrightarrow> tree_at (hp_cells h) p t \<Longrightarrow> hp_next h \<notin> addrs t"
  using tree_at_alloc by (fastforce simp: heap_ok_def)

section \<open>Insertion, search and destruction refine the functional tree\<close>

text \<open>The heap after inserting \<open>key\<close> below \<open>p\<close>: the placed tree, and nothing else touched.\<close>

definition inserted :: "int \<Rightarrow> ptr \<Rightarrow> (nat \<times> int) tree \<Rightarrow> heap \<Rightarrow> heap \<Rightarrow> bool" where
  "inserted key p t h h' \<longleftrightarrow>
     tree_at (hp_cells h') p (place (hp_next h) key t)
     \<and> hp_next h' = Suc (hp_next h)
     \<and> (\<forall>a. a \<notin> insert (hp_next h) (addrs t) \<longrightarrow> hp_cells h' a = hp_cells h a)"

text \<open>A new node hung below a node of the tree, and an insertion further down.\<close>

lemma inserted_new:
  assumes "hp_cells h a = Some nd" and fresh: "hp_next h \<noteq> a" "hp_next h \<notin> addrs l \<union> addrs r"
    and "a \<notin> addrs l \<union> addrs r"
    and l: "tree_at (hp_cells h) (nd_left nd) l" and r: "tree_at (hp_cells h) (nd_right nd) r"
  shows
    "key < key_value nd \<Longrightarrow> l = Leaf \<Longrightarrow> inserted key (Some a) (Node l (a, key_value nd) r) h
       (set_left a (Some (hp_next h)) (snd (new_node key h)))"
    "\<not> key < key_value nd \<Longrightarrow> r = Leaf \<Longrightarrow> inserted key (Some a) (Node l (a, key_value nd) r) h
       (set_right a (Some (hp_next h)) (snd (new_node key h)))"
proof -
  have fr: "tree_at ((hp_cells h)(hp_next h := x, a := y)) q u"
    if "tree_at (hp_cells h) q u" "addrs u \<subseteq> addrs l \<union> addrs r" for x y q u
    using that assms by (subst tree_at_frame [where c = "hp_cells h"]) auto
  show "key < key_value nd \<Longrightarrow> l = Leaf \<Longrightarrow> inserted key (Some a) (Node l (a, key_value nd) r) h
       (set_left a (Some (hp_next h)) (snd (new_node key h)))"
    using assms(1) fresh fr [OF r] by (auto simp: inserted_def new_node_def set_left_def)
  show "\<not> key < key_value nd \<Longrightarrow> r = Leaf \<Longrightarrow> inserted key (Some a) (Node l (a, key_value nd) r) h
       (set_right a (Some (hp_next h)) (snd (new_node key h)))"
    using assms(1) fresh fr [OF l] by (auto simp: inserted_def new_node_def set_right_def)
qed

lemma inserted_below:
  assumes "hp_cells h a = Some nd" and fresh: "hp_next h \<noteq> a" "hp_next h \<notin> addrs l \<union> addrs r"
    and "a \<notin> addrs l" "a \<notin> addrs r" "addrs l \<inter> addrs r = {}"
    and l: "tree_at (hp_cells h) (nd_left nd) l" and r: "tree_at (hp_cells h) (nd_right nd) r"
  shows
    "key < key_value nd \<Longrightarrow> inserted key (nd_left nd) l h h' \<Longrightarrow>
     inserted key (Some a) (Node l (a, key_value nd) r) h h'"
    "\<not> key < key_value nd \<Longrightarrow> inserted key (nd_right nd) r h h' \<Longrightarrow>
     inserted key (Some a) (Node l (a, key_value nd) r) h h'"
proof -
  have fr: "tree_at (hp_cells h') q u = tree_at (hp_cells h) q u"
    if "\<forall>b. b \<notin> insert (hp_next h) (addrs v) \<longrightarrow> hp_cells h' b = hp_cells h b"
      "addrs u \<inter> addrs v = {}" "hp_next h \<notin> addrs u" for q u v
    using that by (intro tree_at_frame) (metis disjoint_iff insert_iff)
  show "key < key_value nd \<Longrightarrow> inserted key (nd_left nd) l h h' \<Longrightarrow>
     inserted key (Some a) (Node l (a, key_value nd) r) h h'"
    using assms fr [of l r] by (auto simp: inserted_def)
  show "\<not> key < key_value nd \<Longrightarrow> inserted key (nd_right nd) r h h' \<Longrightarrow>
     inserted key (Some a) (Node l (a, key_value nd) r) h h'"
    using assms fr [of r l] by (auto simp: inserted_def)
qed

lemma insert_node_refines:
  assumes "tree_at (hp_cells h) (Some p) t" and "separate t" and "heap_ok h"
  shows "\<exists>h'. insert_node key p h = Some (Done h') \<and> inserted key (Some p) t h h'"
  using assms
proof (induction t arbitrary: p)
  case Leaf
  then show ?case by simp
next
  case (Node l ak r)
  obtain a k where ak: "ak = (a, k)" by (cases ak)
  from Node.prems(1) ak obtain nd where pa: "p = a" and nd: "hp_cells h a = Some nd"
    "key_value nd = k" "tree_at (hp_cells h) (nd_left nd) l" "tree_at (hp_cells h) (nd_right nd) r"
    by (auto split: option.splits)
  have sep: "separate l" "separate r" "a \<notin> addrs l" "a \<notin> addrs r" "addrs l \<inter> addrs r = {}"
    using Node.prems(2) ak by simp_all
  have fresh: "hp_next h \<noteq> a" "hp_next h \<notin> addrs l \<union> addrs r"
    using heap_ok_fresh [OF Node.prems(3,1)] ak by auto
  note new = inserted_new [OF nd(1) fresh _ nd(3,4), of key]
    and below = inserted_below [OF nd(1) fresh sep(3-5) nd(3,4), of key]
  have leaf: "nd_left nd = None \<Longrightarrow> l = Leaf" "nd_right nd = None \<Longrightarrow> r = Leaf"
    using nd(3,4) tree_at_Leaf_iff by blast+
  have step: "insert_node key a h =
      (if key < k
       then case nd_left nd of Some q \<Rightarrow> insert_node key q h
              | None \<Rightarrow> Some (Done (set_left a (Some (hp_next h)) (snd (new_node key h))))
       else case nd_right nd of Some q \<Rightarrow> insert_node key q h
              | None \<Rightarrow> Some (Done (set_right a (Some (hp_next h)) (snd (new_node key h)))))"
    using nd by (subst insert_node.simps) (simp add: load_def new_node_def split: option.split)
  show ?case
  proof (cases "key < k")
    case True
    show ?thesis
    proof (cases "nd_left nd")
      case None
      with True step new(1) leaf(1) sep(3,4) pa ak nd(2) show ?thesis by auto
    next
      case (Some q)
      with Node.IH(1) nd(3) sep(1) Node.prems(3) obtain h' where
        "insert_node key q h = Some (Done h')" "inserted key (Some q) l h h'" by fastforce
      with True Some step below(1) pa ak nd(2) show ?thesis by auto
    qed
  next
    case False
    show ?thesis
    proof (cases "nd_right nd")
      case None
      with False step new(2) leaf(2) sep(3,4) pa ak nd(2) show ?thesis by auto
    next
      case (Some q)
      with Node.IH(2) nd(4) sep(2) Node.prems(3) obtain h' where
        "insert_node key q h = Some (Done h')" "inserted key (Some q) r h h'" by fastforce
      with False Some step below(2) pa ak nd(2) show ?thesis by auto
    qed
  qed
qed

lemma search_node_refines:
  assumes "tree_at (hp_cells h) p t" and "ordered t"
  shows "\<exists>r. search_node key p h = Some (Done r) \<and> (r \<noteq> None \<longleftrightarrow> key \<in># keys t)
    \<and> (\<forall>a. r = Some a \<longrightarrow> (\<exists>nd. hp_cells h a = Some nd \<and> key_value nd = key))"
  using assms
proof (induction t arbitrary: p)
  case Leaf
  then show ?case by (simp add: search_node.simps)
next
  case (Node l ak r)
  obtain a k where ak: "ak = (a, k)" by (cases ak)
  from Node.prems(1) ak obtain nd where pa: "p = Some a" and nd: "hp_cells h a = Some nd"
    "key_value nd = k" "tree_at (hp_cells h) (nd_left nd) l" "tree_at (hp_cells h) (nd_right nd) r"
    by (auto split: option.splits)
  have ord: "ordered l" "ordered r" "\<forall>x \<in># keys l. x < k" "\<forall>x \<in># keys r. k \<le> x"
    using Node.prems(2) ak by simp_all
  have step: "search_node key p h =
      (if key = k then Some (Done (Some a))
       else if key < k then search_node key (nd_left nd) h else search_node key (nd_right nd) h)"
    using pa nd by (subst search_node.simps) (simp add: load_def)
  show ?case
  proof (cases "key = k")
    case True
    with step nd(1,2) ak show ?thesis by auto
  next
    case False
    with Node.IH(1) [OF nd(3) ord(1)] Node.IH(2) [OF nd(4) ord(2)] ord(3,4) ak step show ?thesis
      by (cases "key < k") auto
  qed
qed

text \<open>Destruction frees exactly the cells of the tree.\<close>

definition freed :: "nat set \<Rightarrow> heap \<Rightarrow> heap \<Rightarrow> bool" where
  "freed as h h' \<longleftrightarrow>
     (\<forall>a. hp_cells h' a = (if a \<in> as then None else hp_cells h a)) \<and> hp_next h' = hp_next h"

lemma destroy_node_refines:
  assumes "tree_at (hp_cells h) p t" and "separate t"
  shows "\<exists>h'. destroy_node p h = Some (Done h') \<and> freed (addrs t) h h'"
  using assms
proof (induction t arbitrary: p h)
  case Leaf
  then show ?case by (simp add: destroy_node.simps freed_def)
next
  case (Node l ak r)
  obtain a k where ak: "ak = (a, k)" by (cases ak)
  from Node.prems(1) ak obtain nd where pa: "p = Some a" and nd: "hp_cells h a = Some nd"
    "tree_at (hp_cells h) (nd_left nd) l" "tree_at (hp_cells h) (nd_right nd) r"
    by (auto split: option.splits)
  have sep: "separate l" "separate r" "a \<notin> addrs l" "a \<notin> addrs r" "addrs l \<inter> addrs r = {}"
    using Node.prems(2) ak by simp_all
  from Node.IH(1) nd(2) sep(1) obtain h1 where
    h1: "destroy_node (nd_left nd) h = Some (Done h1)" "freed (addrs l) h h1" by blast
  have a1: "hp_cells h1 a = Some nd" using h1(2) nd(1) sep(3) by (simp add: freed_def)
  have "tree_at (hp_cells h1) (nd_right nd) r"
    using nd(3) h1(2) sep(5)
    by (subst tree_at_frame [where c = "hp_cells h"]) (auto simp: freed_def)
  with Node.IH(2) sep(2) obtain h2 where
    h2: "destroy_node (nd_right nd) h1 = Some (Done h2)" "freed (addrs r) h1 h2" by blast
  have a2: "hp_cells h2 a = Some nd" using h2(2) a1 sep(4) by (simp add: freed_def)
  have "destroy_node p h = Some (delete_node a h2)"
    using pa nd(1) h1(1) h2(1) a1 by (subst destroy_node.simps) (simp add: load_def)
  then show ?case
    using a2 h1(2) h2(2) ak by (auto simp: delete_node_def freed_def)
qed

section \<open>The contract of the class\<close>

text \<open>
  The object holds the multiset \<open>M\<close> of keys: its pointers form an ordered tree with these
  keys, and the allocated cells are exactly the tree's nodes.
\<close>

definition tree_of :: "btree \<Rightarrow> (nat \<times> int) tree \<Rightarrow> bool" where
  "tree_of b t \<longleftrightarrow>
     tree_at (hp_cells (bt_heap b)) (bt_root b) t \<and> separate t \<and> ordered t
     \<and> heap_ok (bt_heap b) \<and> (\<forall>a. hp_cells (bt_heap b) a \<noteq> None \<longleftrightarrow> a \<in> addrs t)"

definition holds_keys :: "btree \<Rightarrow> int multiset \<Rightarrow> bool" where
  "holds_keys b M \<longleftrightarrow> (\<exists>t. tree_of b t \<and> keys t = M)"

lemma tree_of_lock [simp]: "tree_of (b\<lparr>bt_lock := l\<rparr>) t = tree_of b t"
  by (simp add: tree_of_def)

lemma holds_keys_lock [simp]: "holds_keys (b\<lparr>bt_lock := l\<rparr>) M = holds_keys b M"
  by (simp add: holds_keys_def)

lemma holds_keys_ctor: "holds_keys (btree_ctor heap_empty) {#}"
  by (auto simp: holds_keys_def tree_of_def btree_ctor_def heap_empty_def heap_ok_def
    intro!: exI [of _ Leaf])

lemma insert_body_tree:
  assumes "tree_of b t"
  shows "\<exists>b' a. insert_body key b = Some (Done b') \<and> tree_of b' (place a key t)
    \<and> bt_lock b' = bt_lock b"
proof (cases "bt_root b")
  case None
  with assms have "t = Leaf" using tree_at_Leaf_iff by (auto simp: tree_of_def)
  with None assms show ?thesis
    by (auto simp: insert_body_def new_node_def tree_of_def heap_ok_def)
next
  case (Some r)
  let ?h = "bt_heap b"
  from assms Some have t: "tree_at (hp_cells ?h) (Some r) t" "separate t" "heap_ok ?h"
    by (simp_all add: tree_of_def)
  then obtain h' where h': "insert_node key r ?h = Some (Done h')" "inserted key (Some r) t ?h h'"
    using insert_node_refines by blast
  have "hp_next ?h \<notin> addrs t" using t by (blast dest: heap_ok_fresh)
  have at: "tree_at (hp_cells h') (Some r) (place (hp_next ?h) key t)" using h'(2)
    by (simp add: inserted_def)
  have "hp_cells h' a \<noteq> None \<longleftrightarrow> a \<in> addrs (place (hp_next ?h) key t)" for a
  proof (cases "a \<in> addrs (place (hp_next ?h) key t)")
    case True
    with tree_at_alloc [OF at] show ?thesis by blast
  next
    case False
    then have "hp_cells h' a = hp_cells ?h a" "a \<notin> addrs t" using h'(2)
      by (simp_all add: inserted_def)
    with False assms show ?thesis by (simp add: tree_of_def)
  qed
  moreover have "heap_ok h'"
    unfolding heap_ok_def
  proof (intro allI impI)
    fix a
    assume "hp_next h' \<le> a"
    then have a: "a \<noteq> hp_next ?h" "hp_next ?h \<le> a" using h'(2) by (auto simp: inserted_def)
    moreover have "hp_cells ?h a = None" using t(3) a(2) by (simp add: heap_ok_def)
    moreover from this have "a \<notin> addrs t" using assms unfolding tree_of_def by blast
    ultimately show "hp_cells h' a = None" using h'(2) by (simp add: inserted_def)
  qed
  ultimately have "tree_of (b\<lparr>bt_heap := h'\<rparr>) (place (hp_next ?h) key t)"
    using at assms Some \<open>hp_next ?h \<notin> addrs t\<close>
    by (simp add: tree_of_def separate_place ordered_place)
  with h'(1) Some show ?thesis by (auto simp: insert_body_def)
qed

lemma insert_body_keys:
  "holds_keys b M \<Longrightarrow>
   \<exists>b'. insert_body key b = Some (Done b') \<and> holds_keys b' (add_mset key M) \<and> bt_lock b' = bt_lock b"
  using insert_body_tree by (fastforce simp: holds_keys_def)

lemma search_body_keys:
  assumes "holds_keys b M"
  shows "search_body key b = Some (Done (key \<in># M))"
proof -
  from assms obtain t where "tree_of b t" "keys t = M" by (auto simp: holds_keys_def)
  then obtain r where "search_node key (bt_root b) (bt_heap b) = Some (Done r)"
    "r \<noteq> None \<longleftrightarrow> key \<in># M"
    using search_node_refines [of "bt_heap b" "bt_root b" t key] by (auto simp: tree_of_def)
  then show ?thesis by (auto simp: search_body_def)
qed

lemmas btree_lock_eval = btree_wrlock_def btree_rdlock_def btree_unlock_def rwlock_wrlock_def
  rwlock_rdlock_def rwlock_unlock_def rwlock_init_def

text \<open>
  The interface of a searchable store, its calls made one after another, and what a
  program that fills it and looks keys up relies on.
\<close>

locale key_store =
  fixes ins :: "tid \<Rightarrow> int \<Rightarrow> 'b \<Rightarrow> 'b outcome option"
    and srch :: "tid \<Rightarrow> int \<Rightarrow> 'b \<Rightarrow> (bool \<times> 'b) outcome option"
    and holds :: "'b \<Rightarrow> int multiset \<Rightarrow> bool"
  assumes ins_holds: "holds b M \<Longrightarrow> \<exists>b'. ins t k b = Some (Done b') \<and> holds b' (add_mset k M)"
    and srch_holds: "holds b M \<Longrightarrow> \<exists>b'. srch t k b = Some (Done (k \<in># M, b')) \<and> holds b' M"

text \<open>The loops of \<open>tree_writer\<close> and of one round of \<open>tree_reader\<close>, over the indices left.\<close>

fun writer_loop ::
  "(tid \<Rightarrow> int \<Rightarrow> 'b \<Rightarrow> 'b outcome option) \<Rightarrow> tid \<Rightarrow> nat list \<Rightarrow> 'b \<Rightarrow> 'b outcome option" where
  "writer_loop ins t [] b = Some (Done b)"
| "writer_loop ins t (i # is) b =
     Option.bind (ins t (int i) b) (\<lambda>r. and_run r (writer_loop ins t is))"

fun reader_round ::
  "(tid \<Rightarrow> int \<Rightarrow> 'b \<Rightarrow> (bool \<times> 'b) outcome option) \<Rightarrow> tid \<Rightarrow> nat list \<Rightarrow> 'b \<Rightarrow>
   (nat list \<times> 'b) outcome option" where
  "reader_round srch t [] b = Some (Done ([], b))"
| "reader_round srch t (i # is) b =
     Option.bind (srch t (int i) b) (\<lambda>r. and_run r (\<lambda>(found, b1).
       map_option (\<lambda>x. and_then x (\<lambda>(fs, b2). Done (if found then i # fs else fs, b2)))
         (reader_round srch t is b1)))"

context key_store
begin

lemma writer_loop_holds:
  "holds b M \<Longrightarrow>
   \<exists>b'. writer_loop ins t is b = Some (Done b') \<and> holds b' (M + image_mset int (mset is))"
proof (induction "is" arbitrary: b M)
  case Nil
  then show ?case by simp
next
  case (Cons i "is")
  then show ?case using ins_holds [of b M t "int i"] by fastforce
qed

lemma reader_round_holds:
  "holds b M \<Longrightarrow>
   \<exists>b'. reader_round srch t is b = Some (Done (filter (\<lambda>i. int i \<in># M) is, b')) \<and> holds b' M"
proof (induction "is" arbitrary: b)
  case Nil
  then show ?case by simp
next
  case (Cons i "is")
  then show ?case using srch_holds [of b M t "int i"] by fastforce
qed

end

interpretation bt_store: key_store btree_insert btree_search
    "\<lambda>b M. holds_keys b M \<and> bt_lock b = rwlock_init"
proof unfold_locales
  fix b M t k
  assume h: "holds_keys b M \<and> bt_lock b = rwlock_init"
  let ?b1 = "b\<lparr>bt_lock := rwlock_init\<lparr>rw_writer := Some t\<rparr>\<rparr>"
  from h have "holds_keys ?b1 M" by simp
  then obtain b' where b': "insert_body k ?b1 = Some (Done b')" "holds_keys b' (add_mset k M)"
    "bt_lock b' = bt_lock ?b1" using insert_body_keys by blast
  with h show "\<exists>b'. btree_insert t k b = Some (Done b')
      \<and> holds_keys b' (add_mset k M) \<and> bt_lock b' = rwlock_init"
    by (auto simp: btree_insert_def btree_lock_eval)
next
  fix b M t k
  assume h: "holds_keys b M \<and> bt_lock b = rwlock_init"
  have "holds_keys (b\<lparr>bt_lock := l\<rparr>) M" for l using h by simp
  then have "search_body k (b\<lparr>bt_lock := l\<rparr>) = Some (Done (k \<in># M))" for l
    by (rule search_body_keys)
  with h show "\<exists>b'. btree_search t k b = Some (Done (k \<in># M, b'))
      \<and> holds_keys b' M \<and> bt_lock b' = rwlock_init"
    by (auto simp: btree_search_def btree_lock_eval)
qed

section \<open>Destruction\<close>

lemma destroy_body_tree:
  assumes "tree_of b t"
  shows "\<exists>h. destroy_body b = Some (Done (b\<lparr>bt_heap := h\<rparr>)) \<and> (\<forall>a. hp_cells h a = None)"
proof -
  from assms obtain h where "destroy_node (bt_root b) (bt_heap b) = Some (Done h)"
    "freed (addrs t) (bt_heap b) h"
    using destroy_node_refines by (fastforce simp: tree_of_def)
  moreover from this(2) assms have "\<forall>a. hp_cells h a = None"
    by (auto simp: freed_def tree_of_def)
  ultimately show ?thesis by (auto simp: destroy_body_def)
qed

lemma destroy_tree_result:
  assumes "tree_of b t" and "bt_lock b = rwlock_init"
  shows "\<exists>h. btree_destroy_tree u b = Some (Done (b\<lparr>bt_heap := h\<rparr>)) \<and> (\<forall>a. hp_cells h a = None)"
proof -
  have "tree_of (b\<lparr>bt_lock := rwlock_init\<lparr>rw_writer := Some u\<rparr>\<rparr>) t" using assms(1) by simp
  from destroy_body_tree [OF this] obtain h where
    "destroy_body (b\<lparr>bt_lock := rwlock_init\<lparr>rw_writer := Some u\<rparr>\<rparr>)
      = Some (Done (b\<lparr>bt_lock := rwlock_init\<lparr>rw_writer := Some u\<rparr>, bt_heap := h\<rparr>))"
    "\<forall>a. hp_cells h a = None" by auto
  with assms(2) show ?thesis
    by (cases b) (auto simp: btree_destroy_tree_def btree_lock_eval)
qed

lemma destroy_dangling:
  "bt_root b = Some a \<Longrightarrow> hp_cells (bt_heap b) a = None \<Longrightarrow> destroy_body b = Some Undefined"
  by (simp add: destroy_body_def destroy_node.simps load_def)

section \<open>Properties\<close>

text \<open>
  C13: \<open>btree::insert\<close>, pointer by pointer, refines insertion into a functional search tree:
  on an object whose heap cells are the ordered tree \<open>t\<close> it returns, has linked in one new
  node with the key at the place the functional insertion puts it, has left every other
  cell alone, and has released the write lock.
\<close>

theorem btree_insert_refines:
  assumes "tree_of b t" and "bt_lock b = rwlock_init"
  shows "\<exists>b' a. btree_insert u key b = Some (Done b') \<and> tree_of b' (place a key t)
    \<and> bt_lock b' = rwlock_init"
proof -
  have "tree_of (b\<lparr>bt_lock := rwlock_init\<lparr>rw_writer := Some u\<rparr>\<rparr>) t" using assms(1) by simp
  from insert_body_tree [OF this, of key] obtain b' a where
    "insert_body key (b\<lparr>bt_lock := rwlock_init\<lparr>rw_writer := Some u\<rparr>\<rparr>) = Some (Done b')"
    "tree_of b' (place a key t)" "bt_lock b' = rwlock_init\<lparr>rw_writer := Some u\<rparr>" by auto
  with assms(2) show ?thesis by (auto simp: btree_insert_def btree_lock_eval)
qed

lemma tree_of_empty: "tree_of (btree_ctor heap_empty) Leaf"
  by (simp add: tree_of_def btree_ctor_def heap_empty_def heap_ok_def)

theorem btree_insert_refines_witness:
  "\<exists>b' a. btree_insert 3 42 (btree_ctor heap_empty) = Some (Done b')
     \<and> tree_of b' (place a 42 Leaf)"
  using btree_insert_refines [OF tree_of_empty, of 3 42] by (auto simp: btree_ctor_def)

text \<open>
  After \<open>tree_writer\<close> has inserted any list of indices into a fresh \<open>btree\<close>, a round of
  \<open>tree_reader\<close> over any indices returns and reports found exactly those the writer
  inserted.
\<close>

theorem writer_then_reader:
  "\<exists>b1 b2. writer_loop btree_insert t is (btree_ctor heap_empty) = Some (Done b1)
     \<and> reader_round btree_search u js b1 = Some (Done (filter (\<lambda>j. j \<in> set is) js, b2))"
proof -
  have "holds_keys (btree_ctor heap_empty) {#} \<and> bt_lock (btree_ctor heap_empty) = rwlock_init"
    using holds_keys_ctor by (simp add: btree_ctor_def)
  from bt_store.writer_loop_holds [OF this, of t "is"] obtain b1 where
    b1: "writer_loop btree_insert t is (btree_ctor heap_empty) = Some (Done b1)"
    and h: "holds_keys b1 ({#} + image_mset int (mset is)) \<and> bt_lock b1 = rwlock_init" by blast
  from bt_store.reader_round_holds [OF h, of u js] obtain b2 where
    "reader_round btree_search u js b1
      = Some (Done (filter (\<lambda>j. int j \<in># {#} + image_mset int (mset is)) js, b2))" by blast
  moreover have "(\<lambda>j. int j \<in># {#} + image_mset int (mset is)) = (\<lambda>j. j \<in> set is)" by auto
  ultimately show ?thesis using b1 by auto
qed



text \<open>
  \<open>destroy_tree\<close> leaves \<open>root\<close> pointing at the freed node, so on a tree that is not
  empty a call of the public \<open>destroy_tree\<close> followed by the destructor reads and frees
  memory already freed: undefined behaviour.
\<close>

theorem destroy_tree_then_dtor_undefined:
  assumes "tree_of b t" and "bt_lock b = rwlock_init" and "t \<noteq> Leaf"
  shows "\<exists>b'. btree_destroy_tree u b = Some (Done b') \<and> btree_dtor v b' = Some Undefined"
proof -
  from destroy_tree_result [OF assms(1,2), of u] obtain h where
    h: "btree_destroy_tree u b = Some (Done (b\<lparr>bt_heap := h\<rparr>))" "\<forall>a. hp_cells h a = None" by blast
  from assms obtain a where "bt_root b = Some a"
    using tree_at_Leaf_iff by (fastforce simp: tree_of_def)
  with h(2) have "destroy_body (b\<lparr>bt_heap := h, bt_lock := l\<rparr>) = Some Undefined" for l
    by (intro destroy_dangling [of _ a]) simp_all
  with assms(2) have "btree_dtor v (b\<lparr>bt_heap := h\<rparr>) = Some Undefined"
    by (simp add: btree_dtor_def btree_destroy_tree_def btree_lock_eval)
  with h(1) show ?thesis by blast
qed

theorem destroy_tree_then_dtor_undefined_witness:
  "\<exists>b b'. btree_insert 0 5 (btree_ctor heap_empty) = Some (Done b)
     \<and> btree_destroy_tree 0 b = Some (Done b') \<and> btree_dtor 0 b' = Some Undefined"
proof -
  obtain b a where b: "btree_insert 0 5 (btree_ctor heap_empty) = Some (Done b)"
    "tree_of b (place a 5 Leaf)" "bt_lock b = rwlock_init"
  proof -
    have "holds_keys (btree_ctor heap_empty) {#}" by (rule holds_keys_ctor)
    have "tree_of (btree_ctor heap_empty\<lparr>bt_lock := rwlock_init\<lparr>rw_writer := Some 0\<rparr>\<rparr>) Leaf"
      using tree_of_empty by simp
    from insert_body_tree [OF this, of 5] show thesis
      using that by (auto simp: btree_insert_def btree_lock_eval btree_ctor_def)
  qed
  with destroy_tree_then_dtor_undefined [OF b(2,3), of 0 0] show ?thesis by auto
qed

end
