(* ===== verification/RW_Threads.thy ===== *)
theory RW_Threads
  imports RW_Tree
begin

text \<open>
  The two programs of \<open>day2/07a_rwlock_tree\<close> under interleaving: \<open>main_example_01\<close>, whose
  writers and readers enter and leave the read-write lock for ever, and
  \<open>main_example_02\<close>, whose writer fills a \<open>btree\<close> while readers search it. Sleeping and
  printing are not steps. The lemmas: a writer excludes everyone, a search sees exactly the
  inserts completed before it, nobody is stuck, and the second program ends with every key
  in the tree.
\<close>

section \<open>The lock and the threads inside it\<close>

text \<open>
  \<open>wr\<close> and \<open>rd\<close> say which threads are inside as writer and as reader; the lock agrees.
\<close>

definition rw_agrees :: "nat \<Rightarrow> rwlock \<Rightarrow> (tid \<Rightarrow> bool) \<Rightarrow> (tid \<Rightarrow> bool) \<Rightarrow> bool" where
  "rw_agrees n l wr rd \<longleftrightarrow>
     (\<forall>t<n. wr t \<longleftrightarrow> rw_writer l = Some t)
     \<and> (\<forall>t<n. rd t \<longleftrightarrow> t \<in> set (rw_readers l))
     \<and> distinct (rw_readers l)
     \<and> (\<forall>t. rw_writer l = Some t \<or> t \<in> set (rw_readers l) \<longrightarrow> t < n)
     \<and> rwlock_ok l"

lemma rw_agrees_excl:
  "rw_agrees n l wr rd \<Longrightarrow> t < n \<Longrightarrow> u < n \<Longrightarrow> wr t \<Longrightarrow> (wr u \<longrightarrow> u = t) \<and> \<not> rd u"
  by (auto simp: rw_agrees_def rwlock_ok_def)

lemma rw_agrees_wrlock:
  assumes "rw_agrees n l wr rd" "t < n" "\<not> wr t" "\<not> rd t"
    and "ignore_errno l (rwlock_wrlock t l) = Done l'"
  shows "rw_agrees n l' (wr(t := True)) rd \<and> (\<forall>u<n. \<not> wr u \<and> \<not> rd u)"
  using assms
  by (auto simp: rw_agrees_def rwlock_wrlock_def rwlock_ok_def split: if_splits)

lemma rw_agrees_rdlock:
  assumes "rw_agrees n l wr rd" "t < n" "\<not> wr t" "\<not> rd t"
    and "ignore_errno l (rwlock_rdlock t l) = Done l'"
  shows "rw_agrees n l' wr (rd(t := True)) \<and> (\<forall>u<n. \<not> wr u)"
  using assms
  by (auto simp: rw_agrees_def rwlock_rdlock_def rwlock_ok_def split: if_splits)

lemma rw_agrees_unlock:
  assumes "rw_agrees n l wr rd" "t < n" "wr t \<or> rd t"
    and "ignore_errno l (rwlock_unlock t l) = Done l'"
  shows "rw_agrees n l' (wr(t := False)) (rd(t := False))"
  using assms
  by (auto simp: rw_agrees_def rwlock_unlock_def rwlock_ok_def split: if_splits)

lemma rw_agrees_cong:
  "rw_agrees n l wr rd \<Longrightarrow> (\<And>t. t < n \<Longrightarrow> wr' t = wr t \<and> rd' t = rd t) \<Longrightarrow> rw_agrees n l wr' rd'"
  by (simp add: rw_agrees_def)

lemma rw_unlock_enabled:
  "rw_agrees n l wr rd \<Longrightarrow> t < n \<Longrightarrow> wr t \<or> rd t \<Longrightarrow> \<exists>l'. rwlock_unlock t l = Done l'"
  by (auto simp: rw_agrees_def rwlock_unlock_def)

lemma rw_free_enabled:
  assumes "rw_agrees n l wr rd" and "\<forall>t<n. \<not> wr t \<and> \<not> rd t"
  shows "l = rwlock_init"
proof -
  have "rw_writer l \<noteq> Some t" for t using assms unfolding rw_agrees_def by blast
  then have "rw_writer l = None" by (cases "rw_writer l") auto
  moreover have "t \<notin> set (rw_readers l)" for t using assms unfolding rw_agrees_def by blast
  then have "rw_readers l = []" by (cases "rw_readers l") auto
  ultimately show ?thesis by (cases l) (simp add: rwlock_init_def)
qed

section \<open>\<open>main_example_01\<close>: writers and readers for ever\<close>

datatype rw_pc = Wr_Lock | Wr_In | Rd_Lock | Rd_In | Rw_Exit

record rw_state =
  rw_lk :: rwlock
  rw_pcs :: "tid \<Rightarrow> rw_pc"

text \<open>Threads below \<open>k\<close> are writers, the others readers.\<close>

definition rw_start :: "nat \<Rightarrow> rw_state" where
  "rw_start k = \<lparr>rw_lk = rwlock_init, rw_pcs = (\<lambda>t. if t < k then Wr_Lock else Rd_Lock)\<rparr>"

text \<open>\<open>test_errno\<close> ends the program when a call fails.\<close>

definition rw_call :: "rwlock outcome \<Rightarrow> tid \<Rightarrow> rw_pc \<Rightarrow> rw_state \<Rightarrow> rw_state option" where
  "rw_call r t p s =
     (case r of
        Done l \<Rightarrow> Some (s\<lparr>rw_lk := l, rw_pcs := (rw_pcs s)(t := p)\<rparr>)
      | Fail e \<Rightarrow> Some (s\<lparr>rw_pcs := (\<lambda>_. Rw_Exit)\<rparr>)
      | _ \<Rightarrow> None)"

definition writer_step :: "tid \<Rightarrow> rw_state \<Rightarrow> rw_state option" where
  "writer_step t s =
     (case rw_pcs s t of
        Wr_Lock \<Rightarrow> rw_call (rwlock_wrlock t (rw_lk s)) t Wr_In s
      | Wr_In \<Rightarrow> rw_call (rwlock_unlock t (rw_lk s)) t Wr_Lock s
      | _ \<Rightarrow> None)"

definition reader_step :: "tid \<Rightarrow> rw_state \<Rightarrow> rw_state option" where
  "reader_step t s =
     (case rw_pcs s t of
        Rd_Lock \<Rightarrow> rw_call (rwlock_rdlock t (rw_lk s)) t Rd_In s
      | Rd_In \<Rightarrow> rw_call (rwlock_unlock t (rw_lk s)) t Rd_Lock s
      | _ \<Rightarrow> None)"

inductive rw_step :: "nat \<Rightarrow> rw_state \<Rightarrow> rw_state \<Rightarrow> bool" for n where
  rw_write: "t < n \<Longrightarrow> writer_step t s = Some s' \<Longrightarrow> rw_step n s s'"
| rw_read: "t < n \<Longrightarrow> reader_step t s = Some s' \<Longrightarrow> rw_step n s s'"

definition rw_inv :: "nat \<Rightarrow> rw_state \<Rightarrow> bool" where
  "rw_inv n s \<longleftrightarrow>
     rw_agrees n (rw_lk s) (\<lambda>t. rw_pcs s t = Wr_In) (\<lambda>t. rw_pcs s t = Rd_In)
     \<and> (\<forall>t<n. rw_pcs s t \<noteq> Rw_Exit)"

lemma rw_agrees_no_fail:
  assumes "rw_agrees n l wr rd" "t < n"
  shows "\<not> wr t \<Longrightarrow> rwlock_wrlock t l \<noteq> Fail e" "\<not> wr t \<Longrightarrow> rwlock_rdlock t l \<noteq> Fail e"
    "rwlock_unlock t l \<noteq> Fail e"
  using assms by (auto simp: rw_agrees_def rwlock_wrlock_def rwlock_rdlock_def rwlock_unlock_def)

lemma rw_inv_call:
  assumes inv: "rw_inv n s" and t: "t < n" and "p \<noteq> Rw_Exit" and nf: "\<And>e. r \<noteq> Fail e"
    and step: "rw_call r t p s = Some s'"
    and agr: "\<And>l. r = Done l \<Longrightarrow>
      rw_agrees n l ((\<lambda>u. rw_pcs s u = Wr_In)(t := p = Wr_In)) ((\<lambda>u. rw_pcs s u = Rd_In)(t := p = Rd_In))"
  shows "rw_inv n s'"
proof -
  from step nf obtain l where "r = Done l" and s': "s' = s\<lparr>rw_lk := l, rw_pcs := (rw_pcs s)(t := p)\<rparr>"
    by (auto simp: rw_call_def split: outcome.splits)
  with agr have "rw_agrees n l ((\<lambda>u. rw_pcs s u = Wr_In)(t := p = Wr_In))
      ((\<lambda>u. rw_pcs s u = Rd_In)(t := p = Rd_In))" by blast
  then have "rw_agrees n l (\<lambda>u. ((rw_pcs s)(t := p)) u = Wr_In) (\<lambda>u. ((rw_pcs s)(t := p)) u = Rd_In)"
    by (rule rw_agrees_cong) auto
  with s' inv assms(3) show ?thesis by (auto simp: rw_inv_def)
qed

lemma rw_inv_step:
  assumes inv: "rw_inv n s" and step: "rw_step n s s'"
  shows "rw_inv n s'"
proof -
  let ?wr = "\<lambda>u. rw_pcs s u = Wr_In" and ?rd = "\<lambda>u. rw_pcs s u = Rd_In"
  have agr: "rw_agrees n (rw_lk s) ?wr ?rd" using inv by (simp add: rw_inv_def)
  note no_fail = rw_agrees_no_fail [OF agr]
  have ign: "r = Done l \<Longrightarrow> ignore_errno x r = Done l" for x l and r :: "rwlock outcome" by simp
  from step show ?thesis
  proof cases
    case (rw_write t)
    show ?thesis
    proof (cases "rw_pcs s t")
      case Wr_Lock
      with rw_write rw_agrees_wrlock [OF agr rw_write(1) _ _ ign] show ?thesis
        by (intro rw_inv_call [OF inv rw_write(1), of Wr_In "rwlock_wrlock t (rw_lk s)"])
          (auto simp: writer_step_def no_fail fun_upd_idem intro: rw_agrees_cong)
    next
      case Wr_In
      with rw_write rw_agrees_unlock [OF agr rw_write(1) _ ign] show ?thesis
        by (intro rw_inv_call [OF inv rw_write(1), of Wr_Lock "rwlock_unlock t (rw_lk s)"])
          (auto simp: writer_step_def no_fail fun_upd_idem intro: rw_agrees_cong)
    qed (use rw_write in \<open>simp_all add: writer_step_def\<close>)
  next
    case (rw_read t)
    show ?thesis
    proof (cases "rw_pcs s t")
      case Rd_Lock
      with rw_read rw_agrees_rdlock [OF agr rw_read(1) _ _ ign] show ?thesis
        by (intro rw_inv_call [OF inv rw_read(1), of Rd_In "rwlock_rdlock t (rw_lk s)"])
          (auto simp: reader_step_def no_fail fun_upd_idem intro: rw_agrees_cong)
    next
      case Rd_In
      with rw_read rw_agrees_unlock [OF agr rw_read(1) _ ign] show ?thesis
        by (intro rw_inv_call [OF inv rw_read(1), of Rd_Lock "rwlock_unlock t (rw_lk s)"])
          (auto simp: reader_step_def no_fail fun_upd_idem intro: rw_agrees_cong)
    qed (use rw_read in \<open>simp_all add: reader_step_def\<close>)
  qed
qed

lemma rw_inv_start: "rw_inv n (rw_start k)"
  by (auto simp: rw_inv_def rw_agrees_def rw_start_def rwlock_init_def rwlock_ok_def)

interpretation rw_sys: invariant_system "rw_start k" "rw_step n" "rw_inv n" for k n
  by unfold_locales (auto simp: rw_inv_start intro: rw_inv_step)

lemma rw_progress:
  assumes inv: "rw_inv n s" and "0 < n"
  shows "\<exists>s'. rw_step n s s'"
proof -
  have agr: "rw_agrees n (rw_lk s) (\<lambda>u. rw_pcs s u = Wr_In) (\<lambda>u. rw_pcs s u = Rd_In)"
    using inv by (simp add: rw_inv_def)
  show ?thesis
  proof (cases "\<exists>t<n. rw_pcs s t = Wr_In \<or> rw_pcs s t = Rd_In")
    case True
    then obtain t where t: "t < n" "rw_pcs s t = Wr_In \<or> rw_pcs s t = Rd_In" by blast
    with rw_unlock_enabled [OF agr] obtain l where "rwlock_unlock t (rw_lk s) = Done l" by blast
    with t have "\<exists>s'. writer_step t s = Some s' \<or> reader_step t s = Some s'"
      by (auto simp: writer_step_def reader_step_def rw_call_def)
    with t(1) show ?thesis by (blast intro: rw_step.intros)
  next
    case False
    with agr have "rw_lk s = rwlock_init" by (intro rw_free_enabled) auto
    with False assms have "\<exists>s'. writer_step 0 s = Some s' \<or> reader_step 0 s = Some s'"
      by (cases "rw_pcs s 0")
        (auto simp: rw_inv_def writer_step_def reader_step_def rw_call_def rwlock_wrlock_def
          rwlock_rdlock_def rwlock_init_def)
    with \<open>0 < n\<close> show ?thesis by (blast intro: rw_step.intros)
  qed
qed

section \<open>\<open>main_example_02\<close>: a writer fills the tree, readers search it\<close>

text \<open>
  The writer's loop index; a reader's round and index, and the result of the search it has
  just made.
\<close>

datatype tree_pc =
    TW_Test nat | TW_Lock nat | TW_Insert nat | TW_Unlock nat
  | TR_Test nat nat | TR_Lock nat nat | TR_Search nat nat | TR_Unlock nat nat bool
  | T_End

record tree_sys =
  ts_tree :: btree
  ts_pc :: "tid \<Rightarrow> tree_pc"

text \<open>Thread 0 is the writer.\<close>

definition tree_start :: tree_sys where
  "tree_start = \<lparr>ts_tree = btree_ctor heap_empty,
     ts_pc = (\<lambda>t. if t = 0 then TW_Test 0 else TR_Test 0 0)\<rparr>"

definition tree_goto :: "btree outcome \<Rightarrow> tid \<Rightarrow> tree_pc \<Rightarrow> tree_sys \<Rightarrow> tree_sys option" where
  "tree_goto r t p s =
     (case r of Done b \<Rightarrow> Some (s\<lparr>ts_tree := b, ts_pc := (ts_pc s)(t := p)\<rparr>) | _ \<Rightarrow> None)"

text \<open>\<open>nk\<close> keys, \<open>nr\<close> rounds: 20 and 10 in the source.\<close>

definition tree_writer_step :: "nat \<Rightarrow> tid \<Rightarrow> tree_sys \<Rightarrow> tree_sys option" where
  "tree_writer_step nk t s =
     (case ts_pc s t of
        TW_Test i \<Rightarrow> tree_goto (Done (ts_tree s)) t (if i < nk then TW_Lock i else T_End) s
      | TW_Lock i \<Rightarrow> tree_goto (btree_wrlock t (ts_tree s)) t (TW_Insert i) s
      | TW_Insert i \<Rightarrow>
          Option.bind (insert_body (int i) (ts_tree s)) (\<lambda>r. tree_goto r t (TW_Unlock i) s)
      | TW_Unlock i \<Rightarrow> tree_goto (btree_unlock t (ts_tree s)) t (TW_Test (Suc i)) s
      | _ \<Rightarrow> None)"

definition tree_reader_step :: "nat \<Rightarrow> nat \<Rightarrow> tid \<Rightarrow> tree_sys \<Rightarrow> tree_sys option" where
  "tree_reader_step nk nr t s =
     (case ts_pc s t of
        TR_Test r i \<Rightarrow>
          tree_goto (Done (ts_tree s)) t
            (if nr \<le> r then T_End else if i < nk then TR_Lock r i else TR_Test (Suc r) 0) s
      | TR_Lock r i \<Rightarrow> tree_goto (btree_rdlock t (ts_tree s)) t (TR_Search r i) s
      | TR_Search r i \<Rightarrow>
          (case search_body (int i) (ts_tree s) of
             Some (Done found) \<Rightarrow> tree_goto (Done (ts_tree s)) t (TR_Unlock r i found) s
           | _ \<Rightarrow> None)
      | TR_Unlock r i found \<Rightarrow> tree_goto (btree_unlock t (ts_tree s)) t (TR_Test r (Suc i)) s
      | _ \<Rightarrow> None)"

inductive tree_step :: "nat \<Rightarrow> nat \<Rightarrow> nat \<Rightarrow> tree_sys \<Rightarrow> tree_sys \<Rightarrow> bool" for nk nr n where
  tree_write: "t < n \<Longrightarrow> tree_writer_step nk t s = Some s' \<Longrightarrow> tree_step nk nr n s s'"
| tree_read: "t < n \<Longrightarrow> tree_reader_step nk nr t s = Some s' \<Longrightarrow> tree_step nk nr n s s'"

fun is_writing :: "tree_pc \<Rightarrow> bool" where
  "is_writing (TW_Insert i) = True"
| "is_writing (TW_Unlock i) = True"
| "is_writing _ = False"

fun is_reading :: "tree_pc \<Rightarrow> bool" where
  "is_reading (TR_Search r i) = True"
| "is_reading (TR_Unlock r i f) = True"
| "is_reading _ = False"

text \<open>How many inserts the writer has completed.\<close>

fun inserts_done :: "nat \<Rightarrow> tree_pc \<Rightarrow> nat" where
  "inserts_done nk (TW_Test i) = i"
| "inserts_done nk (TW_Lock i) = i"
| "inserts_done nk (TW_Insert i) = i"
| "inserts_done nk (TW_Unlock i) = Suc i"
| "inserts_done nk _ = nk"

fun writer_pc_ok :: "nat \<Rightarrow> tree_pc \<Rightarrow> bool" where
  "writer_pc_ok nk (TW_Test i) \<longleftrightarrow> i \<le> nk"
| "writer_pc_ok nk (TW_Lock i) \<longleftrightarrow> i < nk"
| "writer_pc_ok nk (TW_Insert i) \<longleftrightarrow> i < nk"
| "writer_pc_ok nk (TW_Unlock i) \<longleftrightarrow> i < nk"
| "writer_pc_ok nk T_End \<longleftrightarrow> True"
| "writer_pc_ok nk _ \<longleftrightarrow> False"

text \<open>A reader's search result says whether its key was among the \<open>k\<close> inserted.\<close>

fun reader_pc_ok :: "nat \<Rightarrow> nat \<Rightarrow> nat \<Rightarrow> tree_pc \<Rightarrow> bool" where
  "reader_pc_ok nk nr k (TR_Test r i) \<longleftrightarrow> r \<le> nr \<and> i \<le> nk \<and> (r = nr \<longrightarrow> i = 0)"
| "reader_pc_ok nk nr k (TR_Lock r i) \<longleftrightarrow> r < nr \<and> i < nk"
| "reader_pc_ok nk nr k (TR_Search r i) \<longleftrightarrow> r < nr \<and> i < nk"
| "reader_pc_ok nk nr k (TR_Unlock r i f) \<longleftrightarrow> r < nr \<and> i < nk \<and> f = (i < k)"
| "reader_pc_ok nk nr k T_End \<longleftrightarrow> True"
| "reader_pc_ok nk nr k _ \<longleftrightarrow> False"

text \<open>The keys \<open>0\<close> to \<open>k - 1\<close>, each once.\<close>

definition first_keys :: "nat \<Rightarrow> int multiset" where
  "first_keys k = image_mset int (mset [0 ..< k])"

lemma first_keys_simps [simp]:
  "first_keys 0 = {#}"
  "first_keys (Suc k) = add_mset (int k) (first_keys k)"
  by (simp_all add: first_keys_def)

lemma mem_first_keys: "int i \<in># first_keys k \<longleftrightarrow> i < k"
  by (auto simp: first_keys_def)

definition tree_inv :: "nat \<Rightarrow> nat \<Rightarrow> nat \<Rightarrow> tree_sys \<Rightarrow> bool" where
  "tree_inv nk nr n s \<longleftrightarrow>
     rw_agrees n (bt_lock (ts_tree s)) (\<lambda>t. is_writing (ts_pc s t)) (\<lambda>t. is_reading (ts_pc s t))
     \<and> holds_keys (ts_tree s) (first_keys (inserts_done nk (ts_pc s 0)))
     \<and> writer_pc_ok nk (ts_pc s 0)
     \<and> (\<forall>t<n. 0 < t \<longrightarrow> reader_pc_ok nk nr (inserts_done nk (ts_pc s 0)) (ts_pc s t))"

definition tree_ended :: "nat \<Rightarrow> tree_sys \<Rightarrow> bool" where
  "tree_ended n s \<longleftrightarrow> (\<forall>t<n. ts_pc s t = T_End)"

fun tree_left :: "nat \<Rightarrow> nat \<Rightarrow> tree_pc \<Rightarrow> nat" where
  "tree_left nk nr (TW_Test i) = 4 * (nk - i) + 1"
| "tree_left nk nr (TW_Lock i) = 4 * (nk - i)"
| "tree_left nk nr (TW_Insert i) = 4 * (nk - i) - 1"
| "tree_left nk nr (TW_Unlock i) = 4 * (nk - i) - 2"
| "tree_left nk nr (TR_Test r i) = 4 * ((nr - r) * nk - i) + (nr - r) + 1"
| "tree_left nk nr (TR_Lock r i) = 4 * ((nr - r) * nk - i) + (nr - r)"
| "tree_left nk nr (TR_Search r i) = 4 * ((nr - r) * nk - i) + (nr - r) - 1"
| "tree_left nk nr (TR_Unlock r i f) = 4 * ((nr - r) * nk - i) + (nr - r) - 2"
| "tree_left nk nr T_End = 0"

definition tree_measure :: "nat \<Rightarrow> nat \<Rightarrow> nat \<Rightarrow> tree_sys \<Rightarrow> nat" where
  "tree_measure nk nr n s = thread_sum n (tree_left nk nr) (ts_pc s)"

text \<open>The three lock calls, seen from the pointers they leave alone.\<close>

lemma btree_lock_Done:
  "btree_wrlock t b = Done b' \<longleftrightarrow>
   (\<exists>l. ignore_errno (bt_lock b) (rwlock_wrlock t (bt_lock b)) = Done l \<and> b' = b\<lparr>bt_lock := l\<rparr>)"
  "btree_rdlock t b = Done b' \<longleftrightarrow>
   (\<exists>l. ignore_errno (bt_lock b) (rwlock_rdlock t (bt_lock b)) = Done l \<and> b' = b\<lparr>bt_lock := l\<rparr>)"
  "btree_unlock t b = Done b' \<longleftrightarrow>
   (\<exists>l. ignore_errno (bt_lock b) (rwlock_unlock t (bt_lock b)) = Done l \<and> b' = b\<lparr>bt_lock := l\<rparr>)"
  by (auto simp: btree_wrlock_def btree_rdlock_def btree_unlock_def elim: and_then.elims)

lemma reader_pc_ok_frame:
  "\<not> is_reading p \<Longrightarrow> reader_pc_ok nk nr k p \<Longrightarrow> reader_pc_ok nk nr k' p"
  by (cases p) auto

text \<open>
  One step for all: thread \<open>t\<close> moves to \<open>p\<close> and leaves the tree \<open>b\<close>; the number of
  completed inserts changes only while no reader is inside.
\<close>

lemma tree_inv_update:
  assumes inv: "tree_inv nk nr n s" and t: "t < n"
    and k: "k = inserts_done nk (((ts_pc s)(t := p)) 0)"
    and agr: "rw_agrees n (bt_lock b) ((\<lambda>u. is_writing (ts_pc s u))(t := is_writing p))
      ((\<lambda>u. is_reading (ts_pc s u))(t := is_reading p))"
    and holds: "holds_keys b (first_keys k)"
    and pc: "if t = 0 then writer_pc_ok nk p else reader_pc_ok nk nr k p"
    and others: "k = inserts_done nk (ts_pc s 0) \<or> (\<forall>u<n. \<not> is_reading (ts_pc s u))"
  shows "tree_inv nk nr n (s\<lparr>ts_tree := b, ts_pc := (ts_pc s)(t := p)\<rparr>)"
proof -
  have "reader_pc_ok nk nr k (((ts_pc s)(t := p)) u)" if u: "u < n" "0 < u" for u
  proof (cases "u = t")
    case True
    with pc u show ?thesis by simp
  next
    case False
    have "reader_pc_ok nk nr (inserts_done nk (ts_pc s 0)) (ts_pc s u)"
      using inv u by (simp add: tree_inv_def)
    with others u False show ?thesis by (auto intro: reader_pc_ok_frame)
  qed
  moreover have "writer_pc_ok nk (((ts_pc s)(t := p)) 0)"
    using inv pc by (auto simp: tree_inv_def)
  moreover have "rw_agrees n (bt_lock b) (\<lambda>u. is_writing (((ts_pc s)(t := p)) u))
      (\<lambda>u. is_reading (((ts_pc s)(t := p)) u))"
    using agr by (rule rw_agrees_cong) simp
  ultimately show ?thesis
    using holds k by (simp add: tree_inv_def)
qed

lemma tree_inv_local:
  assumes inv: "tree_inv nk nr n s" and t: "t < n"
    and "is_writing p = is_writing (ts_pc s t)" "is_reading p = is_reading (ts_pc s t)"
    and "inserts_done nk (((ts_pc s)(t := p)) 0) = inserts_done nk (ts_pc s 0)"
    and "if t = 0 then writer_pc_ok nk p
         else reader_pc_ok nk nr (inserts_done nk (ts_pc s 0)) p"
  shows "tree_inv nk nr n (s\<lparr>ts_pc := (ts_pc s)(t := p)\<rparr>)"
proof -
  have "(\<lambda>u. is_writing (ts_pc s u))(t := is_writing p) = (\<lambda>u. is_writing (ts_pc s u))"
    "(\<lambda>u. is_reading (ts_pc s u))(t := is_reading p) = (\<lambda>u. is_reading (ts_pc s u))"
    using assms(3,4) by auto
  then have "tree_inv nk nr n (s\<lparr>ts_tree := ts_tree s, ts_pc := (ts_pc s)(t := p)\<rparr>)"
    using assms(5,6) inv by (intro tree_inv_update [OF inv t refl]) (simp_all add: tree_inv_def)
  then show ?thesis by simp
qed

lemma tree_inv_writer:
  assumes inv: "tree_inv nk nr n s" and t: "t < n" and step: "tree_writer_step nk t s = Some s'"
  shows "tree_inv nk nr n s'"
proof -
  let ?b = "ts_tree s" and ?wr = "\<lambda>u. is_writing (ts_pc s u)" and ?rd = "\<lambda>u. is_reading (ts_pc s u)"
  have agr: "rw_agrees n (bt_lock ?b) ?wr ?rd" using inv by (simp add: tree_inv_def)
  have t0: "t = 0" using inv t step
    by (cases "ts_pc s t") (auto simp: tree_inv_def tree_writer_step_def)
  note upd = tree_inv_update [OF inv t]
  have h: "holds_keys ?b (first_keys (inserts_done nk (ts_pc s 0)))"
    and w: "writer_pc_ok nk (ts_pc s 0)" using inv by (simp_all add: tree_inv_def)
  show ?thesis
  proof (cases "ts_pc s t")
    case (TW_Test i)
    with step w t0 have "s' = s\<lparr>ts_pc := (ts_pc s)(t := if i < nk then TW_Lock i else T_End)\<rparr>"
      by (auto simp: tree_writer_step_def tree_goto_def)
    with TW_Test w t0 inv t show ?thesis by (auto intro!: tree_inv_local)
  next
    case (TW_Lock i)
    with step obtain l where l: "ignore_errno (bt_lock ?b) (rwlock_wrlock t (bt_lock ?b)) = Done l"
      and s': "s' = s\<lparr>ts_tree := ?b\<lparr>bt_lock := l\<rparr>, ts_pc := (ts_pc s)(t := TW_Insert i)\<rparr>"
      by (auto simp: tree_writer_step_def tree_goto_def btree_lock_Done split: outcome.splits)
    from rw_agrees_wrlock [OF agr t _ _ l] TW_Lock
    have "rw_agrees n l (?wr(t := True)) ?rd" by simp
    with TW_Lock w t0 h show ?thesis unfolding s'
      by (intro upd [OF refl]) (auto simp: fun_upd_idem)
  next
    case (TW_Insert i)
    from insert_body_keys [OF h, of "int i"] obtain b where
      b: "insert_body (int i) ?b = Some (Done b)" "bt_lock b = bt_lock ?b"
      "holds_keys b (first_keys (Suc i))"
      using TW_Insert t0 by auto
    with step TW_Insert have s': "s' = s\<lparr>ts_tree := b, ts_pc := (ts_pc s)(t := TW_Unlock i)\<rparr>"
      by (simp add: tree_writer_step_def tree_goto_def)
    have "\<forall>u<n. \<not> is_reading (ts_pc s u)"
      using rw_agrees_excl [OF agr t] TW_Insert by auto
    with TW_Insert w t0 agr b show ?thesis unfolding s'
      by (intro upd [OF refl]) (auto simp: fun_upd_idem)
  next
    case (TW_Unlock i)
    with step obtain l where l: "ignore_errno (bt_lock ?b) (rwlock_unlock t (bt_lock ?b)) = Done l"
      and s': "s' = s\<lparr>ts_tree := ?b\<lparr>bt_lock := l\<rparr>, ts_pc := (ts_pc s)(t := TW_Test (Suc i))\<rparr>"
      by (auto simp: tree_writer_step_def tree_goto_def btree_lock_Done split: outcome.splits)
    from rw_agrees_unlock [OF agr t _ l] TW_Unlock
    have "rw_agrees n l (?wr(t := False)) (?rd(t := False))" by simp
    with TW_Unlock w t0 h show ?thesis unfolding s' by (intro upd [OF refl]) auto
  qed (use step in \<open>simp_all add: tree_writer_step_def\<close>)
qed

lemma tree_inv_reader:
  assumes inv: "tree_inv nk nr n s" and t: "t < n" and step: "tree_reader_step nk nr t s = Some s'"
  shows "tree_inv nk nr n s'"
proof -
  let ?b = "ts_tree s" and ?wr = "\<lambda>u. is_writing (ts_pc s u)" and ?rd = "\<lambda>u. is_reading (ts_pc s u)"
  have agr: "rw_agrees n (bt_lock ?b) ?wr ?rd" using inv by (simp add: tree_inv_def)
  have t0: "t \<noteq> 0" using inv t step
    by (cases "ts_pc s t"; cases "t = 0") (auto simp: tree_inv_def tree_reader_step_def)
  let ?k = "inserts_done nk (ts_pc s 0)"
  have h: "holds_keys ?b (first_keys ?k)" and w: "reader_pc_ok nk nr ?k (ts_pc s t)"
    using inv t t0 by (simp_all add: tree_inv_def)
  note upd = tree_inv_update [OF inv t]
  show ?thesis
  proof (cases "ts_pc s t")
    case (TR_Test r i)
    with step have s': "s' = s\<lparr>ts_pc := (ts_pc s)(t :=
        if nr \<le> r then T_End else if i < nk then TR_Lock r i else TR_Test (Suc r) 0)\<rparr>"
      by (simp add: tree_reader_step_def tree_goto_def)
    from TR_Test w t0 inv t show ?thesis unfolding s' by (intro tree_inv_local) auto
  next
    case (TR_Lock r i)
    with step obtain l where l: "ignore_errno (bt_lock ?b) (rwlock_rdlock t (bt_lock ?b)) = Done l"
      and s': "s' = s\<lparr>ts_tree := ?b\<lparr>bt_lock := l\<rparr>, ts_pc := (ts_pc s)(t := TR_Search r i)\<rparr>"
      by (auto simp: tree_reader_step_def tree_goto_def btree_lock_Done split: outcome.splits)
    from rw_agrees_rdlock [OF agr t _ _ l] TR_Lock
    have "rw_agrees n l ?wr (?rd(t := True))" by simp
    with TR_Lock w t0 h show ?thesis unfolding s'
      by (intro upd [OF refl]) (auto simp: fun_upd_idem)
  next
    case (TR_Search r i)
    have "search_body (int i) ?b = Some (Done (i < ?k))"
      using search_body_keys [OF h, of "int i"] by (simp add: mem_first_keys)
    with step TR_Search have s': "s' = s\<lparr>ts_pc := (ts_pc s)(t := TR_Unlock r i (i < ?k))\<rparr>"
      by (simp add: tree_reader_step_def tree_goto_def)
    from TR_Search w t0 inv t show ?thesis unfolding s' by (intro tree_inv_local) auto
  next
    case (TR_Unlock r i f)
    with step obtain l where l: "ignore_errno (bt_lock ?b) (rwlock_unlock t (bt_lock ?b)) = Done l"
      and s': "s' = s\<lparr>ts_tree := ?b\<lparr>bt_lock := l\<rparr>, ts_pc := (ts_pc s)(t := TR_Test r (Suc i))\<rparr>"
      by (auto simp: tree_reader_step_def tree_goto_def btree_lock_Done split: outcome.splits)
    from rw_agrees_unlock [OF agr t _ l] TR_Unlock
    have "rw_agrees n l (?wr(t := False)) (?rd(t := False))" by simp
    with TR_Unlock w t0 h show ?thesis unfolding s' by (intro upd [OF refl]) auto
  qed (use step in \<open>simp_all add: tree_reader_step_def\<close>)
qed

lemma tree_inv_step: "tree_inv nk nr n s \<Longrightarrow> tree_step nk nr n s s' \<Longrightarrow> tree_inv nk nr n s'"
  by (auto elim!: tree_step.cases intro: tree_inv_writer tree_inv_reader)

lemma tree_inv_start: "tree_inv nk nr n tree_start"
  using holds_keys_ctor
  by (auto simp: tree_inv_def tree_start_def rw_agrees_def btree_ctor_def rwlock_init_def
    rwlock_ok_def)

section \<open>The second program ends\<close>

lemma index_left: "r < nr \<Longrightarrow> i < nk \<Longrightarrow> i < (nr - r) * nk" for i nk r nr :: nat
  by (cases "nr - r") auto

lemma round_left: "(nr - r) * nk - nk = (nr - Suc r) * nk" for nk r nr :: nat
  by (simp add: diff_mult_distrib add.commute)

lemma tree_left_step:
  assumes inv: "tree_inv nk nr n s" and t: "t < n"
    and step: "tree_writer_step nk t s = Some s' \<or> tree_reader_step nk nr t s = Some s'"
  obtains p where "ts_pc s' = (ts_pc s)(t := p)" "tree_left nk nr p < tree_left nk nr (ts_pc s t)"
proof -
  have ok: "writer_pc_ok nk (ts_pc s t) \<or> (\<exists>k. reader_pc_ok nk nr k (ts_pc s t))"
    using inv t by (cases "t = 0") (auto simp: tree_inv_def)
  show thesis
  proof (cases "ts_pc s t")
    case (TR_Test r i)
    have "tree_left nk nr (TR_Test (Suc r) 0) < tree_left nk nr (TR_Test r i)"
      if "r < nr" "\<not> i < nk" "i \<le> nk"
      using that round_left [of nr r nk] by simp
    with TR_Test ok step that show thesis
      by (auto simp: tree_writer_step_def tree_reader_step_def tree_goto_def)
  next
    case (TR_Unlock r i f)
    with ok have "i < (nr - r) * nk" by (auto intro: index_left)
    with TR_Unlock ok step that show thesis
      by (auto simp: tree_writer_step_def tree_reader_step_def tree_goto_def split: outcome.splits)
  next
    case (TR_Search r i)
    with ok have "i < (nr - r) * nk" by (auto intro: index_left)
    with TR_Search ok step that show thesis
      by (auto simp: tree_writer_step_def tree_reader_step_def tree_goto_def
        split: outcome.splits option.splits)
  next
    case (TR_Lock r i)
    with ok have "i < (nr - r) * nk" by (auto intro: index_left)
    with TR_Lock ok step that show thesis
      by (auto simp: tree_writer_step_def tree_reader_step_def tree_goto_def split: outcome.splits)
  qed (use ok step that in \<open>auto simp: tree_writer_step_def tree_reader_step_def tree_goto_def
      split: outcome.splits bind_splits if_splits\<close>)
qed

lemma tree_measure_step:
  assumes inv: "tree_inv nk nr n s" and step: "tree_step nk nr n s s'"
  shows "tree_measure nk nr n s' < tree_measure nk nr n s"
proof -
  from step obtain t where t: "t < n"
    "tree_writer_step nk t s = Some s' \<or> tree_reader_step nk nr t s = Some s'"
    by (auto elim: tree_step.cases)
  with inv obtain p where "ts_pc s' = (ts_pc s)(t := p)"
    "tree_left nk nr p < tree_left nk nr (ts_pc s t)" by (rule tree_left_step)
  with thread_sum_upd [OF t(1), of "tree_left nk nr" "ts_pc s" p] show ?thesis
    by (simp add: tree_measure_def)
qed

lemma btree_lock_free:
  "bt_lock b = rwlock_init \<Longrightarrow> \<exists>b'. btree_wrlock t b = Done b'"
  "bt_lock b = rwlock_init \<Longrightarrow> \<exists>b'. btree_rdlock t b = Done b'"
  by (auto simp: btree_lock_eval)

lemma tree_inside_runs:
  assumes inv: "tree_inv nk nr n s" and t: "t < n"
    and inside: "is_writing (ts_pc s t) \<or> is_reading (ts_pc s t)"
  shows "\<exists>s'. tree_writer_step nk t s = Some s' \<or> tree_reader_step nk nr t s = Some s'"
proof -
  let ?k = "inserts_done nk (ts_pc s 0)"
  have "rw_agrees n (bt_lock (ts_tree s)) (\<lambda>u. is_writing (ts_pc s u)) (\<lambda>u. is_reading (ts_pc s u))"
    using inv by (simp add: tree_inv_def)
  from rw_unlock_enabled [OF this t] inside obtain l
    where "rwlock_unlock t (bt_lock (ts_tree s)) = Done l" by blast
  then obtain b where ul: "btree_unlock t (ts_tree s) = Done b" by (auto simp: btree_lock_Done)
  have h: "holds_keys (ts_tree s) (first_keys ?k)" using inv by (simp add: tree_inv_def)
  note defs = tree_writer_step_def tree_reader_step_def tree_goto_def
  show ?thesis
  proof (cases "ts_pc s t")
    case (TW_Insert i)
    with insert_body_keys [OF h, of "int i"] show ?thesis by (auto simp: defs)
  next
    case (TR_Search r i)
    with search_body_keys [OF h, of "int i"] show ?thesis by (simp add: defs)
  qed (use inside ul in \<open>simp_all add: defs\<close>)
qed

lemma tree_outside_runs:
  assumes "bt_lock (ts_tree s) = rwlock_init" and "ts_pc s t \<noteq> T_End"
    and "\<not> is_writing (ts_pc s t)" "\<not> is_reading (ts_pc s t)"
  shows "\<exists>s'. tree_writer_step nk t s = Some s' \<or> tree_reader_step nk nr t s = Some s'"
  using assms btree_lock_free [OF assms(1), of t]
  by (cases "ts_pc s t") (auto simp: tree_writer_step_def tree_reader_step_def tree_goto_def)

lemma tree_progress:
  assumes inv: "tree_inv nk nr n s" and "\<not> tree_ended n s"
  shows "\<exists>s'. tree_step nk nr n s s'"
proof (cases "\<exists>t<n. is_writing (ts_pc s t) \<or> is_reading (ts_pc s t)")
  case True
  then show ?thesis using tree_inside_runs [OF inv] by (blast intro: tree_step.intros)
next
  case False
  have "bt_lock (ts_tree s) = rwlock_init"
    using False inv by (intro rw_free_enabled) (auto simp: tree_inv_def)
  moreover from assms(2) obtain t where "t < n" "ts_pc s t \<noteq> T_End"
    by (auto simp: tree_ended_def)
  ultimately show ?thesis
    using False tree_outside_runs by (blast intro: tree_step.intros)
qed

interpretation tree_machine: terminating_system tree_start "tree_step nk nr n"
    "tree_inv nk nr n" "tree_measure nk nr n" "tree_ended n" for nk nr n
  by unfold_locales (auto simp: tree_inv_start intro: tree_inv_step tree_measure_step tree_progress)

section \<open>Properties\<close>

text \<open>
  In \<open>main_example_01\<close> a writer that has the lock excludes every other writer and every
  reader, no lock call ever fails, so that \<open>test_errno\<close> never ends the program, and the
  program never deadlocks.
\<close>

theorem rw_example_exclusion:
  assumes "reach (rw_start k) (rw_step n) s" and "t < n" and "u < n"
  shows "(rw_pcs s t = Wr_In \<and> rw_pcs s u \<in> {Wr_In, Rd_In} \<longrightarrow> u = t)
    \<and> rw_pcs s t \<noteq> Rw_Exit \<and> (\<exists>s'. rw_step n s s')"
proof -
  have inv: "rw_inv n s" using assms(1) by (rule rw_sys.reach_inv)
  then have agr: "rw_agrees n (rw_lk s) (\<lambda>t. rw_pcs s t = Wr_In) (\<lambda>t. rw_pcs s t = Rd_In)"
    by (simp add: rw_inv_def)
  have "0 < n" using assms(2) by simp
  with rw_progress [OF inv] rw_agrees_excl [OF agr assms(2,3)] inv assms(2) show ?thesis
    by (auto simp: rw_inv_def)
qed

theorem rw_example_exclusion_witness:
  "\<exists>s. reach (rw_start 1) (rw_step 3) s \<and> rw_pcs s 0 = Wr_In \<and> rw_pcs s 2 \<noteq> Rd_In"
proof -
  let ?s = "(rw_start 1)\<lparr>rw_lk := rwlock_init\<lparr>rw_writer := Some 0\<rparr>,
    rw_pcs := (rw_pcs (rw_start 1))(0 := Wr_In)\<rparr>"
  have "rw_step 3 (rw_start 1) ?s"
    by (rule rw_step.rw_write [of 0])
      (simp_all add: writer_step_def rw_call_def rw_start_def rwlock_wrlock_def rwlock_init_def)
  then have r: "reach (rw_start 1) (rw_step 3) ?s" by (rule reach_step [OF reach_init])
  have "rw_pcs ?s 0 = Wr_In" by simp
  moreover from this have "rw_pcs ?s 2 \<noteq> Rd_In"
    using rw_example_exclusion [OF r, of 0 2] by auto
  ultimately show ?thesis using r by blast
qed



text \<open>
  C36: A reader's search, however it is interleaved with the writer, reports a key found
  exactly when the writer's insert of that key has completed.
\<close>

theorem tree_search_sees_completed_inserts:
  assumes "reach tree_start (tree_step nk nr n) s" and "0 < t" and "t < n"
    and "ts_pc s t = TR_Unlock r i found"
  shows "found = (i < inserts_done nk (ts_pc s 0)) \<and> i < nk \<and> r < nr"
proof -
  have "tree_inv nk nr n s" using assms(1) by (rule tree_machine.reach_inv)
  with assms(2-4) have "reader_pc_ok nk nr (inserts_done nk (ts_pc s 0)) (TR_Unlock r i found)"
    by (metis tree_inv_def)
  then show ?thesis by simp
qed

theorem tree_search_sees_completed_inserts_witness:
  "\<exists>s. reach tree_start (tree_step 1 1 2) s \<and> ts_pc s 1 = TR_Unlock 0 0 False
     \<and> \<not> 0 < inserts_done 1 (ts_pc s 0)"
proof -
  let ?s1 = "tree_start\<lparr>ts_pc := (ts_pc tree_start)(1 := TR_Lock 0 0)\<rparr>"
  let ?l = "rwlock_init\<lparr>rw_readers := [1]\<rparr>"
  let ?s2 = "?s1\<lparr>ts_tree := (btree_ctor heap_empty)\<lparr>bt_lock := ?l\<rparr>,
    ts_pc := (ts_pc ?s1)(1 := TR_Search 0 0)\<rparr>"
  let ?s3 = "?s2\<lparr>ts_pc := (ts_pc ?s2)(1 := TR_Unlock 0 0 False)\<rparr>"
  note defs = tree_start_def tree_reader_step_def tree_goto_def btree_ctor_def btree_rdlock_def
    rwlock_rdlock_def rwlock_init_def search_body_def search_node.simps
  have "tree_step 1 1 2 tree_start ?s1" "tree_step 1 1 2 ?s1 ?s2" "tree_step 1 1 2 ?s2 ?s3"
    by (rule tree_step.tree_read [of 1]; simp add: defs)+
  then have r: "reach tree_start (tree_step 1 1 2) ?s3"
    by (blast intro: reach_init reach_step)
  have p: "ts_pc ?s3 1 = TR_Unlock 0 0 False" by simp
  show ?thesis
    using tree_search_sees_completed_inserts [OF r _ _ p] r p by auto
qed

end
