(* ===== verification/Prod_Cons.thy ===== *)
theory Prod_Cons
  imports Pthread
begin

text \<open>
  \<open>day1/08_prod_cons\<close>: a producer and a consumer for ever, over a queue with a plain mutex
  and a condition variable, statement by statement and under every interleaving, spurious
  wake-ups included. The producer signals after it has unlocked.
\<close>

section \<open>The two threads\<close>

text \<open>
  The producer's counter, and where each thread stands. The consumer is the only thread that
  waits; it waits at \<open>CO_Blocked\<close>.
\<close>

datatype prod_pc = PR_Lock int | PR_Push int | PR_Unlock int | PR_Signal int

datatype cons_pc =
    CO_Lock | CO_Size | CO_Wait | CO_Blocked | CO_Reacquire | CO_Front | CO_Pop int | CO_Unlock int

record pc_state =
  pc_q :: "int list"
  pc_mutex :: mutex
  pc_prod :: prod_pc
  pc_cons :: cons_pc
  pc_messages :: "int list"

definition prod_cons_start :: pc_state where
  "prod_cons_start = \<lparr>pc_q = [], pc_mutex = mutex_init NORMAL, pc_prod = PR_Lock 0,
     pc_cons = CO_Lock, pc_messages = []\<rparr>"

definition set_mutex :: "mutex outcome \<Rightarrow> (mutex \<Rightarrow> pc_state) \<Rightarrow> pc_state option" where
  "set_mutex r k = (case r of Done m \<Rightarrow> Some (k m) | _ \<Rightarrow> None)"

text \<open>\<open>th_producent\<close>, thread 0. The increment \<open>i++\<close> must stay an \<open>int\<close>.\<close>

definition producer_step :: "pc_state \<Rightarrow> pc_state option" where
  "producer_step s =
     (case pc_prod s of
        PR_Lock i \<Rightarrow> set_mutex (mutex_lock 0 (pc_mutex s)) (\<lambda>m. s\<lparr>pc_mutex := m, pc_prod := PR_Push i\<rparr>)
      | PR_Push i \<Rightarrow>
          (if i < INT_MAX then Some (s\<lparr>pc_q := pc_q s @ [i], pc_prod := PR_Unlock (i + 1)\<rparr>) else None)
      | PR_Unlock i \<Rightarrow> set_mutex (mutex_unlock 0 (pc_mutex s)) (\<lambda>m. s\<lparr>pc_mutex := m, pc_prod := PR_Signal i\<rparr>)
      | PR_Signal i \<Rightarrow>
          Some (s\<lparr>pc_prod := PR_Lock i,
                  pc_cons := (if pc_cons s = CO_Blocked then CO_Reacquire else pc_cons s)\<rparr>))"

text \<open>\<open>th_consumer\<close>, thread 1.\<close>

definition consumer_step :: "pc_state \<Rightarrow> pc_state option" where
  "consumer_step s =
     (case pc_cons s of
        CO_Lock \<Rightarrow> set_mutex (mutex_lock 1 (pc_mutex s)) (\<lambda>m. s\<lparr>pc_mutex := m, pc_cons := CO_Size\<rparr>)
      | CO_Size \<Rightarrow> Some (s\<lparr>pc_cons := (if length (pc_q s) = 0 then CO_Wait else CO_Front)\<rparr>)
      | CO_Wait \<Rightarrow> set_mutex (mutex_unlock 1 (pc_mutex s)) (\<lambda>m. s\<lparr>pc_mutex := m, pc_cons := CO_Blocked\<rparr>)
      | CO_Blocked \<Rightarrow> None
      | CO_Reacquire \<Rightarrow> set_mutex (mutex_lock 1 (pc_mutex s)) (\<lambda>m. s\<lparr>pc_mutex := m, pc_cons := CO_Size\<rparr>)
      | CO_Front \<Rightarrow> (case pc_q s of [] \<Rightarrow> None | x # _ \<Rightarrow> Some (s\<lparr>pc_cons := CO_Pop x\<rparr>))
      | CO_Pop x \<Rightarrow>
          (case pc_q s of
             [] \<Rightarrow> None
           | _ # q \<Rightarrow> Some (s\<lparr>pc_q := q, pc_cons := CO_Unlock x, pc_messages := pc_messages s @ [x]\<rparr>))
      | CO_Unlock x \<Rightarrow> set_mutex (mutex_unlock 1 (pc_mutex s)) (\<lambda>m. s\<lparr>pc_mutex := m, pc_cons := CO_Lock\<rparr>))"

inductive prod_cons_step :: "pc_state \<Rightarrow> pc_state \<Rightarrow> bool" where
  produce: "producer_step s = Some s' \<Longrightarrow> prod_cons_step s s'"
| consume: "consumer_step s = Some s' \<Longrightarrow> prod_cons_step s s'"
| spurious: "pc_cons s = CO_Blocked \<Longrightarrow> prod_cons_step s (s\<lparr>pc_cons := CO_Reacquire\<rparr>)"

inductive_cases prod_cons_stepE: "prod_cons_step s s'"

section \<open>The invariant\<close>

fun prod_holds :: "prod_pc \<Rightarrow> bool" where
  "prod_holds (PR_Push i) = True"
| "prod_holds (PR_Unlock i) = True"
| "prod_holds _ = False"

fun cons_holds :: "cons_pc \<Rightarrow> bool" where
  "cons_holds CO_Lock = False"
| "cons_holds CO_Blocked = False"
| "cons_holds CO_Reacquire = False"
| "cons_holds _ = True"

fun counter_of :: "prod_pc \<Rightarrow> int" where
  "counter_of (PR_Lock i) = i"
| "counter_of (PR_Push i) = i"
| "counter_of (PR_Unlock i) = i"
| "counter_of (PR_Signal i) = i"

text \<open>What the consumer's place says of the queue.\<close>

fun cons_knows :: "int list \<Rightarrow> prod_pc \<Rightarrow> cons_pc \<Rightarrow> bool" where
  "cons_knows q p CO_Front \<longleftrightarrow> q \<noteq> []"
| "cons_knows q p (CO_Pop x) \<longleftrightarrow> (\<exists>r. q = x # r)"
| "cons_knows q p CO_Wait \<longleftrightarrow> q = []"
| "cons_knows q p CO_Blocked \<longleftrightarrow> q = [] \<or> (\<exists>i. p = PR_Unlock i \<or> p = PR_Signal i)"
| "cons_knows q p _ \<longleftrightarrow> True"

definition prod_cons_inv :: "pc_state \<Rightarrow> bool" where
  "prod_cons_inv s \<longleftrightarrow>
     m_kind (pc_mutex s) = NORMAL \<and> mutex_flat (pc_mutex s)
     \<and> m_owner (pc_mutex s) \<in> {None, Some 0, Some 1}
     \<and> (prod_holds (pc_prod s) \<longleftrightarrow> m_owner (pc_mutex s) = Some 0)
     \<and> (cons_holds (pc_cons s) \<longleftrightarrow> m_owner (pc_mutex s) = Some 1)
     \<and> 0 \<le> counter_of (pc_prod s) \<and> counter_of (pc_prod s) \<le> INT_MAX
     \<and> pc_messages s @ pc_q s = map int [0..<nat (counter_of (pc_prod s))]
     \<and> cons_knows (pc_q s) (pc_prod s) (pc_cons s)"

lemma set_mutex_Some: "set_mutex r k = Some s \<longleftrightarrow> (\<exists>m. r = Done m \<and> s = k m)"
  by (cases r) (auto simp: set_mutex_def)

lemma lock_normal:
  "mutex_lock t m = Done m' \<Longrightarrow> m_kind m = NORMAL \<Longrightarrow>
   m_owner m = None \<and> m' = m\<lparr>m_owner := Some t, m_count := 1\<rparr>"
  by (auto simp: mutex_lock_def split: option.splits if_splits)

lemma unlock_normal:
  "mutex_unlock t m = Done m' \<Longrightarrow> m_kind m = NORMAL \<Longrightarrow> mutex_flat m \<Longrightarrow>
   m_owner m = Some t \<and> m' = m\<lparr>m_owner := None, m_count := 0\<rparr>"
  by (auto simp: mutex_unlock_def mutex_flat_def split: if_splits)

lemma cons_knows_push:
  "cons_knows q p c \<Longrightarrow> \<not> cons_holds c \<Longrightarrow> cons_knows q' (PR_Unlock j) c"
  by (cases c) auto

lemma upt_nat_Suc: "0 \<le> i \<Longrightarrow> map int [0..<nat (i + 1)] = map int [0..<nat i] @ [i]"
  by (simp add: nat_add_distrib)

lemma cons_knows_frame:
  "cons_knows q p c \<Longrightarrow> (\<And>i. p = PR_Unlock i \<or> p = PR_Signal i \<Longrightarrow> \<exists>j. p' = PR_Unlock j \<or> p' = PR_Signal j)
   \<Longrightarrow> cons_knows q p' c"
  by (cases c) auto

lemma producer_inv:
  assumes inv: "prod_cons_inv s" and step: "producer_step s = Some s'"
  shows "prod_cons_inv s'"
proof (cases "pc_prod s")
  case (PR_Lock i)
  with step obtain m where "mutex_lock 0 (pc_mutex s) = Done m" and s': "s' = s\<lparr>pc_mutex := m, pc_prod := PR_Push i\<rparr>"
    by (auto simp: producer_step_def set_mutex_Some)
  then have "m_owner (pc_mutex s) = None" "m = (pc_mutex s)\<lparr>m_owner := Some 0, m_count := 1\<rparr>"
    using lock_normal inv by (auto simp: prod_cons_inv_def)
  with inv PR_Lock cons_knows_frame [of "pc_q s" "PR_Lock i" "pc_cons s" "PR_Push i"] show ?thesis
    by (auto simp: s' prod_cons_inv_def mutex_flat_def)
next
  case (PR_Push i)
  with step have s': "s' = s\<lparr>pc_q := pc_q s @ [i], pc_prod := PR_Unlock (i + 1)\<rparr>" and i: "i < INT_MAX"
    by (auto simp: producer_step_def split: if_splits)
  have "\<not> cons_holds (pc_cons s)" "0 \<le> i" using inv PR_Push by (auto simp: prod_cons_inv_def)
  moreover have "cons_knows (pc_q s @ [i]) (PR_Unlock (i + 1)) (pc_cons s)"
    using inv calculation(1) by (auto simp: prod_cons_inv_def intro: cons_knows_push)
  moreover have "pc_messages s @ pc_q s @ [i] = map int [0..<nat (i + 1)]"
    unfolding upt_nat_Suc [OF \<open>0 \<le> i\<close>] using inv PR_Push by (simp add: prod_cons_inv_def flip: append_assoc)
  ultimately show ?thesis using inv PR_Push i by (simp add: s' prod_cons_inv_def)
next
  case (PR_Unlock i)
  with step obtain m where "mutex_unlock 0 (pc_mutex s) = Done m" and s': "s' = s\<lparr>pc_mutex := m, pc_prod := PR_Signal i\<rparr>"
    by (auto simp: producer_step_def set_mutex_Some)
  then have "m_owner (pc_mutex s) = Some 0" "m = (pc_mutex s)\<lparr>m_owner := None, m_count := 0\<rparr>"
    using unlock_normal inv by (auto simp: prod_cons_inv_def)
  with inv PR_Unlock cons_knows_frame [of "pc_q s" "PR_Unlock i" "pc_cons s" "PR_Signal i"] show ?thesis
    by (auto simp: s' prod_cons_inv_def mutex_flat_def)
next
  case (PR_Signal i)
  with step have "s' = s\<lparr>pc_prod := PR_Lock i,
      pc_cons := (if pc_cons s = CO_Blocked then CO_Reacquire else pc_cons s)\<rparr>"
    by (auto simp: producer_step_def)
  with inv PR_Signal show ?thesis
    by (cases "pc_cons s") (auto simp: prod_cons_inv_def)
qed

lemma consumer_inv:
  assumes inv: "prod_cons_inv s" and step: "consumer_step s = Some s'"
  shows "prod_cons_inv s'"
proof -
  have locks: "m_owner (pc_mutex s) = None \<and> m = (pc_mutex s)\<lparr>m_owner := Some 1, m_count := 1\<rparr>"
    if "mutex_lock 1 (pc_mutex s) = Done m" for m
    using lock_normal [OF that] inv by (simp add: prod_cons_inv_def)
  have unlocks: "m_owner (pc_mutex s) = Some 1 \<and> m = (pc_mutex s)\<lparr>m_owner := None, m_count := 0\<rparr>"
    if "mutex_unlock 1 (pc_mutex s) = Done m" for m
    using unlock_normal [OF that] inv by (simp add: prod_cons_inv_def)
  show ?thesis
  proof (cases "pc_cons s")
    case CO_Lock
    with step obtain m where m: "mutex_lock 1 (pc_mutex s) = Done m" and s': "s' = s\<lparr>pc_mutex := m, pc_cons := CO_Size\<rparr>"
      by (auto simp: consumer_step_def set_mutex_Some)
    from locks [OF m] inv CO_Lock show ?thesis by (simp add: s' prod_cons_inv_def mutex_flat_def)
  next
    case CO_Size
    with step have "s' = s\<lparr>pc_cons := (if length (pc_q s) = 0 then CO_Wait else CO_Front)\<rparr>"
      by (simp add: consumer_step_def)
    with inv CO_Size show ?thesis by (simp add: prod_cons_inv_def)
  next
    case CO_Wait
    with step obtain m where m: "mutex_unlock 1 (pc_mutex s) = Done m" and s': "s' = s\<lparr>pc_mutex := m, pc_cons := CO_Blocked\<rparr>"
      by (auto simp: consumer_step_def set_mutex_Some)
    from unlocks [OF m] inv CO_Wait show ?thesis by (auto simp: s' prod_cons_inv_def mutex_flat_def)
  next
    case CO_Blocked
    with step show ?thesis by (simp add: consumer_step_def)
  next
    case CO_Reacquire
    with step obtain m where m: "mutex_lock 1 (pc_mutex s) = Done m" and s': "s' = s\<lparr>pc_mutex := m, pc_cons := CO_Size\<rparr>"
      by (auto simp: consumer_step_def set_mutex_Some)
    from locks [OF m] inv CO_Reacquire show ?thesis by (simp add: s' prod_cons_inv_def mutex_flat_def)
  next
    case CO_Front
    with step obtain x r where "pc_q s = x # r" "s' = s\<lparr>pc_cons := CO_Pop x\<rparr>"
      by (auto simp: consumer_step_def split: list.splits)
    with inv CO_Front show ?thesis by (simp add: prod_cons_inv_def)
  next
    case (CO_Pop x)
    with inv obtain r where "pc_q s = x # r" by (auto simp: prod_cons_inv_def)
    moreover from this CO_Pop step have "s' = s\<lparr>pc_q := r, pc_cons := CO_Unlock x, pc_messages := pc_messages s @ [x]\<rparr>"
      by (simp add: consumer_step_def)
    ultimately show ?thesis using inv CO_Pop by (simp add: prod_cons_inv_def)
  next
    case (CO_Unlock x)
    with step obtain m where m: "mutex_unlock 1 (pc_mutex s) = Done m" and s': "s' = s\<lparr>pc_mutex := m, pc_cons := CO_Lock\<rparr>"
      by (auto simp: consumer_step_def set_mutex_Some)
    from unlocks [OF m] inv CO_Unlock show ?thesis by (simp add: s' prod_cons_inv_def mutex_flat_def)
  qed
qed

lemma spurious_inv: "prod_cons_inv s \<Longrightarrow> pc_cons s = CO_Blocked \<Longrightarrow> prod_cons_inv (s\<lparr>pc_cons := CO_Reacquire\<rparr>)"
  by (auto simp: prod_cons_inv_def)

interpretation prod_cons_sys: invariant_system prod_cons_start prod_cons_step prod_cons_inv
proof unfold_locales
  show "prod_cons_inv prod_cons_start"
    by (simp add: prod_cons_inv_def prod_cons_start_def mutex_init_def mutex_flat_def)
next
  fix s t
  assume "prod_cons_inv s" "prod_cons_step s t"
  then show "prod_cons_inv t"
    by (auto elim!: prod_cons_stepE intro: producer_inv consumer_inv spurious_inv)
qed

text \<open>Whoever holds the mutex can move; if nobody does, the producer can.\<close>

lemma prod_cons_progress:
  assumes inv: "prod_cons_inv s" and "counter_of (pc_prod s) < INT_MAX"
  shows "\<exists>s'. prod_cons_step s s'"
proof (cases "cons_holds (pc_cons s)")
  case True
  then have "m_owner (pc_mutex s) = Some 1" and flat: "mutex_flat (pc_mutex s)"
    and know: "cons_knows (pc_q s) (pc_prod s) (pc_cons s)"
    using inv by (simp_all add: prod_cons_inv_def)
  then have "\<exists>m. mutex_unlock 1 (pc_mutex s) = Done m" by (auto simp: mutex_unlock_def)
  with True know have "\<exists>s'. consumer_step s = Some s'"
    by (cases "pc_cons s") (auto simp: consumer_step_def set_mutex_def neq_Nil_conv)
  then show ?thesis by (blast intro: consume)
next
  case False
  then have "m_owner (pc_mutex s) \<in> {None, Some 0}" using inv unfolding prod_cons_inv_def by blast
  then have "\<exists>s'. producer_step s = Some s'"
    using inv assms(2)
    by (cases "pc_prod s")
      (auto simp: producer_step_def set_mutex_def mutex_lock_free mutex_unlock_def prod_cons_inv_def)
  then show ?thesis by (blast intro: produce)
qed

section \<open>Properties\<close>

text \<open>
  Whatever the interleaving, the consumer gets the producer's numbers in order and
  without loss: what it has got, followed by what the queue holds, is 0, 1, 2 and so on up
  to the counter. It never takes the front of an empty queue, and the two threads are never
  both between lock and unlock.
\<close>

theorem prod_cons_in_order:
  assumes "reach prod_cons_start prod_cons_step s"
  shows "pc_messages s @ pc_q s = map int [0..<nat (counter_of (pc_prod s))]
    \<and> pc_messages s = map int [0..<length (pc_messages s)]
    \<and> (pc_cons s = CO_Front \<longrightarrow> pc_q s \<noteq> []) \<and> (pc_cons s = CO_Pop x \<longrightarrow> (\<exists>r. pc_q s = x # r))
    \<and> \<not> (prod_holds (pc_prod s) \<and> cons_holds (pc_cons s))"
proof -
  have inv: "prod_cons_inv s" using assms by (rule prod_cons_sys.reach_inv)
  let ?n = "nat (counter_of (pc_prod s))"
  have all: "pc_messages s @ pc_q s = map int [0..<?n]" using inv by (simp add: prod_cons_inv_def)
  then have "length (pc_messages s) \<le> ?n" by (metis le_add1 length_append length_map length_upt minus_nat.diff_0)
  then have "pc_messages s = map int [0..<length (pc_messages s)]"
    using arg_cong [OF all, of "take (length (pc_messages s))"] by (simp add: take_map)
  with inv all show ?thesis by (auto simp: prod_cons_inv_def)
qed

theorem prod_cons_in_order_witness:
  "\<exists>s. reach prod_cons_start prod_cons_step s \<and> pc_q s = [0] \<and> pc_messages s @ pc_q s = map int [0..<1]"
proof -
  let ?m = "(mutex_init NORMAL)\<lparr>m_owner := Some 0, m_count := 1\<rparr>"
  let ?s1 = "prod_cons_start\<lparr>pc_mutex := ?m, pc_prod := PR_Push 0\<rparr>"
  let ?s2 = "?s1\<lparr>pc_q := [0], pc_prod := PR_Unlock 1\<rparr>"
  have "producer_step prod_cons_start = Some ?s1" "producer_step ?s1 = Some ?s2"
    by (simp_all add: producer_step_def prod_cons_start_def set_mutex_def mutex_lock_def mutex_init_def)
  then have r: "reach prod_cons_start prod_cons_step ?s2"
    by (meson produce reach_init reach_step)
  from prod_cons_in_order [OF r] have "pc_messages ?s2 @ pc_q ?s2 = map int [0..<nat (counter_of (pc_prod ?s2))]"
    by blast
  with r show ?thesis by (intro exI [of _ ?s2]) simp
qed



end
