(* ===== verification/TSQ_Exercise.thy ===== *)
theory TSQ_Exercise
  imports Safe_Queue
begin

text \<open>
  \<open>day1/ex_TSQ\<close>: the exercise's skeleton, whose queue has a mutex that no method uses. The
  producer runs in a thread, the consumers one after the other in \<open>main\<close>. Even when the
  methods are taken to be atomic, \<open>pop\<close> does not wait; and calls that overlap, which nothing
  prevents, are data races.
\<close>

section \<open>The queue without locking\<close>

definition ex_pop :: "'a list \<Rightarrow> ('a \<times> 'a list) outcome" where
  "ex_pop q = and_then (queue_front q) (\<lambda>item. and_then (queue_pop q) (\<lambda>q'. Done (item, q')))"

definition ex_is_empty :: "'a list \<Rightarrow> bool" where
  "ex_is_empty q \<longleftrightarrow> q = []"

definition ex_try_pop :: "'a list \<Rightarrow> ('a option \<times> 'a list) outcome" where
  "ex_try_pop q =
     (if ex_is_empty q then Done (None, q)
      else and_then (queue_front q) (\<lambda>item. and_then (queue_pop q) (\<lambda>q'. Done (Some item, q'))))"

definition ex_push :: "'a \<Rightarrow> 'a list \<Rightarrow> 'a list" where
  "ex_push item q = q @ [item]"

section \<open>Producer and consumers\<close>

definition ex_producer :: "nat \<Rightarrow> nat \<Rightarrow> int list \<Rightarrow> int list" where
  "ex_producer num_iterations num_consumers q =
     fold (\<lambda>i. ex_push (-1)) [0..<num_consumers] (fold (\<lambda>i. ex_push (int i)) [0..<num_iterations] q)"

lemma ex_pop_simps: "ex_pop [] = Undefined" "ex_pop (v # q) = Done (v, q)"
  by (simp_all add: ex_pop_def queue_front_def queue_pop_def)

lemma ex_pop_shorter: "ex_pop q = Done (v, q') \<Longrightarrow> length q' < length q"
  by (cases q) (simp_all add: ex_pop_simps)

text \<open>One consumer: the values it prints before it meets -1, and the queue it leaves.\<close>

function (sequential) ex_consumer :: "int list \<Rightarrow> (int list \<times> int list) outcome" where
  "ex_consumer q =
     (case ex_pop q of
        Done (v, q') \<Rightarrow>
          if v = -1 then Done ([], q')
          else and_then (ex_consumer q') (\<lambda>(vs, r). Done (v # vs, r))
      | Block \<Rightarrow> Block | Fail e \<Rightarrow> Fail e | Undefined \<Rightarrow> Undefined)"
  by pat_completeness auto

termination
  by (relation "measure length") (auto simp: ex_pop_shorter)

lemma ex_consumer_simps [simp]:
  "ex_consumer [] = Undefined"
  "ex_consumer (v # q) =
     (if v = -1 then Done ([], q) else and_then (ex_consumer q) (\<lambda>(vs, r). Done (v # vs, r)))"
  by (subst ex_consumer.simps, simp add: ex_pop_simps)+

declare ex_consumer.simps [simp del]

fun ex_consumers :: "nat \<Rightarrow> int list \<Rightarrow> (int list \<times> int list) outcome" where
  "ex_consumers 0 q = Done ([], q)"
| "ex_consumers (Suc n) q =
     and_then (ex_consumer q) (\<lambda>(vs, r). and_then (ex_consumers n r) (\<lambda>(ws, r'). Done (vs @ ws, r')))"

lemma ex_producer_eq: "ex_producer n c q = q @ map int [0..<n] @ replicate c (-1)"
proof -
  have "fold (\<lambda>i. ex_push (f i)) xs q = q @ map f xs" for f :: "nat \<Rightarrow> int" and xs q
    by (induction xs arbitrary: q) (simp_all add: ex_push_def)
  then show ?thesis by (simp add: ex_producer_def map_replicate_const)
qed

lemma ex_consumer_values:
  "\<forall>v \<in> set vs. v \<noteq> -1 \<Longrightarrow> ex_consumer (vs @ q) = and_then (ex_consumer q) (\<lambda>(ws, r). Done (vs @ ws, r))"
proof (induction vs)
  case Nil
  show ?case by (cases "ex_consumer q") auto
next
  case (Cons v vs)
  then show ?case by (cases "ex_consumer q") auto
qed

lemma ex_consumers_quit: "ex_consumers c (replicate c (-1)) = Done ([], [])"
  by (induction c) simp_all

lemma ex_consumers_short:
  "length (filter ((=) (-1)) q) < c \<Longrightarrow> ex_consumers c q = Undefined"
proof (induction c arbitrary: q)
  case (Suc c)
  have "ex_consumer p = Undefined \<or> (\<exists>vs r. ex_consumer p = Done (vs, r)
      \<and> length (filter ((=) (-1)) p) = Suc (length (filter ((=) (-1)) r)))" for p
    by (induction p) auto
  then consider "ex_consumer q = Undefined" | vs r where "ex_consumer q = Done (vs, r)"
    "length (filter ((=) (-1)) q) = Suc (length (filter ((=) (-1)) r))" by blast
  then show ?case
  proof cases
    case (2 vs r)
    then have "ex_consumers c r = Undefined" using Suc by simp
    with 2 show ?thesis by simp
  qed simp
qed simp

section \<open>Properties\<close>

text \<open>
  If the producer has finished before \<open>main\<close> consumes, the first consumer prints all
  values in order and the others quit at once, leaving the queue empty. If \<open>main\<close> catches up
  with the producer at any earlier point, a consumer pops from an empty queue, which is
  undefined.
\<close>

theorem exercise_needs_producer_first:
  assumes "0 < c"
  shows "ex_consumers c (ex_producer n c []) = Done (map int [0..<n], [])
    \<and> (k < n + c \<longrightarrow> ex_consumers c (take k (ex_producer n c [])) = Undefined)"
proof -
  obtain d where c: "c = Suc d" using assms by (cases c) auto
  have vals: "\<forall>v \<in> set (map int [0..<n]). v \<noteq> -1" by auto
  have "ex_consumers c (ex_producer n c []) = Done (map int [0..<n], [])"
    using ex_consumer_values [OF vals] ex_consumers_quit [of d] by (simp add: ex_producer_eq c)
  moreover have "ex_consumers c (take k (ex_producer n c [])) = Undefined" if "k < n + c"
  proof (rule ex_consumers_short)
    have "filter ((=) (-1)) (map int (take k [0..<n])) = []" by (auto simp: filter_empty_conv)
    then show "length (filter ((=) (-1)) (take k (ex_producer n c []))) < c"
      using that assms by (simp add: ex_producer_eq take_map)
  qed
  ultimately show ?thesis by blast
qed

theorem exercise_needs_producer_first_witness:
  "ex_consumers 5 (ex_producer 3 5 []) = Done ([0, 1, 2], []) \<and> ex_consumers 5 (take 7 (ex_producer 3 5 [])) = Undefined"
  using exercise_needs_producer_first [of 5 3 7] by (simp add: upt_rec)

section \<open>The program\<close>

text \<open>
  \<open>main\<close> and the producer's thread. A call of a method has a begin and an end; two calls
  that overlap are a data race. \<open>xs_left\<close> is what the producer has still to push, \<open>xs_quit\<close>
  the number of consumers that have quit.
\<close>

record ex_state =
  xs_queue :: "int list"
  xs_left :: "int list"
  xs_in_push :: bool
  xs_in_pop :: bool
  xs_quit :: nat
  xs_out :: "int list"
  xs_undefined :: bool

definition ex_values :: "nat \<Rightarrow> nat \<Rightarrow> int list" where
  "ex_values n c = map int [0..<n] @ replicate c (-1)"

text \<open>The start of \<open>main\<close>, up to the launch of the producer.\<close>

definition ex_main_start :: "nat \<Rightarrow> nat \<Rightarrow> ex_state outcome" where
  "ex_main_start n c =
     and_then (ex_pop (ex_push 10 [])) (\<lambda>(i, q).
       Done \<lparr>xs_queue = q, xs_left = ex_values n c, xs_in_push = False, xs_in_pop = False, xs_quit = 0,
             xs_out = [i], xs_undefined = False\<rparr>)"

definition ex_produce :: "ex_state \<Rightarrow> ex_state option" where
  "ex_produce s =
     (case xs_left s of
        [] \<Rightarrow> None
      | v # vs \<Rightarrow>
          Some (if xs_in_push s then s\<lparr>xs_queue := ex_push v (xs_queue s), xs_left := vs, xs_in_push := False\<rparr>
                else if xs_in_pop s then s\<lparr>xs_undefined := True\<rparr>
                else s\<lparr>xs_in_push := True\<rparr>))"

definition ex_consume :: "ex_state \<Rightarrow> ex_state" where
  "ex_consume s =
     (if xs_in_pop s then
        (case ex_pop (xs_queue s) of
           Done (v, q) \<Rightarrow>
             (if v = -1 then s\<lparr>xs_queue := q, xs_in_pop := False, xs_quit := Suc (xs_quit s)\<rparr>
              else s\<lparr>xs_queue := q, xs_in_pop := False, xs_out := xs_out s @ [v]\<rparr>)
         | _ \<Rightarrow> s\<lparr>xs_undefined := True\<rparr>)
      else if xs_in_push s then s\<lparr>xs_undefined := True\<rparr>
      else s\<lparr>xs_in_pop := True\<rparr>)"

text \<open>\<open>main\<close> returns, and the process ends, after its last consumer.\<close>

definition ex_ended :: "nat \<Rightarrow> ex_state \<Rightarrow> bool" where
  "ex_ended c s \<longleftrightarrow> xs_undefined s \<or> xs_quit s = c"

inductive ex_step :: "nat \<Rightarrow> ex_state \<Rightarrow> ex_state \<Rightarrow> bool" for c where
  "\<not> ex_ended c s \<Longrightarrow> ex_produce s = Some s' \<Longrightarrow> ex_step c s s'"
| "\<not> ex_ended c s \<Longrightarrow> s' = ex_consume s \<Longrightarrow> ex_step c s s'"

inductive_cases ex_stepE: "ex_step c s s'"

text \<open>What has been taken, is in the queue and is still to come makes up the values.\<close>

definition ex_inv :: "nat \<Rightarrow> nat \<Rightarrow> ex_state \<Rightarrow> bool" where
  "ex_inv n c s \<longleftrightarrow>
     (\<exists>taken. taken @ xs_queue s @ xs_left s = ex_values n c
        \<and> xs_out s = 10 # filter (\<lambda>v. v \<noteq> -1) taken \<and> xs_quit s = count_list taken (-1))
     \<and> (xs_in_push s \<longrightarrow> xs_left s \<noteq> []) \<and> \<not> (xs_in_push s \<and> xs_in_pop s)"

definition ex_measure :: "ex_state \<Rightarrow> nat" where
  "ex_measure s = 4 * length (xs_left s) + 2 * length (xs_queue s) + (if xs_in_push s then 0 else 1)
     + (if xs_in_pop s then 0 else 1) + (if xs_undefined s then 0 else 1)"

definition ex_begin :: "nat \<Rightarrow> nat \<Rightarrow> ex_state" where
  "ex_begin n c = \<lparr>xs_queue = [], xs_left = ex_values n c, xs_in_push = False, xs_in_pop = False, xs_quit = 0,
     xs_out = [10], xs_undefined = False\<rparr>"

lemma ex_main_start_eq: "ex_main_start n c = Done (ex_begin n c)"
  by (simp add: ex_main_start_def ex_push_def ex_pop_simps ex_begin_def)

lemma ex_produce_ok:
  assumes "ex_inv n c s" "ex_produce s = Some s'" "\<not> xs_undefined s"
  shows "ex_inv n c s' \<and> ex_measure s' < ex_measure s"
  using assms by (auto simp: ex_produce_def ex_inv_def ex_measure_def ex_push_def split: list.splits if_splits)

lemma ex_consume_ok:
  assumes "ex_inv n c s" "\<not> xs_undefined s"
  shows "ex_inv n c (ex_consume s) \<and> ex_measure (ex_consume s) < ex_measure s"
proof (cases "xs_in_pop s")
  case False
  then show ?thesis using assms by (simp add: ex_consume_def ex_inv_def ex_measure_def)
next
  case True
  show ?thesis
  proof (cases "xs_queue s")
    case Nil
    with assms True show ?thesis by (simp add: ex_consume_def ex_pop_simps ex_inv_def ex_measure_def)
  next
    case (Cons v q)
    from assms(1) Cons obtain taken where "taken @ v # q @ xs_left s = ex_values n c"
      "xs_out s = 10 # filter (\<lambda>v. v \<noteq> -1) taken" "xs_quit s = count_list taken (-1)"
      by (auto simp: ex_inv_def)
    with assms True Cons show ?thesis
      by (auto simp: ex_consume_def ex_pop_simps ex_inv_def ex_measure_def intro!: exI [of _ "taken @ [v]"])
  qed
qed

lemma ex_step_ok: "ex_inv n c s \<Longrightarrow> ex_step c s s' \<Longrightarrow> ex_inv n c s' \<and> ex_measure s' < ex_measure s"
  using ex_produce_ok ex_consume_ok by (auto elim!: ex_stepE simp: ex_ended_def)

interpretation ex_sys: terminating_system "ex_begin n c" "ex_step c" "ex_inv n c" ex_measure "ex_ended c"
  for n c
proof unfold_locales
  show "ex_inv n c (ex_begin n c)" by (simp add: ex_inv_def ex_begin_def)
next
  fix s
  assume "\<not> ex_ended c s"
  then have "ex_step c s (ex_consume s)" by (rule ex_step.intros(2)) simp
  then show "\<exists>t. ex_step c s t" ..
qed (use ex_step_ok in blast)+

text \<open>The last value is a -1, so the consumers have quit only when everything was taken.\<close>

lemma ex_all_taken:
  assumes "taken @ rest = ex_values n c" "count_list taken (-1) = c" "0 < c"
  shows "rest = []"
proof (rule ccontr)
  assume "rest \<noteq> []"
  then have "last rest = last (ex_values n c)" using assms(1) by (metis last_append)
  also have "\<dots> = -1" using assms(3) by (simp add: ex_values_def)
  finally have "-1 \<in> set rest" using \<open>rest \<noteq> []\<close> last_in_set by metis
  then have "0 < count_list rest (-1)" by (simp add: count_list_0_iff flip: neq0_conv)
  moreover have "count_list (ex_values n c) (-1) = c"
  proof -
    have "count_list (replicate c (-1)) (-1 :: int) = c" by (induction c) simp_all
    moreover have "count_list (map int [0..<n]) (-1) = 0" by (auto simp: count_list_0_iff)
    ultimately show ?thesis by (simp add: ex_values_def)
  qed
  ultimately show False using assms(1,2) by (metis count_list_append add_cancel_right_right less_numeral_extra(3))
qed

text \<open>
  Every run of the program ends; a run without undefined behaviour prints 10 and then all the
  values in order. But as long as the producer has something to push, the next steps can be
  undefined: a push and a pop that overlap.
\<close>

lemma exercise_races:
  assumes "reach (ex_begin n c) (ex_step c) s" "0 < c"
  shows "(\<exists>f. reach s (ex_step c) f \<and> ex_ended c f)
    \<and> (ex_ended c s \<and> \<not> xs_undefined s \<longrightarrow> xs_out s = 10 # map int [0..<n] \<and> xs_queue s = [])
    \<and> (\<not> ex_ended c s \<and> xs_left s \<noteq> [] \<longrightarrow> (\<exists>f. reach s (ex_step c) f \<and> xs_undefined f))"
proof (intro conjI impI)
  show "\<exists>f. reach s (ex_step c) f \<and> ex_ended c f" using assms(1) by (rule ex_sys.reaches_final)
next
  have inv: "ex_inv n c s" using assms(1) by (rule ex_sys.reach_inv)
  assume "ex_ended c s \<and> \<not> xs_undefined s"
  with inv obtain taken where t: "taken @ xs_queue s @ xs_left s = ex_values n c"
    "xs_out s = 10 # filter (\<lambda>v. v \<noteq> -1) taken" "count_list taken (-1) = c"
    by (auto simp: ex_inv_def ex_ended_def)
  with ex_all_taken [OF t(1,3) assms(2)] have "taken = ex_values n c" "xs_queue s = []" by auto
  moreover have "filter (\<lambda>v. v \<noteq> -1) (map int [0..<n]) = map int [0..<n]"
    by (rule filter_True) auto
  then have "filter (\<lambda>v. v \<noteq> -1) (ex_values n c) = map int [0..<n]"
    by (simp add: ex_values_def)
  ultimately show "xs_out s = 10 # map int [0..<n]" "xs_queue s = []" using t(2) by simp_all
next
  assume s: "\<not> ex_ended c s \<and> xs_left s \<noteq> []"
  then obtain v vs where left: "xs_left s = v # vs" by (cases "xs_left s") auto
  have consume: "ex_step c s (ex_consume s)" using s by (simp add: ex_step.intros(2))
  have not_both: "\<not> (xs_in_push s \<and> xs_in_pop s)"
    using ex_sys.reach_inv [OF assms(1)] by (simp add: ex_inv_def)
  consider "xs_in_push s" | "\<not> xs_in_push s" "xs_in_pop s" | "\<not> xs_in_push s" "\<not> xs_in_pop s" by blast
  then show "\<exists>f. reach s (ex_step c) f \<and> xs_undefined f"
  proof cases
    case 1
    with not_both have "xs_undefined (ex_consume s)" by (simp add: ex_consume_def)
    with consume show ?thesis by (blast intro: reach_first reach_init)
  next
    case 2
    with left have "ex_produce s = Some (s\<lparr>xs_undefined := True\<rparr>)" by (simp add: ex_produce_def)
    with s have "ex_step c s (s\<lparr>xs_undefined := True\<rparr>)" by (blast intro: ex_step.intros(1))
    then have "reach s (ex_step c) (s\<lparr>xs_undefined := True\<rparr>)" by (rule reach_first) (rule reach_init)
    moreover have "xs_undefined (s\<lparr>xs_undefined := True\<rparr>)" by simp
    ultimately show ?thesis by blast
  next
    case 3
    let ?u = "s\<lparr>xs_in_push := True\<rparr>"
    from 3 left have "ex_produce s = Some ?u" by (simp add: ex_produce_def)
    with s have "ex_step c s ?u" by (blast intro: ex_step.intros(1))
    moreover have "\<not> ex_ended c ?u" using s by (simp add: ex_ended_def)
    then have "ex_step c ?u (ex_consume ?u)" by (simp add: ex_step.intros(2))
    moreover have "xs_undefined (ex_consume ?u)" using 3 by (simp add: ex_consume_def)
    ultimately show ?thesis by (blast intro: reach_first reach_init)
  qed
qed

end
