(* ===== verification/C_Stdio.thy ===== *)
theory C_Stdio
  imports Prelude
begin

text \<open>
  What the sequential C code of the repository uses of the language and of \<open>stdio\<close>: runs
  that return, end the program or are undefined; counting loops; files as character
  sequences with \<open>fgets\<close>, \<open>fgetc\<close>, \<open>%d\<close> read and written; bytes and characters. The lemmas
  are the loop rule the component proofs apply and that \<open>%d\<close> reads back what it wrote.
\<close>

section \<open>Runs of sequential code\<close>

text \<open>\<open>Stop\<close> is a call of \<open>exit\<close> or an error return, \<open>UB\<close> undefined behaviour.\<close>

datatype ('e, 'a) exec = Ret 'a | Stop 'e | UB

fun exec_bind :: "('e, 'a) exec \<Rightarrow> ('a \<Rightarrow> ('e, 'b) exec) \<Rightarrow> ('e, 'b) exec" where
  "exec_bind (Ret x) f = f x"
| "exec_bind (Stop e) f = Stop e"
| "exec_bind UB f = UB"

lemma exec_bind_Ret_iff: "exec_bind r f = Ret y \<longleftrightarrow> (\<exists>x. r = Ret x \<and> f x = Ret y)"
  by (cases r) auto

text \<open>\<open>for_up n i body\<close>: the \<open>n\<close> remaining rounds of a loop whose index is now \<open>i\<close>.\<close>

primrec for_up :: "nat \<Rightarrow> nat \<Rightarrow> (nat \<Rightarrow> 's \<Rightarrow> ('e, 's) exec) \<Rightarrow> 's \<Rightarrow> ('e, 's) exec" where
  "for_up 0 i body s = Ret s"
| "for_up (Suc n) i body s = exec_bind (body i s) (for_up n (Suc i) body)"

lemma for_up_rule:
  assumes "P i s"
    and "\<And>j u. i \<le> j \<Longrightarrow> j < i + n \<Longrightarrow> P j u \<Longrightarrow> \<exists>v. body j u = Ret v \<and> P (Suc j) v"
  shows "\<exists>v. for_up n i body s = Ret v \<and> P (i + n) v"
  using assms
proof (induction n arbitrary: i s)
  case 0
  then show ?case by simp
next
  case (Suc n)
  from Suc.prems(2) [of i s] Suc.prems(1) obtain u where u: "body i s = Ret u" "P (Suc i) u"
    by auto
  have "\<exists>v. for_up n (Suc i) body u = Ret v \<and> P (Suc i + n) v"
    by (rule Suc.IH [OF u(2)]) (use Suc.prems(2) in simp)
  with u(1) show ?case by simp
qed

lemma table_index: "i < h \<Longrightarrow> j < w \<Longrightarrow> i * w + j < h * (w :: nat)"
proof -
  assume "i < h" "j < w"
  then have "i * w + j < Suc i * w" "Suc i * w \<le> h * w"
    by (simp, intro mult_le_mono1, simp)
  then show ?thesis by linarith
qed

lemma for_up_cong:
  "(\<And>j. i \<le> j \<Longrightarrow> j < i + n \<Longrightarrow> f j = g j) \<Longrightarrow> for_up n i f s = for_up n i g s"
proof (induction n arbitrary: i s)
  case (Suc n)
  have "for_up n (Suc i) f u = for_up n (Suc i) g u" for u
    by (rule Suc.IH) (simp add: Suc.prems)
  then have "for_up n (Suc i) f = for_up n (Suc i) g" by (rule ext)
  with Suc.prems [of i] show ?case by simp
qed simp

lemma for_up_shift: "for_up n (i + d) f s = for_up n i (\<lambda>j. f (j + d)) s"
proof (induction n arbitrary: i s)
  case (Suc n)
  have "for_up n (Suc i + d) f = for_up n (Suc i) (\<lambda>j. f (j + d))" by (rule ext) (rule Suc.IH)
  then show ?case by simp
qed simp

text \<open>A loop whose last round is undefined, and which nothing else ends, is undefined.\<close>

lemma for_up_UB:
  assumes "\<And>j s e. body j s \<noteq> Stop e" and "\<And>s. body (i + n) s = UB"
  shows "for_up (Suc n) i body s = UB"
  using assms(2)
proof (induction n arbitrary: i s)
  case 0
  then show ?case by simp
next
  case (Suc n)
  then have "for_up (Suc n) (Suc i) body u = UB" for u by simp
  then show ?case using assms(1) [of i s] by (cases "body i s") auto
qed

text \<open>The same over the rows and columns of a table, by the number of the element.\<close>

lemma for_up_table:
  assumes "P 0 s"
    and body: "\<And>i j u. i < h \<Longrightarrow> j < w \<Longrightarrow> P (i * w + j) u \<Longrightarrow>
      \<exists>v. body i j u = Ret v \<and> P (Suc (i * w + j)) v"
  shows "\<exists>v. for_up h 0 (\<lambda>i. for_up w 0 (body i)) s = Ret v \<and> P (h * w) v"
proof -
  have "\<exists>v. for_up h 0 (\<lambda>i. for_up w 0 (body i)) s = Ret v \<and> P ((0 + h) * w) v"
  proof (rule for_up_rule [where P = "\<lambda>i. P (i * w)"])
    show "P (0 * w) s" using assms(1) by simp
  next
    fix i u
    assume i: "i < 0 + h" and P: "P (i * w) u"
    have "\<exists>v. for_up w 0 (body i) u = Ret v \<and> P (i * w + (0 + w)) v"
      by (rule for_up_rule [where P = "\<lambda>j. P (i * w + j)"]) (use P body i in simp_all)
    then show "\<exists>v. for_up w 0 (body i) u = Ret v \<and> P (Suc i * w) v" by (simp add: algebra_simps)
  qed
  then show ?thesis by simp
qed

text \<open>The same by row and column.\<close>

definition grid :: "(nat \<Rightarrow> nat \<Rightarrow> 'b) \<Rightarrow> nat \<Rightarrow> nat \<Rightarrow> 'b" where
  "grid R w k = R (k div w) (k mod w)"

lemma grid_at: "j < w \<Longrightarrow> grid R w (i * w + j) = R i j"
  by (simp add: grid_def)

lemma grid_next:
  assumes "j < w"
  shows "grid R w (Suc (i * w + j)) = (if Suc j = w then R (Suc i) 0 else R i (Suc j))"
proof (cases "Suc j = w")
  case True
  then have "Suc (i * w + j) = Suc i * w + 0" by simp
  then have "grid R w (Suc (i * w + j)) = grid R w (Suc i * w + 0)" by (simp only:)
  also have "\<dots> = R (Suc i) 0" by (rule grid_at) (use assms in simp)
  finally show ?thesis using True by simp
next
  case False
  then show ?thesis using assms grid_at [of "Suc j" w R i] by simp
qed

lemma grid_start [simp]: "grid R w 0 = R 0 0"
  by (simp add: grid_def)

lemma grid_end: "0 < w \<Longrightarrow> grid R w (h * w) = R h 0"
  using grid_at [of 0 w R h] by simp

text \<open>A use of a variable that has not been assigned is undefined.\<close>

definition use_var :: "'a option \<Rightarrow> ('e, 'a) exec" where
  "use_var v = (case v of None \<Rightarrow> UB | Some x \<Rightarrow> Ret x)"

lemma use_var_Some [simp]: "use_var (Some x) = Ret x"
  by (simp add: use_var_def)

text \<open>The result of \<open>int\<close> arithmetic, undefined out of range.\<close>

definition int_value :: "int \<Rightarrow> ('e, int) exec" where
  "int_value x = (if INT_MIN \<le> x \<and> x \<le> INT_MAX then Ret x else UB)"

lemma int_value_Ret: "INT_MIN \<le> x \<Longrightarrow> x \<le> INT_MAX \<Longrightarrow> int_value x = Ret x"
  by (simp add: int_value_def)

text \<open>Reading and assigning an array element.\<close>

definition array_at :: "'a list \<Rightarrow> int \<Rightarrow> ('e, 'a) exec" where
  "array_at xs k = (if 0 \<le> k \<and> k < int (length xs) then Ret (xs ! nat k) else UB)"

definition array_set :: "'a list \<Rightarrow> int \<Rightarrow> 'a \<Rightarrow> ('e, 'a list) exec" where
  "array_set xs k x = (if 0 \<le> k \<and> k < int (length xs) then Ret (xs[nat k := x]) else UB)"

lemma array_at_nat [simp]: "k < length xs \<Longrightarrow> array_at xs (int k) = Ret (xs ! k)"
  by (simp add: array_at_def)

lemma array_set_nat [simp]: "k < length xs \<Longrightarrow> array_set xs (int k) x = Ret (xs[k := x])"
  by (simp add: array_set_def)

text \<open>The remainder of C, which has the sign of the dividend; the divisors here are positive. And the quotient.\<close>

definition c_rem :: "int \<Rightarrow> int \<Rightarrow> int" where
  "c_rem a b = (if 0 \<le> a then a mod b else - ((- a) mod b))"

lemma c_rem_nonneg [simp]: "0 \<le> a \<Longrightarrow> c_rem a b = a mod b"
  by (simp add: c_rem_def)

definition c_quot :: "int \<Rightarrow> int \<Rightarrow> int" where
  "c_quot a b = (if 0 \<le> a then a div b else - ((- a) div b))"

lemma c_quot_nonneg [simp]: "0 \<le> a \<Longrightarrow> c_quot a b = a div b"
  by (simp add: c_quot_def)

section \<open>Characters, bytes and numbers\<close>

definition newline :: char where
  "newline = CHR ''\<newline>''"

text \<open>\<open>isspace\<close> and \<open>isdigit\<close> of the C locale.\<close>

definition is_space :: "char \<Rightarrow> bool" where
  "is_space c \<longleftrightarrow> of_char c = (32 :: nat) \<or> 9 \<le> (of_char c :: nat) \<and> of_char c \<le> (13 :: nat)"

definition is_digit :: "char \<Rightarrow> bool" where
  "is_digit c \<longleftrightarrow> 48 \<le> (of_char c :: nat) \<and> of_char c \<le> (57 :: nat)"

definition byte_char :: "u8 \<Rightarrow> char" where
  "byte_char b = char_of (unat b)"

definition char_byte :: "char \<Rightarrow> u8" where
  "char_byte c = word_of_int (of_char c)"

text \<open>A \<open>char\<close> is signed on the platforms the sources are for.\<close>

definition schar :: "char \<Rightarrow> int" where
  "schar c = (if of_char c < (128 :: int) then of_char c else of_char c - 256)"

definition digit_char :: "nat \<Rightarrow> char" where
  "digit_char d = char_of (48 + d)"

fun show_nat :: "nat \<Rightarrow> string" where
  "show_nat n = (if n < 10 then [digit_char n] else show_nat (n div 10) @ [digit_char (n mod 10)])"

declare show_nat.simps [simp del]

definition show_int :: "int \<Rightarrow> string" where
  "show_int i = (if i < 0 then CHR ''-'' # show_nat (nat (- i)) else show_nat (nat i))"

definition digits_value :: "string \<Rightarrow> int" where
  "digits_value ds = foldl (\<lambda>a d. 10 * a + (of_char d - 48)) 0 ds"

text \<open>
  \<open>scanf\<close> with \<open>%d\<close>: skips space, reads a sign and digits; no number without a digit. The
  second component is the input left.
\<close>

definition scan_sign :: "string \<Rightarrow> bool \<times> string" where
  "scan_sign s =
     (case s of
        [] \<Rightarrow> (False, [])
      | c # cs \<Rightarrow> if c = CHR ''-'' then (True, cs) else if c = CHR ''+'' then (False, cs) else (False, s))"

definition scan_int :: "string \<Rightarrow> int option \<times> string" where
  "scan_int inp =
     (case scan_sign (dropWhile is_space inp) of
        (neg, s) \<Rightarrow>
          (let ds = takeWhile is_digit s
           in (if ds = [] then None else Some (if neg then - digits_value ds else digits_value ds),
               dropWhile is_digit s)))"

text \<open>\<open>atoi\<close>: the number at the start of the string, 0 if there is none.\<close>

definition atoi :: "string \<Rightarrow> ('e, int) exec" where
  "atoi s = (case fst (scan_int s) of None \<Rightarrow> Ret 0 | Some n \<Rightarrow> int_value n)"

section \<open>Input\<close>

text \<open>\<open>take_line k\<close>: at most \<open>k\<close> characters, up to and with the first line end.\<close>

primrec take_line :: "nat \<Rightarrow> string \<Rightarrow> string \<times> string" where
  "take_line 0 s = ([], s)"
| "take_line (Suc k) s =
     (case s of
        [] \<Rightarrow> ([], [])
      | c # cs \<Rightarrow>
          if c = newline then ([c], cs)
          else (case take_line k cs of (l, r) \<Rightarrow> (c # l, r)))"

text \<open>\<open>fgets\<close> with a buffer of \<open>n\<close>: \<open>None\<close> at the end of the file.\<close>

definition fgets :: "nat \<Rightarrow> string \<Rightarrow> (string \<times> string) option" where
  "fgets n inp = (if inp = [] then None else Some (take_line (n - 1) inp))"

definition fgetc :: "string \<Rightarrow> int \<times> string" where
  "fgetc inp = (case inp of [] \<Rightarrow> (-1, []) | c # cs \<Rightarrow> (of_char c, cs))"

text \<open>The buffer as a C string, and its elements; it ends with a zero.\<close>

definition c_string :: "string \<Rightarrow> string" where
  "c_string buf = takeWhile (\<lambda>c. of_char c \<noteq> (0 :: nat)) buf"

definition buffer_at :: "string \<Rightarrow> nat \<Rightarrow> int" where
  "buffer_at buf k = (if k < length buf then schar (buf ! k) else 0)"

section \<open>Facts\<close>

lemma byte_range: "0 \<le> uint b \<and> uint b < 256" for b :: u8
  using unsigned_less [where w = b and 'a = int] by simp

lemma of_char_byte_char: "of_char (byte_char b) = uint b"
proof -
  have "of_char (byte_char b) = (int (unat b mod 256))"
    by (metis byte_char_def of_char_of of_nat_of_char)
  also have "unat b mod 256 = unat b"
    by (rule mod_less) (use unsigned_less [where w = b] in simp)
  finally show ?thesis by simp
qed

lemma char_byte_char [simp]: "char_byte (byte_char b) = b"
  by (simp add: char_byte_def of_char_byte_char)

lemma of_char_digit: "d < 10 \<Longrightarrow> of_char (digit_char d) = (48 + d :: nat)"
  by (simp add: digit_char_def)

lemma of_char_digit_int: "d < 10 \<Longrightarrow> of_char (digit_char d) = (48 + int d)"
  by (metis of_char_digit of_nat_add of_nat_numeral of_nat_of_char)

lemma is_digit_char [simp]: "d < 10 \<Longrightarrow> is_digit (digit_char d)"
  by (simp add: is_digit_def of_char_digit)

lemma not_both_digit_space: "is_digit c \<Longrightarrow> \<not> is_space c"
  by (auto simp: is_digit_def is_space_def)

lemma show_nat_digits: "\<forall>c \<in> set (show_nat n). is_digit c"
  by (induction n rule: show_nat.induct) (subst show_nat.simps, auto)

lemma show_nat_nonempty: "show_nat n \<noteq> []"
  by (subst show_nat.simps) simp

lemma digits_value_snoc: "digits_value (ds @ [d]) = 10 * digits_value ds + (of_char d - 48)"
  by (simp add: digits_value_def)

lemma digits_value_show_nat: "digits_value (show_nat n) = int n"
proof (induction n rule: show_nat.induct)
  case (1 n)
  show ?case
  proof (cases "n < 10")
    case True
    then show ?thesis
      by (subst show_nat.simps) (simp add: digits_value_def of_char_digit_int)
  next
    case False
    then have "digits_value (show_nat (n div 10)) = int (n div 10)" using 1 by simp
    with False show ?thesis
      by (subst show_nat.simps)
        (simp only: if_False digits_value_snoc, simp add: of_char_digit_int zdiv_int zmod_int)
  qed
qed

text \<open>\<open>%d\<close> reads back a number \<open>%d\<close> has written, whatever space comes before.\<close>

definition number_ends :: "string \<Rightarrow> bool" where
  "number_ends s \<longleftrightarrow> s = [] \<or> \<not> is_digit (hd s)"

lemma span_digits:
  assumes "\<forall>c \<in> set ds. is_digit c" and "number_ends rest"
  shows "takeWhile is_digit (ds @ rest) = ds" and "dropWhile is_digit (ds @ rest) = rest"
  using assms by (cases rest; simp add: number_ends_def takeWhile_append dropWhile_append)+

lemma scan_show_int:
  assumes "\<forall>c \<in> set ws. is_space c" and "number_ends rest"
  shows "scan_int (ws @ show_int i @ rest) = (Some i, rest)"
proof -
  obtain d ds where d: "show_nat (nat \<bar>i\<bar>) = d # ds"
    using show_nat_nonempty by (meson neq_Nil_conv)
  then have dig: "is_digit d" using show_nat_digits [of "nat \<bar>i\<bar>"] by simp
  then have neq: "d \<noteq> CHR ''-''" "d \<noteq> CHR ''+''" "\<not> is_space d"
    by (auto simp: is_digit_def is_space_def)
  have minus: "\<not> is_space CHR ''-''" by (simp add: is_space_def)
  have skip: "dropWhile is_space (ws @ show_int i @ rest) = show_int i @ rest"
    using assms(1) neq(3) minus d by (auto simp: show_int_def)
  have "scan_sign (show_int i @ rest) = (i < 0, show_nat (nat \<bar>i\<bar>) @ rest)"
    using d neq by (auto simp: show_int_def scan_sign_def)
  with skip span_digits [OF show_nat_digits assms(2), of "nat \<bar>i\<bar>"] show ?thesis
    by (auto simp: scan_int_def Let_def digits_value_show_nat show_nat_nonempty)
qed

lemma take_line_whole:
  assumes "newline \<notin> set l" and "length l < k"
  shows "take_line k (l @ newline # rest) = (l @ [newline], rest)"
  using assms
proof (induction l arbitrary: k)
  case Nil
  then show ?case by (cases k) simp_all
next
  case (Cons c l)
  then show ?case by (cases k) auto
qed

lemma fgets_line:
  "newline \<notin> set l \<Longrightarrow> length l + 1 < n \<Longrightarrow> fgets n (l @ newline # rest) = Some (l @ [newline], rest)"
  by (simp add: fgets_def take_line_whole)

lemma take_line_shorter:
  "take_line k s = (l, r) \<Longrightarrow> 0 < k \<Longrightarrow> s \<noteq> [] \<Longrightarrow> l \<noteq> [] \<and> s = l @ r"
proof (induction k arbitrary: s l r)
  case 0
  then show ?case by simp
next
  case (Suc k)
  then obtain c cs where s: "s = c # cs" by (cases s) auto
  show ?case
  proof (cases "c = newline \<or> k = 0 \<or> cs = []")
    case True
    then show ?thesis using Suc.prems s by (cases k) (auto split: prod.splits)
  next
    case False
    then show ?thesis using Suc s by (auto split: prod.splits)
  qed
qed

end
