(* ===== verification/Mutex_Type.thy ===== *)
theory Mutex_Type
  imports Pthread C_Stdio
begin

text \<open>
  \<open>day1/06_mutex_type\<close> (and its copy in \<open>day2\<close>): a thread locks a mutex twice and unlocks it
  twice; the mutex type is chosen on the command line. The model keeps the messages
  printed, and how the thread and the program end.
\<close>

section \<open>The thread\<close>

text \<open>A thread is still running, has ended the program with \<open>test_errno\<close>, or is stuck.\<close>

datatype watek_state = Going mutex | Exited string errno | Stuck | Undefd

text \<open>One numbered part of the thread: a message, the call, the check, a message.\<close>

fun locked_call ::
  "string \<Rightarrow> (mutex \<Rightarrow> mutex outcome) \<Rightarrow> string list \<times> watek_state \<Rightarrow> string list \<times> watek_state" where
  "locked_call name call (out, Going m) =
     (let out1 = out @ [''before '' @ name]
      in case call m of
           Done m' \<Rightarrow> (out1 @ [''after '' @ name], Going m')
         | Fail e \<Rightarrow> (out1, Exited name e)
         | Block \<Rightarrow> (out1, Stuck)
         | Undefined \<Rightarrow> (out1, Undefd))"
| "locked_call name call (out, st) = (out, st)"

definition watek :: "tid \<Rightarrow> mutex \<Rightarrow> string list \<times> watek_state" where
  "watek t m =
     locked_call ''pthread_mutex_unlock (1)'' (mutex_unlock t)
       (locked_call ''pthread_mutex_unlock (2)'' (mutex_unlock t)
         (locked_call ''pthread_mutex_lock (2)'' (mutex_lock t)
           (locked_call ''pthread_mutex_lock (1)'' (mutex_lock t) ([], Going m))))"

section \<open>The program\<close>

text \<open>
  The type chosen by \<open>argv[1]\<close> and its message. The arguments are those after the
  program's name.
\<close>

definition chosen_kind :: "int \<Rightarrow> mutex_kind \<times> string" where
  "chosen_kind n =
     (if n = 1 then (ERRORCHECK, ''mutex typu PTHREAD_MUTEX_ERRORCHECK'')
      else if n = 2 then (RECURSIVE, ''mutex typu PTHREAD_MUTEX_RECURSIVE'')
      else (NORMAL, ''mutex typu PTHREAD_MUTEX_NORMAL''))"

datatype program_end = Status int | Never_ends | Bad

text \<open>
  \<open>main\<close>: the output and the end; \<open>perror\<close> writes elsewhere. The arguments \<open>e_init\<close> and
  \<open>e_create\<close> are the results of \<open>pthread_mutex_init\<close> and \<open>pthread_create\<close>. It joins the
  thread, so it never ends when the thread is stuck; the result of the join is not assigned
  to \<open>errno\<close>, whose test looks at the 0 of \<open>pthread_create\<close>. It has no \<open>return\<close>, which in C99
  means status 0.
\<close>

definition mutex_type_main :: "int \<Rightarrow> int \<Rightarrow> string list \<Rightarrow> string list \<times> program_end" where
  "mutex_type_main e_init e_create args =
     (case args of
        [] \<Rightarrow> ([''usage: program [0 - normal | 1 - errorcheck | 2 - recursive ]''], Status 1)
      | a # _ \<Rightarrow>
          (case atoi a of
             Ret n \<Rightarrow>
               (case chosen_kind n of (kind, msg) \<Rightarrow>
                 if e_init \<noteq> 0 \<or> e_create \<noteq> 0 then ([msg], Status 1)
                 else
                   (case watek 1 (mutex_init kind) of (out, st) \<Rightarrow>
                     (msg # out,
                      case st of Going _ \<Rightarrow> Status 0 | Exited _ _ \<Rightarrow> Status 1 | Stuck \<Rightarrow> Never_ends | Undefd \<Rightarrow> Bad)))
           | Stop (e :: unit) \<Rightarrow> ([], Bad)
           | UB \<Rightarrow> ([], Bad)))"

lemma watek_recursive:
  "watek t (mutex_init RECURSIVE) =
     ([''before pthread_mutex_lock (1)'', ''after pthread_mutex_lock (1)'',
       ''before pthread_mutex_lock (2)'', ''after pthread_mutex_lock (2)'',
       ''before pthread_mutex_unlock (2)'', ''after pthread_mutex_unlock (2)'',
       ''before pthread_mutex_unlock (1)'', ''after pthread_mutex_unlock (1)''],
      Going (mutex_init RECURSIVE))"
  by (simp add: watek_def mutex_init_def mutex_lock_def mutex_unlock_def)

lemma watek_not_recursive:
  "k \<noteq> RECURSIVE \<Longrightarrow> watek t (mutex_init k) =
     ([''before pthread_mutex_lock (1)'', ''after pthread_mutex_lock (1)'',
       ''before pthread_mutex_lock (2)''],
      if k = ERRORCHECK then Exited ''pthread_mutex_lock (2)'' EDEADLK else Stuck)"
  by (cases k) (simp_all add: watek_def mutex_init_def mutex_lock_def)

section \<open>Properties\<close>

text \<open>
  The three mutex types end the program in three ways. Recursive: the thread locks
  twice, unlocks twice, leaves the mutex free and the program ends with status 0. Error
  checking: the second lock reports a deadlock and the program exits with status 1.
  Anything else on the command line: the second lock blocks for ever. If the mutex or the
  thread cannot be made, it exits with status 1 before the thread has run.
\<close>

theorem mutex_type_endings:
  assumes "atoi a = (Ret n :: (unit, int) exec)"
  shows "(n = 2 \<longrightarrow> snd (mutex_type_main 0 0 (a # as)) = Status 0 \<and> length (fst (mutex_type_main 0 0 (a # as))) = 9
        \<and> snd (watek 1 (mutex_init RECURSIVE)) = Going (mutex_init RECURSIVE))
    \<and> (n = 1 \<longrightarrow> snd (mutex_type_main 0 0 (a # as)) = Status 1
        \<and> snd (watek 1 (mutex_init ERRORCHECK)) = Exited ''pthread_mutex_lock (2)'' EDEADLK)
    \<and> (n \<noteq> 1 \<and> n \<noteq> 2 \<longrightarrow> snd (mutex_type_main 0 0 (a # as)) = Never_ends
        \<and> last (fst (mutex_type_main 0 0 (a # as))) = ''before pthread_mutex_lock (2)'')
    \<and> (e_init \<noteq> 0 \<or> e_create \<noteq> 0 \<longrightarrow> mutex_type_main e_init e_create (a # as) = ([snd (chosen_kind n)], Status 1))"
  using assms
  by (simp add: mutex_type_main_def chosen_kind_def watek_recursive watek_not_recursive)

theorem mutex_type_endings_witness:
  "snd (mutex_type_main 0 0 [''2'']) = Status 0 \<and> snd (mutex_type_main 0 0 [''1'']) = Status 1
   \<and> snd (mutex_type_main 0 0 [''zero'']) = Never_ends"
proof -
  have "atoi ''2'' = (Ret 2 :: (unit, int) exec)" "atoi ''1'' = (Ret 1 :: (unit, int) exec)"
    "atoi ''zero'' = (Ret 0 :: (unit, int) exec)" by code_simp+
  then show ?thesis using mutex_type_endings by simp
qed

end
