(* ===== verification/Accumulate.thy ===== *)
theory Accumulate
  imports C_Stdio
begin

text \<open>
  \<open>day1/ex_accumulate\<close>: the sum of an array by one thread and by four, each adding up a block
  of it into its own partial sum. Sums are \<open>unsigned long\<close> and wrap at 64 bits; a pointer
  into the array is its index. The threads' steps interleave freely.
\<close>

section \<open>The sums\<close>

definition one_thread_sum :: "u64 list \<Rightarrow> nat \<Rightarrow> nat \<Rightarrow> (string, u64) exec" where
  "one_thread_sum table b e =
     for_up (e - b) b (\<lambda>p sum. exec_bind (array_at table (int p)) (\<lambda>v. Ret (sum + v))) 0"

record range_t =
  rg_start :: nat
  rg_end :: nat
  rg_partial_sum :: u64

text \<open>The ranges of \<open>n\<close> full blocks from \<open>block_start\<close> on, and of the last thread.\<close>

primrec ranges :: "nat \<Rightarrow> nat \<Rightarrow> nat \<Rightarrow> nat \<Rightarrow> range_t list" where
  "ranges block_size e 0 block_start =
     [\<lparr>rg_start = block_start, rg_end = e, rg_partial_sum = 0\<rparr>]"
| "ranges block_size e (Suc n) block_start =
     \<lparr>rg_start = block_start, rg_end = block_start + block_size, rg_partial_sum = 0\<rparr>
       # ranges block_size e n (block_start + block_size)"

definition sum_start :: "u64 list \<Rightarrow> range_t list" where
  "sum_start table = ranges (length table div 4) (length table) 3 0"

text \<open>One round of a thread's loop; \<open>None\<close> when it has ended (or would read out of bounds).\<close>

definition partial_sum :: "u64 list \<Rightarrow> range_t \<Rightarrow> range_t option" where
  "partial_sum table r =
     (if rg_start r < rg_end r \<and> rg_start r < length table
      then Some (r\<lparr>rg_partial_sum := rg_partial_sum r + table ! rg_start r, rg_start := rg_start r + 1\<rparr>)
      else None)"

inductive sum_step :: "u64 list \<Rightarrow> range_t list \<Rightarrow> range_t list \<Rightarrow> bool" for table where
  "t < length rs \<Longrightarrow> partial_sum table (rs ! t) = Some r \<Longrightarrow> sum_step table rs (rs[t := r])"

inductive_cases sum_stepE: "sum_step table rs rs'"

definition sums_done :: "range_t list \<Rightarrow> bool" where
  "sums_done rs \<longleftrightarrow> (\<forall>r \<in> set rs. \<not> rg_start r < rg_end r)"

text \<open>What \<open>multithread_sum\<close> prints after it has joined the threads.\<close>

definition joined_sum :: "range_t list \<Rightarrow> u64" where
  "joined_sum rs = foldl (\<lambda>sum r. sum + rg_partial_sum r) 0 rs"

section \<open>The invariant\<close>

definition table_sum :: "u64 list \<Rightarrow> nat \<Rightarrow> nat \<Rightarrow> u64" where
  "table_sum table a b = (\<Sum>i \<in> {a..<b}. table ! i)"

definition range_ok :: "u64 list \<Rightarrow> range_t \<Rightarrow> range_t \<Rightarrow> bool" where
  "range_ok table r0 r \<longleftrightarrow> rg_end r = rg_end r0 \<and> rg_start r0 \<le> rg_start r \<and> rg_start r \<le> rg_end r
     \<and> rg_end r \<le> length table \<and> rg_partial_sum r = table_sum table (rg_start r0) (rg_start r)"

definition sum_inv :: "u64 list \<Rightarrow> range_t list \<Rightarrow> bool" where
  "sum_inv table rs \<longleftrightarrow> list_all2 (range_ok table) (sum_start table) rs"

definition sum_measure :: "range_t list \<Rightarrow> nat" where
  "sum_measure rs = sum_list (map (\<lambda>r. rg_end r - rg_start r) rs)"

lemma table_sum_simps:
  "table_sum table a a = 0"
  "a \<le> b \<Longrightarrow> table_sum table a (Suc b) = table_sum table a b + table ! b"
  "a \<le> b \<Longrightarrow> b \<le> c \<Longrightarrow> table_sum table a b + table_sum table b c = table_sum table a c"
  by (simp_all add: table_sum_def sum.atLeastLessThan_concat)

lemma ranges_ok:
  "b + n * s \<le> e \<Longrightarrow> e \<le> length table \<Longrightarrow>
   list_all2 (range_ok table) (ranges s e n b) (ranges s e n b)"
  by (induction n arbitrary: b) (auto simp: range_ok_def table_sum_simps)

lemma sum_inv_start: "sum_inv table (sum_start table)"
  unfolding sum_inv_def sum_start_def by (rule ranges_ok) simp_all

lemma partial_sum_ok:
  "range_ok table r0 r \<Longrightarrow> partial_sum table r = Some r' \<Longrightarrow>
   range_ok table r0 r' \<and> rg_end r' - rg_start r' < rg_end r - rg_start r"
  by (auto simp: partial_sum_def range_ok_def table_sum_simps split: if_splits)

lemma sum_inv_nth: "sum_inv table rs \<Longrightarrow> t < length rs \<Longrightarrow> range_ok table (sum_start table ! t) (rs ! t)"
  by (simp add: sum_inv_def list_all2_conv_all_nth)

lemma sum_step_inv:
  assumes "sum_inv table rs" and "sum_step table rs rs'"
  shows "sum_inv table rs' \<and> sum_measure rs' < sum_measure rs"
  using assms(2)
proof (rule sum_stepE)
  fix t r
  assume rs': "rs' = rs[t := r]" and t: "t < length rs" and r: "partial_sum table (rs ! t) = Some r"
  from partial_sum_ok [OF sum_inv_nth [OF assms(1) t] r]
  have ok: "range_ok table (sum_start table ! t) r" and less: "rg_end r - rg_start r < rg_end (rs ! t) - rg_start (rs ! t)"
    by simp_all
  have "sum_inv table rs'"
    using assms(1) ok t unfolding sum_inv_def rs' list_all2_conv_all_nth by (auto simp: nth_list_update)
  moreover have "sum_measure rs' < sum_measure rs"
  proof -
    have "rs = take t rs @ rs ! t # drop (Suc t) rs" using t by (rule id_take_nth_drop)
    then have "sum_measure rs = sum_measure (take t rs) + (rg_end (rs ! t) - rg_start (rs ! t)) + sum_measure (drop (Suc t) rs)"
      unfolding sum_measure_def by (metis (no_types, lifting) add.assoc list.simps(9) map_append sum_list.Cons sum_list.append)
    moreover have "sum_measure rs' = sum_measure (take t rs) + (rg_end r - rg_start r) + sum_measure (drop (Suc t) rs)"
      unfolding rs' using t by (simp add: sum_measure_def upd_conv_take_nth_drop)
    ultimately show ?thesis using less by simp
  qed
  ultimately show ?thesis ..
qed

lemma sum_progress:
  assumes "sum_inv table rs" and "\<not> sums_done rs"
  shows "\<exists>rs'. sum_step table rs rs'"
proof -
  from assms(2) obtain t where t: "t < length rs" "rg_start (rs ! t) < rg_end (rs ! t)"
    by (auto simp: sums_done_def in_set_conv_nth)
  with sum_inv_nth [OF assms(1) t(1)] have "\<exists>r. partial_sum table (rs ! t) = Some r"
    by (auto simp: partial_sum_def range_ok_def)
  with t(1) show ?thesis by (blast intro: sum_step.intros)
qed

interpretation sum_sys: terminating_system "sum_start table" "sum_step table" "sum_inv table" sum_measure sums_done
  for table
  by unfold_locales (auto simp: sum_inv_start sum_step_inv intro: sum_progress)

section \<open>The total\<close>

lemma joined_sum_eq: "joined_sum rs = sum_list (map rg_partial_sum rs)"
proof -
  have "foldl (\<lambda>sum r. sum + rg_partial_sum r) x rs = x + sum_list (map rg_partial_sum rs)" for x
    by (induction rs arbitrary: x) (simp_all add: add.assoc)
  then show ?thesis by (simp add: joined_sum_def)
qed

lemma ranges_sum:
  "b + n * s \<le> e \<Longrightarrow> list_all2 (range_ok table) (ranges s e n b) rs \<Longrightarrow> sums_done rs \<Longrightarrow>
   joined_sum rs = table_sum table b e"
proof (induction n arbitrary: b rs)
  case 0
  then show ?case
    by (auto simp: list_all2_Cons1 joined_sum_eq range_ok_def sums_done_def)
next
  case (Suc n)
  then obtain r qs where rs: "rs = r # qs" and r: "range_ok table \<lparr>rg_start = b, rg_end = b + s, rg_partial_sum = 0\<rparr> r"
    and qs: "list_all2 (range_ok table) (ranges s e n (b + s)) qs"
    by (auto simp: list_all2_Cons1)
  have le: "b + s + n * s \<le> e" using Suc.prems(1) by simp
  have "sums_done qs" "\<not> rg_start r < rg_end r" using Suc.prems(3) rs by (simp_all add: sums_done_def)
  with Suc.IH [OF le qs] r have "joined_sum rs = table_sum table b (b + s) + table_sum table (b + s) e"
    by (auto simp: rs joined_sum_eq range_ok_def)
  also have "\<dots> = table_sum table b e" using le by (intro table_sum_simps(3)) simp_all
  finally show ?case .
qed

lemma one_thread_sum_eq: "one_thread_sum table 0 (length table) = Ret (table_sum table 0 (length table))"
proof -
  have "\<exists>v. for_up (length table) 0 (\<lambda>p sum. exec_bind (array_at table (int p)) (\<lambda>v. Ret (sum + v))) 0
      = (Ret v :: (string, u64) exec) \<and> v = table_sum table 0 (0 + length table)"
    by (rule for_up_rule [where P = "\<lambda>p v. v = table_sum table 0 p"]) (simp_all add: table_sum_simps)
  then show ?thesis by (simp add: one_thread_sum_def)
qed

section \<open>Properties\<close>

text \<open>
  C17: Whatever the table and the interleaving, the four threads always finish,
  never read outside it, and the sum of their
  partial sums is the one thread's, wrapped at 64 bits alike.
\<close>

theorem multithread_sum_equals_one_thread_sum:
  assumes "reach (sum_start table) (sum_step table) rs"
  shows "(\<exists>f. reach rs (sum_step table) f \<and> sums_done f)
    \<and> ((\<nexists>rs'. sum_step table rs rs') \<longrightarrow> sums_done rs)
    \<and> (sums_done rs \<longrightarrow> one_thread_sum table 0 (length table) = Ret (joined_sum rs))"
proof -
  have "sum_inv table rs" using assms by (rule sum_sys.reach_inv)
  then have "sums_done rs \<Longrightarrow> joined_sum rs = table_sum table 0 (length table)"
    using ranges_sum [of 0 3 "length table div 4" "length table" table rs] by (simp add: sum_inv_def sum_start_def)
  then show ?thesis
    using sum_sys.reaches_final [OF assms] sum_sys.stuck_final [OF assms] one_thread_sum_eq by simp
qed

theorem multithread_sum_equals_one_thread_sum_witness:
  "\<exists>f. reach (sum_start [1, 2, 3, 4, 5]) (sum_step [1, 2, 3, 4, 5]) f \<and> sums_done f \<and> joined_sum f = 15"
proof -
  obtain f where f: "reach (sum_start [1, 2, 3, 4, 5]) (sum_step [1, 2, 3, 4, 5]) f" "sums_done f"
    using multithread_sum_equals_one_thread_sum [OF reach_init] by blast
  then have "one_thread_sum [1, 2, 3, 4, 5] 0 (length [1, 2, 3, 4, 5 :: u64]) = Ret (joined_sum f)"
    using multithread_sum_equals_one_thread_sum by blast
  moreover have "one_thread_sum [1, 2, 3, 4, 5] 0 (length [1, 2, 3, 4, 5 :: u64]) = Ret 15" by code_simp
  ultimately show ?thesis using f by auto
qed

section \<open>The program\<close>

text \<open>
  \<open>main\<close> fills the table with its indices and prints, besides the size, both sums: the second
  is the one of an end of the four threads.
\<close>

definition sum_table :: "nat \<Rightarrow> u64 list" where
  "sum_table n = map of_nat [0..<n]"

definition sum_main :: "nat \<Rightarrow> range_t list \<Rightarrow> (string, nat \<times> u64 \<times> u64) exec" where
  "sum_main n rs = exec_bind (one_thread_sum (sum_table n) 0 n) (\<lambda>sum. Ret (n, sum, joined_sum rs))"

text \<open>For the 900000 elements of the program both are 404999550000, under every interleaving.\<close>

lemma table_sum_program: "table_sum (sum_table 900000) 0 900000 = 404999550000"
proof -
  have "table_sum (sum_table 900000) 0 900000 = (\<Sum>i \<in> {0..<900000}. of_nat i)"
    unfolding table_sum_def sum_table_def by (rule sum.cong) simp_all
  also have "\<dots> = of_nat (\<Sum>{0..<900000})" by simp
  also have "\<Sum>{0..<900000 :: nat} = 404999550000"
    by (simp add: Sum_Ico_nat)
  finally show ?thesis by simp
qed

lemma sum_main_prints:
  assumes "reach (sum_start (sum_table 900000)) (sum_step (sum_table 900000)) rs" "sums_done rs"
  shows "sum_main 900000 rs = Ret (900000, 404999550000, 404999550000)"
proof -
  let ?t = "sum_table 900000"
  have l: "length ?t = 900000" by (simp add: sum_table_def)
  have "sum_inv ?t rs" using assms(1) by (rule sum_sys.reach_inv)
  with assms(2) have "joined_sum rs = table_sum ?t 0 (length ?t)"
    using ranges_sum [of 0 3 "length ?t div 4" "length ?t" ?t rs] by (simp add: sum_inv_def sum_start_def)
  moreover have "one_thread_sum ?t 0 900000 = Ret (table_sum ?t 0 900000)"
    using one_thread_sum_eq [of ?t] unfolding l .
  ultimately show ?thesis by (simp add: sum_main_def l table_sum_program)
qed

end
