(* ===== verification/Launch.thy ===== *)
theory Launch
  imports C_Stdio
begin

text \<open>
  \<open>launch_thread\<close>: the helper that starts a thread on a copy of a function object allocated
  with \<open>new\<close>. The sources hold it in several copies that differ in how they test the result
  of \<open>pthread_create\<close>; \<open>day1/x_abstract_launcher\<close> has its own version. The model keeps the
  allocated function objects, the threads started with the pointer each was given, and the
  caller's thread identifier. \<open>pthread_create\<close> returns 0 or a positive error number.
\<close>

section \<open>State\<close>

record 'f launcher =
  ln_cells :: "nat \<Rightarrow> 'f option"
  ln_next :: nat
  ln_threads :: "nat list"
  ln_id :: "nat option"
  ln_ran :: "'f list"

text \<open>\<open>new\<close> of a copy of the function object.\<close>

definition new_task :: "'f \<Rightarrow> 'f launcher \<Rightarrow> nat \<times> 'f launcher" where
  "new_task f s = (ln_next s, s\<lparr>ln_cells := (ln_cells s)(ln_next s \<mapsto> f), ln_next := Suc (ln_next s)\<rparr>)"

definition delete_task :: "nat \<Rightarrow> 'f launcher \<Rightarrow> 'f launcher" where
  "delete_task a s = s\<lparr>ln_cells := (ln_cells s)(a := None)\<rparr>"

text \<open>\<open>pthread_create\<close> with result \<open>err\<close>: on success the identifier is the thread's number.\<close>

definition pthread_create :: "int \<Rightarrow> nat \<Rightarrow> 'f launcher \<Rightarrow> 'f launcher" where
  "pthread_create err a s =
     (if err = 0 then s\<lparr>ln_threads := ln_threads s @ [a], ln_id := Some (length (ln_threads s))\<rparr> else s)"

section \<open>The copies\<close>

text \<open>
  The result is the state, or the state at the \<open>throw\<close> (\<open>Stop\<close>). Most copies test for -1,
  the one of \<open>x_c11_launcher\<close> for a negative result.
\<close>

definition launch_thread :: "int \<Rightarrow> 'f \<Rightarrow> 'f launcher \<Rightarrow> ('f launcher, 'f launcher) exec" where
  "launch_thread err f s =
     (case new_task f s of (f_ptr, s1) \<Rightarrow>
        let s2 = pthread_create err f_ptr s1
        in if err = -1 then Stop (delete_task f_ptr s2) else Ret s2)"

definition launch_thread_c11 :: "int \<Rightarrow> 'f \<Rightarrow> 'f launcher \<Rightarrow> ('f launcher, 'f launcher) exec" where
  "launch_thread_c11 err f s =
     (case new_task f s of (f_ptr, s1) \<Rightarrow>
        let s2 = pthread_create err f_ptr s1
        in if err < 0 then Stop (delete_task f_ptr s2) else Ret s2)"

text \<open>
  \<open>x_abstract_launcher\<close>: the smart pointer frees the object unless it was released. This is
  the state at the closing brace: the function is declared \<open>int\<close> and has no \<open>return\<close>, so
  that going past it is undefined in C++.
\<close>

definition launch_abstract :: "int \<Rightarrow> 'f \<Rightarrow> 'f launcher \<Rightarrow> 'f launcher" where
  "launch_abstract err f s =
     (case new_task f s of (p, s1) \<Rightarrow>
        let s2 = pthread_create err p s1
        in if err = 0 then s2 else delete_task p s2)"

text \<open>\<open>thread_routine\<close>: runs the object and frees it, through a smart pointer.\<close>

definition thread_routine :: "nat \<Rightarrow> 'f launcher \<Rightarrow> ('f launcher, 'f launcher) exec" where
  "thread_routine ptr s =
     (case ln_cells s ptr of
        None \<Rightarrow> UB
      | Some f \<Rightarrow> Ret (delete_task ptr (s\<lparr>ln_ran := ln_ran s @ [f]\<rparr>)))"

text \<open>The overload that detaches: its identifier is a local variable.\<close>

definition launch_detached :: "int \<Rightarrow> 'f \<Rightarrow> 'f launcher \<Rightarrow> ('f launcher, 'f launcher) exec" where
  "launch_detached err f s =
     exec_bind (launch_thread err f (s\<lparr>ln_id := None\<rparr>)) (\<lambda>s1.
       exec_bind (use_var (ln_id s1)) (\<lambda>_. Ret (s1\<lparr>ln_id := ln_id s\<rparr>)))"

section \<open>The program of x_c11_launcher\<close>

text \<open>The three function objects of \<open>main\<close>, and what running one does to \<open>value\<close> and the output.\<close>

datatype c11_task = Run_bound | Foo_object | Lambda

definition c11_run :: "c11_task \<Rightarrow> int \<times> string list \<Rightarrow> int \<times> string list" where
  "c11_run f r =
     (case f of
        Run_bound \<Rightarrow> (42, snd r @ [''from thread 10''])
      | Foo_object \<Rightarrow> (fst r, snd r @ [''from foo''])
      | Lambda \<Rightarrow> (fst r, snd r @ [''from lambda'']))"

text \<open>Launching a thread on an identifier of its own and joining it: the routine runs in between.\<close>

definition c11_round :: "int \<Rightarrow> c11_task \<Rightarrow> c11_task launcher \<times> int \<times> string list \<Rightarrow>
    (c11_task launcher, c11_task launcher \<times> int \<times> string list) exec" where
  "c11_round err f st =
     (case st of (s, r) \<Rightarrow>
        exec_bind (launch_thread_c11 err f (s\<lparr>ln_id := None\<rparr>)) (\<lambda>s1.
        exec_bind (use_var (ln_id s1)) (\<lambda>id.
        exec_bind (thread_routine (ln_threads s1 ! id) s1) (\<lambda>s2. Ret (s2, c11_run f r)))))"

definition c11_main :: "int \<Rightarrow> int \<Rightarrow> int \<Rightarrow> c11_task launcher \<Rightarrow>
    (c11_task launcher, c11_task launcher \<times> int \<times> string list) exec" where
  "c11_main e1 e2 e3 s =
     exec_bind (c11_round e1 Run_bound (s, 10, [])) (\<lambda>(s, v, out).
     exec_bind (c11_round e2 Foo_object (s, v, out @ [show_int v])) (\<lambda>st.
       c11_round e3 Lambda st))"

section \<open>Properties\<close>

text \<open>No object is allocated at an address \<open>new\<close> may still return.\<close>

definition launcher_ok :: "'f launcher \<Rightarrow> bool" where
  "launcher_ok s \<longleftrightarrow> ln_cells s (ln_next s) = None"

text \<open>
  When \<open>pthread_create\<close> succeeds, every version hands exactly one new object to the new
  thread, whose routine runs the function once and leaves no object behind; and the routine
  must not be run on the same pointer again.
\<close>

theorem launched_task_runs_once:
  assumes "launcher_ok s"
  shows "\<exists>s1 s2. launch_thread 0 f s = Ret s1 \<and> launch_thread_c11 0 f s = Ret s1 \<and> launch_abstract 0 f s = s1
    \<and> ln_threads s1 = ln_threads s @ [ln_next s] \<and> ln_id s1 = Some (length (ln_threads s))
    \<and> thread_routine (ln_next s) s1 = Ret s2 \<and> ln_ran s2 = ln_ran s @ [f] \<and> ln_cells s2 = ln_cells s
    \<and> thread_routine (ln_next s) s2 = UB"
  using assms
  by (auto simp: launch_thread_def launch_thread_c11_def launch_abstract_def new_task_def pthread_create_def
      thread_routine_def delete_task_def launcher_ok_def Let_def)

theorem launched_task_runs_once_witness:
  "\<exists>s1 s2. launch_thread 0 (7 :: nat) \<lparr>ln_cells = (\<lambda>a. None), ln_next = 0, ln_threads = [], ln_id = None, ln_ran = []\<rparr> = Ret s1
    \<and> thread_routine 0 s1 = Ret s2 \<and> ln_ran s2 = [7]"
  using launched_task_runs_once
    [of "\<lparr>ln_cells = (\<lambda>a. None), ln_next = 0, ln_threads = [], ln_id = None, ln_ran = []\<rparr>" "7 :: nat"]
  by (auto simp: launcher_ok_def)

text \<open>
  A failure of \<open>pthread_create\<close> is a positive error number, and no copy of
  \<open>launch_thread\<close> sees it: each returns normally, leaves the caller's identifier as it was,
  starts no thread and leaks the function object; detaching then uses an identifier that was
  never assigned. Only the version of \<open>x_abstract_launcher\<close> frees the object.
\<close>

theorem launch_thread_misses_errors:
  assumes "launcher_ok s" and "0 < err"
  shows "(\<exists>s1. launch_thread err f s = Ret s1 \<and> launch_thread_c11 err f s = Ret s1
      \<and> ln_threads s1 = ln_threads s \<and> ln_id s1 = ln_id s \<and> ln_cells s1 = (ln_cells s)(ln_next s \<mapsto> f))
    \<and> launch_detached err f s = UB
    \<and> ln_cells (launch_abstract err f s) = ln_cells s"
  using assms
  by (auto simp: launch_thread_def launch_thread_c11_def launch_abstract_def launch_detached_def new_task_def
      pthread_create_def delete_task_def launcher_ok_def use_var_def Let_def)

theorem launch_thread_misses_errors_witness:
  "\<exists>s1. launch_thread 11 (7 :: nat) \<lparr>ln_cells = (\<lambda>a. None), ln_next = 0, ln_threads = [], ln_id = None, ln_ran = []\<rparr> = Ret s1
    \<and> ln_cells s1 0 = Some 7 \<and> ln_id s1 = None"
  using launch_thread_misses_errors
    [of "\<lparr>ln_cells = (\<lambda>a. None), ln_next = 0, ln_threads = [], ln_id = None, ln_ran = []\<rparr>" 11 "7 :: nat"]
  by (auto simp: launcher_ok_def)


lemma c11_round_ok:
  assumes "\<forall>a \<ge> ln_next s. ln_cells s a = None"
  shows "\<exists>s'. c11_round 0 f (s, r) = Ret (s', c11_run f r) \<and> ln_cells s' = ln_cells s
    \<and> ln_ran s' = ln_ran s @ [f] \<and> (\<forall>a \<ge> ln_next s'. ln_cells s' a = None)"
proof -
  have "(ln_cells s)(ln_next s := None) = ln_cells s" using assms by (intro ext) simp
  with assms show ?thesis
    by (simp add: c11_round_def launch_thread_c11_def new_task_def pthread_create_def use_var_def
        thread_routine_def delete_task_def Let_def)
qed

lemma c11_round_fails: "0 < err \<Longrightarrow> c11_round err f st = UB"
  by (cases st) (simp add: c11_round_def launch_thread_c11_def new_task_def pthread_create_def use_var_def Let_def)

text \<open>
  The program prints what its threads do in the order of the launches, with the value its
  first thread has set, and frees every function object; if a thread cannot be created it
  joins an identifier that was never assigned.
\<close>

lemma c11_main_runs:
  assumes "\<forall>a \<ge> ln_next s. ln_cells s a = None"
  shows "(\<exists>s'. c11_main 0 0 0 s = Ret (s', 42, [''from thread 10'', show_int 42, ''from foo'', ''from lambda''])
      \<and> ln_cells s' = ln_cells s \<and> ln_ran s' = ln_ran s @ [Run_bound, Foo_object, Lambda])
    \<and> (0 < e1 \<longrightarrow> c11_main e1 e2 e3 s = UB)"
proof -
  obtain s1 where 1: "c11_round 0 Run_bound (s, 10, []) = Ret (s1, c11_run Run_bound (10, []))"
    "ln_cells s1 = ln_cells s" "ln_ran s1 = ln_ran s @ [Run_bound]" "\<forall>a \<ge> ln_next s1. ln_cells s1 a = None"
    using c11_round_ok [OF assms] by blast
  obtain s2 where 2: "c11_round 0 Foo_object (s1, 42, [''from thread 10'', show_int 42])
      = Ret (s2, c11_run Foo_object (42, [''from thread 10'', show_int 42]))"
    "ln_cells s2 = ln_cells s" "ln_ran s2 = ln_ran s @ [Run_bound, Foo_object]"
    "\<forall>a \<ge> ln_next s2. ln_cells s2 a = None"
    using c11_round_ok [OF 1(4), of Foo_object] 1 by fastforce
  obtain s3 where 3: "c11_round 0 Lambda (s2, 42, [''from thread 10'', show_int 42, ''from foo''])
      = Ret (s3, c11_run Lambda (42, [''from thread 10'', show_int 42, ''from foo'']))"
    "ln_cells s3 = ln_cells s" "ln_ran s3 = ln_ran s @ [Run_bound, Foo_object, Lambda]"
    using c11_round_ok [OF 2(4), of Lambda] 2 by fastforce
  from 1 2 3 show ?thesis by (simp add: c11_main_def c11_run_def c11_round_fails)
qed

end
