(* ===== verification/Futures.thy ===== *)
theory Futures
  imports Safe_Queue C_Stdio
begin

text \<open>
  \<open>day2/x_pthreads_future\<close>: a future starts a thread on its task and joins it both in \<open>get\<close>
  and in its destructor. Joining a thread twice is undefined, and so is joining with an
  identifier that was never assigned. The object is taken to stay where it was built: the
  result reference of its task points into it.
\<close>

section \<open>Futures\<close>

text \<open>A thread runs, has ended and can be joined, or has been joined.\<close>

datatype thread_state = Running | Ended | Joined

text \<open>A packaged task; the function is gone once it has been moved from.\<close>

record 'a ptask =
  pt_task :: "(unit \<Rightarrow> 'a) option"
  pt_done :: bool

text \<open>
  A future: its thread (none while \<open>id\<close> is not assigned), its result, its own task, the copy
  on the heap the thread was given, and the lines printed.
\<close>

record 'a future =
  fu_id :: "thread_state option"
  fu_result :: "'a option"
  fu_task :: "'a ptask"
  fu_copy :: "'a ptask option"
  fu_out :: "string list"

definition ptask_ctor :: "(unit \<Rightarrow> 'a) \<Rightarrow> 'a ptask" where
  "ptask_ctor f = \<lparr>pt_task = Some f, pt_done = False\<rparr>"

text \<open>
  \<open>launch_thread\<close> of this program, on the future's task moved out of it: a copy on the heap,
  then \<open>pthread_create\<close> with result \<open>err\<close>; \<open>None\<close> when it throws.
\<close>

definition launch_task :: "int \<Rightarrow> 'a future \<Rightarrow> 'a future option" where
  "launch_task err s =
     (let s1 = s\<lparr>fu_copy := Some (fu_task s), fu_task := fu_task s\<lparr>pt_task := None\<rparr>\<rparr>
      in if err = -1 then None
         else Some (if err = 0 then s1\<lparr>fu_id := Some Running\<rparr> else s1))"

definition future_ctor :: "int \<Rightarrow> (unit \<Rightarrow> 'a) \<Rightarrow> 'a future option" where
  "future_ctor err f =
     launch_task err \<lparr>fu_id = None, fu_result = None, fu_task = ptask_ctor f, fu_copy = None,
                      fu_out = [''ptask: constr'']\<rparr>"

text \<open>The call operator of the copy; the result it assigns is the future's.\<close>

definition ptask_call :: "'a ptask \<Rightarrow> ('a \<times> 'a ptask) option" where
  "ptask_call p = map_option (\<lambda>f. (f (), p\<lparr>pt_done := True\<rparr>)) (pt_task p)"

text \<open>The thread: the call, after which the smart pointer frees the copy, and its end.\<close>

definition run_task :: "'a future \<Rightarrow> 'a future" where
  "run_task s =
     (if fu_id s = Some Running
      then case Option.bind (fu_copy s) ptask_call of
             None \<Rightarrow> s
           | Some (v, p) \<Rightarrow>
               s\<lparr>fu_id := Some Ended, fu_result := Some v, fu_copy := None,
                 fu_out := fu_out s @ [''ptask: calling '', ''ptask: after calling '']\<rparr>
      else s)"

definition pthread_join :: "'a future \<Rightarrow> 'a future outcome" where
  "pthread_join s =
     (case fu_id s of
        None \<Rightarrow> Undefined
      | Some Running \<Rightarrow> Block
      | Some Ended \<Rightarrow> Done (s\<lparr>fu_id := Some Joined\<rparr>)
      | Some Joined \<Rightarrow> Undefined)"

definition future_get :: "'a future \<Rightarrow> ('a \<times> 'a future) outcome" where
  "future_get s =
     and_then (pthread_join s) (\<lambda>s1.
       case fu_result s1 of None \<Rightarrow> Undefined | Some v \<Rightarrow> Done (v, s1))"

definition future_dtor :: "'a future \<Rightarrow> 'a future outcome" where
  "future_dtor s = pthread_join (s\<lparr>fu_out := fu_out s @ [''future: destructor'']\<rparr>)"

definition async :: "int \<Rightarrow> (unit \<Rightarrow> 'a) \<Rightarrow> 'a future option" where
  "async err f = future_ctor err f"

section \<open>The program\<close>

definition answer :: "unit \<Rightarrow> int" where
  "answer _ = 42"

text \<open>
  \<open>main\<close>: a thread that is launched and joined, then two futures, each asked for its value
  and then destroyed, the last built first. The threads run before they are joined. The
  arguments are the results of \<open>pthread_create\<close>; an exception that nobody catches is the
  result \<open>Fail EOTHER\<close>. The lines are those \<open>main\<close> and the first thread print.
\<close>

definition futures_main :: "int \<Rightarrow> int \<Rightarrow> int \<Rightarrow> string list \<times> unit outcome" where
  "futures_main err0 err1 err2 =
     (if err0 = -1 then ([''Hello World!''], Fail EOTHER)
      else if err0 \<noteq> 0 then ([''Hello World!''], Undefined)
      else
        (let out = [''Hello World!'', ''hello from thread'']
         in case async err1 answer of
              None \<Rightarrow> (out, Fail EOTHER)
            | Some res \<Rightarrow>
                (case async err2 (\<lambda>_. 666) of
                   None \<Rightarrow> (out, Fail EOTHER)
                 | Some res2 \<Rightarrow>
                     (case future_get (run_task res) of
                        Done (x, s) \<Rightarrow>
                          (case future_get (run_task res2) of
                             Done (y, t) \<Rightarrow>
                               (out @ [show_int x, show_int y],
                                and_then (future_dtor t) (\<lambda>_. and_then (future_dtor s) (\<lambda>_. Done ())))
                           | _ \<Rightarrow> (out @ [show_int x], Undefined))
                      | _ \<Rightarrow> (out, Undefined)))))"

section \<open>Properties\<close>

lemma future_ctor_ok:
  "future_ctor 0 f = Some \<lparr>fu_id = Some Running, fu_result = None, fu_task = \<lparr>pt_task = None, pt_done = False\<rparr>,
     fu_copy = Some \<lparr>pt_task = Some f, pt_done = False\<rparr>, fu_out = [''ptask: constr'']\<rparr>"
  by (simp add: future_ctor_def launch_task_def ptask_ctor_def)

text \<open>
  A future gives the value of its task: \<open>get\<close> waits while the thread runs and then
  returns the value, and a future destroyed without a \<open>get\<close> waits for its thread, which has
  freed its copy of the task. But \<open>get\<close> followed by the destructor, or by another \<open>get\<close>,
  joins a joined thread.
\<close>

theorem future_joins_twice:
  "\<exists>s. future_ctor 0 f = Some s \<and> future_get s = Block \<and> future_dtor s = Block
     \<and> fu_copy (run_task s) = None
     \<and> (\<exists>t. future_get (run_task s) = Done (f (), t) \<and> future_get t = Undefined \<and> future_dtor t = Undefined)
     \<and> (\<exists>t. future_dtor (run_task s) = Done t)"
  by (simp add: future_ctor_ok future_get_def future_dtor_def pthread_join_def run_task_def ptask_call_def)

text \<open>The flag \<open>done\<close> is set in the thread's copy and never in the future's own task.\<close>

lemma future_never_done:
  assumes "future_ctor err f = Some s"
  shows "\<not> pt_done (fu_task s) \<and> fu_task (run_task s) = fu_task s"
proof
  show "\<not> pt_done (fu_task s)"
    using assms by (auto simp: future_ctor_def launch_task_def ptask_ctor_def Let_def split: if_splits)
  show "fu_task (run_task s) = fu_task s"
    by (auto simp: run_task_def split: option.splits)
qed

text \<open>
  When no thread can be created the future is built all the same: its copy of the task leaks,
  and \<open>get\<close> and the destructor join with an identifier that was never assigned.
\<close>

lemma future_without_thread:
  assumes "0 < err"
  shows "\<exists>s. future_ctor err f = Some s \<and> fu_copy s \<noteq> None \<and> future_get s = Undefined \<and> future_dtor s = Undefined"
  using assms by (simp add: future_ctor_def launch_task_def future_get_def future_dtor_def pthread_join_def)

text \<open>The program prints both values and then runs into undefined behaviour, whatever happens.\<close>

lemma futures_main_prints:
  "futures_main 0 0 0 = ([''Hello World!'', ''hello from thread'', show_int 42, show_int 666], Undefined)"
  by (simp add: futures_main_def async_def answer_def future_ctor_ok future_get_def future_dtor_def
      pthread_join_def run_task_def ptask_call_def)

lemma futures_main_undefined:
  "0 \<le> err0 \<Longrightarrow> 0 \<le> err1 \<Longrightarrow> 0 \<le> err2 \<Longrightarrow> snd (futures_main err0 err1 err2) = Undefined"
  by (simp add: futures_main_def async_def future_ctor_def launch_task_def ptask_ctor_def future_get_def
      future_dtor_def pthread_join_def run_task_def ptask_call_def Let_def)

end
