(* ===== verification/Appm.thy ===== *)
theory Appm
  imports C_Stdio
begin

text \<open>
  \<open>day1/ex_histogram/appm.cpp\<close>: reading and writing images in the six formats of the PNM
  family. A file is the sequence of its characters; \<open>Stop\<close> is \<open>FatalError\<close>; a variable
  that may not have been assigned is an option, and using it unassigned is undefined. The
  loop that skips comments may not end: \<open>None\<close>.
\<close>

section \<open>Modes and messages\<close>

definition PPM_ASCII :: int where "PPM_ASCII = 3"
definition PPM_RAW :: int where "PPM_RAW = 6"
definition PGM_ASCII :: int where "PGM_ASCII = 2"
definition PGM_RAW :: int where "PGM_RAW = 5"
definition PBM_ASCII :: int where "PBM_ASCII = 1"
definition PBM_RAW :: int where "PBM_RAW = 4"

definition GFXIO_OK :: int where "GFXIO_OK = 0"
definition GFXIO_OPENERROR :: int where "GFXIO_OPENERROR = 1"
definition GFXIO_UNSUPPORTED :: int where "GFXIO_UNSUPPORTED = 3"

lemmas mode_defs = PPM_ASCII_def PPM_RAW_def PGM_ASCII_def PGM_RAW_def PBM_ASCII_def PBM_RAW_def

definition IsValidMode :: "int \<Rightarrow> bool" where
  "IsValidMode mode \<longleftrightarrow> mode = PPM_ASCII \<or> mode = PGM_ASCII \<or> mode = PBM_ASCII
     \<or> mode = PPM_RAW \<or> mode = PGM_RAW \<or> mode = PBM_RAW"

definition RawMode :: "int \<Rightarrow> bool" where
  "RawMode mode \<longleftrightarrow> mode = PPM_RAW \<or> mode = PGM_RAW \<or> mode = PBM_RAW"

definition ASCIIMode :: "int \<Rightarrow> bool" where
  "ASCIIMode mode \<longleftrightarrow> mode = PPM_ASCII \<or> mode = PGM_ASCII \<or> mode = PBM_ASCII"

text \<open>What the three reporting functions print; \<open>FatalError\<close> then exits.\<close>

definition FatalError :: "string \<Rightarrow> (string, 'a) exec" where
  "FatalError msg = Stop (''Fatal Error: '' @ msg @ [newline])"

definition Error :: "string \<Rightarrow> string" where
  "Error msg = ''Error: '' @ msg @ [newline]"

definition Warning :: "string \<Rightarrow> string" where
  "Warning msg = ''Warning: '' @ msg @ [newline]"

text \<open>\<open>sprintf\<close> into a buffer of \<open>n\<close> characters, the final zero included.\<close>

definition sprintf_buffer :: "nat \<Rightarrow> string \<Rightarrow> (string, string) exec" where
  "sprintf_buffer n msg = (if length msg < n then Ret msg else UB)"

section \<open>Reading\<close>

text \<open>The local variables of \<open>ReadPPM\<close> and the input left.\<close>

record read_vars =
  rv_in :: string
  rv_img :: "u8 list"
  rv_c :: nat
  rv_r :: "int option"
  rv_g :: "int option"
  rv_b :: "int option"
  rv_bw :: "int option"
  rv_count :: nat

text \<open>\<open>%d\<close> into a variable: the variable after it, the input left, whether it matched.\<close>

definition scan_var :: "int option \<Rightarrow> string \<Rightarrow> (string, int option \<times> string \<times> bool) exec" where
  "scan_var v inp =
     (case scan_int inp of
        (None, rest) \<Rightarrow> Ret (v, rest, False)
      | (Some x, rest) \<Rightarrow> exec_bind (int_value x) (\<lambda>x. Ret (Some x, rest, True)))"

partial_function (option) skip_comments :: "string \<Rightarrow> string \<Rightarrow> (string \<times> string) option" where
  "skip_comments buf inp =
     (if buffer_at buf 0 = schar CHR ''#''
      then (case fgets 256 inp of
              None \<Rightarrow> skip_comments buf inp
            | Some (l, rest) \<Rightarrow> skip_comments l rest)
      else Some (buf, inp))"

declare skip_comments.simps [code]

text \<open>The maximal colour, absent from bitmaps; the format is \<open>%d\<close> with a space after it.\<close>

definition read_max :: "int \<Rightarrow> string \<Rightarrow> (string, string) exec" where
  "read_max mode inp =
     (if mode \<noteq> PBM_RAW \<and> mode \<noteq> PBM_ASCII then
        exec_bind (scan_var None inp) (\<lambda>(img_max, rest, ok).
          exec_bind (use_var img_max) (\<lambda>m.
            if (RawMode mode \<and> m > 255) \<or> m \<le> 0
            then FatalError ''LIBGFX: Invalid value for maximum image color!''
            else Ret (if ok then dropWhile is_space rest else rest)))
      else Ret inp)"

text \<open>The components of the next pixel, from a raw and from a text file.\<close>

definition read_raw :: "int \<Rightarrow> int \<Rightarrow> nat \<Rightarrow> read_vars \<Rightarrow> (string, read_vars) exec" where
  "read_raw mode width j s =
     (if mode = PBM_RAW then
        (case (if rv_count s mod 8 = 0
               then (case fgetc (rv_in s) of (ch, rest) \<Rightarrow> (Some ch, rest))
               else (rv_bw s, rv_in s)) of
           (bw, rest) \<Rightarrow>
             exec_bind (use_var bw) (\<lambda>x.
               let v = (if bit x (7 - rv_count s mod 8) then 0 else 255)
               in Ret (s\<lparr>rv_in := rest, rv_r := Some v, rv_g := Some v, rv_b := Some v, rv_bw := bw,
                        rv_count := (if int j + 1 = width then 0 else rv_count s + 1)\<rparr>)))
      else if mode = PGM_RAW then
        (case fgetc (rv_in s) of
           (v, rest) \<Rightarrow> Ret (s\<lparr>rv_in := rest, rv_r := Some v, rv_g := Some v, rv_b := Some v\<rparr>))
      else if mode = PPM_RAW then
        (case fgetc (rv_in s) of (r, rest1) \<Rightarrow>
           (case fgetc rest1 of (g, rest2) \<Rightarrow>
              (case fgetc rest2 of (b, rest3) \<Rightarrow>
                 Ret (s\<lparr>rv_in := rest3, rv_r := Some r, rv_g := Some g, rv_b := Some b\<rparr>))))
      else Ret s)"

definition read_ascii :: "int \<Rightarrow> read_vars \<Rightarrow> (string, read_vars) exec" where
  "read_ascii mode s =
     (if mode = PBM_ASCII then
        exec_bind (scan_var (rv_r s) (rv_in s)) (\<lambda>(r, rest, ok).
          exec_bind (use_var r) (\<lambda>x.
            let v = (if x \<noteq> 1 \<and> x \<noteq> 0 then 0 else x) * 255
            in Ret (s\<lparr>rv_in := rest, rv_r := Some v, rv_g := Some v, rv_b := Some v\<rparr>)))
      else if mode = PGM_ASCII then
        exec_bind (scan_var (rv_r s) (rv_in s)) (\<lambda>(r, rest, ok).
          exec_bind (use_var r) (\<lambda>v.
            Ret (s\<lparr>rv_in := rest, rv_r := Some v, rv_g := Some v, rv_b := Some v\<rparr>)))
      else if mode = PPM_ASCII then
        exec_bind (scan_var (rv_r s) (rv_in s)) (\<lambda>(r, rest1, ok1).
          exec_bind (if ok1 then scan_var (rv_g s) rest1 else Ret (rv_g s, rest1, False))
            (\<lambda>(g, rest2, ok2).
              exec_bind (if ok2 then scan_var (rv_b s) rest2 else Ret (rv_b s, rest2, False))
                (\<lambda>(b, rest3, ok3). Ret (s\<lparr>rv_in := rest3, rv_r := r, rv_g := g, rv_b := b\<rparr>))))
      else Ret s)"

text \<open>The three assignments \<open>texImage[c++] = \<dots>\<close>; the stored value is cut to a byte.\<close>

definition put_byte :: "int option \<Rightarrow> read_vars \<Rightarrow> (string, read_vars) exec" where
  "put_byte v s =
     exec_bind (use_var v) (\<lambda>x.
       exec_bind (array_set (rv_img s) (int (rv_c s)) (word_of_int x)) (\<lambda>img.
         Ret (s\<lparr>rv_img := img, rv_c := Suc (rv_c s)\<rparr>)))"

definition put_pixel :: "read_vars \<Rightarrow> (string, read_vars) exec" where
  "put_pixel s =
     exec_bind (put_byte (rv_r s) s) (\<lambda>s1.
       exec_bind (put_byte (rv_g s1) s1) (\<lambda>s2. put_byte (rv_b s2) s2))"

definition read_pixel :: "int \<Rightarrow> int \<Rightarrow> nat \<Rightarrow> read_vars \<Rightarrow> (string, read_vars) exec" where
  "read_pixel mode width j s =
     (if RawMode mode then exec_bind (read_raw mode width j s) put_pixel
      else exec_bind (read_ascii mode s) put_pixel)"

text \<open>From the line with the image size on.\<close>

definition read_image ::
  "(int \<Rightarrow> bool) \<Rightarrow> int \<Rightarrow> string \<Rightarrow> string \<Rightarrow> int option \<Rightarrow> int option \<Rightarrow>
   (string, int \<times> int \<times> int \<times> u8 list) exec" where
  "read_image calloc mode line inp width0 height0 =
     exec_bind (scan_var width0 (c_string line)) (\<lambda>(width, rest, ok).
       exec_bind (if ok then scan_var height0 rest else Ret (height0, rest, False))
         (\<lambda>(height, _, _).
       exec_bind (read_max mode inp) (\<lambda>inp1.
       exec_bind (use_var height) (\<lambda>h. exec_bind (use_var width) (\<lambda>w.
       exec_bind (int_value (3 * h)) (\<lambda>h3. exec_bind (int_value (h3 * w)) (\<lambda>img_size.
         if \<not> calloc img_size then FatalError ''LIBGFX: Cannot allocate memory for image!''
         else
           exec_bind
             (for_up (nat h) 0 (\<lambda>i. for_up (nat w) 0 (read_pixel mode w))
                \<lparr>rv_in = inp1, rv_img = replicate (nat img_size) 0, rv_c = 0, rv_r = None,
                 rv_g = None, rv_b = None, rv_bw = None, rv_count = 0\<rparr>)
             (\<lambda>s. Ret (mode, w, h, rv_img s)))))))))"

text \<open>
  \<open>ReadPPM\<close>: \<open>file\<close> is the content of the file named \<open>f\<close>, if it can be opened;
  \<open>width0\<close> and \<open>height0\<close> are what the caller's variables hold; \<open>calloc\<close> says which sizes
  can be allocated. The result is the mode, the width, the height and the image.
\<close>

definition ReadPPM ::
  "(int \<Rightarrow> bool) \<Rightarrow> string \<Rightarrow> string option \<Rightarrow> int option \<Rightarrow> int option \<Rightarrow>
   (string, int \<times> int \<times> int \<times> u8 list) exec option" where
  "ReadPPM calloc f file width0 height0 =
     (case file of
        None \<Rightarrow> Some (exec_bind
          (sprintf_buffer 80 (''LIBGFX: Can'' @ [CHR 0x27] @ ''t open file '' @ [CHR 0x27] @ f @ [CHR 0x27] @ ''!''))
          FatalError)
      | Some inp \<Rightarrow>
          (case fgets 256 inp of
             None \<Rightarrow> Some UB
           | Some (line, inp1) \<Rightarrow>
               (let mode = buffer_at line 1 - 48
                in if \<not> IsValidMode mode
                      \<or> (buffer_at line 0 \<noteq> schar CHR ''P'' \<and> buffer_at line 0 \<noteq> schar CHR ''p'')
                   then Some (exec_bind
                     (sprintf_buffer 80
                        (''LIBGFX: Invalid PPM format specification in '' @ [CHR 0x27] @ f @ [CHR 0x27] @ ''!''))
                     FatalError)
                   else
                     (case (case fgets 256 inp1 of None \<Rightarrow> (line, inp1) | Some x \<Rightarrow> x) of
                        (line2, inp2) \<Rightarrow>
                          map_option (\<lambda>(size_line, inp3).
                              read_image calloc mode size_line inp3 width0 height0)
                            (skip_comments line2 inp2)))))"

section \<open>Writing\<close>

record write_vars =
  wv_out :: string
  wv_i :: "int option"
  wv_bw :: u8

text \<open>\<open>++i\<close>, and the line end after every \<open>n\<close>-th number.\<close>

definition write_break :: "int \<Rightarrow> write_vars \<Rightarrow> (string, write_vars) exec" where
  "write_break n s =
     exec_bind (use_var (wv_i s)) (\<lambda>i0. exec_bind (int_value (i0 + 1)) (\<lambda>i.
       Ret (s\<lparr>wv_i := Some i, wv_out := wv_out s @ (if c_rem i n = 0 then [newline] else [])\<rparr>)))"

definition write_packed :: "int \<Rightarrow> nat \<Rightarrow> bool \<Rightarrow> write_vars \<Rightarrow> (string, write_vars) exec" where
  "write_packed width x dark s =
     (let bw = push_bit 1 (wv_bw s) + (if dark then 1 else 0)
      in exec_bind (use_var (wv_i s)) (\<lambda>i0. exec_bind (int_value (i0 + 1)) (\<lambda>i.
           if c_rem i 8 = 0 then Ret (s\<lparr>wv_out := wv_out s @ [byte_char bw], wv_i := Some i, wv_bw := 0\<rparr>)
           else if int x + 1 = width then
             Ret (s\<lparr>wv_out := wv_out s @ [byte_char (push_bit (nat (8 - c_rem i 8)) bw)],
                    wv_i := Some 0, wv_bw := 0\<rparr>)
           else Ret (s\<lparr>wv_i := Some i, wv_bw := bw\<rparr>))))"

definition write_sample ::
  "int \<Rightarrow> int \<Rightarrow> nat \<Rightarrow> u8 \<Rightarrow> u8 \<Rightarrow> u8 \<Rightarrow> write_vars \<Rightarrow> (string, write_vars) exec" where
  "write_sample mode width x r g b s =
     (let gray = (uint r + uint g + uint b) div 3
      in if mode = PPM_RAW then
           Ret (s\<lparr>wv_out := wv_out s @ [byte_char r, byte_char g, byte_char b]\<rparr>)
         else if mode = PPM_ASCII then
           write_break 5 (s\<lparr>wv_out := wv_out s @ show_int (uint r) @ '' '' @ show_int (uint g) @ '' ''
                                       @ show_int (uint b) @ '' ''\<rparr>)
         else if mode = PGM_RAW then
           Ret (s\<lparr>wv_out := wv_out s @ [byte_char (word_of_int gray)]\<rparr>)
         else if mode = PGM_ASCII then
           write_break 15 (s\<lparr>wv_out := wv_out s @ show_int gray @ '' ''\<rparr>)
         else if mode = PBM_ASCII then
           write_break 15 (s\<lparr>wv_out := wv_out s @ show_int (if gray < 128 then 1 else 0) @ '' ''\<rparr>)
         else if mode = PBM_RAW then write_packed width x (gray < 128) s
         else Ret s)"

definition write_pixel ::
  "int \<Rightarrow> int \<Rightarrow> u8 list \<Rightarrow> int \<Rightarrow> nat \<Rightarrow> write_vars \<Rightarrow> (string, write_vars) exec" where
  "write_pixel mode width ptr y x s =
     exec_bind (int_value (3 * (y * width + int x))) (\<lambda>k.
     exec_bind (array_at ptr k) (\<lambda>r.
     exec_bind (array_at ptr (k + 1)) (\<lambda>g.
     exec_bind (array_at ptr (k + 2)) (\<lambda>b. write_sample mode width x r g b s))))"

definition write_header :: "string \<Rightarrow> int \<Rightarrow> int \<Rightarrow> int \<Rightarrow> string" where
  "write_header date mode width height =
     ''P'' @ show_int mode @ [newline]
     @ CHR ''#'' # '' File created by Chris Wyman'' @ [CHR 0x27] @ ''s PPM Library on '' @ date
     @ show_int width @ '' '' @ show_int height @ [newline]
     @ (if mode \<noteq> PBM_RAW \<and> mode \<noteq> PBM_ASCII then show_int 255 @ [newline] else [])"

text \<open>
  \<open>WritePPM\<close>: the result is its return code, the content of the file if it could be
  opened, and what was printed to \<open>stderr\<close>. \<open>date\<close> is what \<open>ctime\<close> returns. The variable \<open>i\<close>
  is not initialised: \<open>i0\<close> is \<open>None\<close>, so that its first use is undefined, as the language has it, or the
  value it happens to have on a machine that just reads it.
\<close>

definition WritePPM ::
  "string \<Rightarrow> int option \<Rightarrow> string \<Rightarrow> bool \<Rightarrow> int \<Rightarrow> int \<Rightarrow> int \<Rightarrow> u8 list \<Rightarrow>
   (string, int \<times> string option \<times> string) exec" where
  "WritePPM date i0 f opens mode width height0 ptr =
     (let inverted = (height0 < 0)
      in exec_bind (if inverted then int_value (- height0) else Ret height0) (\<lambda>height.
        if mode < 0 then Ret (GFXIO_UNSUPPORTED, None, Error ''LIBGFX: Bad image format type!'')
        else
          let warning = (if mode = PBM_RAW \<or> mode = PBM_ASCII
                         then Warning ''LIBGFX: Distortions occur converting to PBM format!'' else [])
          in if \<not> opens then
               exec_bind (sprintf_buffer 256
                   (''LIBGFX: Unable to open file '' @ [CHR 0x27] @ f @ [CHR 0x27] @ '', output lost!''))
                 (\<lambda>msg. Ret (GFXIO_OPENERROR, None, warning @ Error msg))
             else
               exec_bind
                 (for_up (nat height) 0
                    (\<lambda>k. for_up (nat width) 0
                       (write_pixel mode width ptr (if inverted then height - 1 - int k else int k)))
                    \<lparr>wv_out = write_header date mode width height, wv_i = i0, wv_bw = 0\<rparr>)
                 (\<lambda>s. Ret (GFXIO_OK, Some (wv_out s @ [newline]), warning))))"

end
