(* ===== verification/Appm_Files.thy ===== *)
theory Appm_Files
  imports Appm
begin

text \<open>
  What \<open>ReadPPM\<close> makes of the files \<open>WritePPM\<close> writes: the header is read back, then the
  pixel loop fills the image in order. The lemmas reduce a mode to what one pixel's text or
  bytes are; the properties are the round trips of the six modes.
\<close>

section \<open>The header\<close>

text \<open>\<open>ctime\<close> returns a line: 24 characters and a line end.\<close>

definition ctime_line :: "string \<Rightarrow> bool" where
  "ctime_line date \<longleftrightarrow> (\<exists>d. date = d @ [newline] \<and> newline \<notin> set d \<and> length d = 24)"

definition bitmap :: "int \<Rightarrow> bool" where
  "bitmap mode \<longleftrightarrow> mode = PBM_RAW \<or> mode = PBM_ASCII"

lemma show_int_digit: "0 \<le> m \<Longrightarrow> m < 10 \<Longrightarrow> show_int m = [digit_char (nat m)]"
  by (simp add: show_int_def) (subst show_nat.simps, auto)

lemma show_int_nonneg: "0 \<le> i \<Longrightarrow> \<exists>d ds. show_int i = d # ds \<and> (\<forall>c \<in> set (d # ds). is_digit c)"
  using show_nat_digits [of "nat i"] show_nat_nonempty [of "nat i"]
  by (cases "show_nat (nat i)") (auto simp: show_int_def)

lemma length_show_nat: "n < 10 ^ Suc k \<Longrightarrow> length (show_nat n) \<le> Suc k"
proof (induction k arbitrary: n)
  case 0
  then show ?case by (subst show_nat.simps) simp
next
  case (Suc k)
  then have "n div 10 < 10 ^ Suc k" by (simp add: less_mult_imp_div_less mult.commute)
  with Suc.IH [of "n div 10"] show ?case by (subst show_nat.simps) simp
qed

lemma length_show_int: "0 \<le> i \<Longrightarrow> i \<le> INT_MAX \<Longrightarrow> length (show_int i) \<le> 10"
  using length_show_nat [of "nat i" 9] by (simp add: show_int_def)

lemma schar_digit: "d < 10 \<Longrightarrow> schar (digit_char d) = 48 + int d"
  by (simp add: schar_def of_char_digit_int)

lemma digit_neq: "is_digit c \<Longrightarrow> c \<noteq> newline \<and> c \<noteq> CHR ''#'' \<and> of_char c \<noteq> (0 :: nat)"
  by (auto simp: is_digit_def newline_def)

lemma schar_eq_hash: "schar c = schar CHR ''#'' \<longleftrightarrow> c = CHR ''#''"
proof
  assume *: "schar c = schar CHR ''#''"
  have "(of_char c :: int) = of_char CHR ''#''"
  proof (cases "of_char c < (128 :: int)")
    case True
    with * show ?thesis by (simp add: schar_def)
  next
    case False
    have "(of_char c :: int) < 256"
      by (metis of_char_mod_256 pos_mod_bound zero_less_numeral)
    with * False show ?thesis by (simp add: schar_def)
  qed
  then show "c = CHR ''#''" by (rule of_char_eqI)
qed simp

lemma is_space_blank [simp]: "is_space CHR '' ''" "is_space newline"
  by (simp_all add: is_space_def newline_def)

lemma number_ends_blank [simp]: "is_space c \<Longrightarrow> number_ends (c # cs)"
  using not_both_digit_space by (auto simp: number_ends_def)

lemma scan_var_show:
  assumes "\<forall>c \<in> set ws. is_space c" and "number_ends rest" and "INT_MIN \<le> i" and "i \<le> INT_MAX"
  shows "scan_var v (ws @ show_int i @ rest) = Ret (Some i, rest, True)"
  using assms scan_show_int [OF assms(1,2), of i] by (simp add: scan_var_def int_value_Ret)

lemma scan_var_show0:
  "number_ends rest \<Longrightarrow> INT_MIN \<le> i \<Longrightarrow> i \<le> INT_MAX \<Longrightarrow>
   scan_var v (show_int i @ rest) = Ret (Some i, rest, True)"
  using scan_var_show [of "[]"] by simp

lemma valid_mode_range: "IsValidMode m \<Longrightarrow> 0 \<le> m \<and> m < 10 \<and> nat m < 10"
  by (auto simp: IsValidMode_def mode_defs)

lemma first_line:
  assumes "IsValidMode mode"
  shows "fgets 256 (''P'' @ show_int mode @ [newline] @ rest) = Some ([CHR ''P'', digit_char (nat mode), newline], rest)"
proof -
  have "nat mode < 10" using valid_mode_range [OF assms] by simp
  then have "is_digit (digit_char (nat mode))" by (rule is_digit_char)
  then have "digit_char (nat mode) \<noteq> newline" using digit_neq by blast
  then show ?thesis
    using fgets_line [of "[CHR ''P'', digit_char (nat mode)]" 256 rest] valid_mode_range [OF assms]
    by (simp add: show_int_digit newline_def)
qed

lemma skip_comments_line:
  "fgets 256 inp = Some (l, rest) \<Longrightarrow> buffer_at l 0 \<noteq> schar CHR ''#'' \<Longrightarrow>
   skip_comments (CHR ''#'' # buf) inp = Some (l, rest)"
  by (subst skip_comments.simps) (simp add: buffer_at_def, subst skip_comments.simps, simp add: buffer_at_def)

text \<open>The line with the size, as \<open>fgets\<close> leaves it in the buffer.\<close>

definition size_line :: "int \<Rightarrow> int \<Rightarrow> string" where
  "size_line w h = show_int w @ '' '' @ show_int h @ [newline]"

lemma fgets_size_line:
  assumes "0 \<le> w" and "w \<le> INT_MAX" and "0 \<le> h" and "h \<le> INT_MAX"
  shows "fgets 256 (size_line w h @ rest) = Some (size_line w h, rest)"
    and "buffer_at (size_line w h) 0 \<noteq> schar CHR ''#''"
    and "c_string (size_line w h) = size_line w h"
proof -
  obtain d ds where d: "show_int w = d # ds" "\<forall>c \<in> set (show_int w). is_digit c"
    using show_int_nonneg [OF assms(1)] by fastforce
  obtain e es where e: "show_int h = e # es" "\<forall>c \<in> set (show_int h). is_digit c"
    using show_int_nonneg [OF assms(3)] by fastforce
  let ?l = "show_int w @ '' '' @ show_int h"
  have "newline \<notin> set ?l" using d(2) e(2) digit_neq by (auto simp: newline_def)
  moreover have "length ?l + 1 < 256"
    using length_show_int [OF assms(1,2)] length_show_int [OF assms(3,4)] by simp
  ultimately show "fgets 256 (size_line w h @ rest) = Some (size_line w h, rest)"
    using fgets_line [of ?l 256 rest] by (simp add: size_line_def)
  show "buffer_at (size_line w h) 0 \<noteq> schar CHR ''#''"
    using d digit_neq [of d] schar_eq_hash by (simp add: buffer_at_def size_line_def)
  show "c_string (size_line w h) = size_line w h"
    unfolding c_string_def takeWhile_eq_all_conv
    using d(2) e(2) digit_neq by (auto simp: size_line_def newline_def)
qed

lemma scan_size_line:
  assumes "0 \<le> w" and "w \<le> INT_MAX" and "0 \<le> h" and "h \<le> INT_MAX"
  shows "scan_var v (size_line w h) = Ret (Some w, '' '' @ show_int h @ [newline], True)"
    and "scan_var v ('' '' @ show_int h @ [newline]) = Ret (Some h, [newline], True)"
  using assms scan_var_show0 [of "'' '' @ show_int h @ [newline]" w v]
    scan_var_show [of "'' ''" "[newline]" h v]
  by (simp_all add: size_line_def)

text \<open>What the pixel loop reads: for all but bitmaps, leading space is gone.\<close>

definition pixel_input :: "int \<Rightarrow> string \<Rightarrow> string" where
  "pixel_input mode data = (if bitmap mode then data else dropWhile is_space data)"

lemma read_max_written:
  "read_max mode ((if mode \<noteq> PBM_RAW \<and> mode \<noteq> PBM_ASCII then show_int 255 @ [newline] else []) @ data)
     = Ret (pixel_input mode data)"
  using scan_var_show0 [of "newline # data" 255 None]
  by (auto simp: read_max_def pixel_input_def bitmap_def)

definition read_start :: "string \<Rightarrow> nat \<Rightarrow> read_vars" where
  "read_start inp n =
     \<lparr>rv_in = inp, rv_img = replicate n 0, rv_c = 0, rv_r = None, rv_g = None, rv_b = None,
      rv_bw = None, rv_count = 0\<rparr>"

lemma read_written:
  assumes "IsValidMode mode" and "ctime_line date"
    and "3 * (h * w) \<le> 2147483647" and "0 < w" and "0 < h" and "calloc (int (3 * (h * w)))"
  shows "ReadPPM calloc f (Some (write_header date mode (int w) (int h) @ data)) w0 h0 =
    Some (exec_bind
      (for_up h 0 (\<lambda>i. for_up w 0 (read_pixel mode (int w))) (read_start (pixel_input mode data) (3 * (h * w))))
      (\<lambda>s. Ret (mode, int w, int h, rv_img s)))"
proof -
  obtain d where d: "date = d @ [newline]" "newline \<notin> set d" "length d = 24"
    using assms(2) by (auto simp: ctime_line_def)
  have "h \<le> h * w" "w \<le> h * w"
    using assms(4,5) by simp_all
  with assms(3) have bounds: "int w \<le> INT_MAX" "int h \<le> INT_MAX" "3 * int h \<le> INT_MAX"
    by linarith+
  have size: "3 * int h * int w = int (3 * (h * w))" by simp
  have isize: "(int_value (3 * int h * int w) :: (string, int) exec) = Ret (int (3 * (h * w)))"
    unfolding size by (rule int_value_Ret) (use assms(3) in linarith)+
  let ?max = "if mode \<noteq> PBM_RAW \<and> mode \<noteq> PBM_ASCII then show_int 255 @ [newline] else []"
  let ?comment = "'' File created by Chris Wyman'' @ [CHR 0x27] @ ''s PPM Library on '' @ d"
  have written: "write_header date mode (int w) (int h) @ data =
      ''P'' @ show_int mode @ [newline] @ (CHR ''#'' # ?comment) @ newline # size_line (int w) (int h) @ ?max @ data"
    by (simp add: write_header_def size_line_def d(1))
  have comment: "fgets 256 ((CHR ''#'' # ?comment) @ newline # r) = Some ((CHR ''#'' # ?comment) @ [newline], r)" for r
    by (rule fgets_line) (use d in \<open>auto simp: newline_def\<close>)
  have mode: "buffer_at [CHR ''P'', digit_char (nat mode), newline] (Suc 0) = 48 + mode"
    using valid_mode_range [OF assms(1)] schar_digit [of "nat mode"] by (simp add: buffer_at_def)
  have P: "buffer_at [CHR ''P'', digit_char (nat mode), newline] 0 = schar CHR ''P''"
    by (simp add: buffer_at_def)
  have nat3: "nat (3 * (int h * int w)) = 3 * (h * w)" by (simp add: nat_mult_distrib)
  note line = fgets_size_line [of "int w" "int h", OF _ bounds(1) _ bounds(2)]
  have skip: "skip_comments ((CHR ''#'' # ?comment) @ [newline]) (size_line (int w) (int h) @ r)
      = Some (size_line (int w) (int h), r)" for r
    using skip_comments_line [OF line(1) line(2)] by simp
  have image: "read_image calloc mode (size_line (int w) (int h)) (?max @ data) w0 h0 =
      exec_bind (for_up h 0 (\<lambda>i. for_up w 0 (read_pixel mode (int w)))
          (read_start (pixel_input mode data) (3 * (h * w))))
        (\<lambda>s. Ret (mode, int w, int h, rv_img s))"
    unfolding read_image_def read_max_written
    using scan_size_line [of "int w" "int h", OF _ bounds(1) _ bounds(2)] line(3) isize assms(6) bounds(3)
    by (simp add: int_value_Ret read_start_def nat3)
  show ?thesis
    unfolding written ReadPPM_def option.simps first_line [OF assms(1)] comment
    using assms(1) skip image by (simp add: comment [simplified] mode P)
qed

section \<open>The pixel loops\<close>

text \<open>The image whose pixel \<open>k\<close> has the components \<open>v k\<close>, cut to bytes.\<close>

definition pixels :: "(nat \<Rightarrow> int \<times> int \<times> int) \<Rightarrow> nat \<Rightarrow> u8 list" where
  "pixels v n =
     concat (map (\<lambda>k. case v k of (r, g, b) \<Rightarrow> [word_of_int r, word_of_int g, word_of_int b]) [0..<n])"

lemma pixels_Suc:
  "v n = (r, g, b) \<Longrightarrow> pixels v (Suc n) = pixels v n @ [word_of_int r, word_of_int g, word_of_int b]"
  by (simp add: pixels_def)

lemma length_pixels [simp]: "length (pixels v n) = 3 * n"
  by (induction n) (simp_all add: pixels_def split: prod.splits)

lemma three_more: "3 * Suc n = Suc (Suc (Suc (3 * n)))"
  by simp

lemma pixels_image: "3 * n \<le> length img \<Longrightarrow>
  pixels (\<lambda>k. (uint (img ! (3 * k)), uint (img ! (3 * k + 1)), uint (img ! (3 * k + 2)))) n = take (3 * n) img"
proof (induction n)
  case 0
  then show ?case by (simp add: pixels_def)
next
  case (Suc n)
  then have "take (3 * Suc n) img =
      take (3 * n) img @ [img ! (3 * n), img ! (3 * n + 1), img ! (3 * n + 2)]"
    unfolding three_more by (simp add: take_Suc_conv_app_nth)
  moreover have "3 * n \<le> length img" using Suc.prems by simp
  ultimately show ?case using Suc.IH by (simp add: pixels_Suc del: mult_Suc_right)
qed

definition part_read :: "(nat \<Rightarrow> int \<times> int \<times> int) \<Rightarrow> nat \<Rightarrow> nat \<Rightarrow> read_vars \<Rightarrow> bool" where
  "part_read v n k s \<longleftrightarrow> rv_img s = pixels v k @ replicate (3 * (n - k)) 0 \<and> rv_c s = 3 * k"

lemma put_byte_eval:
  "rv_c s < length (rv_img s) \<Longrightarrow>
   put_byte (Some x) s = Ret (s\<lparr>rv_img := (rv_img s)[rv_c s := word_of_int x], rv_c := Suc (rv_c s)\<rparr>)"
  by (simp add: put_byte_def)

lemma put_pixel_part:
  assumes "part_read v n k s" and "k < n" and "v k = (r, g, b)"
    and "rv_r s = Some r" and "rv_g s = Some g" and "rv_b s = Some b"
  shows "\<exists>t. put_pixel s = Ret t \<and> part_read v n (Suc k) t \<and> rv_in t = rv_in s
    \<and> rv_bw t = rv_bw s \<and> rv_count t = rv_count s"
proof -
  obtain m where m: "n - k = Suc m" using assms(2) by (metis Suc_diff_Suc)
  then have "rv_img s = pixels v k @ 0 # 0 # 0 # replicate (3 * m) 0" "rv_c s = 3 * k" "n - Suc k = m"
    using assms(1) by (simp_all add: part_read_def three_more del: mult_Suc_right)
  with assms(3-6) show ?thesis
    by (simp add: put_pixel_def put_byte_eval part_read_def pixels_Suc list_update_append)
qed

lemma read_pixels:
  assumes "Q 0 inp None 0"
    and sample: "\<And>i j u. i < h \<Longrightarrow> j < w \<Longrightarrow> Q (i * w + j) (rv_in u) (rv_bw u) (rv_count u) \<Longrightarrow>
      \<exists>r g b inp bw c. vals (i * w + j) = (r, g, b) \<and> Q (Suc (i * w + j)) inp bw c
        \<and> (if RawMode mode then read_raw mode (int w) j u else read_ascii mode u)
          = Ret (u\<lparr>rv_in := inp, rv_r := Some r, rv_g := Some g, rv_b := Some b, rv_bw := bw, rv_count := c\<rparr>)"
  shows "\<exists>s. for_up h 0 (\<lambda>i. for_up w 0 (read_pixel mode (int w))) (read_start inp (3 * (h * w))) = Ret s
    \<and> rv_img s = pixels vals (h * w)"
proof -
  let ?P = "\<lambda>k s. part_read vals (h * w) k s \<and> Q k (rv_in s) (rv_bw s) (rv_count s)"
  have "\<exists>s. for_up h 0 (\<lambda>i. for_up w 0 (read_pixel mode (int w))) (read_start inp (3 * (h * w))) = Ret s
      \<and> ?P (h * w) s"
  proof (rule for_up_table [where P = ?P])
    show "?P 0 (read_start inp (3 * (h * w)))"
      using assms(1) by (simp add: read_start_def part_read_def pixels_def)
  next
    fix i j u
    assume ij: "i < h" "j < w" and P: "?P (i * w + j) u"
    then obtain r g b inp bw c where v: "vals (i * w + j) = (r, g, b)" "Q (Suc (i * w + j)) inp bw c"
      and smp: "(if RawMode mode then read_raw mode (int w) j u else read_ascii mode u)
          = Ret (u\<lparr>rv_in := inp, rv_r := Some r, rv_g := Some g, rv_b := Some b, rv_bw := bw, rv_count := c\<rparr>)"
      using sample [OF ij] by blast
    have "i * w + j < h * w" using ij by (rule table_index)
    moreover have "part_read vals (h * w) (i * w + j)
        (u\<lparr>rv_in := inp, rv_r := Some r, rv_g := Some g, rv_b := Some b, rv_bw := bw, rv_count := c\<rparr>)"
      using P by (simp add: part_read_def)
    ultimately obtain t where "put_pixel (u\<lparr>rv_in := inp, rv_r := Some r, rv_g := Some g, rv_b := Some b,
          rv_bw := bw, rv_count := c\<rparr>) = Ret t"
      and "part_read vals (h * w) (Suc (i * w + j)) t" "rv_in t = inp" "rv_bw t = bw" "rv_count t = c"
      using put_pixel_part [where v = vals and k = "i * w + j" and n = "h * w", OF _ _ v(1)] by fastforce
    with smp v(2) show "\<exists>t. read_pixel mode (int w) j u = Ret t \<and> ?P (Suc (i * w + j)) t"
      by (cases "RawMode mode") (auto simp: read_pixel_def)
  qed
  then show ?thesis by (auto simp: part_read_def)
qed

text \<open>An image of \<open>h\<close> rows of \<open>w\<close> pixels whose size is an \<open>int\<close>.\<close>

definition image_ok :: "nat \<Rightarrow> nat \<Rightarrow> u8 list \<Rightarrow> bool" where
  "image_ok w h img \<longleftrightarrow> length img = 3 * (h * w) \<and> 0 < w \<and> 0 < h \<and> 3 * (h * w) \<le> 2147483647"

definition gray :: "u8 list \<Rightarrow> nat \<Rightarrow> int" where
  "gray img k = (uint (img ! (3 * k)) + uint (img ! (3 * k + 1)) + uint (img ! (3 * k + 2))) div 3"

lemma gray_bounds: "0 \<le> gray img k \<and> gray img k < 256"
  using byte_range [of "img ! (3 * k)"] byte_range [of "img ! (3 * k + 1)"]
    byte_range [of "img ! (3 * k + 2)"]
  unfolding gray_def by linarith

lemma write_pixel_at:
  assumes "image_ok w h img" and "i < h" and "j < w"
  shows "write_pixel mode (int w) img (int i) j s =
    write_sample mode (int w) j (img ! (3 * (i * w + j))) (img ! (3 * (i * w + j) + 1))
      (img ! (3 * (i * w + j) + 2)) s"
proof -
  let ?k = "3 * (i * w + j)"
  have k: "?k + 2 < length img" "?k \<le> 2147483647"
    using table_index [OF assms(2,3)] assms(1) by (simp_all add: image_ok_def)
  have eq: "3 * (int i * int w + int j) = int ?k" by simp
  have at: "array_at img (int ?k) = (Ret (img ! ?k) :: (string, u8) exec)"
    "array_at img (int (?k + 1)) = (Ret (img ! (?k + 1)) :: (string, u8) exec)"
    "array_at img (int (?k + 2)) = (Ret (img ! (?k + 2)) :: (string, u8) exec)"
    by (rule array_at_nat, use k(1) in linarith)+
  have idx: "(int_value (int ?k) :: (string, int) exec) = Ret (int ?k)"
    by (rule int_value_Ret) (use k(2) in linarith)+
  have "write_pixel mode (int w) img (int i) j s =
      exec_bind (array_at img (int ?k)) (\<lambda>r. exec_bind (array_at img (int (?k + 1))) (\<lambda>g.
        exec_bind (array_at img (int (?k + 2))) (\<lambda>b. write_sample mode (int w) j r g b s)))"
    unfolding write_pixel_def eq using idx by (simp add: add.commute)
  also have "\<dots> = write_sample mode (int w) j (img ! ?k) (img ! (?k + 1)) (img ! (?k + 2)) s"
    unfolding at exec_bind.simps ..
  finally show ?thesis .
qed

lemma write_written:
  assumes "0 \<le> mode"
    and "for_up h 0 (\<lambda>i. for_up w 0 (write_pixel mode (int w) img (int i)))
      \<lparr>wv_out = write_header date mode (int w) (int h), wv_i = i0, wv_bw = 0\<rparr> = Ret s"
    and "wv_out s = write_header date mode (int w) (int h) @ data"
  shows "\<exists>warning. WritePPM date i0 f True mode (int w) (int h) img =
    Ret (GFXIO_OK, Some (write_header date mode (int w) (int h) @ data @ [newline]), warning)"
  using assms by (simp add: WritePPM_def Let_def)

lemma roundtrip_of_loops:
  assumes "IsValidMode mode" and "image_ok w h img" and "ctime_line date" and "calloc (int (3 * (h * w)))"
    and "for_up h 0 (\<lambda>i. for_up w 0 (write_pixel mode (int w) img (int i)))
      \<lparr>wv_out = write_header date mode (int w) (int h), wv_i = i0, wv_bw = 0\<rparr> = Ret s"
    and "wv_out s = write_header date mode (int w) (int h) @ data"
    and "for_up h 0 (\<lambda>i. for_up w 0 (read_pixel mode (int w)))
      (read_start (pixel_input mode (data @ [newline])) (3 * (h * w))) = Ret t"
  shows "\<exists>out warning. WritePPM date i0 f True mode (int w) (int h) img = Ret (GFXIO_OK, Some out, warning)
    \<and> ReadPPM calloc f' (Some out) w0 h0 = Some (Ret (mode, int w, int h, rv_img t))"
proof -
  have "0 \<le> mode" using valid_mode_range [OF assms(1)] by blast
  from write_written [OF this assms(5,6)] obtain warning where
    "WritePPM date i0 f True mode (int w) (int h) img
      = Ret (GFXIO_OK, Some (write_header date mode (int w) (int h) @ data @ [newline]), warning)" by blast
  moreover have "ReadPPM calloc f' (Some (write_header date mode (int w) (int h) @ data @ [newline])) w0 h0
      = Some (Ret (mode, int w, int h, rv_img t))"
    using read_written [where calloc = calloc and h = h and w = w and mode = mode and date = date
        and f = f' and data = "data @ [newline]"] assms
    by (simp add: image_ok_def)
  ultimately show ?thesis by blast
qed

text \<open>An image of gray tones, and a date for the examples.\<close>

definition tone_image :: "(nat \<Rightarrow> u8) \<Rightarrow> nat \<Rightarrow> u8 list" where
  "tone_image v n = concat (map (\<lambda>k. replicate 3 (v k)) [0..<n])"

lemma pixels_tone: "pixels (\<lambda>k. (x k, x k, x k)) n = tone_image (\<lambda>k. word_of_int (x k)) n"
  by (simp add: pixels_def tone_image_def eval_nat_numeral)

definition some_date :: string where
  "some_date = ''Thu Nov 24 18:22:48 1986'' @ [newline]"

lemma some_date_line: "ctime_line some_date"
  unfolding ctime_line_def some_date_def
  by (rule exI [of _ "''Thu Nov 24 18:22:48 1986''"]) (simp add: newline_def)

end
