(* ===== verification/Appm_Ascii.thy ===== *)
theory Appm_Ascii
  imports Appm_Files
begin

text \<open>
  The three text formats: the file is a sequence of numbers, each followed by space, so that
  where the line ends fall (which depends on the uninitialised counter) does not matter to
  the reader.
\<close>

section \<open>Numbers and the space after them\<close>

definition number_text :: "(int \<times> string) list \<Rightarrow> string" where
  "number_text ts = concat (map (\<lambda>(n, ws). show_int n @ ws) ts)"

definition spaced :: "(int \<times> string) list \<Rightarrow> bool" where
  "spaced ts \<longleftrightarrow> (\<forall>(n, ws) \<in> set ts. ws \<noteq> [] \<and> (\<forall>c \<in> set ws. is_space c) \<and> 0 \<le> n \<and> n \<le> INT_MAX)"

lemma number_text_simps [simp]:
  "number_text [] = []"
  "number_text ((n, ws) # ts) = show_int n @ ws @ number_text ts"
  "number_text (ts @ us) = number_text ts @ number_text us"
  by (simp_all add: number_text_def)

lemma spaced_simps [simp]:
  "spaced []"
  "spaced ((n, ws) # ts) \<longleftrightarrow> ws \<noteq> [] \<and> (\<forall>c \<in> set ws. is_space c) \<and> 0 \<le> n \<and> n \<le> INT_MAX \<and> spaced ts"
  "spaced (ts @ us) \<longleftrightarrow> spaced ts \<and> spaced us"
  by (auto simp: spaced_def)

text \<open>The input left is the text of the numbers \<open>ns\<close>, after space, and a line end.\<close>

definition holds_numbers :: "int list \<Rightarrow> string \<Rightarrow> bool" where
  "holds_numbers ns inp \<longleftrightarrow>
     (\<exists>ws ts. inp = ws @ number_text ts @ [newline] \<and> (\<forall>c \<in> set ws. is_space c) \<and> spaced ts \<and> map fst ts = ns)"

lemma holds_numbersE:
  assumes "holds_numbers (n # ns) inp"
  obtains ws us ts where "inp = ws @ show_int n @ us @ number_text ts @ [newline]"
    and "\<forall>c \<in> set ws. is_space c" and "us \<noteq> []" and "\<forall>c \<in> set us. is_space c"
    and "0 \<le> n" and "n \<le> INT_MAX" and "spaced ts" and "map fst ts = ns"
proof -
  from assms obtain ws zs where inp: "inp = ws @ number_text zs @ [newline]"
    and ws: "\<forall>c \<in> set ws. is_space c" and zs: "spaced zs" "map fst zs = n # ns"
    unfolding holds_numbers_def by (elim exE conjE)
  from zs(2) obtain us ts where "zs = (n, us) # ts" "map fst ts = ns" by (cases zs) auto
  with inp ws zs(1) show thesis by (intro that [of ws us ts]) simp_all
qed

lemma holds_numbersI:
  "\<forall>c \<in> set ws. is_space c \<Longrightarrow> spaced ts \<Longrightarrow> holds_numbers (map fst ts) (ws @ number_text ts @ [newline])"
  unfolding holds_numbers_def by (intro exI [of _ ws] exI [of _ ts]) simp

lemma scan_var_numbers:
  assumes "holds_numbers (n # ns) inp"
  shows "\<exists>rest. scan_var v inp = Ret (Some n, rest, True) \<and> holds_numbers ns rest"
  using assms
proof (rule holds_numbersE)
  fix ws us ts
  assume inp: "inp = ws @ show_int n @ us @ number_text ts @ [newline]"
    and sp: "\<forall>c \<in> set ws. is_space c" "us \<noteq> []" "\<forall>c \<in> set us. is_space c"
    and n: "0 \<le> n" "n \<le> INT_MAX" and ts: "spaced ts" "map fst ts = ns"
  have "number_ends (us @ number_text ts @ [newline])" using sp(2,3) by (cases us) auto
  with sp n have "scan_var v inp = Ret (Some n, us @ number_text ts @ [newline], True)"
    unfolding inp by (intro scan_var_show) simp_all
  moreover have "holds_numbers ns (us @ number_text ts @ [newline])"
    using holds_numbersI [OF sp(3) ts(1)] ts(2) by simp
  ultimately show ?thesis by blast
qed

lemma drop_space_numbers:
  assumes "holds_numbers (n # ns) inp"
  shows "holds_numbers (n # ns) (dropWhile is_space inp)"
  using assms
proof (rule holds_numbersE)
  fix ws us ts
  assume inp: "inp = ws @ show_int n @ us @ number_text ts @ [newline]"
    and sp: "\<forall>c \<in> set ws. is_space c" "us \<noteq> []" "\<forall>c \<in> set us. is_space c"
    and n: "0 \<le> n" "n \<le> INT_MAX" and ts: "spaced ts" "map fst ts = ns"
  obtain d ds where d: "show_int n = d # ds" "is_digit d"
    using n(1) show_int_nonneg [of n] by auto
  then have "\<not> is_space d" using not_both_digit_space by blast
  with sp(1) d(1) have "dropWhile is_space inp = number_text ((n, us) # ts) @ [newline]"
    unfolding inp by (simp add: dropWhile_append2)
  moreover have "holds_numbers (map fst ((n, us) # ts)) ([] @ number_text ((n, us) # ts) @ [newline])"
    by (rule holds_numbersI) (use sp n ts in simp_all)
  ultimately show ?thesis using ts(2) by simp
qed

section \<open>What is written for a pixel, and what is read for it\<close>

definition numbers_of :: "int \<Rightarrow> u8 list \<Rightarrow> nat \<Rightarrow> int list" where
  "numbers_of mode img k =
     (if mode = PPM_ASCII
      then [uint (img ! (3 * k)), uint (img ! (3 * k + 1)), uint (img ! (3 * k + 2))]
      else if mode = PGM_ASCII then [gray img k] else [if gray img k < 128 then 1 else 0])"

definition pixel_read :: "int \<Rightarrow> u8 list \<Rightarrow> nat \<Rightarrow> int \<times> int \<times> int" where
  "pixel_read mode img k =
     (if mode = PPM_ASCII
      then (uint (img ! (3 * k)), uint (img ! (3 * k + 1)), uint (img ! (3 * k + 2)))
      else let v = (if mode = PGM_ASCII then gray img k else if gray img k < 128 then 255 else 0)
           in (v, v, v))"

lemma ascii_not_raw: "ASCIIMode mode \<Longrightarrow> \<not> RawMode mode \<and> IsValidMode mode \<and> 0 \<le> mode"
  by (auto simp: ASCIIMode_def RawMode_def IsValidMode_def mode_defs)

lemma read_ascii_numbers:
  assumes "ASCIIMode mode" and "holds_numbers (numbers_of mode img k @ ns) (rv_in u)"
    and "pixel_read mode img k = (r, g, b)"
  shows "\<exists>inp. read_ascii mode u
      = Ret (u\<lparr>rv_in := inp, rv_r := Some r, rv_g := Some g, rv_b := Some b\<rparr>) \<and> holds_numbers ns inp"
proof (cases "mode = PPM_ASCII")
  case True
  then obtain r1 where 1: "scan_var (rv_r u) (rv_in u) = Ret (Some r, r1, True)"
    "holds_numbers (g # b # ns) r1"
    using assms(2,3) scan_var_numbers [of r "g # b # ns" "rv_in u" "rv_r u"]
    by (auto simp: numbers_of_def pixel_read_def)
  then obtain r2 where 2: "scan_var (rv_g u) r1 = Ret (Some g, r2, True)" "holds_numbers (b # ns) r2"
    using scan_var_numbers by blast
  then obtain r3 where "scan_var (rv_b u) r2 = Ret (Some b, r3, True)" "holds_numbers ns r3"
    using scan_var_numbers by blast
  with True 1 2 show ?thesis by (intro exI [of _ r3]) (simp add: read_ascii_def mode_defs)
next
  case False
  then obtain n where n: "numbers_of mode img k = [n]"
    by (cases "mode = PGM_ASCII") (auto simp: numbers_of_def)
  with assms(2) have "holds_numbers (n # ns) (rv_in u)" by simp
  from scan_var_numbers [OF this, of "rv_r u"] obtain r1 where
    "scan_var (rv_r u) (rv_in u) = Ret (Some n, r1, True)" "holds_numbers ns r1" by blast
  with n False assms(1,3) show ?thesis
    by (auto simp: read_ascii_def numbers_of_def pixel_read_def ASCIIMode_def mode_defs split: if_splits)
qed

section \<open>The files\<close>

definition numbers_from :: "int \<Rightarrow> u8 list \<Rightarrow> nat \<Rightarrow> nat \<Rightarrow> int list" where
  "numbers_from mode img k n = concat (map (numbers_of mode img) [k..<n])"

lemma numbers_from_less:
  "k < n \<Longrightarrow> numbers_from mode img k n = numbers_of mode img k @ numbers_from mode img (Suc k) n"
  by (simp add: numbers_from_def upt_conv_Cons)

lemma numbers_nonempty: "numbers_of mode img k \<noteq> []"
  by (simp add: numbers_of_def)

lemma numbers_of_bounds: "\<forall>n \<in> set (numbers_of mode img k). 0 \<le> n \<and> n \<le> INT_MAX"
proof -
  have "uint b \<le> INT_MAX" for b :: u8 using byte_range [of b] by linarith
  then show ?thesis using byte_range gray_bounds [of img k] by (auto simp: numbers_of_def)
qed

lemma read_ascii_file:
  assumes "ASCIIMode mode" and "holds_numbers (numbers_from mode img 0 (h * w)) inp"
  shows "\<exists>s. for_up h 0 (\<lambda>i. for_up w 0 (read_pixel mode (int w))) (read_start inp (3 * (h * w))) = Ret s
    \<and> rv_img s = pixels (pixel_read mode img) (h * w)"
proof (rule read_pixels [where Q = "\<lambda>k inp bw c. holds_numbers (numbers_from mode img k (h * w)) inp"])
  show "holds_numbers (numbers_from mode img 0 (h * w)) inp" by (rule assms(2))
next
  fix i j and u :: read_vars
  let ?k = "i * w + j"
  assume "i < h" "j < w" and Q: "holds_numbers (numbers_from mode img ?k (h * w)) (rv_in u)"
  then have "holds_numbers (numbers_of mode img ?k @ numbers_from mode img (Suc ?k) (h * w)) (rv_in u)"
    using table_index numbers_from_less by metis
  moreover obtain r g b where v: "pixel_read mode img ?k = (r, g, b)" by (cases "pixel_read mode img ?k")
  ultimately obtain inp where "read_ascii mode u
      = Ret (u\<lparr>rv_in := inp, rv_r := Some r, rv_g := Some g, rv_b := Some b\<rparr>)"
    "holds_numbers (numbers_from mode img (Suc ?k) (h * w)) inp"
    using read_ascii_numbers [OF assms(1)] by blast
  with v assms(1) ascii_not_raw show "\<exists>r g b inp bw c. pixel_read mode img ?k = (r, g, b)
      \<and> holds_numbers (numbers_from mode img (Suc ?k) (h * w)) inp
      \<and> (if RawMode mode then read_raw mode (int w) j u else read_ascii mode u)
        = Ret (u\<lparr>rv_in := inp, rv_r := Some r, rv_g := Some g, rv_b := Some b, rv_bw := bw, rv_count := c\<rparr>)"
    by (intro exI [of _ r] exI [of _ g] exI [of _ b] exI [of _ inp] exI [of _ "rv_bw u"]
        exI [of _ "rv_count u"]) simp
qed

text \<open>The writer: the text so far is that of the numbers so far.\<close>

definition part_written :: "int \<Rightarrow> u8 list \<Rightarrow> string \<Rightarrow> int \<Rightarrow> nat \<Rightarrow> write_vars \<Rightarrow> bool" where
  "part_written mode img hdr i0 k s \<longleftrightarrow>
     (\<exists>ts. wv_out s = hdr @ number_text ts \<and> spaced ts \<and> map fst ts = numbers_from mode img 0 k)
     \<and> wv_i s = Some (i0 + int k)"

lemma write_break_eval:
  "wv_i s = Some i \<Longrightarrow> INT_MIN \<le> i + 1 \<Longrightarrow> i + 1 \<le> INT_MAX \<Longrightarrow>
   \<exists>br. write_break n s = Ret (s\<lparr>wv_i := Some (i + 1), wv_out := wv_out s @ br\<rparr>) \<and> (\<forall>c \<in> set br. is_space c)"
  by (intro exI [of _ "if c_rem (i + 1) n = 0 then [newline] else []"])
    (simp add: write_break_def int_value_Ret)

lemma write_sample_ascii:
  assumes "ASCIIMode mode" and "part_written mode img hdr i0 k s" and "INT_MIN \<le> i0"
    and "i0 + int k < INT_MAX"
  shows "\<exists>t. write_sample mode width x (img ! (3 * k)) (img ! (3 * k + 1)) (img ! (3 * k + 2)) s = Ret t
    \<and> part_written mode img hdr i0 (Suc k) t"
proof -
  from assms(2) obtain ts where ts: "wv_out s = hdr @ number_text ts" "spaced ts"
    "map fst ts = numbers_from mode img 0 k" and i: "wv_i s = Some (i0 + int k)"
    unfolding part_written_def by (elim conjE exE)
  let ?text = "concat (map (\<lambda>n. show_int n @ '' '') (numbers_of mode img k))"
  let ?s = "s\<lparr>wv_out := wv_out s @ ?text\<rparr>"
  let ?n = "if mode = PPM_ASCII then 5 else 15"
  have "write_sample mode width x (img ! (3 * k)) (img ! (3 * k + 1)) (img ! (3 * k + 2)) s = write_break ?n ?s"
    using assms(1)
    by (auto simp: write_sample_def ASCIIMode_def mode_defs numbers_of_def gray_def Let_def)
  moreover from write_break_eval [of ?s "i0 + int k" ?n] i assms(3,4) obtain br where
    br: "write_break ?n ?s = Ret (?s\<lparr>wv_i := Some (i0 + int k + 1), wv_out := wv_out ?s @ br\<rparr>)"
    "\<forall>c \<in> set br. is_space c" by auto
  moreover have "part_written mode img hdr i0 (Suc k) (?s\<lparr>wv_i := Some (i0 + int k + 1), wv_out := wv_out ?s @ br\<rparr>)"
  proof -
    obtain ns n where ns: "numbers_of mode img k = ns @ [n]"
      using numbers_nonempty by (metis rev_exhaust)
    let ?us = "map (\<lambda>n. (n, '' '')) ns @ [(n, '' '' @ br)]"
    have toks: "number_text (map (\<lambda>n. (n, '' '')) ms) = concat (map (\<lambda>n. show_int n @ '' '') ms)" for ms
      by (induction ms) auto
    have sp: "spaced (map (\<lambda>n. (n, '' '')) ms)" if "\<forall>n \<in> set ms. 0 \<le> n \<and> n \<le> INT_MAX" for ms
      using that by (induction ms) auto
    have "\<forall>n \<in> set ns. 0 \<le> n \<and> n \<le> INT_MAX" "0 \<le> n \<and> n \<le> INT_MAX"
      using numbers_of_bounds [of mode img k] ns by simp_all
    then have "spaced (ts @ ?us)" using ts(2) br(2) sp by simp
    moreover have "wv_out ?s @ br = hdr @ number_text (ts @ ?us)"
      using ts(1) by (simp add: ns toks)
    moreover have "map fst (ts @ ?us) = numbers_from mode img 0 (Suc k)"
      using ts(3) ns by (simp add: numbers_from_def comp_def)
    ultimately show ?thesis using i unfolding part_written_def by (intro conjI exI [of _ "ts @ ?us"]) simp_all
  qed
  ultimately show ?thesis by metis
qed

lemma ascii_roundtrip:
  assumes mode: "ASCIIMode mode" and img: "image_ok w h img" and "ctime_line date"
    and "calloc (int (3 * (h * w)))" and "INT_MIN \<le> i0" and "i0 + int (h * w) \<le> INT_MAX"
  shows "\<exists>out warning. WritePPM date (Some i0) f True mode (int w) (int h) img = Ret (GFXIO_OK, Some out, warning)
    \<and> ReadPPM calloc f' (Some out) w0 h0
      = Some (Ret (mode, int w, int h, pixels (pixel_read mode img) (h * w)))"
proof -
  let ?hdr = "write_header date mode (int w) (int h)"
  have "\<exists>s. for_up h 0 (\<lambda>i. for_up w 0 (write_pixel mode (int w) img (int i)))
      \<lparr>wv_out = ?hdr, wv_i = Some i0, wv_bw = 0\<rparr> = Ret s \<and> part_written mode img ?hdr i0 (h * w) s"
  proof (rule for_up_table [where P = "part_written mode img ?hdr i0"])
    show "part_written mode img ?hdr i0 0 \<lparr>wv_out = ?hdr, wv_i = Some i0, wv_bw = 0\<rparr>"
      by (simp add: part_written_def numbers_from_def)
  next
    fix i j u
    assume ij: "i < h" "j < w" and P: "part_written mode img ?hdr i0 (i * w + j) u"
    have "i0 + int (i * w + j) < INT_MAX" using table_index [OF ij] assms(6) by linarith
    then show "\<exists>v. write_pixel mode (int w) img (int i) j u = Ret v
        \<and> part_written mode img ?hdr i0 (Suc (i * w + j)) v"
      unfolding write_pixel_at [OF img ij] by (rule write_sample_ascii [OF mode P assms(5)])
  qed
  then obtain s ts where s: "for_up h 0 (\<lambda>i. for_up w 0 (write_pixel mode (int w) img (int i)))
      \<lparr>wv_out = ?hdr, wv_i = Some i0, wv_bw = 0\<rparr> = Ret s" "wv_out s = ?hdr @ number_text ts"
    and ts: "spaced ts" "map fst ts = numbers_from mode img 0 (h * w)"
    unfolding part_written_def by (elim conjE exE)
  let ?data = "number_text ts @ [newline]"
  have "holds_numbers (numbers_from mode img 0 (h * w)) ?data"
    using holds_numbersI [of "[]" ts] ts by simp
  moreover have "\<exists>n ns. numbers_from mode img 0 (h * w) = n # ns"
    using numbers_from_less [of 0 "h * w"] numbers_nonempty [of mode img 0] img
    by (cases "numbers_of mode img 0") (auto simp: image_ok_def)
  ultimately have "holds_numbers (numbers_from mode img 0 (h * w)) (pixel_input mode ?data)"
    using drop_space_numbers by (auto simp: pixel_input_def)
  from read_ascii_file [OF mode this] obtain s' where
    s': "for_up h 0 (\<lambda>i. for_up w 0 (read_pixel mode (int w)))
      (read_start (pixel_input mode ?data) (3 * (h * w))) = Ret s'"
    "rv_img s' = pixels (pixel_read mode img) (h * w)" by blast
  show ?thesis
    using roundtrip_of_loops [where calloc = calloc, OF _ img assms(3,4) s s'(1)] ascii_not_raw [OF mode] s'(2) by simp
qed

text \<open>The first pixel uses the counter, which nothing has assigned.\<close>

lemma write_ascii_unassigned:
  assumes mode: "ASCIIMode mode" and img: "image_ok w h img"
  shows "WritePPM date None f True mode (int w) (int h) img = UB"
proof -
  obtain w' h' where wh: "w = Suc w'" "h = Suc h'"
    using img by (auto simp: image_ok_def gr0_conv_Suc)
  have "write_pixel mode (int w) img (int 0) 0 s = UB" if "wv_i s = None" for s
    unfolding write_pixel_at [OF img, of 0 0 mode s, unfolded wh, OF zero_less_Suc zero_less_Suc, folded wh]
    using mode that by (auto simp: write_sample_def write_break_def use_var_def ASCIIMode_def mode_defs Let_def)
  then have "for_up h 0 (\<lambda>i. for_up w 0 (write_pixel mode (int w) img (int i)))
      \<lparr>wv_out = hdr, wv_i = None, wv_bw = 0\<rparr> = UB" for hdr
    unfolding wh by (simp add: wh)
  then show ?thesis using ascii_not_raw [OF mode] by (simp add: WritePPM_def Let_def)
qed

section \<open>Properties\<close>

text \<open>
  C33: \<open>WritePPM\<close> counts the pixels of a text PPM in a variable nobody has initialised. By the
  rules of the language that is undefined, for every image. On a machine that just reads what
  the variable happens to hold, the image is read back unchanged, with its mode and its size,
  whatever that value is, provided that counting the pixels from it does not overflow.
\<close>

theorem ppm_ascii_roundtrip:
  assumes "image_ok w h img" and "ctime_line date" and "calloc (int (3 * (h * w)))"
    and "INT_MIN \<le> i0" and "i0 + int (h * w) \<le> INT_MAX"
  shows "WritePPM date None f True PPM_ASCII (int w) (int h) img = UB
    \<and> (\<exists>out warning. WritePPM date (Some i0) f True PPM_ASCII (int w) (int h) img = Ret (GFXIO_OK, Some out, warning)
        \<and> ReadPPM calloc f' (Some out) w0 h0 = Some (Ret (PPM_ASCII, int w, int h, img)))"
proof -
  have "pixel_read PPM_ASCII img
      = (\<lambda>k. (uint (img ! (3 * k)), uint (img ! (3 * k + 1)), uint (img ! (3 * k + 2))))"
    by (rule ext) (simp add: pixel_read_def)
  then have "pixels (pixel_read PPM_ASCII img) (h * w) = img"
    using pixels_image [of "h * w" img] assms(1) by (simp add: image_ok_def)
  then show ?thesis
    using ascii_roundtrip [where mode = PPM_ASCII and calloc = calloc, OF _ assms]
      write_ascii_unassigned [OF _ assms(1)]
    by (simp add: ASCIIMode_def)
qed

theorem ppm_ascii_roundtrip_witness:
  "WritePPM some_date None ''a'' True PPM_ASCII 2 1 [0, 128, 255, 10, 32, 9] = UB
    \<and> (\<exists>out warning. WritePPM some_date (Some 7) ''a'' True PPM_ASCII 2 1 [0, 128, 255, 10, 32, 9]
          = Ret (GFXIO_OK, Some out, warning)
        \<and> ReadPPM (\<lambda>n. n < 1000) ''a'' (Some out) None None = Some (Ret (PPM_ASCII, 2, 1, [0, 128, 255, 10, 32, 9])))"
  using ppm_ascii_roundtrip [of 2 1 "[0, 128, 255, 10, 32, 9]" some_date "\<lambda>n. n < 1000" 7 "''a''" "''a''" None None]
  by (simp add: image_ok_def some_date_line)

text \<open>
  An image written as a text PGM is read back as its gray image: each pixel becomes the
  mean of its components, three times.
\<close>

theorem pgm_ascii_roundtrip:
  assumes "image_ok w h img" and "ctime_line date" and "calloc (int (3 * (h * w)))"
    and "INT_MIN \<le> i0" and "i0 + int (h * w) \<le> INT_MAX"
  shows "\<exists>out warning. WritePPM date (Some i0) f True PGM_ASCII (int w) (int h) img = Ret (GFXIO_OK, Some out, warning)
    \<and> ReadPPM calloc f' (Some out) w0 h0
      = Some (Ret (PGM_ASCII, int w, int h, tone_image (\<lambda>k. word_of_int (gray img k)) (h * w)))"
proof -
  have "pixel_read PGM_ASCII img = (\<lambda>k. (gray img k, gray img k, gray img k))"
    by (rule ext) (simp add: pixel_read_def mode_defs Let_def)
  then show ?thesis
    using ascii_roundtrip [where mode = PGM_ASCII and calloc = calloc, OF _ assms]
    by (simp add: ASCIIMode_def pixels_tone)
qed

theorem pgm_ascii_roundtrip_witness:
  "\<exists>out warning. WritePPM some_date (Some (- 3)) ''a'' True PGM_ASCII 1 2 [0, 1, 5, 9, 9, 9] = Ret (GFXIO_OK, Some out, warning)
    \<and> ReadPPM (\<lambda>n. n < 1000) ''a'' (Some out) None None
      = Some (Ret (PGM_ASCII, 1, 2, tone_image (\<lambda>k. word_of_int (gray [0, 1, 5, 9, 9, 9] k)) 2))"
  using pgm_ascii_roundtrip [of 1 2 "[0, 1, 5, 9, 9, 9]" some_date "\<lambda>n. n < 1000" "- 3" "''a''" "''a''" None None]
  by (simp add: image_ok_def some_date_line)

text \<open>
  The text bitmap is read back inverted: the writer codes a dark pixel as 1, the reader
  makes a white one of it.
\<close>

theorem pbm_ascii_inverts:
  assumes "image_ok w h img" and "ctime_line date" and "calloc (int (3 * (h * w)))"
    and "INT_MIN \<le> i0" and "i0 + int (h * w) \<le> INT_MAX"
  shows "\<exists>out warning. WritePPM date (Some i0) f True PBM_ASCII (int w) (int h) img = Ret (GFXIO_OK, Some out, warning)
    \<and> ReadPPM calloc f' (Some out) w0 h0
      = Some (Ret (PBM_ASCII, int w, int h, tone_image (\<lambda>k. if gray img k < 128 then 255 else 0) (h * w)))"
proof -
  have "pixel_read PBM_ASCII img = (\<lambda>k. let v = (if gray img k < 128 then 255 else 0) in (v, v, v))"
    by (rule ext) (simp add: pixel_read_def mode_defs)
  moreover have "(\<lambda>k. word_of_int (if gray img k < 128 then 255 else 0) :: u8) =
      (\<lambda>k. if gray img k < 128 then 255 else 0)" by (rule ext) simp
  ultimately show ?thesis
    using ascii_roundtrip [where mode = PBM_ASCII and calloc = calloc, OF _ assms]
    by (simp add: ASCIIMode_def pixels_tone Let_def)
qed

theorem pbm_ascii_inverts_witness:
  "\<exists>out warning. WritePPM some_date (Some 0) ''a'' True PBM_ASCII 2 1 [0, 0, 0, 255, 255, 255] = Ret (GFXIO_OK, Some out, warning)
    \<and> ReadPPM (\<lambda>n. n < 1000) ''a'' (Some out) None None
      = Some (Ret (PBM_ASCII, 2, 1, [255, 255, 255, 0, 0, 0]))"
  using pbm_ascii_inverts [of 2 1 "[0, 0, 0, 255, 255, 255]" some_date "\<lambda>n. n < 1000" 0 "''a''" "''a''" None None]
  by (simp add: image_ok_def some_date_line tone_image_def gray_def upt_rec numeral_3_eq_3)

end
