(* ===== verification/Appm_Raw.thy ===== *)
theory Appm_Raw
  imports Appm_Files
begin

text \<open>
  The three binary formats. Reading never fails: past the end \<open>fgetc\<close> gives -1. The
  maximal colour is read with a format that also skips space, so a first pixel byte that
  happens to be a space code is lost; bitmaps have no such field and pack eight pixels into
  a byte, most significant bit first, each row from a new byte on.
\<close>

section \<open>Bytes of the input\<close>

definition byte_at :: "string \<Rightarrow> nat \<Rightarrow> int" where
  "byte_at d n = (if n < length d then of_char (d ! n) else -1)"

lemma fgetc_drop: "fgetc (drop n d) = (byte_at d n, drop (Suc n) d)"
proof (cases "n < length d")
  case True
  then have "drop n d = d ! n # drop (Suc n) d" using Cons_nth_drop_Suc [OF True] by simp
  with True show ?thesis by (simp add: fgetc_def byte_at_def)
next
  case False
  then show ?thesis by (simp add: fgetc_def byte_at_def)
qed

lemma byte_at_written: "n < length bs \<Longrightarrow> byte_at (map byte_char bs @ rest) n = uint (bs ! n)"
  by (simp add: byte_at_def nth_append of_char_byte_char)

lemma raw_modes: "RawMode PPM_RAW" "RawMode PGM_RAW" "RawMode PBM_RAW"
  "IsValidMode PPM_RAW" "IsValidMode PGM_RAW" "IsValidMode PBM_RAW"
  by (simp_all add: RawMode_def IsValidMode_def)

lemma read_ppm_raw:
  "\<exists>s. for_up h 0 (\<lambda>i. for_up w 0 (read_pixel PPM_RAW (int w))) (read_start d (3 * (h * w))) = Ret s
    \<and> rv_img s = pixels (\<lambda>k. (byte_at d (3 * k), byte_at d (3 * k + 1), byte_at d (3 * k + 2))) (h * w)"
proof (rule read_pixels [where Q = "\<lambda>k inp bw c. inp = drop (3 * k) d"])
  fix i j and u :: read_vars
  let ?k = "i * w + j"
  assume Q: "rv_in u = drop (3 * ?k) d"
  have "drop (Suc (Suc (Suc (3 * ?k)))) d = drop (3 * Suc ?k) d" unfolding three_more ..
  then have "read_raw PPM_RAW (int w) j u = Ret (u\<lparr>rv_in := drop (3 * Suc ?k) d, rv_r := Some (byte_at d (3 * ?k)),
      rv_g := Some (byte_at d (3 * ?k + 1)), rv_b := Some (byte_at d (3 * ?k + 2)), rv_bw := rv_bw u,
      rv_count := rv_count u\<rparr>)"
    unfolding read_raw_def Q fgetc_drop by (simp add: mode_defs fgetc_drop)
  then show "\<exists>r g b inp bw c. (byte_at d (3 * ?k), byte_at d (3 * ?k + 1), byte_at d (3 * ?k + 2)) = (r, g, b)
      \<and> inp = drop (3 * Suc ?k) d
      \<and> (if RawMode PPM_RAW then read_raw PPM_RAW (int w) j u else read_ascii PPM_RAW u)
        = Ret (u\<lparr>rv_in := inp, rv_r := Some r, rv_g := Some g, rv_b := Some b, rv_bw := bw, rv_count := c\<rparr>)"
    using raw_modes by (intro exI [of _ "byte_at d (3 * ?k)"] exI [of _ "byte_at d (3 * ?k + 1)"]
      exI [of _ "byte_at d (3 * ?k + 2)"] exI [of _ "drop (3 * Suc ?k) d"] exI [of _ "rv_bw u"]
      exI [of _ "rv_count u"]) simp
qed simp

lemma read_pgm_raw:
  "\<exists>s. for_up h 0 (\<lambda>i. for_up w 0 (read_pixel PGM_RAW (int w))) (read_start d (3 * (h * w))) = Ret s
    \<and> rv_img s = pixels (\<lambda>k. (byte_at d k, byte_at d k, byte_at d k)) (h * w)"
proof (rule read_pixels [where Q = "\<lambda>k inp bw c. inp = drop k d"])
  fix i j and u :: read_vars
  let ?k = "i * w + j"
  assume Q: "rv_in u = drop ?k d"
  have "read_raw PGM_RAW (int w) j u = Ret (u\<lparr>rv_in := drop (Suc ?k) d, rv_r := Some (byte_at d ?k),
      rv_g := Some (byte_at d ?k), rv_b := Some (byte_at d ?k), rv_bw := rv_bw u, rv_count := rv_count u\<rparr>)"
    unfolding read_raw_def Q fgetc_drop by (simp add: mode_defs)
  then show "\<exists>r g b inp bw c. (byte_at d ?k, byte_at d ?k, byte_at d ?k) = (r, g, b)
      \<and> inp = drop (Suc ?k) d
      \<and> (if RawMode PGM_RAW then read_raw PGM_RAW (int w) j u else read_ascii PGM_RAW u)
        = Ret (u\<lparr>rv_in := inp, rv_r := Some r, rv_g := Some g, rv_b := Some b, rv_bw := bw, rv_count := c\<rparr>)"
    using raw_modes by (intro exI [of _ "byte_at d ?k"] exI [of _ "drop (Suc ?k) d"]
      exI [of _ "rv_bw u"] exI [of _ "rv_count u"]) simp
qed simp

section \<open>What the writer puts into the file\<close>

lemma write_ppm_raw:
  assumes "image_ok w h img"
  shows "\<exists>s. for_up h 0 (\<lambda>i. for_up w 0 (write_pixel PPM_RAW (int w) img (int i)))
      \<lparr>wv_out = hdr, wv_i = i0, wv_bw = 0\<rparr> = Ret s \<and> wv_out s = hdr @ map byte_char img"
proof -
  let ?P = "\<lambda>k s. wv_out s = hdr @ map byte_char (take (3 * k) img)"
  have "\<exists>s. for_up h 0 (\<lambda>i. for_up w 0 (write_pixel PPM_RAW (int w) img (int i)))
      \<lparr>wv_out = hdr, wv_i = i0, wv_bw = 0\<rparr> = Ret s \<and> ?P (h * w) s"
  proof (rule for_up_table [where P = ?P])
    fix i j and u :: write_vars
    let ?k = "i * w + j"
    assume ij: "i < h" "j < w" and P: "?P ?k u"
    have "3 * Suc ?k \<le> length img" using table_index [OF ij] assms by (simp add: image_ok_def)
    then have "take (3 * Suc ?k) img = take (3 * ?k) img @ [img ! (3 * ?k), img ! (3 * ?k + 1), img ! (3 * ?k + 2)]"
      unfolding three_more by (simp add: take_Suc_conv_app_nth)
    then show "\<exists>v. write_pixel PPM_RAW (int w) img (int i) j u = Ret v \<and> ?P (Suc ?k) v"
      unfolding write_pixel_at [OF assms ij] using P
      by (simp add: write_sample_def Let_def del: mult_Suc_right)
  qed simp
  then show ?thesis using assms by (simp add: image_ok_def)
qed

lemma write_pgm_raw:
  assumes "image_ok w h img"
  shows "\<exists>s. for_up h 0 (\<lambda>i. for_up w 0 (write_pixel PGM_RAW (int w) img (int i)))
      \<lparr>wv_out = hdr, wv_i = i0, wv_bw = 0\<rparr> = Ret s
      \<and> wv_out s = hdr @ map byte_char (map (\<lambda>k. word_of_int (gray img k)) [0..<h * w])"
proof (rule for_up_table [where P = "\<lambda>k s. wv_out s = hdr @ map byte_char (map (\<lambda>k. word_of_int (gray img k)) [0..<k])"])
  fix i j and u :: write_vars
  let ?k = "i * w + j"
  assume ij: "i < h" "j < w" and P: "wv_out u = hdr @ map byte_char (map (\<lambda>k. word_of_int (gray img k)) [0..<?k])"
  then show "\<exists>v. write_pixel PGM_RAW (int w) img (int i) j u = Ret v
      \<and> wv_out v = hdr @ map byte_char (map (\<lambda>k. word_of_int (gray img k)) [0..<Suc ?k])"
    unfolding write_pixel_at [OF assms ij]
    by (simp add: write_sample_def Let_def gray_def mode_defs)
qed simp

section \<open>Packed bitmaps\<close>

definition row_bytes :: "nat \<Rightarrow> nat" where
  "row_bytes w = (w + 7) div 8"

text \<open>The bit of the pixel in row \<open>i\<close> and column \<open>j\<close>.\<close>

definition bitmap_bit :: "string \<Rightarrow> nat \<Rightarrow> nat \<Rightarrow> nat \<Rightarrow> bool" where
  "bitmap_bit d w i j = bit (byte_at d (i * row_bytes w + j div 8)) (7 - j mod 8)"

definition bitmap_value :: "string \<Rightarrow> nat \<Rightarrow> nat \<Rightarrow> nat \<Rightarrow> int" where
  "bitmap_value d w i j = (if bitmap_bit d w i j then 0 else 255)"

text \<open>The reader before the pixel in row \<open>i\<close>, column \<open>j\<close>.\<close>

definition bitmap_reader :: "string \<Rightarrow> nat \<Rightarrow> string \<Rightarrow> int option \<Rightarrow> nat \<Rightarrow> nat \<Rightarrow> nat \<Rightarrow> bool" where
  "bitmap_reader d w inp bw c i j \<longleftrightarrow>
     c = j \<and> inp = drop (i * row_bytes w + (j + 7) div 8) d
     \<and> (j mod 8 \<noteq> 0 \<longrightarrow> bw = Some (byte_at d (i * row_bytes w + j div 8)))"

lemma eight_next:
  fixes j :: nat
  shows "j mod 8 = 0 \<Longrightarrow> (j + 7) div 8 = j div 8"
    and "0 < j mod 8 \<Longrightarrow> (j + 7) div 8 = Suc (j div 8)"
    and "(8 + j) div 8 = Suc (j div 8)"
    and "Suc j mod 8 \<noteq> 0 \<Longrightarrow> Suc j div 8 = j div 8"
    and "Suc j mod 8 = 0 \<Longrightarrow> Suc j div 8 = Suc (j div 8)"
    and "j mod 8 = 7 \<Longrightarrow> Suc j mod 8 = 0"
    and "j mod 8 \<noteq> 7 \<Longrightarrow> Suc j mod 8 = Suc (j mod 8)"
proof -
  define q r where "q = j div 8" and "r = j mod 8"
  then have j: "j = 8 * q + r" "r < 8" by simp_all
  show "j mod 8 = 0 \<Longrightarrow> (j + 7) div 8 = j div 8" using j by simp
  show "0 < j mod 8 \<Longrightarrow> (j + 7) div 8 = Suc (j div 8)" using j by simp
  show "(8 + j) div 8 = Suc (j div 8)" by simp
  show "Suc j mod 8 \<noteq> 0 \<Longrightarrow> Suc j div 8 = j div 8" using j by (simp add: div_Suc)
  show "Suc j mod 8 = 0 \<Longrightarrow> Suc j div 8 = Suc (j div 8)" by (simp add: div_Suc)
  show "j mod 8 = 7 \<Longrightarrow> Suc j mod 8 = 0" by (simp add: mod_Suc)
  show "j mod 8 \<noteq> 7 \<Longrightarrow> Suc j mod 8 = Suc (j mod 8)" by (simp add: mod_Suc)
qed

lemma read_bitmap_pixel:
  assumes "j < w" and "bitmap_reader d w (rv_in u) (rv_bw u) (rv_count u) i j"
  defines "v \<equiv> bitmap_value d w i j"
  shows "\<exists>inp bw c. read_raw PBM_RAW (int w) j u
      = Ret (u\<lparr>rv_in := inp, rv_r := Some v, rv_g := Some v, rv_b := Some v, rv_bw := bw, rv_count := c\<rparr>)
    \<and> (if Suc j = w then bitmap_reader d w inp bw c (Suc i) 0 else bitmap_reader d w inp bw c i (Suc j))"
proof -
  let ?n = "i * row_bytes w + j div 8"
  let ?inp = "drop (i * row_bytes w + (Suc j + 7) div 8) d"
  let ?c = "if Suc j = w then 0 else Suc j"
  have c: "rv_count u = j" and inp: "rv_in u = drop (i * row_bytes w + (j + 7) div 8) d"
    and bw: "j mod 8 \<noteq> 0 \<Longrightarrow> rv_bw u = Some (byte_at d ?n)"
    using assms(2) by (simp_all add: bitmap_reader_def)
  have fetch: "(if rv_count u mod 8 = 0 then (case fgetc (rv_in u) of (ch, rest) \<Rightarrow> (Some ch, rest))
      else (rv_bw u, rv_in u)) = (Some (byte_at d ?n), ?inp)"
    using c bw by (simp add: inp fgetc_drop eight_next del: add_Suc)
  have "read_raw PBM_RAW (int w) j u = Ret (u\<lparr>rv_in := ?inp, rv_r := Some v, rv_g := Some v,
      rv_b := Some v, rv_bw := Some (byte_at d ?n), rv_count := ?c\<rparr>)"
    unfolding read_raw_def fetch using c
    by (simp add: v_def bitmap_value_def bitmap_bit_def Let_def)
  moreover have "if Suc j = w then bitmap_reader d w ?inp (Some (byte_at d ?n)) ?c (Suc i) 0
      else bitmap_reader d w ?inp (Some (byte_at d ?n)) ?c i (Suc j)"
    using eight_next(4) [of j] by (auto simp: bitmap_reader_def eight_next(3) row_bytes_def add.commute)
  ultimately show ?thesis by blast
qed

lemma read_pbm_raw:
  assumes "0 < w"
  shows "\<exists>s. for_up h 0 (\<lambda>i. for_up w 0 (read_pixel PBM_RAW (int w))) (read_start d (3 * (h * w))) = Ret s
    \<and> rv_img s = pixels (\<lambda>k. let v = grid (bitmap_value d w) w k in (v, v, v)) (h * w)"
proof (rule read_pixels [where Q = "\<lambda>k inp bw c. grid (bitmap_reader d w inp bw c) w k"])
  show "grid (bitmap_reader d w d None 0) w 0" by (simp add: bitmap_reader_def)
next
  fix i j and u :: read_vars
  let ?k = "i * w + j"
  let ?v = "bitmap_value d w i j"
  assume j: "j < w" and "grid (bitmap_reader d w (rv_in u) (rv_bw u) (rv_count u)) w ?k"
  then have "bitmap_reader d w (rv_in u) (rv_bw u) (rv_count u) i j" by (simp add: grid_at)
  from read_bitmap_pixel [OF j this] obtain inp bw c where
    "read_raw PBM_RAW (int w) j u
      = Ret (u\<lparr>rv_in := inp, rv_r := Some ?v, rv_g := Some ?v, rv_b := Some ?v, rv_bw := bw, rv_count := c\<rparr>)"
    "if Suc j = w then bitmap_reader d w inp bw c (Suc i) 0 else bitmap_reader d w inp bw c i (Suc j)" by blast
  with j show "\<exists>r g b inp bw c. (let v = grid (bitmap_value d w) w ?k in (v, v, v)) = (r, g, b)
      \<and> grid (bitmap_reader d w inp bw c) w (Suc ?k)
      \<and> (if RawMode PBM_RAW then read_raw PBM_RAW (int w) j u else read_ascii PBM_RAW u)
        = Ret (u\<lparr>rv_in := inp, rv_r := Some r, rv_g := Some g, rv_b := Some b, rv_bw := bw, rv_count := c\<rparr>)"
    by (intro exI [of _ ?v] exI [of _ inp] exI [of _ bw] exI [of _ c])
      (simp add: grid_at grid_next raw_modes Let_def)
qed

text \<open>The writer before the pixel in row \<open>i\<close>, column \<open>j\<close>; \<open>dark\<close> are the pixels to be set.\<close>

definition bitmap_writer ::
  "(nat \<Rightarrow> nat \<Rightarrow> bool) \<Rightarrow> nat \<Rightarrow> string \<Rightarrow> int \<Rightarrow> write_vars \<Rightarrow> nat \<Rightarrow> nat \<Rightarrow> bool" where
  "bitmap_writer dark w hdr i0 s i j \<longleftrightarrow>
     (\<exists>d. wv_out s = hdr @ d \<and> length d = i * row_bytes w + j div 8
        \<and> (\<forall>i' j'. j' < w \<longrightarrow> i' < i \<or> i' = i \<and> j' < 8 * (j div 8) \<longrightarrow> bitmap_bit d w i' j' = dark i' j'))
     \<and> (\<forall>m. bit (wv_bw s) m \<longleftrightarrow> m < j mod 8 \<and> dark i (j - Suc m))
     \<and> (\<exists>x. wv_i s = Some x \<and> 0 \<le> x \<and> x \<le> i0 + int (i * w + j) \<and> x mod 8 = int (j mod 8))"

lemma bit_shift_in:
  "bit (push_bit 1 b + (if D then 1 else 0)) m \<longleftrightarrow> m < 8 \<and> (if m = 0 then D else bit b (m - 1))" for b :: u8
proof -
  have shifted: "bit (push_bit 1 b) m \<longleftrightarrow> m < 8 \<and> 0 < m \<and> bit b (m - 1)"
    by (subst bit_push_bit_iff) (auto dest: bit_imp_le_length)
  have "even (push_bit 1 b)" by simp
  then have "bit (1 + push_bit 1 b) m \<longleftrightarrow> bit (push_bit 1 b) m \<or> m = 0"
    by (rule even_bit_succ_iff)
  then have "bit (push_bit 1 b + (if D then 1 else 0)) m \<longleftrightarrow> bit (push_bit 1 b) m \<or> D \<and> m = 0"
    by (cases D) (simp_all only: add.commute add_0 if_True if_False simp_thms)
  then show ?thesis unfolding shifted by (cases "m = 0") auto
qed

lemma bitmap_bit_old:
  assumes "i' * row_bytes w + j' div 8 < length d"
  shows "bitmap_bit (d @ e) w i' j' = bitmap_bit d w i' j'"
  using assms by (simp add: bitmap_bit_def byte_at_def nth_append)

lemma bitmap_bit_new:
  assumes "length d = i * row_bytes w + j' div 8"
  shows "bitmap_bit (d @ [byte_char b]) w i j' = bit b (7 - j' mod 8)"
proof -
  have "(d @ [byte_char b]) ! (i * row_bytes w + j' div 8) = byte_char b"
    using assms by (metis nth_append_length)
  moreover have "7 - j' mod 8 < 8" by simp
  ultimately show ?thesis
    using assms by (simp add: bitmap_bit_def byte_at_def of_char_byte_char bit_uint_iff)
qed

text \<open>The byte a flush writes: pixels from the left, the row's padding clear.\<close>

lemma bitmap_byte:
  fixes b :: u8
  assumes bits: "\<And>m. bit b m \<longleftrightarrow> m < Suc (j mod 8) \<and> dark (j - m)"
    and "j' \<le> j" and "8 * (j div 8) \<le> j'"
  shows "bit (push_bit (7 - j mod 8) b) (7 - j' mod 8) = dark j'"
proof -
  define q r t where "q = j div 8" and "r = j mod 8" and "t = j' - 8 * q"
  then have j: "j = 8 * q + r" "r < 8" by simp_all
  have "8 * q \<le> j'" using assms(3) by (simp only: q_def)
  with assms(2) j(1) t_def have t: "j' = 8 * q + t" "t \<le> r" by linarith+
  then have "j' mod 8 = t" using j(2) by simp
  moreover have "bit (push_bit (7 - r) b) (7 - t) \<longleftrightarrow> bit b (r - t)"
    using t(2) j(2) by (subst bit_push_bit_iff) (auto simp: diff_diff_eq2 bit_imp_le_length)
  moreover have "bit b (r - t) \<longleftrightarrow> dark (j - (r - t))" unfolding bits by (simp add: r_def less_Suc_eq_le)
  moreover have "j - (r - t) = j'" using j t by simp
  ultimately show ?thesis by (simp add: r_def)
qed

lemma bitmap_flush:
  assumes len: "length d = i * row_bytes w + j div 8"
    and old: "\<And>i' j'. j' < w \<Longrightarrow> i' < i \<or> i' = i \<and> j' < 8 * (j div 8) \<Longrightarrow> bitmap_bit d w i' j' = dark i' j'"
    and bits: "\<And>m. bit b m \<longleftrightarrow> m < Suc (j mod 8) \<and> dark i (j - m)"
    and "j' < w" and "i' < i \<or> i' = i \<and> j' \<le> j"
  shows "bitmap_bit (d @ [byte_char (push_bit (7 - j mod 8) b)]) w i' j' = dark i' j'"
proof (cases "i' < i \<or> j' < 8 * (j div 8)")
  case True
  have "j' div 8 < row_bytes w" using assms(4) by (simp add: row_bytes_def)
  then have "i' < i \<Longrightarrow> i' * row_bytes w + j' div 8 < length d"
    unfolding len using table_index [of i' i "j' div 8" "row_bytes w"] by simp
  moreover have "i' = i \<Longrightarrow> j' < 8 * (j div 8) \<Longrightarrow> i' * row_bytes w + j' div 8 < length d"
    unfolding len by (simp add: less_mult_imp_div_less mult.commute)
  ultimately show ?thesis using True assms(5) bitmap_bit_old old [OF assms(4)] by metis
next
  case False
  then have "i' = i" "j' \<le> j" "8 * (j div 8) \<le> j'" using assms(5) by auto
  moreover from this have "j' div 8 = j div 8"
    by (metis div_le_mono div_mult_self1_is_m le_antisym zero_less_numeral)
  ultimately show ?thesis
    using bitmap_bit_new [of d i w j'] len bitmap_byte [where dark = "dark i", OF bits] by simp
qed

text \<open>After a flush the writer stands at the next column, or at the next row.\<close>

lemma bitmap_flushed:
  assumes "\<And>i' j'. j' < w \<Longrightarrow> i' < i \<or> i' = i \<and> j' \<le> j \<Longrightarrow> bitmap_bit d w i' j' = dark i' j'"
    and "length d = i * row_bytes w + Suc (j div 8)" and "wv_out t = hdr @ d" and "wv_bw t = 0"
    and "wv_i t = Some x" and "0 \<le> x" and "x \<le> i0 + int (i * w + Suc j)" and "x mod 8 = 0"
  shows "Suc j = w \<Longrightarrow> bitmap_writer dark w hdr i0 t (Suc i) 0"
    and "j mod 8 = 7 \<Longrightarrow> bitmap_writer dark w hdr i0 t i (Suc j)"
proof -
  assume w: "Suc j = w"
  then have "row_bytes w = Suc (j div 8)" by (auto simp: row_bytes_def eight_next(3))
  then show "bitmap_writer dark w hdr i0 t (Suc i) 0"
    unfolding bitmap_writer_def
    by (intro conjI exI [of _ d]) (use assms w in \<open>auto simp: less_Suc_eq\<close>)
next
  assume j: "j mod 8 = 7"
  then have m: "Suc j mod 8 = 0" by (rule eight_next(6))
  moreover from this have "Suc j div 8 = Suc (j div 8)" by (rule eight_next(5))
  moreover from m have "8 * (Suc j div 8) = Suc j" by presburger
  ultimately show "bitmap_writer dark w hdr i0 t i (Suc j)"
    unfolding bitmap_writer_def
    by (intro conjI exI [of _ d]) (use assms in \<open>auto simp: less_Suc_eq_le\<close>)
qed

lemma next_mod:
  fixes a :: int and j :: nat
  assumes "a mod 8 = int (j mod 8)"
  shows "j mod 8 = 7 \<Longrightarrow> (a + 1) mod 8 = 0"
    and "j mod 8 \<noteq> 7 \<Longrightarrow> j mod 8 < 7 \<and> (a + 1) mod 8 = int (j mod 8) + 1"
proof -
  define r where "r = j mod 8"
  have "r < 8" by (simp add: r_def)
  have a: "a mod 8 = int r" using assms by (simp add: r_def)
  show "j mod 8 = 7 \<Longrightarrow> (a + 1) mod 8 = 0"
    unfolding r_def [symmetric] using a by presburger
  show "j mod 8 \<noteq> 7 \<Longrightarrow> j mod 8 < 7 \<and> (a + 1) mod 8 = int (j mod 8) + 1"
    unfolding r_def [symmetric] using a \<open>r < 8\<close> by presburger
qed

lemma write_bitmap_pixel:
  assumes "j < w" and "bitmap_writer dark w hdr i0 s i j" and "0 \<le> i0" and "i0 + int (i * w + j) < INT_MAX"
  shows "\<exists>t. write_packed (int w) j (dark i j) s = Ret t
    \<and> (if Suc j = w then bitmap_writer dark w hdr i0 t (Suc i) 0 else bitmap_writer dark w hdr i0 t i (Suc j))"
proof -
  let ?b = "push_bit 1 (wv_bw s) + (if dark i j then 1 else 0)"
  let ?byte = "byte_char (push_bit (7 - j mod 8) ?b)"
  from assms(2) obtain d where d: "wv_out s = hdr @ d" "length d = i * row_bytes w + j div 8"
    and old: "\<And>i' j'. j' < w \<Longrightarrow> i' < i \<or> i' = i \<and> j' < 8 * (j div 8) \<Longrightarrow> bitmap_bit d w i' j' = dark i' j'"
    and bw: "\<And>m. bit (wv_bw s) m \<longleftrightarrow> m < j mod 8 \<and> dark i (j - Suc m)"
    and "\<exists>x. wv_i s = Some x \<and> 0 \<le> x \<and> x \<le> i0 + int (i * w + j) \<and> x mod 8 = int (j mod 8)"
    unfolding bitmap_writer_def by blast
  then obtain x where x: "wv_i s = Some x" and i: "0 \<le> x" "x \<le> i0 + int (i * w + j)" "x mod 8 = int (j mod 8)" by blast
  have bits: "bit ?b m \<longleftrightarrow> m < Suc (j mod 8) \<and> dark i (j - m)" for m
    unfolding bit_shift_in using mod_less_divisor [of 8 j] by (cases m) (auto simp: bw simp del: mod_less_divisor)
  note flushed = bitmap_flushed [where dark = dark and hdr = hdr and w = w and i = i and j = j
      and d = "d @ [?byte]", OF bitmap_flush [where dark = dark, OF d(2) old bits]]
  have next_i: "int_value (x + 1) = (Ret (x + 1) :: (string, int) exec)"
    by (rule int_value_Ret) (use i(1,2) assms(4) in linarith)+
  consider (full) "j mod 8 = 7" | (pad) "j mod 8 \<noteq> 7" "Suc j = w" | (keep) "j mod 8 \<noteq> 7" "Suc j \<noteq> w" by blast
  then show ?thesis
  proof cases
    case full
    then have rem: "(x + 1) mod 8 = 0" using next_mod [OF i(3)] by simp
    then have "write_packed (int w) j (dark i j) s
        = Ret (s\<lparr>wv_out := wv_out s @ [?byte], wv_i := Some (x + 1), wv_bw := 0\<rparr>)" (is "_ = Ret ?t")
      using i(1) full by (simp add: write_packed_def x next_i Let_def)
    then show ?thesis using flushed [of ?t "x + 1" i0] full i d rem by auto
  next
    case pad
    then have "j mod 8 < 7" "(x + 1) mod 8 = int (j mod 8) + 1" using next_mod [OF i(3)] by simp_all
    then have "write_packed (int w) j (dark i j) s
        = Ret (s\<lparr>wv_out := wv_out s @ [?byte], wv_i := Some 0, wv_bw := 0\<rparr>)" (is "_ = Ret ?t")
      using i(1) pad by (simp add: write_packed_def x next_i Let_def nat_diff_distrib)
    then show ?thesis using flushed [of ?t 0 i0] pad assms(3) d by auto
  next
    case keep
    then have m: "(x + 1) mod 8 = int (j mod 8) + 1" using next_mod [OF i(3)] by simp
    moreover have "int (j mod 8) + 1 \<noteq> 0" by linarith
    ultimately have "write_packed (int w) j (dark i j) s
        = Ret (s\<lparr>wv_i := Some (x + 1), wv_bw := ?b\<rparr>)" (is "_ = Ret ?t")
      using i(1) keep by (simp add: write_packed_def x next_i Let_def)
    moreover have "bitmap_writer dark w hdr i0 ?t i (Suc j)"
      unfolding bitmap_writer_def
      by (intro conjI exI [of _ d]) (use d old i m bits eight_next keep in auto)
    ultimately show ?thesis using keep by simp
  qed
qed

lemma write_pbm_raw:
  assumes "image_ok w h img" and "0 \<le> i0" and "i0 mod 8 = 0" and "i0 + int (h * w) \<le> INT_MAX"
  shows "\<exists>s d. for_up h 0 (\<lambda>i. for_up w 0 (write_pixel PBM_RAW (int w) img (int i)))
      \<lparr>wv_out = hdr, wv_i = Some i0, wv_bw = 0\<rparr> = Ret s \<and> wv_out s = hdr @ d \<and> length d = h * row_bytes w
      \<and> (\<forall>i < h. \<forall>j < w. bitmap_bit d w i j = (gray img (i * w + j) < 128))"
proof -
  let ?dark = "\<lambda>i j. gray img (i * w + j) < 128"
  let ?P = "\<lambda>k s. grid (bitmap_writer ?dark w hdr i0 s) w k"
  have "\<exists>s. for_up h 0 (\<lambda>i. for_up w 0 (write_pixel PBM_RAW (int w) img (int i)))
      \<lparr>wv_out = hdr, wv_i = Some i0, wv_bw = 0\<rparr> = Ret s \<and> ?P (h * w) s"
  proof (rule for_up_table [where P = ?P])
    show "?P 0 \<lparr>wv_out = hdr, wv_i = Some i0, wv_bw = 0\<rparr>"
      using assms(2,3) by (simp add: bitmap_writer_def)
  next
    fix i j and u :: write_vars
    let ?k = "i * w + j"
    assume ij: "i < h" "j < w" and "?P ?k u"
    then have "bitmap_writer ?dark w hdr i0 u i j" by (simp add: grid_at)
    moreover have "i0 + int ?k < INT_MAX" using table_index [OF ij] assms(4) by linarith
    ultimately obtain t where "write_packed (int w) j (?dark i j) u = Ret t"
      "if Suc j = w then bitmap_writer ?dark w hdr i0 t (Suc i) 0 else bitmap_writer ?dark w hdr i0 t i (Suc j)"
      using write_bitmap_pixel [OF ij(2)] assms(2) by blast
    moreover from this have "?P (Suc ?k) t" by (simp add: grid_next [OF ij(2)])
    ultimately show "\<exists>t. write_pixel PBM_RAW (int w) img (int i) j u = Ret t \<and> ?P (Suc ?k) t"
      unfolding write_pixel_at [OF assms(1) ij]
      by (intro exI [of _ t]) (simp add: write_sample_def mode_defs gray_def Let_def)
  qed
  then obtain s where "for_up h 0 (\<lambda>i. for_up w 0 (write_pixel PBM_RAW (int w) img (int i)))
      \<lparr>wv_out = hdr, wv_i = Some i0, wv_bw = 0\<rparr> = Ret s" and w: "bitmap_writer ?dark w hdr i0 s h 0"
    using grid_end [of w _ h] assms(1) unfolding image_ok_def by metis
  with w show ?thesis unfolding bitmap_writer_def by auto
qed

section \<open>What is read after the maximal colour\<close>

definition bytes_read :: "string \<Rightarrow> nat \<Rightarrow> u8 list" where
  "bytes_read d n = map (\<lambda>m. word_of_int (byte_at d m)) [0..<n]"

lemma pixels_bytes:
  "pixels (\<lambda>k. (byte_at d (3 * k), byte_at d (3 * k + 1), byte_at d (3 * k + 2))) n = bytes_read d (3 * n)"
  by (induction n) (simp_all add: pixels_Suc bytes_read_def pixels_def numeral_3_eq_3)

lemma bytes_read_written:
  "bytes_read (map byte_char zs) n = take n zs @ replicate (n - length zs) 255"
proof (rule nth_equalityI)
  show "length (bytes_read (map byte_char zs) n) = length (take n zs @ replicate (n - length zs) 255)"
    by (simp add: bytes_read_def)
next
  fix m
  assume "m < length (bytes_read (map byte_char zs) n)"
  then show "bytes_read (map byte_char zs) n ! m = (take n zs @ replicate (n - length zs) 255) ! m"
    using byte_at_written [of m zs "[]"] by (auto simp: bytes_read_def nth_append byte_at_def)
qed

lemma newline_byte: "newline = byte_char 10"
proof -
  have "of_char newline = (of_char (byte_char 10) :: nat)"
    by (simp add: newline_def byte_char_def)
  then show ?thesis by simp
qed

lemma skipped_bytes:
  assumes "2 \<le> length xs"
  shows "bytes_read (dropWhile is_space (map byte_char xs @ [newline])) (length xs) = xs
    \<longleftrightarrow> \<not> is_space (byte_char (hd xs))"
proof -
  let ?p = "\<lambda>b. is_space (byte_char b)"
  let ?d = "dropWhile is_space (map byte_char xs @ [newline])"
  let ?zs = "dropWhile ?p xs"
  have hd: "xs = hd xs # tl xs" using assms by (cases xs) auto
  have d: "?d = (if ?zs = [] then [] else map byte_char (?zs @ [10]))"
    by (auto simp: dropWhile_append dropWhile_map comp_def newline_byte [symmetric])
  have "bytes_read ?d (length xs) = xs" if "\<not> ?p (hd xs)"
  proof -
    have "?zs = xs" using that hd by (metis dropWhile.simps(2))
    then show ?thesis unfolding d using assms by (auto simp: bytes_read_written simp del: map_append)
  qed
  moreover have "bytes_read ?d (length xs) \<noteq> xs" if p: "?p (hd xs)"
  proof
    assume eq: "bytes_read ?d (length xs) = xs"
    define ys where "ys = takeWhile ?p xs"
    have split: "xs = ys @ ?zs" by (simp add: ys_def)
    have ys: "ys \<noteq> []" "\<forall>b \<in> set ys. ?p b"
      using p hd set_takeWhileD [of _ ?p xs] by (auto simp: ys_def takeWhile_eq_Nil_iff)
    have not255: "\<not> ?p 255" by (simp add: is_space_def byte_char_def)
    show False
    proof (cases "?zs = []")
      case True
      then have "xs = replicate (length xs) 255"
        using eq unfolding d by (simp add: bytes_read_written [of "[]", simplified])
      then show False using p not255 assms by (metis hd_replicate length_0_conv not_numeral_le_zero)
    next
      case False
      obtain k where k: "length ys = Suc k" using ys(1) by (cases "length ys") auto
      have len: "length xs = Suc k + length ?zs" using split k by (metis length_append)
      have "?d = map byte_char (?zs @ [10])" using d False by argo
      then have "bytes_read ?d (length xs) = take (length xs) (?zs @ [10])
          @ replicate (length xs - length (?zs @ [10])) 255"
        by (simp only: bytes_read_written)
      then have xs: "xs = ?zs @ 10 # replicate k 255"
        unfolding eq using len by simp
      have "length (filter ?p xs) = Suc k + length (filter ?p ?zs)"
        using split ys(2) k by (metis filter_append filter_True length_append)
      moreover have "length (filter ?p xs) = Suc (length (filter ?p ?zs))"
        by (subst xs) (use not255 in \<open>simp add: newline_byte [symmetric]\<close>)
      ultimately have "k = 0" by simp
      with xs False have "hd xs = hd ?zs" by (metis hd_append2)
      with False p show False using hd_dropWhile [of ?p xs] by simp
    qed
  qed
  ultimately show ?thesis by blast
qed

section \<open>Properties\<close>

text \<open>
  C14: An image written as a raw PPM is read back as some image of the same size, and it is
  the image that was written if and only if the first byte of its first pixel is not a
  white-space code: \<open>fscanf\<close> with a space in its format takes such bytes for the
  separator.
\<close>

theorem ppm_raw_roundtrip_iff:
  assumes "image_ok w h img" and "ctime_line date" and "calloc (int (3 * (h * w)))"
  shows "\<exists>out warning seen.
    WritePPM date i0 f True PPM_RAW (int w) (int h) img = Ret (GFXIO_OK, Some out, warning)
    \<and> ReadPPM calloc f' (Some out) w0 h0 = Some (Ret (PPM_RAW, int w, int h, seen))
    \<and> (seen = img \<longleftrightarrow> \<not> is_space (byte_char (hd img)))"
proof -
  obtain s where s: "for_up h 0 (\<lambda>i. for_up w 0 (write_pixel PPM_RAW (int w) img (int i)))
      \<lparr>wv_out = write_header date PPM_RAW (int w) (int h), wv_i = i0, wv_bw = 0\<rparr> = Ret s"
    "wv_out s = write_header date PPM_RAW (int w) (int h) @ map byte_char img"
    using write_ppm_raw [OF assms(1)] by blast
  let ?d = "dropWhile is_space (map byte_char img @ [newline])"
  have d: "pixel_input PPM_RAW (map byte_char img @ [newline]) = ?d"
    by (simp add: pixel_input_def bitmap_def mode_defs)
  obtain t where t: "for_up h 0 (\<lambda>i. for_up w 0 (read_pixel PPM_RAW (int w)))
      (read_start (pixel_input PPM_RAW (map byte_char img @ [newline])) (3 * (h * w))) = Ret t"
    "rv_img t = bytes_read ?d (3 * (h * w))"
    using read_ppm_raw [where d = ?d] unfolding d pixels_bytes by blast
  have len: "length img = 3 * (h * w)" and "0 < h * w" using assms(1) by (simp_all add: image_ok_def)
  then have "2 \<le> length img" by linarith
  with len have "rv_img t = img \<longleftrightarrow> \<not> is_space (byte_char (hd img))"
    using skipped_bytes [of img] t(2) by simp
  with roundtrip_of_loops [where calloc = calloc, OF raw_modes(4) assms s t(1)] show ?thesis by blast
qed

theorem ppm_raw_roundtrip_iff_witness:
  "\<exists>out warning seen.
    WritePPM some_date (Some 7) ''a'' True PPM_RAW 1 1 [32, 128, 255] = Ret (GFXIO_OK, Some out, warning)
    \<and> ReadPPM (\<lambda>n. n < 1000) ''a'' (Some out) None None = Some (Ret (PPM_RAW, 1, 1, seen))
    \<and> seen \<noteq> [32, 128, 255]"
  using ppm_raw_roundtrip_iff [of 1 1 "[32, 128, 255]" some_date "\<lambda>n. n < 1000" "Some 7" "''a''" "''a''" None None]
  by (simp add: image_ok_def some_date_line is_space_def byte_char_def)

text \<open>
  An image written as a raw PGM is read back as its gray image, provided the gray value
  of its first pixel is not a white-space code.
\<close>

theorem pgm_raw_roundtrip:
  assumes "image_ok w h img" and "ctime_line date" and "calloc (int (3 * (h * w)))"
    and "\<not> is_space (byte_char (word_of_int (gray img 0)))"
  shows "\<exists>out warning. WritePPM date i0 f True PGM_RAW (int w) (int h) img = Ret (GFXIO_OK, Some out, warning)
    \<and> ReadPPM calloc f' (Some out) w0 h0
      = Some (Ret (PGM_RAW, int w, int h, tone_image (\<lambda>k. word_of_int (gray img k)) (h * w)))"
proof -
  let ?bs = "map (\<lambda>k. word_of_int (gray img k)) [0..<h * w] :: u8 list"
  let ?d = "map byte_char ?bs @ [newline]"
  obtain s where s: "for_up h 0 (\<lambda>i. for_up w 0 (write_pixel PGM_RAW (int w) img (int i)))
      \<lparr>wv_out = write_header date PGM_RAW (int w) (int h), wv_i = i0, wv_bw = 0\<rparr> = Ret s"
    "wv_out s = write_header date PGM_RAW (int w) (int h) @ map byte_char ?bs"
    using write_pgm_raw [OF assms(1)] by blast
  have pos: "0 < h * w" using assms(1) by (simp add: image_ok_def)
  then have "?d = byte_char (word_of_int (gray img 0)) # tl ?d"
    by (simp add: upt_conv_Cons)
  then have d: "pixel_input PGM_RAW ?d = ?d"
    using assms(4) unfolding pixel_input_def bitmap_def
    by (simp add: mode_defs) (metis dropWhile.simps(2))
  obtain t where t: "for_up h 0 (\<lambda>i. for_up w 0 (read_pixel PGM_RAW (int w)))
      (read_start (pixel_input PGM_RAW ?d) (3 * (h * w))) = Ret t"
    "rv_img t = pixels (\<lambda>k. (byte_at ?d k, byte_at ?d k, byte_at ?d k)) (h * w)"
    using read_pgm_raw [where d = ?d] unfolding d by blast
  have "tone_image (\<lambda>k. word_of_int (byte_at ?d k)) (h * w) = tone_image (\<lambda>k. word_of_int (gray img k)) (h * w)"
    unfolding tone_image_def
    by (rule arg_cong [where f = concat], rule map_cong)
      (auto simp: byte_at_written simp del: map_map)
  then have "rv_img t = tone_image (\<lambda>k. word_of_int (gray img k)) (h * w)"
    using t(2) by (simp add: pixels_tone)
  with roundtrip_of_loops [where calloc = calloc, OF raw_modes(5) assms(1-3) s t(1)] show ?thesis by simp
qed

theorem pgm_raw_roundtrip_witness:
  "\<exists>out warning. WritePPM some_date (Some 7) ''a'' True PGM_RAW 1 1 [0, 128, 255] = Ret (GFXIO_OK, Some out, warning)
    \<and> ReadPPM (\<lambda>n. n < 1000) ''a'' (Some out) None None = Some (Ret (PGM_RAW, 1, 1, [127, 127, 127]))"
  using pgm_raw_roundtrip [of 1 1 "[0, 128, 255]" some_date "\<lambda>n. n < 1000" "Some 7" "''a''" "''a''" None None]
  by (simp add: image_ok_def some_date_line is_space_def byte_char_def gray_def tone_image_def numeral_3_eq_3)

text \<open>
  An image written as a raw bitmap is read back in black and white, dark pixels black,
  for every width, padded rows included, if the uninitialised counter of the writer happens
  to be a multiple of 8.
\<close>

theorem pbm_raw_roundtrip:
  assumes "image_ok w h img" and "ctime_line date" and "calloc (int (3 * (h * w)))"
    and "0 \<le> i0" and "i0 mod 8 = 0" and "i0 + int (h * w) \<le> INT_MAX"
  shows "\<exists>out warning. WritePPM date (Some i0) f True PBM_RAW (int w) (int h) img = Ret (GFXIO_OK, Some out, warning)
    \<and> ReadPPM calloc f' (Some out) w0 h0
      = Some (Ret (PBM_RAW, int w, int h, tone_image (\<lambda>k. if gray img k < 128 then 0 else 255) (h * w)))"
proof -
  obtain s d where s: "for_up h 0 (\<lambda>i. for_up w 0 (write_pixel PBM_RAW (int w) img (int i)))
      \<lparr>wv_out = write_header date PBM_RAW (int w) (int h), wv_i = Some i0, wv_bw = 0\<rparr> = Ret s"
    "wv_out s = write_header date PBM_RAW (int w) (int h) @ d"
    and len: "length d = h * row_bytes w"
    and bits: "\<forall>i < h. \<forall>j < w. bitmap_bit d w i j = (gray img (i * w + j) < 128)"
    using write_pbm_raw [OF assms(1,4,5,6)] by blast
  have w: "0 < w" using assms(1) by (simp add: image_ok_def)
  let ?v = "grid (bitmap_value (d @ [newline]) w) w"
  have "pixel_input PBM_RAW (d @ [newline]) = d @ [newline]" by (simp add: pixel_input_def bitmap_def)
  with read_pbm_raw [OF w, of h "d @ [newline]"] obtain t where
    t: "for_up h 0 (\<lambda>i. for_up w 0 (read_pixel PBM_RAW (int w)))
      (read_start (pixel_input PBM_RAW (d @ [newline])) (3 * (h * w))) = Ret t"
    "rv_img t = pixels (\<lambda>k. (?v k, ?v k, ?v k)) (h * w)" by (auto simp: Let_def)
  have "?v k = (if gray img k < 128 then 0 else 255)" if "k < h * w" for k
  proof -
    have i: "k div w < h" and j: "k mod w < w" using that w by (simp_all add: less_mult_imp_div_less)
    have "(k mod w) div 8 < row_bytes w" using j by (simp add: row_bytes_def)
    then have "k div w * row_bytes w + (k mod w) div 8 < length d"
      unfolding len by (rule table_index [OF i])
    then have "bitmap_bit (d @ [newline]) w (k div w) (k mod w) = (gray img k < 128)"
      using bits i j by (simp add: bitmap_bit_old)
    then show ?thesis by (simp add: grid_def bitmap_value_def)
  qed
  then have "rv_img t = tone_image (\<lambda>k. if gray img k < 128 then 0 else 255) (h * w)"
    unfolding t(2) pixels_tone tone_image_def
    by (intro arg_cong [where f = concat] map_cong) auto
  with roundtrip_of_loops [where calloc = calloc, OF raw_modes(6) assms(1-3) s t(1)] show ?thesis by simp
qed

theorem pbm_raw_roundtrip_witness:
  "\<exists>out warning. WritePPM some_date (Some 16) ''a'' True PBM_RAW 2 1 [0, 0, 0, 255, 255, 255] = Ret (GFXIO_OK, Some out, warning)
    \<and> ReadPPM (\<lambda>n. n < 1000) ''a'' (Some out) None None
      = Some (Ret (PBM_RAW, 2, 1, [0, 0, 0, 255, 255, 255]))"
  using pbm_raw_roundtrip [of 2 1 "[0, 0, 0, 255, 255, 255]" some_date "\<lambda>n. n < 1000" 16 "''a''" "''a''" None None]
  by (simp add: image_ok_def some_date_line tone_image_def gray_def upt_rec numeral_3_eq_3)

end
