(* ===== verification/Appm_Errors.thy ===== *)
theory Appm_Errors
  imports Appm_Files
begin

text \<open>
  The edges of \<open>ReadPPM\<close> and \<open>WritePPM\<close>: when skipping comments never ends, what long file
  names do to the message buffers, which modes the writer accepts, and what a negative
  height means.
\<close>

section \<open>Comments to the end of the file\<close>

lemma fgets_shorter: "fgets 256 inp = Some (l, rest) \<Longrightarrow> length rest < length inp"
  using take_line_shorter [of 255 inp l rest] by (auto simp: fgets_def split: if_splits)

text \<open>The pieces \<open>fgets\<close> reads from a file, with its buffer of 256.\<close>

function fgets_lines :: "string \<Rightarrow> string list" where
  "fgets_lines inp = (case fgets 256 inp of None \<Rightarrow> [] | Some (l, rest) \<Rightarrow> l # fgets_lines rest)"
  by pat_completeness auto

termination
  by (relation "measure length") (auto simp: fgets_shorter)

declare fgets_lines.simps [simp del]

lemma skip_comments_returns:
  assumes "skip_comments buf inp = Some r"
  shows "inp = [] \<longrightarrow> buffer_at buf 0 \<noteq> schar CHR ''#''"
proof (rule skip_comments.raw_induct [OF _ assms])
  fix skip and buf inp :: string and r
  assume "\<And>buf inp r. skip buf inp = Some r \<Longrightarrow> inp = [] \<longrightarrow> buffer_at buf 0 \<noteq> schar CHR ''#''"
    and "(if buffer_at buf 0 = schar CHR ''#''
      then case fgets 256 inp of None \<Rightarrow> skip buf inp | Some (l, rest) \<Rightarrow> skip l rest
      else Some (buf, inp)) = Some r"
  then show "inp = [] \<longrightarrow> buffer_at buf 0 \<noteq> schar CHR ''#''"
    by (cases r) (auto simp: fgets_def)
qed

lemma skip_comments_forever: "buffer_at buf 0 = schar CHR ''#'' \<Longrightarrow> skip_comments buf [] = None"
  using skip_comments_returns by (metis option.exhaust)

lemma skip_comments_None:
  "skip_comments buf inp = None \<longleftrightarrow> (\<forall>l \<in> set (buf # fgets_lines inp). buffer_at l 0 = schar CHR ''#'')"
proof (induction inp arbitrary: buf rule: fgets_lines.induct)
  case (1 inp)
  show ?case
  proof (cases "buffer_at buf 0 = schar CHR ''#''")
    case False
    then show ?thesis by (subst skip_comments.simps) simp
  next
    case True
    show ?thesis
    proof (cases "fgets 256 inp")
      case None
      then have "inp = []" by (simp add: fgets_def split: if_splits)
      with True skip_comments_forever show ?thesis by (subst fgets_lines.simps) (simp add: fgets_def)
    next
      case (Some p)
      obtain l rest where p: "p = (l, rest)" by (cases p)
      have "skip_comments buf inp = skip_comments l rest"
        using True Some p by (subst skip_comments.simps) simp
      with 1 [OF Some p [symmetric], of l] Some p True show ?thesis by (subst fgets_lines.simps) simp
    qed
  qed
qed

text \<open>
  The second read of \<open>ReadPPM\<close>: with nothing left, the buffer still holds the first line, which
  is not a comment.
\<close>

lemma second_piece:
  assumes "buffer_at line 0 = schar CHR ''P'' \<or> buffer_at line 0 = schar CHR ''p''"
  shows "(case (case fgets 256 inp1 of None \<Rightarrow> (line, inp1) | Some x \<Rightarrow> x) of
      (line2, inp2) \<Rightarrow> skip_comments line2 inp2 = None)
    \<longleftrightarrow> fgets_lines inp1 \<noteq> [] \<and> list_all (\<lambda>l. buffer_at l 0 = schar CHR ''#'') (fgets_lines inp1)"
proof (cases "fgets 256 inp1")
  case None
  moreover have "buffer_at line 0 \<noteq> schar CHR ''#''" using assms by (auto simp: schar_eq_hash)
  ultimately show ?thesis by (subst fgets_lines.simps, simp add: skip_comments_None)
next
  case (Some p)
  obtain l rest where "p = (l, rest)" by (cases p)
  with Some show ?thesis by (subst (1 2) fgets_lines.simps) (simp add: skip_comments_None list_all_iff)
qed

section \<open>Turning an image upside down\<close>

definition flip_rows :: "nat \<Rightarrow> nat \<Rightarrow> u8 list \<Rightarrow> u8 list" where
  "flip_rows w h img =
     map (\<lambda>n. img ! (3 * w * (h - 1 - n div (3 * w)) + n mod (3 * w))) [0..<3 * (h * w)]"

lemma flip_rows_nth:
  assumes "k < h" and "c < 3 * w"
  shows "flip_rows w h img ! (3 * w * k + c) = img ! (3 * w * (h - 1 - k) + c)"
    and "3 * w * k + c < 3 * (h * w)"
proof -
  show less: "3 * w * k + c < 3 * (h * w)"
    using table_index [OF assms] by (simp add: algebra_simps)
  have "(3 * w * k + c) div (3 * w) = k" "(3 * w * k + c) mod (3 * w) = c" using assms(2) by simp_all
  then show "flip_rows w h img ! (3 * w * k + c) = img ! (3 * w * (h - 1 - k) + c)"
    using less by (simp add: flip_rows_def)
qed

lemma write_flipped_pixel:
  assumes "image_ok w h img" and "k < h" and "x < w"
  shows "write_pixel mode (int w) img (int (h - 1 - k)) x s = write_pixel mode (int w) (flip_rows w h img) (int k) x s"
proof -
  have "image_ok w h (flip_rows w h img)" using assms(1) by (simp add: image_ok_def flip_rows_def)
  moreover have "flip_rows w h img ! (3 * (k * w + x) + c) = img ! (3 * ((h - 1 - k) * w + x) + c)"
    if "c < 3" for c
    using flip_rows_nth(1) [of k h "3 * x + c" w img] that assms by (simp add: algebra_simps)
  from this [of 0] this [of 1] this [of 2]
  have "flip_rows w h img ! (3 * (k * w + x)) = img ! (3 * ((h - 1 - k) * w + x))"
    "flip_rows w h img ! (3 * (k * w + x) + 1) = img ! (3 * ((h - 1 - k) * w + x) + 1)"
    "flip_rows w h img ! (3 * (k * w + x) + 2) = img ! (3 * ((h - 1 - k) * w + x) + 2)"
    by (simp_all only: zero_less_numeral one_less_numeral_iff add_0_right, simp_all)
  moreover have "h - 1 - k < h" using assms(2) by simp
  ultimately show ?thesis using assms by (simp only: write_pixel_at)
qed

section \<open>Properties\<close>

text \<open>
  C40: \<open>ReadPPM\<close> fails to return exactly when the file can be opened and is not empty, its first
  line has the letter P, large or small, and the digit of a mode, there is something after it,
  and all of that, read in pieces by \<open>fgets\<close> (a line, or 255 characters of a longer one),
  consists of pieces that begin with a comment sign. At the end of the file \<open>fgets\<close> leaves the
  buffer as it is and the loop that skips comments goes on for ever.
\<close>

theorem read_ppm_hangs_iff:
  "ReadPPM calloc f file w0 h0 = None
    \<longleftrightarrow> (\<exists>inp line inp1. file = Some inp \<and> fgets 256 inp = Some (line, inp1)
        \<and> IsValidMode (buffer_at line 1 - 48)
        \<and> (buffer_at line 0 = schar CHR ''P'' \<or> buffer_at line 0 = schar CHR ''p'')
        \<and> fgets_lines inp1 \<noteq> []
        \<and> list_all (\<lambda>l. buffer_at l 0 = schar CHR ''#'') (fgets_lines inp1))"
proof -
  have "ReadPPM calloc f file w0 h0 = None
      \<longleftrightarrow> (\<exists>inp line inp1. file = Some inp \<and> fgets 256 inp = Some (line, inp1)
        \<and> IsValidMode (buffer_at line 1 - 48)
        \<and> (buffer_at line 0 = schar CHR ''P'' \<or> buffer_at line 0 = schar CHR ''p'')
        \<and> (case (case fgets 256 inp1 of None \<Rightarrow> (line, inp1) | Some x \<Rightarrow> x) of
            (line2, inp2) \<Rightarrow> skip_comments line2 inp2 = None))"
    by (auto simp: ReadPPM_def Let_def split: option.splits prod.splits)
  also have "\<dots> \<longleftrightarrow> (\<exists>inp line inp1. file = Some inp \<and> fgets 256 inp = Some (line, inp1)
        \<and> IsValidMode (buffer_at line 1 - 48)
        \<and> (buffer_at line 0 = schar CHR ''P'' \<or> buffer_at line 0 = schar CHR ''p'')
        \<and> fgets_lines inp1 \<noteq> []
        \<and> list_all (\<lambda>l. buffer_at l 0 = schar CHR ''#'') (fgets_lines inp1))"
    by (intro ex_cong1 conj_cong refl) (rule second_piece)
  finally show ?thesis .
qed

theorem read_ppm_hangs_iff_witness:
  "ReadPPM (\<lambda>n. True) ''out.ppm'' (Some (''p6'' @ newline # ''# nothing else'')) None None = None"
proof -
  have "fgets 256 (''p6'' @ newline # ''# nothing else'') = Some (''p6'' @ [newline], ''# nothing else'')"
    by (rule fgets_line) (simp_all add: newline_def)
  moreover have "fgets 256 ''# nothing else'' = Some (''# nothing else'', [])"
    by (simp add: fgets_def newline_def numeral_eq_Suc)
  moreover from this have "fgets_lines ''# nothing else'' = [''# nothing else'']"
    by (subst fgets_lines.simps, simp, subst fgets_lines.simps, simp add: fgets_def)
  ultimately show ?thesis
    by (subst read_ppm_hangs_iff)
      (rule exI, rule exI [of _ "''p6'' @ [newline]"], rule exI [of _ "''# nothing else''"],
        simp add: buffer_at_def schar_def IsValidMode_def mode_defs)
qed

text \<open>
  Writing with a negative height writes the image upside down: the same file, code and
  messages as writing the flipped image with the positive height.
\<close>

theorem write_negative_height_flips:
  assumes "image_ok w h img"
  shows "WritePPM date i0 f opens mode (int w) (- int h) img =
    WritePPM date i0 f opens mode (int w) (int h) (flip_rows w h img)"
proof -
  have h: "0 < h" "int h \<le> INT_MAX"
  proof -
    show "0 < h" using assms by (simp add: image_ok_def)
    have "h \<le> h * w" using assms by (simp add: image_ok_def)
    then show "int h \<le> INT_MAX" using assms unfolding image_ok_def by linarith
  qed
  have "for_up w 0 (write_pixel mode (int w) img (int h - 1 - int k))
      = for_up w 0 (write_pixel mode (int w) (flip_rows w h img) (int k))" if "k < h" for k
  proof (rule ext, rule for_up_cong, rule ext)
    fix s j u
    assume "j < 0 + w"
    moreover have "int h - 1 - int k = int (h - 1 - k)" using that by simp
    ultimately show "write_pixel mode (int w) img (int h - 1 - int k) j u
        = write_pixel mode (int w) (flip_rows w h img) (int k) j u"
      using write_flipped_pixel [OF assms that] by simp
  qed
  then have "for_up h 0 (\<lambda>k. for_up w 0 (write_pixel mode (int w) img (int h - 1 - int k))) s
      = for_up h 0 (\<lambda>k. for_up w 0 (write_pixel mode (int w) (flip_rows w h img) (int k))) s" for s
    by (intro for_up_cong) simp
  then show ?thesis using h by (simp add: WritePPM_def Let_def int_value_Ret)
qed

theorem write_negative_height_flips_witness:
  "WritePPM some_date None ''a'' True PPM_RAW 1 (- 2) [1, 2, 3, 4, 5, 6] =
   WritePPM some_date None ''a'' True PPM_RAW 1 2 [4, 5, 6, 1, 2, 3]"
proof -
  have "flip_rows 1 2 [1, 2, 3, 4, 5, 6] = [4, 5, 6, 1, 2, 3]" by code_simp
  then show ?thesis
    using write_negative_height_flips [of 1 2 "[1, 2, 3, 4, 5, 6]" some_date None "''a''" True PPM_RAW]
    by (simp add: image_ok_def)
qed

text \<open>
  \<open>WritePPM\<close> rejects negative modes only: for 0 and 7, 8, 9 it reports success and
  leaves a file without pixels, which \<open>ReadPPM\<close> refuses with the format message, or, when
  the name of the file leaves no room for the message in its buffer, overruns the buffer.
\<close>

theorem write_accepts_unreadable_modes:
  assumes "image_ok w h img" and "mode \<in> {0, 7, 8, 9}"
  shows "\<exists>out. WritePPM date i0 f True mode (int w) (int h) img = Ret (GFXIO_OK, Some out, [])
    \<and> ReadPPM calloc f' (Some out) w0 h0 =
      Some (if length f' < 33 then
          FatalError (''LIBGFX: Invalid PPM format specification in '' @ [CHR 0x27] @ f' @ [CHR 0x27] @ ''!'')
        else UB)"
proof -
  have m: "0 \<le> mode" "nat mode < 10" "mode < 10" "\<not> IsValidMode mode"
    "mode \<notin> {PPM_RAW, PPM_ASCII, PGM_RAW, PGM_ASCII, PBM_ASCII, PBM_RAW}"
    using assms(2) by (auto simp: IsValidMode_def mode_defs)
  let ?hdr = "write_header date mode (int w) (int h)"
  have "\<exists>s. for_up h 0 (\<lambda>i. for_up w 0 (write_pixel mode (int w) img (int i)))
      \<lparr>wv_out = ?hdr, wv_i = i0, wv_bw = 0\<rparr> = Ret s \<and> wv_out s = ?hdr"
    by (rule for_up_table [where P = "\<lambda>k s. wv_out s = ?hdr"])
      (use m(5) in \<open>simp_all add: write_pixel_at [OF assms(1)] write_sample_def Let_def\<close>)
  then have "WritePPM date i0 f True mode (int w) (int h) img = Ret (GFXIO_OK, Some (?hdr @ [newline]), [])"
    using m(1,5) by (auto simp: WritePPM_def Let_def)
  moreover have "ReadPPM calloc f' (Some (?hdr @ [newline])) w0 h0 =
      Some (if length f' < 33 then
          FatalError (''LIBGFX: Invalid PPM format specification in '' @ [CHR 0x27] @ f' @ [CHR 0x27] @ ''!'')
        else UB)"
  proof -
    obtain rest where rest: "?hdr @ [newline] = [CHR ''P'', digit_char (nat mode)] @ newline # rest"
      using m by (simp add: write_header_def show_int_digit)
    have "digit_char (nat mode) \<noteq> newline" using digit_neq [OF is_digit_char [OF m(2)]] by blast
    then have line: "fgets 256 (?hdr @ [newline]) = Some ([CHR ''P'', digit_char (nat mode), newline], rest)"
      unfolding rest using fgets_line [of "[CHR ''P'', digit_char (nat mode)]" 256 rest]
      by (simp add: newline_def)
    have "buffer_at [CHR ''P'', digit_char (nat mode), newline] 1 - 48 = mode"
      using m schar_digit by (simp add: buffer_at_def)
    with line m(4) show ?thesis by (simp add: ReadPPM_def sprintf_buffer_def Let_def)
  qed
  ultimately show ?thesis by blast
qed

theorem write_accepts_unreadable_modes_witness:
  "\<exists>out. WritePPM some_date (Some 3) ''a'' True 7 1 1 [1, 2, 3] = Ret (GFXIO_OK, Some out, [])
    \<and> ReadPPM (\<lambda>n. True) ''a'' (Some out) None None =
      Some (FatalError (''LIBGFX: Invalid PPM format specification in '' @ [CHR 0x27] @ ''a'' @ [CHR 0x27] @ ''!''))"
  using write_accepts_unreadable_modes [of 1 1 "[1, 2, 3]" 7 some_date "Some 3" "''a''" "\<lambda>n. True" "''a''" None None]
  by (simp add: image_ok_def)

end
