(* ===== verification/Histogram.thy ===== *)
theory Histogram
  imports Appm_Files
begin

text \<open>
  \<open>day1/ex_histogram/modify_image.cpp\<close>: the gray histogram of an image, by one thread and by
  two, and the program's two main routines. Loop bounds are compared as \<open>u_int\<close>, offsets
  wrap at 32 bits, a subscript out of range is undefined. The float computation of a bar's
  height is a parameter.
\<close>

section \<open>Counting gray values\<close>

text \<open>An \<open>int\<close> converted to \<open>u_int\<close>.\<close>

definition u_int :: "int \<Rightarrow> nat" where
  "u_int x = nat (x mod 2 ^ 32)"

definition count_pixel :: "u8 list \<Rightarrow> int \<Rightarrow> nat \<Rightarrow> nat \<Rightarrow> u32 list \<Rightarrow> (string, u32 list) exec" where
  "count_pixel img width x y histogram =
     (let offset = (int x + int y * int (u_int width)) * 3 mod 2 ^ 32
      in exec_bind (array_at img offset) (\<lambda>valueR.
         exec_bind (array_at img ((offset + 1) mod 2 ^ 32)) (\<lambda>valueG.
         exec_bind (array_at img ((offset + 2) mod 2 ^ 32)) (\<lambda>valueB.
           let v = (uint valueR + uint valueG + uint valueB) div 3
           in exec_bind (array_at histogram v) (\<lambda>c. array_set histogram v (c + 1))))))"

definition make_histogram :: "u8 list \<Rightarrow> int \<Rightarrow> int \<Rightarrow> u32 list \<Rightarrow> (string, u32 list) exec" where
  "make_histogram img width height =
     for_up (u_int width) 0 (\<lambda>x. for_up (u_int height) 0 (\<lambda>y. count_pixel img width x y))"

definition make_histogram_th ::
  "u8 list \<Rightarrow> int \<Rightarrow> int \<Rightarrow> int \<Rightarrow> u32 list \<Rightarrow> (string, u32 list) exec" where
  "make_histogram_th img width from_y to_y =
     for_up (u_int width) 0 (\<lambda>x.
       for_up (u_int to_y - u_int from_y) (u_int from_y) (\<lambda>y. count_pixel img width x y))"

section \<open>Drawing\<close>

text \<open>
  \<open>bar height count max\<close> stands for the float expression; the bar of column \<open>idx\<close> goes from
  row \<open>height - bar\<close> (which wraps) to row \<open>height\<close> included.
\<close>

definition draw_point :: "int \<Rightarrow> nat \<Rightarrow> nat \<Rightarrow> u8 list \<Rightarrow> (string, u8 list) exec" where
  "draw_point width idx start img =
     (let k = (int start * int (u_int width) + int idx) mod 2 ^ 32 * 3 mod 2 ^ 32
      in exec_bind (array_set img k 255) (\<lambda>img1.
         exec_bind (array_set img1 ((k + 1) mod 2 ^ 32) 255) (\<lambda>img2.
           array_set img2 ((k + 2) mod 2 ^ 32) 255)))"

definition draw_bar ::
  "(int \<Rightarrow> u32 \<Rightarrow> u32 \<Rightarrow> u32) \<Rightarrow> int \<Rightarrow> int \<Rightarrow> u32 list \<Rightarrow> nat \<Rightarrow> u8 list \<Rightarrow> (string, u8 list) exec" where
  "draw_bar bar width height histogram idx img =
     exec_bind (array_at histogram (int idx)) (\<lambda>c.
       let start = nat ((height - uint (bar height c (Max (set histogram)))) mod 2 ^ 32)
       in for_up (Suc (u_int height) - start) start (draw_point width idx) img)"

definition draw_histogram ::
  "(int \<Rightarrow> u32 \<Rightarrow> u32 \<Rightarrow> u32) \<Rightarrow> u8 list \<Rightarrow> int \<Rightarrow> int \<Rightarrow> u32 list \<Rightarrow> (string, u8 list) exec" where
  "draw_histogram bar img width height histogram =
     for_up 257 0 (draw_bar bar width height histogram) img"

section \<open>The programs\<close>

record thread_data =
  td_from :: int
  td_to :: int
  td_histogram :: "u32 list"

text \<open>The blocks of rows for \<open>n\<close> more threads, the next starting at \<open>start\<close>.\<close>

primrec thread_blocks :: "int \<Rightarrow> nat \<Rightarrow> int \<Rightarrow> thread_data list" where
  "thread_blocks block_size 0 start = []"
| "thread_blocks block_size (Suc n) start =
     \<lparr>td_from = start, td_to = start + block_size, td_histogram = replicate 256 0\<rparr>
       # thread_blocks block_size n (start + block_size)"

text \<open>The thread function; each thread has its own histogram and the image is only read.\<close>

definition make_histogram_threaded :: "u8 list \<Rightarrow> int \<Rightarrow> thread_data \<Rightarrow> (string, thread_data) exec" where
  "make_histogram_threaded img width p =
     exec_bind (make_histogram_th img width (td_from p) (td_to p) (td_histogram p))
       (\<lambda>hist. Ret (p\<lparr>td_histogram := hist\<rparr>))"

fun run_threads :: "u8 list \<Rightarrow> int \<Rightarrow> thread_data list \<Rightarrow> (string, thread_data list) exec" where
  "run_threads img width [] = Ret []"
| "run_threads img width (p # ps) =
     exec_bind (make_histogram_threaded img width p) (\<lambda>q.
       exec_bind (run_threads img width ps) (\<lambda>qs. Ret (q # qs)))"

text \<open>Adding a thread's histogram to the total, with the loop's bound of 257.\<close>

definition add_histogram :: "u32 list \<Rightarrow> u32 list \<Rightarrow> (string, u32 list) exec" where
  "add_histogram hist =
     for_up 257 0 (\<lambda>idx total.
       exec_bind (array_at total (int idx)) (\<lambda>a.
         exec_bind (array_at hist (int idx)) (\<lambda>b. array_set total (int idx) (a + b))))"

definition main_seq ::
  "(int \<Rightarrow> bool) \<Rightarrow> string option \<Rightarrow> (int \<Rightarrow> u32 \<Rightarrow> u32 \<Rightarrow> u32) \<Rightarrow> string \<Rightarrow> int option \<Rightarrow> bool \<Rightarrow>
   (string, int \<times> string option \<times> string) exec option" where
  "main_seq calloc in_file bar date i0 opens =
     map_option (\<lambda>r. exec_bind r (\<lambda>(mode, width, height, img).
         exec_bind (make_histogram img width height (replicate 256 0)) (\<lambda>histogram_data.
         exec_bind (draw_histogram bar img width height histogram_data) (\<lambda>img1.
           WritePPM date i0 ''out_seq.ppm'' opens mode width height img1))))
       (ReadPPM calloc ''out.ppm'' in_file None None)"

text \<open>After the loop its index is \<open>hardware_concurrency\<close>, one past the last block.\<close>

definition main_threaded ::
  "(int \<Rightarrow> bool) \<Rightarrow> string option \<Rightarrow> (int \<Rightarrow> u32 \<Rightarrow> u32 \<Rightarrow> u32) \<Rightarrow> string \<Rightarrow> int option \<Rightarrow> bool \<Rightarrow>
   (string, int \<times> string option \<times> string) exec option" where
  "main_threaded calloc in_file bar date i0 opens =
     map_option (\<lambda>r. exec_bind r (\<lambda>(mode, width, height, img).
         let blocks = thread_blocks (c_quot height 2) 2 0
         in exec_bind (array_at blocks 2) (\<lambda>p.
            exec_bind (array_set blocks 2 (p\<lparr>td_to := height\<rparr>)) (\<lambda>parameters.
            exec_bind (run_threads img width parameters) (\<lambda>done.
            exec_bind (for_up 2 0 (\<lambda>i total.
                exec_bind (array_at done (int i)) (\<lambda>q. add_histogram (td_histogram q) total)) (replicate 256 0))
              (\<lambda>final_histograms.
            exec_bind (draw_histogram bar img width height final_histograms) (\<lambda>img1.
              WritePPM date i0 ''out_th.ppm'' opens mode width height img1)))))))
       (ReadPPM calloc ''out.ppm'' in_file None None)"

definition modify_image_main ::
  "(int \<Rightarrow> bool) \<Rightarrow> string option \<Rightarrow> (int \<Rightarrow> u32 \<Rightarrow> u32 \<Rightarrow> u32) \<Rightarrow> string \<Rightarrow> int option \<Rightarrow> bool \<Rightarrow>
   (string, int \<times> string option \<times> string) exec option" where
  "modify_image_main calloc in_file bar date i0 opens =
     (case main_seq calloc in_file bar date i0 opens of
        Some (Ret _) \<Rightarrow> main_threaded calloc in_file bar date i0 opens
      | ended \<Rightarrow> ended)"

section \<open>Histograms as counts\<close>

definition bump :: "u32 list \<Rightarrow> nat \<Rightarrow> u32 list" where
  "bump H v = H[v := H ! v + 1]"

lemma length_bump [simp]: "length (bump H x) = length H"
  by (simp add: bump_def)

lemma bump_nth: "v < length H \<Longrightarrow> bump H x ! v = (if x = v then H ! v + 1 else H ! v)"
  by (simp add: bump_def)

lemma length_bumps [simp]: "length (foldl bump H vs) = length H"
  by (induction vs arbitrary: H) simp_all

lemma bumps_nth: "v < length H \<Longrightarrow> foldl bump H vs ! v = H ! v + of_nat (count_list vs v)"
  by (induction vs arbitrary: H) (simp_all add: bump_nth)

lemma u_int_nat: "x < 2 ^ 32 \<Longrightarrow> u_int (int x) = x"
  by (simp add: u_int_def)

definition tone :: "u8 list \<Rightarrow> nat \<Rightarrow> nat" where
  "tone img k = nat (gray img k)"

lemma offsets: "n + 2 < 2 ^ 32 \<Longrightarrow> int n mod 2 ^ 32 = int n
    \<and> (int n + 1) mod 2 ^ 32 = int (n + 1) \<and> (int n + 2) mod 2 ^ 32 = int (n + 2)"
  by simp

lemma count_pixel_eval:
  assumes "image_ok w h img" and "x < w" and "y < h" and "length H = 256"
  shows "count_pixel img (int w) x y H = Ret (bump H (tone img (y * w + x)))"
proof -
  let ?k = "3 * (y * w + x)"
  have k: "?k + 2 < length img" "?k + 2 < 2 ^ 32" "w < 2 ^ 32"
  proof -
    show k: "?k + 2 < length img" using table_index [OF assms(3,2)] assms(1) by (simp add: image_ok_def)
    have "length img \<le> 2147483647" using assms(1) by (simp add: image_ok_def)
    with k show "?k + 2 < 2 ^ 32" by simp
    have "w \<le> h * w" using assms(3) by simp
    then have "w \<le> 2147483647" using assms(1) unfolding image_ok_def by linarith
    then show "w < 2 ^ 32" by simp
  qed
  have "(int x + int y * int (u_int (int w))) * 3 mod 2 ^ 32 = int ?k mod 2 ^ 32"
    using k(3) by (simp add: u_int_nat algebra_simps)
  also have "\<dots> = int ?k" using offsets [OF k(2)] by blast
  finally have off: "(int x + int y * int (u_int (int w))) * 3 mod 2 ^ 32 = int ?k" .
  have offs: "(int ?k + 1) mod 2 ^ 32 = int (?k + 1)" "(int ?k + 2) mod 2 ^ 32 = int (?k + 2)"
    using offsets [OF k(2)] by blast+
  have at: "array_at img (int ?k) = (Ret (img ! ?k) :: (string, u8) exec)"
    "array_at img (int (?k + 1)) = (Ret (img ! (?k + 1)) :: (string, u8) exec)"
    "array_at img (int (?k + 2)) = (Ret (img ! (?k + 2)) :: (string, u8) exec)"
    by (rule array_at_nat, use k(1) in linarith)+
  have g: "(uint (img ! ?k) + uint (img ! (?k + 1)) + uint (img ! (?k + 2))) div 3 = int (tone img (y * w + x))"
    using gray_bounds [of img "y * w + x"] by (simp add: tone_def gray_def)
  have "tone img (y * w + x) < 256" using gray_bounds [of img "y * w + x"] by (simp add: tone_def nat_less_iff)
  then show ?thesis
    unfolding count_pixel_def Let_def off offs at exec_bind.simps g
    using assms(4) by (simp add: bump_def)
qed

text \<open>The pixels in the order the loops visit them: columns, in each the rows from \<open>a\<close> to \<open>b\<close>.\<close>

definition visited :: "nat \<Rightarrow> nat \<Rightarrow> nat \<Rightarrow> nat \<Rightarrow> nat list" where
  "visited w a r n = map (\<lambda>m. (a + m mod r) * w + m div r) [0..<n]"

lemma visited_bij:
  fixes a w r :: nat
  assumes "0 < w" and "0 < r"
  shows "bij_betw (\<lambda>m. (a + m mod r) * w + m div r) {..<w * r} {a * w..<(a + r) * w}"
proof (rule bij_betw_byWitness [where f' = "\<lambda>k. (k mod w) * r + (k div w - a)"])
  show "\<forall>m \<in> {..<w * r}. ((a + m mod r) * w + m div r) mod w * r + (((a + m mod r) * w + m div r) div w - a) = m"
  proof
    fix m assume "m \<in> {..<w * r}"
    then have "m div r < w" by (simp add: less_mult_imp_div_less)
    then have "((a + m mod r) * w + m div r) mod w = m div r" "((a + m mod r) * w + m div r) div w = a + m mod r"
      by simp_all
    then show "((a + m mod r) * w + m div r) mod w * r + (((a + m mod r) * w + m div r) div w - a) = m"
      by simp
  qed
  show "\<forall>k \<in> {a * w..<(a + r) * w}. (a + ((k mod w) * r + (k div w - a)) mod r) * w
      + ((k mod w) * r + (k div w - a)) div r = k"
  proof
    fix k assume k: "k \<in> {a * w..<(a + r) * w}"
    then have "a \<le> k div w" "k div w < a + r"
      using assms by (simp_all add: less_eq_div_iff_mult_less_eq less_mult_imp_div_less)
    then obtain d where d: "k div w = a + d" "d < r" by (metis le_Suc_ex nat_add_left_cancel_less)
    then have "((k mod w) * r + (k div w - a)) mod r = d" "((k mod w) * r + (k div w - a)) div r = k mod w"
      by simp_all
    moreover have "(a + d) * w + k mod w = k" using d(1) by (metis div_mult_mod_eq)
    ultimately show "(a + ((k mod w) * r + (k div w - a)) mod r) * w + ((k mod w) * r + (k div w - a)) div r = k"
      by (simp only:)
  qed
  show "(\<lambda>m. (a + m mod r) * w + m div r) ` {..<w * r} \<subseteq> {a * w..<(a + r) * w}"
  proof
    fix k assume "k \<in> (\<lambda>m. (a + m mod r) * w + m div r) ` {..<w * r}"
    then obtain m where m: "m < w * r" "k = (a + m mod r) * w + m div r" by auto
    then have "m div r < w" "a + m mod r < a + r" using assms by (simp_all add: less_mult_imp_div_less)
    then have "k < (a + r) * w" unfolding m(2) by (intro table_index)
    then show "k \<in> {a * w..<(a + r) * w}" using m(2) by (simp add: distrib_right)
  qed
  show "(\<lambda>k. (k mod w) * r + (k div w - a)) ` {a * w..<(a + r) * w} \<subseteq> {..<w * r}"
  proof
    fix m assume "m \<in> (\<lambda>k. (k mod w) * r + (k div w - a)) ` {a * w..<(a + r) * w}"
    then obtain k where k: "k < (a + r) * w" "m = (k mod w) * r + (k div w - a)" by auto
    then have "k div w < a + r" by (simp add: less_mult_imp_div_less)
    then have "k div w - a < r" using assms(2) by linarith
    then show "m \<in> {..<w * r}" using k(2) assms table_index [of "k mod w" w "k div w - a" r] by simp
  qed
qed

text \<open>How many of the pixels \<open>A\<close> have the tone \<open>v\<close>.\<close>

definition tone_count :: "u8 list \<Rightarrow> nat set \<Rightarrow> nat \<Rightarrow> nat" where
  "tone_count img A v = card {k \<in> A. tone img k = v}"

lemma count_visited:
  assumes "0 < w"
  shows "count_list (map (tone img) (visited w a r (w * r))) v = tone_count img {a * w..<(a + r) * w} v"
proof (cases "r = 0")
  case True
  then show ?thesis by (simp add: visited_def tone_count_def)
next
  case False
  let ?f = "\<lambda>m. (a + m mod r) * w + m div r"
  have bij: "bij_betw ?f {..<w * r} {a * w..<(a + r) * w}"
    using visited_bij assms False by simp
  have "count_list (map (tone img) (visited w a r (w * r))) v
      = card {m. m < w * r \<and> v = tone img (?f m)}"
    unfolding count_list_eq_length_filter length_filter_conv_card
    by (rule arg_cong [where f = card]) (auto simp: visited_def)
  also have "\<dots> = card (?f ` {m. m < w * r \<and> v = tone img (?f m)})"
    by (rule card_image [symmetric], rule inj_on_subset [OF bij_betw_imp_inj_on [OF bij]]) auto
  also have "?f ` {m. m < w * r \<and> v = tone img (?f m)} = {k \<in> {a * w..<(a + r) * w}. tone img k = v}"
    using bij_betw_imp_surj_on [OF bij, symmetric] by auto
  finally show ?thesis by (simp add: tone_count_def)
qed

lemma make_histogram_th_counts:
  assumes img: "image_ok w h img" and "a \<le> b" and "b \<le> h" and "length H = 256"
  shows "\<exists>K. make_histogram_th img (int w) (int a) (int b) H = Ret K \<and> length K = 256
    \<and> (\<forall>v < 256. K ! v = H ! v + of_nat (tone_count img {a * w..<b * w} v))"
proof -
  let ?r = "b - a"
  have w: "0 < w" and small: "w < 2 ^ 32" "h < 2 ^ 32"
  proof -
    show "0 < w" using img by (simp add: image_ok_def)
    have "w \<le> h * w" "h \<le> h * w" using img by (simp_all add: image_ok_def)
    then have "w \<le> 2147483647" "h \<le> 2147483647" using img unfolding image_ok_def by linarith+
    then show "w < 2 ^ 32" "h < 2 ^ 32" by simp_all
  qed
  have u: "u_int (int w) = w" "u_int (int a) = a" "u_int (int b) = b"
    using small assms(2,3) by (simp_all add: u_int_nat)
  have shift: "for_up ?r a f = for_up ?r 0 (\<lambda>j. f (j + a))" for f :: "nat \<Rightarrow> u32 list \<Rightarrow> (string, u32 list) exec"
    by (rule ext) (use for_up_shift [of ?r 0 a] in simp)
  let ?P = "\<lambda>n K. length K = 256 \<and> K = foldl bump H (map (tone img) (visited w a ?r n))"
  have "\<exists>K. for_up w 0 (\<lambda>x. for_up ?r 0 (\<lambda>j. count_pixel img (int w) x (j + a))) H = Ret K \<and> ?P (w * ?r) K"
  proof (rule for_up_table [where P = ?P])
    show "?P 0 H" using assms(4) by (simp add: visited_def)
  next
    fix x j K
    assume xj: "x < w" "j < ?r" and P: "?P (x * ?r + j) K"
    then have "j + a < h" using assms(2,3) by linarith
    then have "count_pixel img (int w) x (j + a) K = Ret (bump K (tone img ((j + a) * w + x)))"
      using P assms(4) by (intro count_pixel_eval [OF img xj(1)]) simp_all
    moreover have "visited w a ?r (Suc (x * ?r + j)) = visited w a ?r (x * ?r + j) @ [(j + a) * w + x]"
      using xj by (simp add: visited_def add.commute)
    ultimately show "\<exists>v. count_pixel img (int w) x (j + a) K = Ret v \<and> ?P (Suc (x * ?r + j)) v"
      using P assms(4) by simp
  qed
  then have "make_histogram_th img (int w) (int a) (int b) H
      = Ret (foldl bump H (map (tone img) (visited w a ?r (w * ?r))))"
    unfolding make_histogram_th_def u shift by blast
  moreover have "a + ?r = b" using assms(2) by simp
  ultimately show ?thesis
    using count_visited [OF w, of img a ?r] assms(4) by (simp add: bumps_nth)
qed

lemma make_histogram_th_all: "make_histogram_th img width 0 height = make_histogram img width height"
  by (simp add: make_histogram_def make_histogram_th_def u_int_def fun_eq_iff)

lemma run_two_blocks:
  assumes img: "image_ok w h img"
  shows "\<exists>p q. run_threads img (int w) (thread_blocks (c_quot (int h) 2) 2 0) = Ret [p, q]
    \<and> length (td_histogram p) = 256 \<and> length (td_histogram q) = 256
    \<and> (\<forall>v < 256. td_histogram p ! v = of_nat (tone_count img {0..<(h div 2) * w} v))
    \<and> (\<forall>v < 256. td_histogram q ! v = of_nat (tone_count img {(h div 2) * w..<(2 * (h div 2)) * w} v))"
proof -
  let ?b = "h div 2" and ?Z = "replicate 256 0 :: u32 list"
  obtain K where K: "make_histogram_th img (int w) (int 0) (int ?b) ?Z = Ret K" "length K = 256"
    "\<forall>v < 256. K ! v = of_nat (tone_count img {0..<?b * w} v)"
    using make_histogram_th_counts [OF img, of 0 ?b ?Z] by auto
  have le: "?b \<le> 2 * ?b" "2 * ?b \<le> h" by linarith+
  obtain L where L: "make_histogram_th img (int w) (int ?b) (int (2 * ?b)) ?Z = Ret L" "length L = 256"
    "\<forall>v < 256. L ! v = of_nat (tone_count img {?b * w..<(2 * ?b) * w} v)"
    using make_histogram_th_counts [OF img le, of ?Z] by auto
  have q: "c_quot (int h) 2 = int ?b" by (simp add: zdiv_int)
  have "run_threads img (int w) (thread_blocks (c_quot (int h) 2) 2 0)
      = Ret [\<lparr>td_from = 0, td_to = int ?b, td_histogram = K\<rparr>,
             \<lparr>td_from = int ?b, td_to = int (2 * ?b), td_histogram = L\<rparr>]"
    unfolding q using K(1) L(1) by (simp add: make_histogram_threaded_def numeral_2_eq_2)
  with K L show ?thesis by fastforce
qed

section \<open>Drawing cannot return\<close>

lemma array_set_no_stop: "array_set xs k x \<noteq> Stop e" "array_at xs k \<noteq> Stop e"
  by (simp_all add: array_set_def array_at_def)

lemma bind_no_stop: "r \<noteq> Stop e \<Longrightarrow> (\<And>x. f x \<noteq> Stop e) \<Longrightarrow> exec_bind r f \<noteq> Stop e"
  by (cases r) simp_all

lemma for_up_no_stop: "(\<And>j s. body j s \<noteq> Stop e) \<Longrightarrow> for_up n i body s \<noteq> Stop e"
  by (induction n arbitrary: i s) (simp_all add: bind_no_stop)

lemma draw_no_stop: "draw_point width idx start img \<noteq> Stop e" "draw_bar bar width height H idx img \<noteq> Stop e"
proof -
  show p: "draw_point width idx start img \<noteq> Stop e" for width idx start img
    unfolding draw_point_def Let_def by (intro bind_no_stop array_set_no_stop)
  show "draw_bar bar width height H idx img \<noteq> Stop e"
    unfolding draw_bar_def Let_def by (intro bind_no_stop array_set_no_stop for_up_no_stop p)
qed

section \<open>Properties\<close>

text \<open>
  C34: \<open>make_histogram\<close> counts the pixels of each gray value: of an image of \<open>w\<close> times \<open>h\<close>
  pixels it makes the histogram whose entry \<open>v\<close> is the number of pixels with mean \<open>v\<close>, and
  no offset or subscript leaves its array.
\<close>

theorem make_histogram_counts:
  assumes "image_ok w h img"
  shows "\<exists>H. make_histogram img (int w) (int h) (replicate 256 0) = Ret H \<and> length H = 256
    \<and> (\<forall>v < 256. H ! v = of_nat (card {k. k < h * w \<and> gray img k = int v}))"
proof -
  have "{k. k < h * w \<and> gray img k = int v} = {k \<in> {0 * w..<h * w}. tone img k = v}" for v
    using gray_bounds [of img] by (auto simp: tone_def)
  then have "card {k. k < h * w \<and> gray img k = int v} = tone_count img {0 * w..<h * w} v" for v
    unfolding tone_count_def by (rule arg_cong)
  with make_histogram_th_counts [OF assms, of 0 h "replicate 256 0"] make_histogram_th_all
  show ?thesis by simp
qed

theorem make_histogram_counts_witness:
  "\<exists>H. make_histogram [7, 7, 7, 8, 8, 8] 2 1 (replicate 256 0) = Ret H \<and> length H = 256
     \<and> H ! 7 = 1 \<and> H ! 8 = 1 \<and> H ! 9 = 0"
proof -
  let ?img = "[7, 7, 7, 8, 8, 8]"
  have "image_ok 2 1 ?img" by (simp add: image_ok_def)
  from make_histogram_counts [OF this] obtain H
    where H: "make_histogram ?img 2 1 (replicate 256 0) = Ret H" "length H = 256"
      "\<forall>v < 256. H ! v = of_nat (card {k. k < 1 * 2 \<and> gray ?img k = int v})" by auto
  have pix: "k < 1 * 2 \<longleftrightarrow> k = 0 \<or> k = Suc 0" for k :: nat by auto
  have g: "gray ?img 0 = 7" "gray ?img (Suc 0) = 8" by (simp_all add: gray_def)
  have "{k. k < 1 * 2 \<and> gray ?img k = int v} = {k. k = 0 \<and> 7 = int v \<or> k = Suc 0 \<and> 8 = int v}" for v
    unfolding pix using g by (intro Collect_cong) metis
  with H(3) have "H ! 7 = 1" "H ! 8 = 1" "H ! 9 = 0" by simp_all
  with H(1,2) show ?thesis by blast
qed

text \<open>
  The two threads' histograms add up to the whole image's exactly when its height is
  even: together they count the pixels of the first \<open>2 * (h div 2)\<close> rows, so that for an
  odd height the last row is in neither.
\<close>

theorem two_blocks_count_even_rows:
  assumes "image_ok w h img"
  shows "\<exists>p q. run_threads img (int w) (thread_blocks (c_quot (int h) 2) 2 0) = Ret [p, q]
    \<and> (\<forall>v < 256. td_histogram p ! v + td_histogram q ! v
         = of_nat (card {k. k < 2 * (h div 2) * w \<and> gray img k = int v}))"
proof -
  have "card {k. k < 2 * (h div 2) * w \<and> gray img k = int v} =
      tone_count img {0..<(h div 2) * w} v + tone_count img {(h div 2) * w..<(2 * (h div 2)) * w} v" for v
  proof -
    let ?A = "{k \<in> {0..<(h div 2) * w}. tone img k = v}"
    let ?B = "{k \<in> {(h div 2) * w..<(2 * (h div 2)) * w}. tone img k = v}"
    have "{k. k < 2 * (h div 2) * w \<and> gray img k = int v} = ?A \<union> ?B"
      using gray_bounds [of img] by (auto simp: tone_def)
    moreover have "card (?A \<union> ?B) = card ?A + card ?B" by (rule card_Un_disjoint) auto
    ultimately show ?thesis by (simp add: tone_count_def)
  qed
  with run_two_blocks [OF assms] show ?thesis by fastforce
qed

theorem two_blocks_count_even_rows_witness:
  "\<exists>p q. run_threads [7, 7, 7, 8, 8, 8, 9, 9, 9] 1 (thread_blocks (c_quot 3 2) 2 0) = Ret [p, q]
    \<and> td_histogram p ! 9 + td_histogram q ! 9 = 0"
proof -
  let ?img = "[7, 7, 7, 8, 8, 8, 9, 9, 9] :: u8 list"
  have "image_ok 1 3 ?img" by (simp add: image_ok_def)
  from two_blocks_count_even_rows [OF this] obtain p q where
    run: "run_threads ?img (int 1) (thread_blocks (c_quot (int 3) 2) 2 0) = Ret [p, q]"
    and sum: "td_histogram p ! 9 + td_histogram q ! 9
      = of_nat (card {k. k < 2 * (3 div 2) * 1 \<and> gray ?img k = int 9})" by fastforce
  have "gray ?img k \<noteq> 9" if "k < 2" for k
    using that by (auto simp: gray_def less_2_cases_iff)
  then have "{k. k < 2 * (3 div 2) * 1 \<and> gray ?img k = int 9} = {}" by auto
  with sum have "td_histogram p ! 9 + td_histogram q ! 9 = of_nat (card ({} :: nat set))" by presburger
  with run show ?thesis by simp
qed

text \<open>
  Drawing a histogram of 256 entries is undefined, whatever the image, its size, the
  counts and the heights of the bars: the loop goes on to index 256. So the sequential
  program is undefined whenever it has read an image, and the threaded one too: it assigns
  to the block after the last.
\<close>

theorem histogram_programs_undefined:
  assumes "ReadPPM calloc ''out.ppm'' in_file None None = Some (Ret (mode, int w, int h, img))"
    and "image_ok w h img"
  shows "main_seq calloc in_file bar date i0 opens = Some UB
    \<and> main_threaded calloc in_file bar date i0 opens = Some UB
    \<and> (length H = 256 \<longrightarrow> draw_histogram bar img width height H = UB)"
proof -
  have draw: "draw_histogram bar img width height H = UB" if "length H = 256" for img width height H
  proof -
    have "draw_bar bar width height H (0 + 256) s = UB" for s
      using that by (simp add: draw_bar_def array_at_def)
    then have "for_up (Suc 256) 0 (draw_bar bar width height H) img = UB"
      by (intro for_up_UB draw_no_stop(2))
    then show ?thesis by (simp add: draw_histogram_def)
  qed
  moreover obtain K where "make_histogram img (int w) (int h) (replicate 256 0) = Ret K" "length K = 256"
    using make_histogram_counts [OF assms(2)] by blast
  moreover have "array_at (thread_blocks b 2 0) 2 = (UB :: (string, thread_data) exec)" for b
    by (simp add: array_at_def numeral_2_eq_2)
  ultimately show ?thesis using assms(1) by (simp add: main_seq_def main_threaded_def Let_def)
qed

theorem histogram_programs_undefined_witness:
  "main_seq (\<lambda>n. True) (Some (''P1'' @ [newline] @ ''1 1'' @ [newline] @ ''0'')) (\<lambda>h c m. 0) some_date None True = Some UB"
proof -
  have "ReadPPM (\<lambda>n. True) ''out.ppm'' (Some (''P1'' @ [newline] @ ''1 1'' @ [newline] @ ''0'')) None None
      = Some (Ret (1, 1, 1, [0, 0, 0]))" by code_simp
  then show ?thesis
    using histogram_programs_undefined [where w = 1 and h = 1 and calloc = "\<lambda>n. True" and mode = 1
        and img = "[0, 0, 0]" and in_file = "Some (''P1'' @ [newline] @ ''1 1'' @ [newline] @ ''0'')"
        and bar = "\<lambda>h c m. 0" and date = some_date and ?i0.0 = None and opens = True
        and H = "[]" and width = 1 and height = 1]
    by (simp add: image_ok_def)
qed

text \<open>\<open>main\<close> is undefined on every image too: it never gets to its second part.\<close>

lemma modify_image_main_undefined:
  assumes "ReadPPM calloc ''out.ppm'' in_file None None = Some (Ret (mode, int w, int h, img))"
    and "image_ok w h img"
  shows "modify_image_main calloc in_file bar date i0 opens = Some UB"
  using histogram_programs_undefined [OF assms, THEN conjunct1]
  by (simp add: modify_image_main_def)

end
