(* ===== verification/Net_System.thy ===== *)
theory Net_System
  imports Pthread C_Stdio
begin

text \<open>
  What the socket code uses of the operating system, as POSIX documents it. The system's
  answers are a list in the state of the run, one for each call it answers: \<open>Ok\<close> with what
  the call needs (a count, bytes, an address), or \<open>Err\<close> with the error number. A call that
  is never answered blocks. So a theorem that holds for every state holds whatever the
  system does. Descriptors, names, the files of bound sockets and what was sent are kept.
\<close>

section \<open>The state of a run\<close>

type_synonym u16 = "16 word"

text \<open>An address: none, a path, or a host and a port, both in network byte order.\<close>

datatype saddr = Unnamed | Path string | Inet u32 u16

datatype sockopt = SO_BROADCAST | SO_REUSEADDR | IP_MULTICAST_TTL | IP_ADD_MEMBERSHIP | IP_DROP_MEMBERSHIP

datatype answer = Ok nat "u8 list" saddr | Err errno

record world =
  w_answers :: "answer list"
  w_errno :: errno
  w_open :: "int list"
  w_kind :: "int \<Rightarrow> int \<times> int \<times> int"
  w_name :: "int \<Rightarrow> saddr"
  w_peer :: "int \<Rightarrow> saddr"
  w_sent :: "int \<Rightarrow> u8 list"
  w_grams :: "(int \<times> u8 list \<times> saddr) list"
  w_opts :: "(int \<times> sockopt \<times> u32 list) list"
  w_files :: "string list"
  w_out :: "string list"
  w_threads :: "int list"
  w_strerror :: "errno \<Rightarrow> string"
  w_aton :: "string \<Rightarrow> u32 option"
  w_hosts :: "string \<Rightarrow> u32 option"

text \<open>
  How a run stops short: blocked in a call, an exception on its way, or ended by
  \<open>std::terminate\<close>. A \<open>socket_exception\<close> carries its message and error code.
\<close>

datatype halt = Blocked | Thrown string errno | Length_error | Terminated

type_synonym 'a io = "world \<Rightarrow> (halt, 'a) exec \<times> world"

definition io_ret :: "'a \<Rightarrow> 'a io" where
  "io_ret x w = (Ret x, w)"

definition io_stop :: "halt \<Rightarrow> 'a io" where
  "io_stop e w = (Stop e, w)"

definition io_bind :: "'a io \<Rightarrow> ('a \<Rightarrow> 'b io) \<Rightarrow> 'b io" where
  "io_bind m f w =
     (case m w of
        (Ret x, w') \<Rightarrow> f x w'
      | (Stop e, w') \<Rightarrow> (Stop e, w')
      | (UB, w') \<Rightarrow> (UB, w'))"

definition io_when :: "bool \<Rightarrow> unit io \<Rightarrow> unit io" where
  "io_when b m = (if b then m else io_ret ())"

definition io_get :: "(world \<Rightarrow> 'a) \<Rightarrow> 'a io" where
  "io_get f w = (Ret (f w), w)"

definition io_print :: "string \<Rightarrow> unit io" where
  "io_print s w = (Ret (), w\<lparr>w_out := w_out w @ [s]\<rparr>)"

text \<open>
  The scope of a local object: its destructor runs when the body returns or throws; an
  exception that leaves a destructor ends the program.
\<close>

definition io_scope :: "unit io \<Rightarrow> 'a io \<Rightarrow> 'a io" where
  "io_scope dtor body w =
     (case body w of
        (r, w') \<Rightarrow>
          if r = UB \<or> r = Stop Blocked \<or> r = Stop Terminated then (r, w')
          else (case dtor w' of
                  (Ret _, w'') \<Rightarrow> (r, w'')
                | (UB, w'') \<Rightarrow> (UB, w'')
                | (Stop e, w'') \<Rightarrow> (Stop (if e = Blocked then Blocked else Terminated), w'')))"

text \<open>A handler of \<open>socket_exception\<close>; and \<open>main\<close>, which no exception leaves alive.\<close>

definition io_catch :: "'a io \<Rightarrow> (string \<Rightarrow> 'a io) \<Rightarrow> 'a io" where
  "io_catch m handler w =
     (case m w of (Stop (Thrown what e), w') \<Rightarrow> handler what w' | r \<Rightarrow> r)"

definition io_main :: "'a io \<Rightarrow> 'a io" where
  "io_main m w =
     (case m w of
        (Stop e, w') \<Rightarrow> (Stop (if e = Blocked then Blocked else Terminated), w')
      | r \<Rightarrow> r)"

lemmas io_defs = io_ret_def io_stop_def io_bind_def io_when_def io_get_def io_print_def

section \<open>Calls\<close>

text \<open>The descriptor a new socket gets.\<close>

definition lowest_free :: "int list \<Rightarrow> int" where
  "lowest_free fds = hd (filter (\<lambda>n. n \<notin> set fds) (map int [0..<Suc (length fds)]))"

lemma lowest_free_new: "lowest_free fds \<notin> set fds" "0 \<le> lowest_free fds"
proof -
  let ?free = "filter (\<lambda>n. n \<notin> set fds) (map int [0..<Suc (length fds)])"
  have "?free \<noteq> []"
  proof
    assume "?free = []"
    then have "set (map int [0..<Suc (length fds)]) \<subseteq> set fds" by (auto simp: filter_empty_conv simp del: upt_Suc)
    then have "card (set (map int [0..<Suc (length fds)])) \<le> length fds"
      by (rule order_trans [OF card_mono [OF finite_set] card_length])
    moreover have "distinct (map int [0..<Suc (length fds)])"
      by (simp only: distinct_map distinct_upt) (simp add: inj_on_def)
    then have "card (set (map int [0..<Suc (length fds)])) = Suc (length fds)"
      by (simp only: distinct_card length_map length_upt)
    ultimately show False by simp
  qed
  then have "lowest_free fds \<in> set ?free" unfolding lowest_free_def by (rule hd_in_set)
  then show "lowest_free fds \<notin> set fds" "0 \<le> lowest_free fds"
    by (auto simp del: upt_Suc)
qed

lemma lowest_free_zero: "0 \<notin> set fds \<Longrightarrow> lowest_free fds = 0"
  by (simp add: lowest_free_def upt_conv_Cons del: upt_Suc)

lemma lowest_free_ok [simp]: "lowest_free fds \<noteq> -1" "\<not> lowest_free fds < 0"
  using lowest_free_new(2) [of fds] by linarith+

text \<open>
  A call takes the next answer. \<open>bad\<close> is what it returns when it fails; a call on a
  descriptor that is not open fails.
\<close>

type_synonym 'a call = "answer \<Rightarrow> world \<Rightarrow> 'a \<times> world"

definition on_answer :: "'a \<Rightarrow> (nat \<Rightarrow> u8 list \<Rightarrow> saddr \<Rightarrow> world \<Rightarrow> 'a \<times> world) \<Rightarrow> 'a call" where
  "on_answer bad f a w =
     (case a of Err e \<Rightarrow> (bad, w\<lparr>w_errno := e\<rparr>) | Ok n bs x \<Rightarrow> f n bs x w)"

definition on_fd :: "int \<Rightarrow> 'a \<Rightarrow> (nat \<Rightarrow> u8 list \<Rightarrow> saddr \<Rightarrow> world \<Rightarrow> 'a \<times> world) \<Rightarrow> 'a call" where
  "on_fd fd bad f a w =
     (if fd \<in> set (w_open w) then on_answer bad f a w else (bad, w\<lparr>w_errno := EOTHER\<rparr>))"

definition sys :: "'a call \<Rightarrow> 'a io" where
  "sys call w =
     (case w_answers w of
        [] \<Rightarrow> (Stop Blocked, w)
      | a # as \<Rightarrow> (case call a (w\<lparr>w_answers := as\<rparr>) of (x, w') \<Rightarrow> (Ret x, w')))"

text \<open>\<open>TEMP_FAILURE_RETRY\<close>: the call is made again while it fails with \<open>EINTR\<close>.\<close>

primrec retry_from :: "answer list \<Rightarrow> ('a \<Rightarrow> int) \<Rightarrow> 'a call \<Rightarrow> 'a io" where
  "retry_from [] ret call w = (Stop Blocked, w)"
| "retry_from (a # as) ret call w =
     (case call a (w\<lparr>w_answers := as\<rparr>) of
        (x, w') \<Rightarrow> if ret x = -1 \<and> w_errno w' = EINTR then retry_from as ret call w' else (Ret x, w'))"

definition TEMP_FAILURE_RETRY :: "('a \<Rightarrow> int) \<Rightarrow> 'a call \<Rightarrow> 'a io" where
  "TEMP_FAILURE_RETRY ret call w = retry_from (w_answers w) ret call w"

text \<open>A new descriptor, without a name and with the given peer.\<close>

definition new_fd :: "saddr \<Rightarrow> world \<Rightarrow> int \<times> world" where
  "new_fd peer w =
     (let fd = lowest_free (w_open w)
      in (fd, w\<lparr>w_open := fd # w_open w, w_name := (w_name w)(fd := Unnamed),
                w_peer := (w_peer w)(fd := peer), w_sent := (w_sent w)(fd := [])\<rparr>))"

definition c_socket :: "int \<Rightarrow> int \<Rightarrow> int \<Rightarrow> int call" where
  "c_socket domain type protocol = on_answer (-1) (\<lambda>n bs x w.
     (case new_fd Unnamed w of (fd, w') \<Rightarrow> (fd, w'\<lparr>w_kind := (w_kind w')(fd := (domain, type, protocol))\<rparr>)))"

definition c_accept :: "int \<Rightarrow> int call" where
  "c_accept fd = on_fd fd (-1) (\<lambda>n bs x. new_fd x)"

text \<open>A descriptor is released even when \<open>close\<close> reports an error.\<close>

definition c_close :: "int \<Rightarrow> int call" where
  "c_close fd a w =
     (if fd \<in> set (w_open w)
      then on_answer (-1) (\<lambda>n bs x v. (0, v)) a (w\<lparr>w_open := removeAll fd (w_open w)\<rparr>)
      else (-1, w\<lparr>w_errno := EOTHER\<rparr>))"

text \<open>\<open>send\<close> takes a part of the buffer, at most \<open>0x7ffff000\<close> bytes.\<close>

definition c_send :: "int \<Rightarrow> u8 list \<Rightarrow> int call" where
  "c_send fd buf = on_fd fd (-1) (\<lambda>n bs x w.
     let k = min n (nat (min (int (length buf)) 2147479552))
     in (int k, w\<lparr>w_sent := (w_sent w)(fd := w_sent w fd @ take k buf)\<rparr>))"

definition c_recv :: "int \<Rightarrow> nat \<Rightarrow> (int \<times> u8 list) call" where
  "c_recv fd len = on_fd fd (-1, []) (\<lambda>n bs x w. ((int (length (take len bs)), take len bs), w))"

text \<open>
  A datagram is sent as a whole, if it is not too long; one that is received is cut to the
  buffer.
\<close>

definition c_sendto :: "int \<Rightarrow> u8 list \<Rightarrow> saddr \<Rightarrow> int call" where
  "c_sendto fd buf dest = on_fd fd (-1) (\<lambda>n bs x w.
     if int (length buf) < 2 ^ 31 then (int (length buf), w\<lparr>w_grams := w_grams w @ [(fd, buf, dest)]\<rparr>)
     else (-1, w\<lparr>w_errno := EOTHER\<rparr>))"

definition c_recvfrom :: "int \<Rightarrow> nat \<Rightarrow> (int \<times> u8 list \<times> saddr) call" where
  "c_recvfrom fd len =
     on_fd fd (-1, [], Unnamed) (\<lambda>n bs x w. ((int (length (take len bs)), take len bs, x), w))"

definition c_connect :: "int \<Rightarrow> saddr \<Rightarrow> int call" where
  "c_connect fd addr = on_fd fd (-1) (\<lambda>n bs x w. (0, w\<lparr>w_peer := (w_peer w)(fd := addr)\<rparr>))"

text \<open>
  A path can be bound once, and the file it makes stays until it is unlinked; for port 0
  the system chooses the port.
\<close>

definition c_bind :: "int \<Rightarrow> saddr \<Rightarrow> int call" where
  "c_bind fd addr = on_fd fd (-1) (\<lambda>n bs x w.
     (case addr of
        Path p \<Rightarrow>
          if p \<in> set (w_files w) then (-1, w\<lparr>w_errno := EOTHER\<rparr>)
          else (0, w\<lparr>w_files := p # w_files w, w_name := (w_name w)(fd := addr)\<rparr>)
      | Inet a p \<Rightarrow>
          (0, w\<lparr>w_name := (w_name w)(fd := Inet a (if p = 0 then of_nat n else p))\<rparr>)
      | Unnamed \<Rightarrow> (-1, w\<lparr>w_errno := EOTHER\<rparr>)))"

definition c_listen :: "int \<Rightarrow> int call" where
  "c_listen fd = on_fd fd (-1) (\<lambda>n bs x w. (0, w))"

definition c_shutdown :: "int \<Rightarrow> int call" where
  "c_shutdown fd = on_fd fd (-1) (\<lambda>n bs x w. (0, w))"

definition c_getsockname :: "int \<Rightarrow> (int \<times> saddr) call" where
  "c_getsockname fd = on_fd fd (-1, Unnamed) (\<lambda>n bs x w. ((0, w_name w fd), w))"

definition c_getpeername :: "int \<Rightarrow> (int \<times> saddr) call" where
  "c_getpeername fd = on_fd fd (-1, Unnamed) (\<lambda>n bs x w. ((0, w_peer w fd), w))"

definition c_setsockopt :: "int \<Rightarrow> sockopt \<Rightarrow> u32 list \<Rightarrow> int call" where
  "c_setsockopt fd opt val = on_fd fd (-1) (\<lambda>n bs x w. (0, w\<lparr>w_opts := w_opts w @ [(fd, opt, val)]\<rparr>))"

definition c_unlink :: "string \<Rightarrow> int call" where
  "c_unlink path = on_answer (-1) (\<lambda>n bs x w.
     if path \<in> set (w_files w) then (0, w\<lparr>w_files := removeAll path (w_files w)\<rparr>)
     else (-1, w\<lparr>w_errno := EOTHER\<rparr>))"

text \<open>A \<open>size_t\<close> converted to an \<open>int\<close> keeps its low 32 bits, read as a signed number.\<close>

definition int_of_size :: "nat \<Rightarrow> int" where
  "int_of_size n = (int n + 2 ^ 31) mod 2 ^ 32 - 2 ^ 31"

lemma int_of_size_small: "n < 2 ^ 31 \<Longrightarrow> int_of_size n = int n"
  by (simp add: int_of_size_def)

section \<open>Reasoning about calls\<close>

text \<open>A run that leaves a part of the state as it is.\<close>

definition keeps :: "(world \<Rightarrow> 'b) \<Rightarrow> 'a io \<Rightarrow> bool" where
  "keeps f m \<longleftrightarrow> (\<forall>w. f (snd (m w)) = f w)"

definition keeps_call :: "(world \<Rightarrow> 'b) \<Rightarrow> 'a call \<Rightarrow> bool" where
  "keeps_call f c \<longleftrightarrow> (\<forall>a w. f (snd (c a w)) = f w)"

definition ignores_answers :: "(world \<Rightarrow> 'b) \<Rightarrow> bool" where
  "ignores_answers f \<longleftrightarrow> (\<forall>w as. f (w\<lparr>w_answers := as\<rparr>) = f w)"

named_theorems keeps_intros

lemma keeps_pure [keeps_intros]:
  "keeps f (io_ret x)" "keeps f (io_stop e)" "keeps f (io_get g)"
  by (simp_all add: keeps_def io_defs)

lemma keepsD: "keeps f m \<Longrightarrow> m w = (r, w') \<Longrightarrow> f w' = f w"
  unfolding keeps_def by (metis snd_conv)

lemma keepsI: "(\<And>w r w'. m w = (r, w') \<Longrightarrow> f w' = f w) \<Longrightarrow> keeps f m"
  unfolding keeps_def by (metis surjective_pairing)

lemma keeps_bind [keeps_intros]:
  assumes "keeps f m" and "\<And>x. keeps f (g x)"
  shows "keeps f (io_bind m g)"
proof (rule keepsI)
  fix w r w'
  assume "io_bind m g w = (r, w')"
  then show "f w' = f w"
    using keepsD [OF assms(1), of w] keepsD [OF assms(2)]
    by (cases "m w"; cases "fst (m w)") (auto simp: io_bind_def)
qed

lemma keeps_when [keeps_intros]: "keeps f m \<Longrightarrow> keeps f (io_when b m)"
  by (simp add: io_when_def keeps_pure)

lemma keeps_callD: "keeps_call f c \<Longrightarrow> c a w = (x, w') \<Longrightarrow> f w' = f w"
  unfolding keeps_call_def by (metis snd_conv)

lemma keeps_sys [keeps_intros]:
  assumes "ignores_answers f" and "keeps_call f c"
  shows "keeps f (sys c)"
proof (rule keepsI)
  fix w r w'
  assume "sys c w = (r, w')"
  then show "f w' = f w"
    using keeps_callD [OF assms(2)] assms(1)
    by (auto simp: sys_def ignores_answers_def split: list.splits prod.splits)
qed

lemma sys_Ret:
  assumes "sys call w = (Ret x, w')"
  obtains a as where "w_answers w = a # as" "call a (w\<lparr>w_answers := as\<rparr>) = (x, w')"
  using assms by (auto simp: sys_def split: list.splits prod.splits)

text \<open>The rule for a repeated call: what holds before every try, and after the last.\<close>

lemma retry_rule:
  assumes "P w" and "\<And>v as. P v \<Longrightarrow> P (v\<lparr>w_answers := as\<rparr>)"
    and "\<And>a v x v'. P v \<Longrightarrow> call a v = (x, v') \<Longrightarrow>
      if ret x = -1 \<and> w_errno v' = EINTR then P v' else Q x v'"
  shows "case TEMP_FAILURE_RETRY ret call w of
      (Ret x, w') \<Rightarrow> Q x w' | (Stop e, w') \<Rightarrow> e = Blocked \<and> P w' | (UB, w') \<Rightarrow> False"
proof -
  have "case retry_from as ret call v of
      (Ret x, w') \<Rightarrow> Q x w' | (Stop e, w') \<Rightarrow> e = Blocked \<and> P w' | (UB, w') \<Rightarrow> False"
    if "P v" for as v
    using that
  proof (induction as arbitrary: v)
    case (Cons a as)
    obtain x v' where c: "call a (v\<lparr>w_answers := as\<rparr>) = (x, v')" by fastforce
    from assms(3) [OF assms(2) [OF Cons.prems] c] Cons.IH show ?case using c by auto
  qed simp
  with assms(1) show ?thesis by (simp add: TEMP_FAILURE_RETRY_def)
qed

lemma keeps_retry [keeps_intros]:
  assumes "ignores_answers f" and "keeps_call f c"
  shows "keeps f (TEMP_FAILURE_RETRY ret c)"
proof -
  have "case TEMP_FAILURE_RETRY ret c w of
      (Ret x, w') \<Rightarrow> f w' = f w | (Stop e, w') \<Rightarrow> e = Blocked \<and> f w' = f w | (UB, w') \<Rightarrow> False" for w
  proof (rule retry_rule [where P = "\<lambda>v. f v = f w" and Q = "\<lambda>x v. f v = f w"])
    fix a v x v'
    assume "f v = f w" and "c a v = (x, v')"
    then show "if ret x = - 1 \<and> w_errno v' = EINTR then f v' = f w else f v' = f w"
      using keeps_callD [OF assms(2)] by simp
  qed (use assms(1) in \<open>simp_all add: ignores_answers_def\<close>)
  note rule = this
  show ?thesis
  proof (rule keepsI)
    fix w r w'
    assume "TEMP_FAILURE_RETRY ret c w = (r, w')"
    with rule [of w] show "f w' = f w" by (cases r) simp_all
  qed
qed

lemma open_ignores [keeps_intros]: "ignores_answers w_open"
  by (simp add: ignores_answers_def)

lemmas call_defs = on_answer_def on_fd_def c_accept_def c_close_def c_send_def c_recv_def
  c_sendto_def c_recvfrom_def c_connect_def c_bind_def c_listen_def c_shutdown_def
  c_getsockname_def c_getpeername_def c_setsockopt_def c_unlink_def

text \<open>Only \<open>socket\<close>, \<open>accept\<close> and \<open>close\<close> change which descriptors are open.\<close>

lemma keeps_open_calls [keeps_intros]:
  "keeps_call w_open (c_send fd buf)" "keeps_call w_open (c_recv fd len)"
  "keeps_call w_open (c_sendto fd buf dest)" "keeps_call w_open (c_recvfrom fd len)"
  "keeps_call w_open (c_connect fd addr)" "keeps_call w_open (c_bind fd addr)"
  "keeps_call w_open (c_listen fd)" "keeps_call w_open (c_shutdown fd)"
  "keeps_call w_open (c_getsockname fd)" "keeps_call w_open (c_getpeername fd)"
  "keeps_call w_open (c_setsockopt fd opt val)" "keeps_call w_open (c_unlink path)"
  by (auto simp: keeps_call_def call_defs Let_def split: answer.split saddr.split)

lemma keeps_print [keeps_intros]: "keeps w_open (io_print s)"
  by (simp add: keeps_def io_print_def)

text \<open>A repeated \<open>sendto\<close> sends its datagram once, or fails and sends nothing.\<close>

lemma sendto_once:
  assumes "fd \<in> set (w_open w)"
  shows "case TEMP_FAILURE_RETRY (\<lambda>x. x) (c_sendto fd buf dest) w of
      (Ret k, w') \<Rightarrow> w_open w' = w_open w \<and>
        (if k = int (length buf) then w_grams w' = w_grams w @ [(fd, buf, dest)]
         else k = -1 \<and> w_grams w' = w_grams w)
    | (Stop e, w') \<Rightarrow> e = Blocked \<and> w_open w' = w_open w \<and> w_grams w' = w_grams w
    | (UB, w') \<Rightarrow> False"
  by (rule retry_rule [where P = "\<lambda>v. w_open v = w_open w \<and> w_grams v = w_grams w"])
    (use assms in \<open>auto simp: c_sendto_def on_fd_def on_answer_def split: answer.splits if_splits\<close>)

section \<open>A run from the start\<close>

text \<open>A process with its three standard descriptors, and a system that knows no hosts.\<close>

definition start_world :: "answer list \<Rightarrow> world" where
  "start_world as =
     \<lparr>w_answers = as, w_errno = EOTHER, w_open = [2, 1, 0], w_kind = (\<lambda>fd. (0, 0, 0)),
      w_name = (\<lambda>fd. Unnamed), w_peer = (\<lambda>fd. Unnamed), w_sent = (\<lambda>fd. []), w_grams = [], w_opts = [],
      w_files = [], w_out = [], w_threads = [], w_strerror = (\<lambda>e. ''error''), w_aton = (\<lambda>s. None),
      w_hosts = (\<lambda>s. None)\<rparr>"

section \<open>Byte order\<close>

text \<open>The host is little-endian, the network big-endian: the two bytes change places.\<close>

unbundle bit_operations_syntax

definition htons :: "u16 \<Rightarrow> u16" where
  "htons p = push_bit 8 p OR drop_bit 8 p"

definition ntohs :: "u16 \<Rightarrow> u16" where
  "ntohs p = push_bit 8 p OR drop_bit 8 p"

lemma ntohs_htons [simp]: "ntohs (htons p) = p"
proof (rule bit_word_eqI)
  show "bit (ntohs (htons p)) n \<longleftrightarrow> bit p n" if "n < LENGTH(16)" for n
    using that by (auto simp: ntohs_def htons_def bit_simps dest: bit_imp_le_length)
qed

lemma htons_eq_0 [simp]: "htons p = 0 \<longleftrightarrow> p = 0"
proof
  assume "htons p = 0"
  then have "ntohs (htons p) = ntohs 0" by (rule arg_cong)
  then have "p = ntohs 0" by simp
  then show "p = 0" by (simp add: ntohs_def)
qed (simp add: htons_def)

end
