(* ===== verification/Net_Scopes.thy ===== *)
theory Net_Scopes
  imports Net_System
begin

text \<open>
  Descriptors and scopes: the rules by which a program that holds each descriptor in a local
  object is shown to end with the descriptors it began with. The interface \<open>socket_class\<close>
  states what a class that owns a descriptor promises.
\<close>

section \<open>Programs that restore, open and release descriptors\<close>

text \<open>A run that has an end to speak of: it returned, or an exception is on its way.\<close>

definition settles :: "(halt, 'a) exec \<Rightarrow> bool" where
  "settles r \<longleftrightarrow> r \<noteq> UB \<and> r \<noteq> Stop Blocked \<and> r \<noteq> Stop Terminated"

text \<open>\<open>E\<close> is a set of descriptors that are open from the beginning.\<close>

definition restores :: "int set \<Rightarrow> 'a io \<Rightarrow> bool" where
  "restores E m \<longleftrightarrow> (\<forall>w r w'. E \<subseteq> set (w_open w) \<longrightarrow> m w = (r, w') \<longrightarrow> settles r \<longrightarrow> w_open w' = w_open w)"

text \<open>A destructor: when it returns, the descriptor is closed and no other.\<close>

definition releases :: "int \<Rightarrow> 'a io \<Rightarrow> bool" where
  "releases fd m \<longleftrightarrow> (\<forall>w x w'. m w = (Ret x, w') \<longrightarrow> w_open w' = removeAll fd (w_open w))"

text \<open>A run that opens a descriptor and returns it, or fails and opens none.\<close>

definition opens :: "('a \<Rightarrow> int) \<Rightarrow> 'a io \<Rightarrow> bool" where
  "opens handle m \<longleftrightarrow>
     (\<forall>w r w'. m w = (r, w') \<longrightarrow>
        (case r of
           Ret s \<Rightarrow> 0 \<le> handle s \<and> handle s \<notin> set (w_open w) \<and> w_open w' = handle s # w_open w
         | _ \<Rightarrow> w_open w' = w_open w))"

named_theorems restores_intros

lemma restoresI:
  "(\<And>w r w'. E \<subseteq> set (w_open w) \<Longrightarrow> m w = (r, w') \<Longrightarrow> settles r \<Longrightarrow> w_open w' = w_open w) \<Longrightarrow>
   restores E m"
  unfolding restores_def by blast

lemma restoresD:
  "restores E m \<Longrightarrow> m w = (r, w') \<Longrightarrow> E \<subseteq> set (w_open w) \<Longrightarrow> settles r \<Longrightarrow> w_open w' = w_open w"
  unfolding restores_def by blast

lemma opens_Ret:
  "opens handle m \<Longrightarrow> m w = (Ret s, w') \<Longrightarrow>
   0 \<le> handle s \<and> handle s \<notin> set (w_open w) \<and> w_open w' = handle s # w_open w"
  unfolding opens_def by fastforce

lemma opens_Stop: "opens handle m \<Longrightarrow> m w = (Stop e, w') \<Longrightarrow> w_open w' = w_open w"
  unfolding opens_def by fastforce

lemma releasesD:
  "releases fd m \<Longrightarrow> m w = (Ret x, w') \<Longrightarrow> w_open w' = removeAll fd (w_open w)"
  unfolding releases_def by blast

lemma settles_simps [simp]:
  "settles (Ret x)" "\<not> settles UB" "\<not> settles (Stop Blocked)" "\<not> settles (Stop Terminated)"
  "settles (Stop (Thrown what e))" "settles (Stop Length_error)"
  by (simp_all add: settles_def)

lemma keeps_restores: "keeps w_open m \<Longrightarrow> restores E m"
  by (rule restoresI) (rule keepsD)

lemma io_bind_cases:
  assumes "io_bind m g w = (r, w')"
  obtains x u where "m w = (Ret x, u)" "g x u = (r, w')"
    | e where "m w = (Stop e, w')" "r = Stop e"
    | "m w = (UB, w')" "r = UB"
  using assms by (cases "m w"; cases "fst (m w)") (auto simp: io_bind_def)

lemma restores_bind [restores_intros]:
  assumes "restores E m" and "\<And>x. restores E (g x)"
  shows "restores E (io_bind m g)"
proof (rule restoresI)
  fix w r w'
  assume E: "E \<subseteq> set (w_open w)" and m: "io_bind m g w = (r, w')" and r: "settles r"
  from m show "w_open w' = w_open w"
  proof (cases rule: io_bind_cases)
    case (1 x u)
    have "w_open u = w_open w" by (rule restoresD [OF assms(1) 1(1) E]) simp
    moreover from this have "w_open w' = w_open u" by (intro restoresD [OF assms(2) 1(2) _ r]) (simp add: E)
    ultimately show ?thesis by simp
  next
    case (2 e)
    with r show ?thesis by (intro restoresD [OF assms(1) 2(1) E]) (cases e; simp)
  next
    case 3
    with r show ?thesis by simp
  qed
qed

lemma io_catch_cases:
  assumes "io_catch m handler w = (r, w')"
  obtains what e u where "m w = (Stop (Thrown what e), u)" "handler what u = (r, w')"
    | "m w = (r, w')"
proof (cases "\<exists>what e u. m w = (Stop (Thrown what e), u)")
  case True
  then obtain what e u where "m w = (Stop (Thrown what e), u)" by blast
  with assms that(1) show ?thesis by (simp add: io_catch_def)
next
  case False
  obtain q u where "m w = (q, u)" by fastforce
  with False assms that(2) show ?thesis
    by (simp add: io_catch_def split: exec.splits halt.splits)
qed

lemma restores_catch [restores_intros]:
  assumes "restores E m" and "\<And>what. restores E (handler what)"
  shows "restores E (io_catch m handler)"
proof (rule restoresI)
  fix w r w'
  assume E: "E \<subseteq> set (w_open w)" and c: "io_catch m handler w = (r, w')" and r: "settles r"
  from c show "w_open w' = w_open w"
  proof (cases rule: io_catch_cases)
    case (1 what e u)
    have "w_open u = w_open w" by (rule restoresD [OF assms(1) 1(1) E]) simp
    moreover from this have "w_open w' = w_open u" by (intro restoresD [OF assms(2) 1(2) _ r]) (simp add: E)
    ultimately show ?thesis by simp
  qed (rule restoresD [OF assms(1) _ E r])
qed

text \<open>A scope whose body restores and whose destructor releases.\<close>

lemma io_scope_cases:
  assumes "io_scope dtor body w = (r, w')" and "settles r"
  obtains u x where "body w = (r, u)" "dtor u = (Ret x, w')"
proof -
  obtain q u where q: "body w = (q, u)" by fastforce
  obtain p v where p: "dtor u = (p, v)" by fastforce
  from assms q p that show ?thesis
    by (cases "q = UB \<or> q = Stop Blocked \<or> q = Stop Terminated"; cases p)
      (auto simp: io_scope_def split: if_splits)
qed

lemma releases_scope:
  assumes "releases fd dtor"
    and "\<And>u. body w = (r, u) \<Longrightarrow> w_open u = w_open w"
    and "io_scope dtor body w = (r, w')" and "settles r"
  shows "w_open w' = removeAll fd (w_open w)"
  using assms(3,4)
proof (cases rule: io_scope_cases)
  case (1 u x)
  have "w_open w' = removeAll fd (w_open u)" by (rule releasesD [OF assms(1) 1(2)])
  then show ?thesis using assms(2) [OF 1(1)] by simp
qed

lemma releases_bind:
  assumes "keeps w_open m" and "\<And>x. releases fd (g x)"
  shows "releases fd (io_bind m g)"
  unfolding releases_def
proof (intro allI impI)
  fix w x w'
  assume "io_bind m g w = (Ret x, w')"
  then show "w_open w' = removeAll fd (w_open w)"
  proof (cases rule: io_bind_cases)
    case (1 y u)
    with keepsD [OF assms(1) 1(1)] releasesD [OF assms(2) 1(2)] show ?thesis by simp
  qed simp_all
qed

text \<open>
  Opening and then releasing restores; the descriptors of \<open>E\<close> are never the new one, so
  what is done for them does not matter.
\<close>

lemma restores_opened:
  assumes "opens handle m"
    and "\<And>s w r w'. handle s \<notin> E \<Longrightarrow> 0 \<le> handle s \<Longrightarrow> insert (handle s) E \<subseteq> set (w_open w) \<Longrightarrow>
      g s w = (r, w') \<Longrightarrow> settles r \<Longrightarrow> w_open w' = removeAll (handle s) (w_open w)"
  shows "restores E (io_bind m g)"
proof (rule restoresI)
  fix w r w'
  assume E: "E \<subseteq> set (w_open w)" and m: "io_bind m g w = (r, w')" and r: "settles r"
  from m show "w_open w' = w_open w"
  proof (cases rule: io_bind_cases)
    case (1 s u)
    from opens_Ret [OF assms(1) 1(1)]
    have s: "0 \<le> handle s" "handle s \<notin> set (w_open w)" "w_open u = handle s # w_open w" by simp_all
    have "w_open w' = removeAll (handle s) (w_open u)"
      by (rule assms(2) [OF _ s(1) _ 1(2) r]) (use E s in auto)
    with s show ?thesis by simp
  next
    case (2 e)
    then show ?thesis using opens_Stop [OF assms(1)] by simp
  next
    case 3
    with r show ?thesis by simp
  qed
qed

section \<open>How a run can end\<close>

text \<open>A run that returns a value of \<open>V\<close>, throws a \<open>socket_exception\<close> or blocks.\<close>

fun tame_result :: "'a set \<Rightarrow> (halt, 'a) exec \<Rightarrow> bool" where
  "tame_result V (Ret x) = (x \<in> V)"
| "tame_result V (Stop e) = (e \<noteq> Terminated \<and> e \<noteq> Length_error)"
| "tame_result V UB = False"

definition tame :: "'a set \<Rightarrow> 'a io \<Rightarrow> bool" where
  "tame V m \<longleftrightarrow> (\<forall>w. tame_result V (fst (m w)))"

text \<open>A destructor that does not throw.\<close>

definition sure :: "unit io \<Rightarrow> bool" where
  "sure m \<longleftrightarrow> (\<forall>w. fst (m w) = Ret () \<or> fst (m w) = Stop Blocked)"

named_theorems tame_intros

lemma tame_pure [tame_intros]:
  "x \<in> V \<Longrightarrow> tame V (io_ret x)" "tame UNIV (io_get g)" "tame UNIV (io_print s)"
  by (simp_all add: tame_def io_defs)

lemma tameD: "tame V m \<Longrightarrow> m w = (r, w') \<Longrightarrow>
   tame_result V r"
  unfolding tame_def by (metis fst_conv)

lemma tameI: "(\<And>w r w'. m w = (r, w') \<Longrightarrow>
   tame_result V r) \<Longrightarrow> tame V m"
  unfolding tame_def by (metis surjective_pairing)

lemma tame_bind [tame_intros]:
  assumes "tame UNIV m" and "\<And>x. tame V (g x)"
  shows "tame V (io_bind m g)"
proof (rule tameI)
  fix w r w'
  assume "io_bind m g w = (r, w')"
  then show "tame_result V r"
    by (cases rule: io_bind_cases) (auto dest: tameD [OF assms(1)] tameD [OF assms(2)])
qed

lemma tame_sys [tame_intros]: "tame UNIV (sys c)"
  by (auto simp: tame_def sys_def split: list.split prod.split)

lemma tame_retry [tame_intros]: "tame UNIV (TEMP_FAILURE_RETRY ret c)"
proof -
  have "tame_result UNIV (fst (retry_from as ret c w))" for as w
    by (induction as arbitrary: w) (auto split: prod.split)
  then show ?thesis by (simp add: tame_def TEMP_FAILURE_RETRY_def)
qed

lemma tame_scope [tame_intros]:
  assumes "sure dtor" and "tame V body"
  shows "tame V (io_scope dtor body)"
proof (rule tameI)
  fix w r w'
  assume run: "io_scope dtor body w = (r, w')"
  obtain q u where q: "body w = (q, u)" by fastforce
  obtain p v where p: "dtor u = (p, v)" by fastforce
  from assms(1) p have "p = Ret () \<or> p = Stop Blocked" unfolding sure_def by (metis fst_conv)
  with run p q tameD [OF assms(2) q]
  show "tame_result V r"
    by (auto simp: io_scope_def split: if_splits)
qed

text \<open>\<open>main\<close> with a handler of every \<open>socket_exception\<close>: it returns or blocks.\<close>

lemma io_catch_handled:
  assumes "io_catch m handler w = (q, u)" and "\<And>what w e. fst (handler what w) \<noteq> Stop e"
  shows "q \<noteq> Stop (Thrown what e)"
proof
  assume q: "q = Stop (Thrown what e)"
  from assms(1) show False
  proof (cases rule: io_catch_cases)
    case (1 what' e' v)
    with q have "fst (handler what' v) = Stop (Thrown what e)" by simp
    with assms(2) show False by blast
  next
    case 2
    with assms(1) q have "handler what u = (q, u)" by (simp add: io_catch_def)
    with q have "fst (handler what u) = Stop (Thrown what e)" by simp
    with assms(2) show False by blast
  qed
qed

lemma tame_main:
  assumes "tame V m" and "\<And>what. tame V (handler what)" and "\<And>what w e. fst (handler what w) \<noteq> Stop e"
    and "io_main (io_catch m handler) w = (r, w')"
  shows "r = Stop Blocked \<or> (\<exists>x \<in> V. r = Ret x \<and> io_catch m handler w = (r, w'))"
proof -
  obtain q u where q: "io_catch m handler w = (q, u)" by fastforce
  then have "tame_result V q"
    by (cases rule: io_catch_cases) (auto dest: tameD [OF assms(1)] tameD [OF assms(2)])
  moreover have "q \<noteq> Stop (Thrown what e)" for what e by (rule io_catch_handled [OF q assms(3)])
  ultimately have "q = Stop Blocked \<or> (\<exists>x \<in> V. q = Ret x)"
    by (cases "(V, q)" rule: tame_result.cases) (auto intro: halt.exhaust)
  with q assms(4) show ?thesis by (auto simp: io_main_def)
qed

section \<open>The interface of a class that owns a descriptor\<close>

text \<open>A local object: its constructor, the scope, and its destructor at the end of it.\<close>

definition io_local :: "'o io \<Rightarrow> ('o \<Rightarrow> unit io) \<Rightarrow> ('o \<Rightarrow> 'a io) \<Rightarrow> 'a io" where
  "io_local ctor dtor body = io_bind ctor (\<lambda>s. io_scope (dtor s) (body s))"

locale socket_class =
  fixes ctor :: "'o io" and dtor :: "'o \<Rightarrow> unit io" and handle :: "'o \<Rightarrow> int"
  assumes ctor_opens: "opens handle ctor"
    and dtor_releases: "releases (handle s) (dtor s)"
begin

lemma local_restores:
  assumes "\<And>s. 0 \<le> handle s \<Longrightarrow> restores (insert (handle s) E) (body s)"
  shows "restores E (io_local ctor dtor body)"
  unfolding io_local_def
proof (rule restores_opened [OF ctor_opens])
  fix s w r w'
  assume s: "0 \<le> handle s" "insert (handle s) E \<subseteq> set (w_open w)"
    and run: "io_scope (dtor s) (body s) w = (r, w')" and r: "settles r"
  show "w_open w' = removeAll (handle s) (w_open w)"
    by (rule releases_scope [OF dtor_releases _ run r])
      (rule restoresD [OF assms [OF s(1)] _ s(2) r])
qed

text \<open>What is open once the constructor has returned may be relied on.\<close>

lemma local_restores_from:
  assumes "\<And>w s u. ctor w = (Ret s, u) \<Longrightarrow> E \<subseteq> set (w_open u)"
    and "\<And>s. 0 \<le> handle s \<Longrightarrow> restores (insert (handle s) E) (body s)"
  shows "restores {} (io_local ctor dtor body)"
proof (rule restoresI)
  fix w r w'
  assume run: "io_local ctor dtor body w = (r, w')" and r: "settles r"
  from run [unfolded io_local_def] show "w_open w' = w_open w"
  proof (cases rule: io_bind_cases)
    case (1 s u)
    from opens_Ret [OF ctor_opens 1(1)]
    have s: "0 \<le> handle s" "handle s \<notin> set (w_open w)" "w_open u = handle s # w_open w" by simp_all
    have "insert (handle s) E \<subseteq> set (w_open u)" using assms(1) [OF 1(1)] s(3) by simp
    with releases_scope [OF dtor_releases _ 1(2) r] restoresD [OF assms(2) [OF s(1)] _ _ r]
    have "w_open w' = removeAll (handle s) (w_open u)" by blast
    with s show ?thesis by simp
  next
    case (2 e)
    then show ?thesis using opens_Stop [OF ctor_opens] by simp
  qed (use r in simp)
qed

end

end
