(* ===== verification/Base_Socket.thy ===== *)
theory Base_Socket
  imports Net_Scopes
begin

text \<open>
  \<open>net/base_socket.cpp\<close> of \<open>day3/socknet\<close>: the exception class and the base of all sockets.
  A method takes the object and returns the
  object it leaves; one that throws leaves it as it was. A buffer that is filled is returned.
\<close>

section \<open>The exception\<close>

definition socket_exception :: "string \<Rightarrow> bool \<Rightarrow> 'a io" where
  "socket_exception message use_strerror w =
     (Stop (Thrown (message @ '': '' @ (if use_strerror then w_strerror w (w_errno w) else []))
        (w_errno w)), w)"

section \<open>The base class\<close>

definition INTERNET :: int where "INTERNET = 2"
definition UNIX :: int where "UNIX = 1"
definition STREAM :: int where "STREAM = 1"
definition DATAGRAM :: int where "DATAGRAM = 2"

record base_socket =
  bs_socket :: int
  bs_peerDisconnected :: bool

definition base_socket_ctor :: "int \<Rightarrow> int \<Rightarrow> int \<Rightarrow> base_socket io" where
  "base_socket_ctor domain type protocol =
     io_bind (sys (c_socket domain type protocol)) (\<lambda>sock.
       if sock < 0 then socket_exception ''Socket creation failed (socket)'' True
       else io_ret \<lparr>bs_socket = sock, bs_peerDisconnected = False\<rparr>)"

definition base_socket_of :: "int \<Rightarrow> base_socket io" where
  "base_socket_of sockfd =
     (if sockfd < 0 then socket_exception ''Tried to initialize Socket with invalid Handle'' True
      else io_ret \<lparr>bs_socket = sockfd, bs_peerDisconnected = False\<rparr>)"

definition base_socket_dtor :: "base_socket \<Rightarrow> unit io" where
  "base_socket_dtor s = io_bind (TEMP_FAILURE_RETRY (\<lambda>x. x) (c_close (bs_socket s))) (\<lambda>_. io_ret ())"

definition base_send :: "base_socket \<Rightarrow> u8 list \<Rightarrow> (int \<times> base_socket) io" where
  "base_send s buf =
     io_bind (TEMP_FAILURE_RETRY (\<lambda>x. x) (c_send (bs_socket s) buf)) (\<lambda>sent.
       if sent < 0 then
         io_bind (io_get w_errno) (\<lambda>e.
           if e = ECONNRESET \<or> e = ECONNREFUSED
           then io_ret (sent, s\<lparr>bs_peerDisconnected := True\<rparr>)
           else socket_exception ''Send failed (send)'' True)
       else io_ret (sent, s))"

definition base_receive :: "base_socket \<Rightarrow> nat \<Rightarrow> (int \<times> u8 list) io" where
  "base_receive s len =
     io_bind (TEMP_FAILURE_RETRY fst (c_recv (bs_socket s) len)) (\<lambda>(ret, data).
       if ret < 0 then socket_exception ''Received failed (receive)'' True else io_ret (ret, data))"

definition base_disconnect :: "base_socket \<Rightarrow> base_socket io" where
  "base_disconnect s =
     io_bind (sys (c_connect (bs_socket s) Unnamed)) (\<lambda>r.
       if r < 0 then
         io_bind (io_get w_errno) (\<lambda>e.
           if e \<noteq> ECONNRESET then socket_exception ''Disconnect failed (connect)'' True
           else io_ret (s\<lparr>bs_peerDisconnected := False\<rparr>))
       else io_ret s)"

definition base_shutdown :: "base_socket \<Rightarrow> unit io" where
  "base_shutdown s =
     io_bind (sys (c_shutdown (bs_socket s))) (\<lambda>r.
       if r < 0 then socket_exception ''Shutdown failed (shutdown)'' True else io_ret ())"

section \<open>One send\<close>

text \<open>
  All a call of \<open>send\<close> can do: send a part of the buffer; find that the peer is gone; throw
  on another error; block. Nothing else changes, and every attempt uses up an answer.
\<close>

definition send_result :: "base_socket \<Rightarrow> u8 list \<Rightarrow> world \<Rightarrow> (halt, int \<times> base_socket) exec \<Rightarrow> world \<Rightarrow> bool" where
  "send_result s buf w r w' \<longleftrightarrow>
     w_open w' = w_open w \<and>
     (case r of
        Ret (k, s') \<Rightarrow>
          length (w_answers w') < length (w_answers w) \<and>
          (if k < 0
           then k = -1 \<and> s' = s\<lparr>bs_peerDisconnected := True\<rparr> \<and> w_errno w' \<in> {ECONNRESET, ECONNREFUSED}
             \<and> w_sent w' = w_sent w
           else nat k \<le> length buf \<and> s' = s
             \<and> w_sent w' = (w_sent w)(bs_socket s := w_sent w (bs_socket s) @ take (nat k) buf))
      | Stop (Thrown what e) \<Rightarrow> e \<notin> {EINTR, ECONNRESET, ECONNREFUSED} \<and> w_sent w' = w_sent w
      | Stop Blocked \<Rightarrow> w_sent w' = w_sent w
      | _ \<Rightarrow> False)"

lemma retry_answers:
  assumes "\<And>a v x v'. call a v = (x, v') \<Longrightarrow> w_answers v' = w_answers v"
    and "TEMP_FAILURE_RETRY ret call w = (Ret x, w')"
  shows "length (w_answers w') < length (w_answers w)"
proof -
  have "retry_from as ret call v = (Ret x, w') \<Longrightarrow> length (w_answers w') < length as" for as v
  proof (induction as arbitrary: v)
    case (Cons a as)
    obtain y u where c: "call a (v\<lparr>w_answers := as\<rparr>) = (y, u)" by fastforce
    with assms(1) have "w_answers u = as" by fastforce
    with Cons c show ?case by (fastforce split: if_splits)
  qed simp
  with assms(2) show ?thesis by (simp add: TEMP_FAILURE_RETRY_def)
qed

lemma base_send_result:
  assumes "bs_socket s \<in> set (w_open w)" and "base_send s buf w = (r, w')"
  shows "send_result s buf w r w'"
proof -
  let ?fd = "bs_socket s"
  let ?call = "c_send ?fd buf"
  obtain q u where q: "TEMP_FAILURE_RETRY (\<lambda>x. x) ?call w = (q, u)" by fastforce
  let ?P = "\<lambda>v. w_open v = w_open w \<and> w_sent v = w_sent w"
  let ?Q = "\<lambda>k v. w_open v = w_open w \<and>
    (if k < 0 then k = -1 \<and> w_errno v \<noteq> EINTR \<and> w_sent v = w_sent w
     else nat k \<le> length buf \<and> w_sent v = (w_sent w)(?fd := w_sent w ?fd @ take (nat k) buf))"
  have "case TEMP_FAILURE_RETRY (\<lambda>x. x) ?call w of
      (Ret x, w') \<Rightarrow> ?Q x w' | (Stop e, w') \<Rightarrow> e = Blocked \<and> ?P w' | (UB, w') \<Rightarrow> False"
    by (rule retry_rule [where P = ?P and Q = ?Q])
      (use assms(1) in \<open>auto simp: c_send_def on_fd_def on_answer_def Let_def split: answer.splits\<close>)
  with q have res: "case q of Ret x \<Rightarrow> ?Q x u | Stop e \<Rightarrow> e = Blocked \<and> ?P u | UB \<Rightarrow> False"
    by (cases q) simp_all
  moreover have "length (w_answers u) < length (w_answers w)" if "q = Ret x" for x
    by (rule retry_answers [OF _ q [unfolded that]])
      (auto simp: c_send_def on_fd_def on_answer_def Let_def split: answer.splits if_splits)
  ultimately show ?thesis
    using assms(2) q
    by (cases q) (auto simp: base_send_def io_defs socket_exception_def send_result_def split: if_splits)
qed

section \<open>Descriptors of the class\<close>

lemma base_socket_ctor_opens: "opens bs_socket (base_socket_ctor domain type protocol)"
  by (auto simp: opens_def base_socket_ctor_def io_defs sys_def c_socket_def on_answer_def
      new_fd_def Let_def socket_exception_def lowest_free_new lowest_free_new(2) [THEN leD] split: list.splits answer.splits if_splits)

lemma base_socket_dtor_releases: "releases (bs_socket s) (base_socket_dtor s)"
proof -
  let ?fd = "bs_socket s"
  have rule: "case TEMP_FAILURE_RETRY (\<lambda>x. x) (c_close ?fd) w of
      (Ret x, w') \<Rightarrow> w_open w' = removeAll ?fd (w_open w)
    | (Stop e, w') \<Rightarrow> e = Blocked \<and> removeAll ?fd (w_open w') = removeAll ?fd (w_open w)
    | (UB, w') \<Rightarrow> False" for w
    by (rule retry_rule [where P = "\<lambda>v. removeAll ?fd (w_open v) = removeAll ?fd (w_open w)"])
      (auto simp: c_close_def on_answer_def split: answer.splits if_splits)
  show ?thesis
    unfolding releases_def
  proof (intro allI impI)
    fix w x w'
    assume run: "base_socket_dtor s w = (Ret x, w')"
    from run [unfolded base_socket_dtor_def] show "w_open w' = removeAll ?fd (w_open w)"
      by (cases rule: io_bind_cases) (use rule [of w] in \<open>auto simp: io_ret_def\<close>)
  qed
qed

interpretation base_class: socket_class "base_socket_ctor domain type protocol" base_socket_dtor bs_socket
  for domain type protocol
  by unfold_locales (rule base_socket_ctor_opens base_socket_dtor_releases)+

lemma keeps_exception [keeps_intros]: "keeps f (socket_exception message b)"
  by (rule keepsI) (simp add: socket_exception_def)

lemma base_keeps_open [keeps_intros]:
  "keeps w_open (base_send s buf)" "keeps w_open (base_receive s len)"
  "keeps w_open (base_disconnect s)" "keeps w_open (base_shutdown s)"
  unfolding base_send_def base_receive_def base_disconnect_def base_shutdown_def
  by (auto intro!: keeps_intros split: prod.split)

section \<open>How the methods end\<close>

lemma tame_exception [tame_intros]: "tame V (socket_exception message b)"
  by (simp add: tame_def socket_exception_def)

lemma base_tame [tame_intros]:
  "tame UNIV (base_socket_ctor domain type protocol)" "tame UNIV (base_socket_of fd)"
  "tame UNIV (base_send s buf)" "tame UNIV (base_receive s len)" "tame UNIV (base_disconnect s)"
  unfolding base_socket_ctor_def base_socket_of_def base_send_def base_receive_def base_disconnect_def
  by (auto intro!: tame_intros split: prod.split)

lemma retry_sure:
  "fst (TEMP_FAILURE_RETRY ret c w) = Stop Blocked \<or> (\<exists>x. fst (TEMP_FAILURE_RETRY ret c w) = Ret x)"
proof -
  have "fst (retry_from as ret c w) = Stop Blocked \<or> (\<exists>x. fst (retry_from as ret c w) = Ret x)" for as w
    by (induction as arbitrary: w) (auto split: prod.split)
  then show ?thesis by (simp add: TEMP_FAILURE_RETRY_def)
qed

lemma base_socket_dtor_sure: "sure (base_socket_dtor s)"
  unfolding sure_def
proof
  fix w
  let ?close = "TEMP_FAILURE_RETRY (\<lambda>x. x) (c_close (bs_socket s))"
  show "fst (base_socket_dtor s w) = Ret () \<or> fst (base_socket_dtor s w) = Stop Blocked"
    using retry_sure [of "\<lambda>x. x" "c_close (bs_socket s)" w]
    by (cases "?close w") (auto simp: base_socket_dtor_def io_bind_def io_ret_def)
qed

end
