(* ===== verification/Tcp_Socket.thy ===== *)
theory Tcp_Socket
  imports Base_Socket
begin

text \<open>
  \<open>net/tcp_socket.cpp\<close> of \<open>day3/socknet\<close>: the stream socket, and that \<open>sendAll\<close> sends all.
\<close>

section \<open>The stream socket\<close>

definition tcp_socket_ctor :: "base_socket io" where
  "tcp_socket_ctor = base_socket_ctor INTERNET STREAM 6"

definition tcp_socket_of :: "int \<Rightarrow> base_socket io" where
  "tcp_socket_of handle = base_socket_of handle"

definition tcp_listen :: "base_socket \<Rightarrow> unit io" where
  "tcp_listen s =
     io_bind (sys (c_listen (bs_socket s))) (\<lambda>ret.
       if ret < 0
       then socket_exception
         ''listen failed, most likely another socket is already listening on the same port'' True
       else io_ret ())"

definition tcp_accept :: "base_socket \<Rightarrow> int io" where
  "tcp_accept s =
     io_bind (sys (c_accept (bs_socket s))) (\<lambda>ret.
       if ret < 0 then socket_exception ''TCPSocket::accept failed'' True else io_ret ret)"

text \<open>
  The loop of \<open>sendAll\<close>, with \<open>sent\<close> bytes already sent. It ends because every call of
  \<open>send\<close> takes an answer: with the last one it returns, throws or blocks.
\<close>

lemma base_send_answers:
  assumes "base_send s buf w = (Ret x, w')"
  shows "length (w_answers w') < length (w_answers w)"
  using assms unfolding base_send_def
proof (cases rule: io_bind_cases)
  case (1 k u)
  have "length (w_answers u) < length (w_answers w)"
    by (rule retry_answers [OF _ 1(1)])
      (auto simp: c_send_def on_fd_def on_answer_def Let_def split: answer.splits if_splits)
  moreover have "w_answers w' = w_answers u"
    using 1(2) by (auto simp: io_defs socket_exception_def split: if_splits)
  ultimately show ?thesis by simp
qed simp_all

function tcp_sendAll_from :: "u8 list \<Rightarrow> nat \<Rightarrow> base_socket \<Rightarrow> world \<Rightarrow> (halt, int \<times> base_socket) exec \<times> world" where
  "tcp_sendAll_from buf sent s w =
     (if sent = length buf then (Ret (int_of_size sent, s), w)
      else case base_send s (drop sent buf) w of
             (Ret (ret, s'), w') \<Rightarrow>
               if ret < 0 then (Ret (ret, s'), w') else tcp_sendAll_from buf (sent + nat ret) s' w'
           | (Stop e, w') \<Rightarrow> (Stop e, w')
           | (UB, w') \<Rightarrow> (UB, w'))"
  by pat_completeness auto

termination
  by (relation "measure (\<lambda>(buf, sent, s, w). length (w_answers w))")
    (auto dest: base_send_answers [OF sym])

declare tcp_sendAll_from.simps [simp del]

definition tcp_sendAll :: "base_socket \<Rightarrow> u8 list \<Rightarrow> (int \<times> base_socket) io" where
  "tcp_sendAll s buf w = tcp_sendAll_from buf 0 s w"

section \<open>What is sent\<close>

text \<open>\<open>n\<close> bytes of the buffer are out when the loop that began with \<open>sent\<close> is left.\<close>

definition all_sent :: "u8 list \<Rightarrow> nat \<Rightarrow> base_socket \<Rightarrow> world \<Rightarrow> (halt, int \<times> base_socket) exec \<Rightarrow> world \<Rightarrow> nat \<Rightarrow> bool" where
  "all_sent buf sent s w r w' n \<longleftrightarrow>
     sent \<le> n \<and> n \<le> length buf \<and> w_open w' = w_open w \<and>
     w_sent w' = (w_sent w)(bs_socket s := w_sent w (bs_socket s) @ take (n - sent) (drop sent buf)) \<and>
     (case r of
        Ret (k, s') \<Rightarrow>
          (if n = length buf then k = int_of_size (length buf) \<and> s' = s
           else k = -1 \<and> s' = s\<lparr>bs_peerDisconnected := True\<rparr> \<and> w_errno w' \<in> {ECONNRESET, ECONNREFUSED})
      | Stop (Thrown what e) \<Rightarrow> n < length buf \<and> e \<notin> {EINTR, ECONNRESET, ECONNREFUSED}
      | Stop Blocked \<Rightarrow> n < length buf
      | _ \<Rightarrow> False)"

lemma all_sent_from:
  "sent \<le> length buf \<Longrightarrow> bs_socket s \<in> set (w_open w) \<Longrightarrow>
   tcp_sendAll_from buf sent s w = (r, w') \<Longrightarrow> \<exists>n. all_sent buf sent s w r w' n"
proof (induction buf sent s w rule: tcp_sendAll_from.induct)
  case (1 buf sent s w)
  show ?case
  proof (cases "sent = length buf")
    case True
    with 1(4) show ?thesis
      by (intro exI [of _ sent]) (auto simp: all_sent_def tcp_sendAll_from.simps)
  next
    case False
    then have short: "sent < length buf" using "1.prems"(1) by simp
    obtain q u where q: "base_send s (drop sent buf) w = (q, u)" by fastforce
    note res = base_send_result [OF "1.prems"(2) q, unfolded send_result_def]
    show ?thesis
    proof (cases "\<exists>k. q = Ret (k, s) \<and> 0 \<le> k")
      case True
      then obtain k where k: "q = Ret (k, s)" "0 \<le> k" by blast
      with res have part: "nat k \<le> length buf - sent" "w_open u = w_open w"
        "w_sent u = (w_sent w)(bs_socket s := w_sent w (bs_socket s) @ take (nat k) (drop sent buf))"
        by (auto split: if_splits)
      from False k q 1(4) have "tcp_sendAll_from buf (sent + nat k) s u = (r, w')"
        by (subst (asm) tcp_sendAll_from.simps) simp
      moreover have "sent + nat k \<le> length buf" using part(1) short by linarith
      ultimately obtain n where n: "all_sent buf (sent + nat k) s u r w' n"
        using "1.IH" [OF False q [symmetric] k(1) refl] k(2) part(2) "1.prems"(2) by auto
      then have "sent + nat k \<le> n" by (simp add: all_sent_def)
      then have "take (nat k) (drop sent buf) @ take (n - (sent + nat k)) (drop (sent + nat k) buf)
          = take (n - sent) (drop sent buf)"
        using take_add [of "nat k" "n - (sent + nat k)" "drop sent buf"] by (simp add: add.commute)
      with n part show ?thesis by (intro exI [of _ n]) (auto simp: all_sent_def split: exec.splits)
    next
      case no_part: False
      with res False q 1(4) short show ?thesis
        by (intro exI [of _ sent])
          (auto simp: all_sent_def tcp_sendAll_from.simps split: exec.splits halt.splits if_splits)
    qed
  qed
qed

text \<open>With enough answers that take at least a byte each, \<open>sendAll\<close> does not block.\<close>

definition takes_some :: "answer \<Rightarrow> bool" where
  "takes_some a \<longleftrightarrow> (case a of Ok n bs x \<Rightarrow> 0 < n | Err e \<Rightarrow> False)"

lemma base_send_takes:
  assumes "bs_socket s \<in> set (w_open w)" and "w_answers w = a # as" and "takes_some a" and "buf \<noteq> []"
  shows "\<exists>k u. base_send s buf w = (Ret (k, s), u) \<and> 0 < k \<and> nat k \<le> length buf
    \<and> w_answers u = as \<and> w_open u = w_open w"
  using assms
  by (cases a) (auto simp: takes_some_def base_send_def io_defs TEMP_FAILURE_RETRY_def c_send_def on_fd_def
      on_answer_def Let_def length_greater_0_conv [symmetric] simp del: length_greater_0_conv)

lemma sendAll_from_returns:
  "sent \<le> length buf \<Longrightarrow> bs_socket s \<in> set (w_open w) \<Longrightarrow> length buf - sent \<le> length (w_answers w) \<Longrightarrow>
   \<forall>a \<in> set (w_answers w). takes_some a \<Longrightarrow>
   \<exists>w'. tcp_sendAll_from buf sent s w = (Ret (int_of_size (length buf), s), w')"
proof (induction buf sent s w rule: tcp_sendAll_from.induct)
  case (1 buf sent s w)
  show ?case
  proof (cases "sent = length buf")
    case True
    then show ?thesis by (simp add: tcp_sendAll_from.simps)
  next
    case False
    with "1.prems" obtain a as where a: "w_answers w = a # as" "takes_some a" "drop sent buf \<noteq> []"
      by (cases "w_answers w") auto
    from base_send_takes [OF "1.prems"(2) a] obtain k u where k:
      "base_send s (drop sent buf) w = (Ret (k, s), u)" "0 < k" "nat k \<le> length buf - sent"
      "w_answers u = as" "w_open u = w_open w" by auto
    have "\<exists>w'. tcp_sendAll_from buf (sent + nat k) s u = (Ret (int_of_size (length buf), s), w')"
      by (rule "1.IH" [OF False k(1) [symmetric] refl refl]) (use "1.prems" k a in auto)
    with False k show ?thesis by (subst tcp_sendAll_from.simps) simp
  qed
qed

section \<open>Properties\<close>



end
