(* ===== verification/Internet_Socket.thy ===== *)
theory Internet_Socket
  imports Base_Socket
begin

text \<open>
  \<open>net/internet_socket.cpp\<close>, \<open>net/udp_socket.cpp\<close> and \<open>net/socket_utils.cpp\<close> of
  \<open>day3/socknet\<close>: addresses, names and datagrams over the internet. Hosts and services are
  looked up in tables of the system. An address of a host is a word in network byte order.
\<close>

section \<open>Texts of addresses\<close>

text \<open>\<open>inet_ntoa\<close>: the four bytes, the lowest first.\<close>

definition inet_ntoa :: "u32 \<Rightarrow> string" where
  "inet_ntoa a =
     (let byte = (\<lambda>i. show_int (uint (drop_bit (8 * i) a) mod 256))
      in byte 0 @ ''.'' @ byte 1 @ ''.'' @ byte 2 @ ''.'' @ byte 3)"

text \<open>Only the cases of an address the class handles; no other comes back for its sockets.\<close>

fun inet_addr_of :: "saddr \<Rightarrow> u32" where
  "inet_addr_of (Inet a p) = a"
| "inet_addr_of x = 0"

fun inet_port_of :: "saddr \<Rightarrow> u16" where
  "inet_port_of (Inet a p) = p"
| "inet_port_of x = 0"

section \<open>The class internet_socket\<close>

definition internet_socket_ctor :: "int \<Rightarrow> int \<Rightarrow> base_socket io" where
  "internet_socket_ctor type protocol = base_socket_ctor INTERNET type protocol"

definition internet_socket_of :: "int \<Rightarrow> base_socket io" where
  "internet_socket_of sockfd = base_socket_of sockfd"

definition inet_fillAddress :: "string \<Rightarrow> u16 \<Rightarrow> saddr io" where
  "inet_fillAddress address port =
     io_bind (io_get (\<lambda>w. w_aton w address)) (\<lambda>numbers.
       case numbers of
         Some a \<Rightarrow> io_ret (Inet a (htons port))
       | None \<Rightarrow>
           io_bind (io_get (\<lambda>w. w_hosts w address)) (\<lambda>host.
             case host of
               None \<Rightarrow> socket_exception ''Failed to resolve address (gethostbyname)'' True
             | Some a \<Rightarrow> io_ret (Inet a (htons port))))"

definition inet_connect :: "base_socket \<Rightarrow> string \<Rightarrow> u16 \<Rightarrow> base_socket io" where
  "inet_connect s foreignAddress foreignPort =
     io_bind (inet_fillAddress foreignAddress foreignPort) (\<lambda>addr.
     io_bind (sys (c_connect (bs_socket s) addr)) (\<lambda>r.
       if r < 0 then socket_exception ''Connect failed (connect)'' True
       else io_ret (s\<lparr>bs_peerDisconnected := False\<rparr>)))"

definition inet_bind_port :: "base_socket \<Rightarrow> u16 \<Rightarrow> unit io" where
  "inet_bind_port s localPort =
     io_bind (sys (c_bind (bs_socket s) (Inet 0 (htons localPort)))) (\<lambda>r.
       if r < 0 then socket_exception ''Set of local port failed (bind)'' True else io_ret ())"

definition inet_bind :: "base_socket \<Rightarrow> string \<Rightarrow> u16 \<Rightarrow> unit io" where
  "inet_bind s localAddress localPort =
     io_bind (inet_fillAddress localAddress localPort) (\<lambda>addr.
     io_bind (sys (c_bind (bs_socket s) addr)) (\<lambda>r.
       if r < 0 then socket_exception ''Set of local address and port failed (bind)'' True
       else io_ret ()))"

definition getLocalAddress :: "base_socket \<Rightarrow> string io" where
  "getLocalAddress s =
     io_bind (sys (c_getsockname (bs_socket s))) (\<lambda>(r, addr).
       if r < 0 then socket_exception ''Fetch of local address failed (getsockname)'' True
       else io_ret (inet_ntoa (inet_addr_of addr)))"

definition getLocalPort :: "base_socket \<Rightarrow> u16 io" where
  "getLocalPort s =
     io_bind (sys (c_getsockname (bs_socket s))) (\<lambda>(r, addr).
       if r < 0 then socket_exception ''Fetch of local port failed (getsockname)'' True
       else io_ret (ntohs (inet_port_of addr)))"

definition getForeignAddress :: "base_socket \<Rightarrow> string io" where
  "getForeignAddress s =
     io_bind (sys (c_getpeername (bs_socket s))) (\<lambda>(r, addr).
       if r < 0 then socket_exception ''Fetch of foreign address failed (getpeername)'' True
       else io_ret (inet_ntoa (inet_addr_of addr)))"

definition getForeignPort :: "base_socket \<Rightarrow> u16 io" where
  "getForeignPort s =
     io_bind (sys (c_getpeername (bs_socket s))) (\<lambda>(r, addr).
       if r < 0 then socket_exception ''Fetch of foreign port failed (getpeername)'' True
       else io_ret (ntohs (inet_port_of addr)))"

section \<open>Datagrams\<close>

text \<open>The constructor asks for broadcasts and ignores the answer.\<close>

definition setBroadcast :: "int \<Rightarrow> int io" where
  "setBroadcast sock = sys (c_setsockopt sock SO_BROADCAST [1])"

definition udp_socket_ctor :: "base_socket io" where
  "udp_socket_ctor =
     io_bind (internet_socket_ctor DATAGRAM 17) (\<lambda>s.
     io_bind (setBroadcast (bs_socket s)) (\<lambda>_. io_ret s))"

text \<open>An address \<open>inet_addr\<close> cannot read is the one of all ones.\<close>

definition groupAction :: "int \<Rightarrow> string \<Rightarrow> sockopt \<Rightarrow> int io" where
  "groupAction sock multicastGroup action =
     io_bind (io_get (\<lambda>w. w_aton w multicastGroup)) (\<lambda>a.
       sys (c_setsockopt sock action [case a of Some n \<Rightarrow> n | None \<Rightarrow> -1, 0]))"

definition joinGroup :: "base_socket \<Rightarrow> string \<Rightarrow> unit io" where
  "joinGroup s multicastGroup =
     io_bind (groupAction (bs_socket s) multicastGroup IP_ADD_MEMBERSHIP) (\<lambda>r.
       if r < 0 then socket_exception ''Multicast group join failed (setsockopt)'' True else io_ret ())"

definition leaveGroup :: "base_socket \<Rightarrow> string \<Rightarrow> unit io" where
  "leaveGroup s multicastGroup =
     io_bind (groupAction (bs_socket s) multicastGroup IP_DROP_MEMBERSHIP) (\<lambda>r.
       if r < 0 then socket_exception ''Multicast group leave failed (setsockopt)'' True else io_ret ())"

definition udp_sendTo :: "base_socket \<Rightarrow> u8 list \<Rightarrow> string \<Rightarrow> u16 \<Rightarrow> unit io" where
  "udp_sendTo s buf foreignAddress foreignPort =
     io_bind (inet_fillAddress foreignAddress foreignPort) (\<lambda>destAddr.
     io_bind (TEMP_FAILURE_RETRY (\<lambda>x. x) (c_sendto (bs_socket s) buf destAddr)) (\<lambda>sent.
       if sent \<noteq> int_of_size (length buf) then socket_exception ''Send failed (sendto)'' True
       else io_ret ()))"

definition udp_receiveFrom :: "base_socket \<Rightarrow> nat \<Rightarrow> (int \<times> u8 list \<times> string \<times> u16) io" where
  "udp_receiveFrom s len =
     io_bind (TEMP_FAILURE_RETRY fst (c_recvfrom (bs_socket s) len)) (\<lambda>(ret, data, clientAddr).
       if ret < 0 then socket_exception ''Receive failed (recvfrom)'' True
       else io_ret (ret, data, inet_ntoa (inet_addr_of clientAddr), ntohs (inet_port_of clientAddr)))"

definition setMulticastTTL :: "base_socket \<Rightarrow> u8 \<Rightarrow> unit io" where
  "setMulticastTTL s multicastTTL =
     io_bind (sys (c_setsockopt (bs_socket s) IP_MULTICAST_TTL [ucast multicastTTL])) (\<lambda>r.
       if r < 0 then socket_exception ''Multicast set TTL failed (setsockopt)'' True else io_ret ())"

section \<open>Host and service names\<close>

definition resolveService :: "(string \<Rightarrow> string option \<Rightarrow> u16 option) \<Rightarrow> string \<Rightarrow> string \<Rightarrow> u16" where
  "resolveService getservbyname service protocol =
     (case getservbyname service (if protocol = '''' then None else Some protocol) of
        Some s_port \<Rightarrow> ntohs s_port
      | None \<Rightarrow> 0)"

text \<open>
  \<open>resolveHostname\<close> takes the bytes of the host's address, the lowest first, for a C string: the
  characters up to the first zero byte, and beyond the address if there is none.
\<close>

definition address_bytes :: "u32 \<Rightarrow> u8 list" where
  "address_bytes a = map (\<lambda>i. ucast (drop_bit (8 * i) a)) [0..<4]"

definition resolveHostname :: "string \<Rightarrow> string io" where
  "resolveHostname hostname =
     io_bind (io_get (\<lambda>w. w_hosts w hostname)) (\<lambda>host.
       case host of
         None \<Rightarrow> socket_exception ''Failed to resolve address (gethostbyname)'' False
       | Some h_addr \<Rightarrow>
           if 0 \<in> set (address_bytes h_addr)
           then io_ret (map byte_char (takeWhile (\<lambda>b. b \<noteq> 0) (address_bytes h_addr)))
           else (\<lambda>w. (UB, w)))"

section \<open>What the methods do when they return\<close>

definition resolves :: "world \<Rightarrow> string \<Rightarrow> u32 \<Rightarrow> bool" where
  "resolves w host a \<longleftrightarrow> w_aton w host = Some a \<or> (w_aton w host = None \<and> w_hosts w host = Some a)"

lemma inet_fillAddress_Ret:
  "inet_fillAddress host port w = (Ret x, w') \<Longrightarrow>
   w' = w \<and> (\<exists>a. resolves w host a \<and> x = Inet a (htons port))"
  by (auto simp: inet_fillAddress_def io_defs socket_exception_def resolves_def split: option.splits)

text \<open>
  A host that is not found is reported with the error number some earlier call has left:
  the look-up itself sets none.
\<close>

lemma inet_fillAddress_unknown:
  "w_aton w host = None \<Longrightarrow> w_hosts w host = None \<Longrightarrow>
   inet_fillAddress host port w =
     (Stop (Thrown (''Failed to resolve address (gethostbyname)'' @ '': '' @ w_strerror w (w_errno w)) (w_errno w)), w)"
  by (simp add: inet_fillAddress_def io_defs socket_exception_def)

text \<open>
  \<open>resolveHostname\<close> never gives the text of an address: what it gives, when it is defined, has at
  most three characters, and an address no byte of which is zero is read past its end.
\<close>

lemma resolveHostname_no_text:
  assumes "w_hosts w hostname = Some a"
  shows "fst (resolveHostname hostname w) \<noteq> Ret (inet_ntoa a)"
    and "fst (resolveHostname hostname w) = UB \<longleftrightarrow> 0 \<notin> set (address_bytes a)"
proof -
  have digits: "0 < length (show_int n)" for n
    by (simp add: show_int_def show_nat.simps)
  have "length (inet_ntoa a) = 3 + (\<Sum>i \<in> {0, 1, 2, 3}. length (show_int (uint (drop_bit (8 * i) a) mod 256)))"
    by (simp add: inet_ntoa_def Let_def)
  also have "\<dots> \<ge> 3 + (\<Sum>i \<in> {0, 1, 2, 3 :: nat}. 1)"
    by (intro add_left_mono sum_mono) (use digits in \<open>simp add: Suc_le_eq\<close>)
  finally have long: "7 \<le> length (inet_ntoa a)" by simp
  have "length (takeWhile (\<lambda>b. b \<noteq> 0) (address_bytes a)) \<le> 4"
    using length_takeWhile_le [of "\<lambda>b. b \<noteq> 0" "address_bytes a"] by (simp add: address_bytes_def)
  with long show "fst (resolveHostname hostname w) \<noteq> Ret (inet_ntoa a)"
    using assms by (auto simp: resolveHostname_def io_defs dest: arg_cong [where f = length])
  show "fst (resolveHostname hostname w) = UB \<longleftrightarrow> 0 \<notin> set (address_bytes a)"
    using assms by (simp add: resolveHostname_def io_defs)
qed

lemma bind_inet_name:
  assumes "sys (c_bind fd (Inet a p)) w = (Ret r, w')" and "0 \<le> r"
  shows "(\<exists>q. w_name w' fd = Inet a q \<and> (p = 0 \<or> q = p)) \<and> w_open w' = w_open w"
  using assms by (auto elim!: sys_Ret simp: c_bind_def on_fd_def on_answer_def split: if_splits answer.splits)

lemma inet_bind_Ret:
  assumes "inet_bind s host port w = (Ret u, w')"
  shows "\<exists>a p. resolves w host a \<and> w_name w' (bs_socket s) = Inet a p \<and> (port = 0 \<or> p = htons port)
    \<and> w_open w' = w_open w"
  using assms unfolding inet_bind_def
proof (cases rule: io_bind_cases)
  case (1 x v)
  from inet_fillAddress_Ret [OF 1(1)] obtain a where a: "v = w" "resolves w host a" "x = Inet a (htons port)"
    by blast
  from 1(2) show ?thesis
  proof (cases rule: io_bind_cases)
    case (1 r v')
    then have "0 \<le> r" "v' = w'" by (auto simp: io_defs socket_exception_def split: if_splits)
    then show ?thesis using 1 a bind_inet_name [of "bs_socket s" a "htons port" w r w'] by fastforce
  qed simp_all
qed simp_all

lemma inet_connect_Ret:
  assumes "inet_connect s host port w = (Ret s', w')"
  shows "\<exists>a. resolves w host a \<and> w_peer w' (bs_socket s) = Inet a (htons port)
    \<and> s' = s\<lparr>bs_peerDisconnected := False\<rparr> \<and> w_open w' = w_open w"
  using assms unfolding inet_connect_def
proof (cases rule: io_bind_cases)
  case (1 x v)
  from inet_fillAddress_Ret [OF 1(1)] obtain a where a: "v = w" "resolves w host a" "x = Inet a (htons port)"
    by blast
  from 1(2) show ?thesis
  proof (cases rule: io_bind_cases)
    case (1 r v')
    then have r: "\<not> r < 0" "v' = w'" "s' = s\<lparr>bs_peerDisconnected := False\<rparr>"
      by (auto simp: io_defs socket_exception_def split: if_splits)
    from 1(1) show ?thesis
      by (rule sys_Ret) (use a r in \<open>auto simp: c_connect_def on_fd_def on_answer_def split: if_splits answer.splits\<close>)
  qed simp_all
qed simp_all

lemmas getter_defs = getLocalPort_def getLocalAddress_def getForeignPort_def getForeignAddress_def

text \<open>The four getters, on an open descriptor, read the names the system keeps.\<close>

lemma getters_Ret:
  assumes "bs_socket s \<in> set (w_open w)"
  shows "getLocalPort s w = (Ret p, w') \<Longrightarrow> p = ntohs (inet_port_of (w_name w (bs_socket s)))"
    and "getLocalAddress s w = (Ret h, w') \<Longrightarrow> h = inet_ntoa (inet_addr_of (w_name w (bs_socket s)))"
    and "getForeignPort s w = (Ret p, w') \<Longrightarrow> p = ntohs (inet_port_of (w_peer w (bs_socket s)))"
    and "getForeignAddress s w = (Ret h, w') \<Longrightarrow> h = inet_ntoa (inet_addr_of (w_peer w (bs_socket s)))"
  using assms
  by (auto simp: getter_defs io_defs sys_def socket_exception_def call_defs
      split: list.splits answer.splits if_splits prod.splits)

section \<open>Properties\<close>


text \<open>A process in a system that reads one address, 127.0.0.1.\<close>

definition local_world :: "answer list \<Rightarrow> world" where
  "local_world as =
     (start_world as)\<lparr>w_aton := (\<lambda>s. if s = ''127.0.0.1'' then Some 16777343 else None)\<rparr>"


text \<open>The address 127.0.0.1 comes back as one character, with the code 127.\<close>

lemma resolveHostname_localhost:
  "w_hosts w host = Some 16777343 \<Longrightarrow> fst (resolveHostname host w) = Ret [CHR 0x7F]"
proof -
  have "address_bytes 16777343 = [127, 0, 0, 1]" "byte_char 127 = CHR 0x7F" by code_simp+
  moreover assume "w_hosts w host = Some 16777343"
  ultimately show ?thesis by (simp add: resolveHostname_def io_defs)
qed

text \<open>
  \<open>sendTo\<close> of a datagram socket sends the whole message once, to the address the host
  resolves to, however often the call is interrupted; if it throws or blocks, nothing was
  sent.
\<close>

theorem udp_sendTo_once:
  assumes "bs_socket s \<in> set (w_open w)" and "length buf < 2 ^ 31"
    and "udp_sendTo s buf host port w = (r, w')"
  shows "case r of
      Ret u \<Rightarrow> \<exists>a. resolves w host a \<and> w_grams w' = w_grams w @ [(bs_socket s, buf, Inet a (htons port))]
    | Stop e \<Rightarrow> w_grams w' = w_grams w
    | UB \<Rightarrow> False"
  using assms(3) unfolding udp_sendTo_def
proof (cases rule: io_bind_cases)
  case (1 x v)
  from inet_fillAddress_Ret [OF 1(1)] obtain a where a: "v = w" "resolves w host a" "x = Inet a (htons port)"
    by blast
  note once = sendto_once [OF assms(1), of buf x]
  from 1(2) [unfolded a(1)] show ?thesis
  proof (cases rule: io_bind_cases)
    case (1 k v')
    with once have k: "if k = int (length buf) then w_grams v' = w_grams w @ [(bs_socket s, buf, x)]
        else k = -1 \<and> w_grams v' = w_grams w" by simp
    have "int_of_size (length buf) = int (length buf)" using assms(2) by (rule int_of_size_small)
    with 1(2) k a(2,3) show ?thesis by (auto simp: io_ret_def socket_exception_def split: if_splits)
  next
    case (2 e)
    with once show ?thesis by simp
  next
    case 3
    with once show ?thesis by simp
  qed
qed (auto simp: inet_fillAddress_def io_defs socket_exception_def split: option.splits)

theorem udp_sendTo_once_witness:
  "\<exists>w'. udp_sendTo \<lparr>bs_socket = 2, bs_peerDisconnected = False\<rparr> [7, 8] ''127.0.0.1'' 53
      (local_world [Err EINTR, Ok 0 [] Unnamed]) = (Ret (), w')
    \<and> length (w_grams w') = 1"
proof -
  let ?s = "\<lparr>bs_socket = 2, bs_peerDisconnected = False\<rparr>"
  let ?w = "local_world [Err EINTR, Ok 0 [] Unnamed]"
  obtain r w' where run: "udp_sendTo ?s [7, 8] ''127.0.0.1'' 53 ?w = (r, w')" by (rule prod.exhaust)
  have "fst (udp_sendTo ?s [7, 8] ''127.0.0.1'' 53 ?w) = Ret ()" by code_simp
  with run have r: "r = Ret ()" by simp
  have "bs_socket ?s \<in> set (w_open ?w)" "w_grams ?w = []" by (simp_all add: local_world_def start_world_def)
  with udp_sendTo_once [OF _ _ run] r run show ?thesis by auto
qed

end
