(* ===== verification/Unix_Socket.thy ===== *)
theory Unix_Socket
  imports Base_Socket
begin

text \<open>
  \<open>net/unix_socket.cpp\<close> and \<open>net/unix_datagram_socket.cpp\<close> of \<open>day3/socknet\<close>: sockets named
  by paths. The system reports a path with the length of its address; a socket without a
  name has an address of two bytes, or none at all when a datagram came from it.
\<close>

section \<open>Addresses\<close>

text \<open>The text of a string up to its first null character.\<close>

definition c_str :: "string \<Rightarrow> string" where
  "c_str s = takeWhile (\<lambda>c. c \<noteq> CHR 0x00) s"

definition unix_fillAddress :: "string \<Rightarrow> saddr io" where
  "unix_fillAddress path =
     (if 108 \<le> length path then socket_exception ''Path to socket file is too long'' True
      else io_ret (Path (c_str path)))"

text \<open>The characters of an address and its length as the system reports them.\<close>

fun sun_path :: "saddr \<Rightarrow> string" where
  "sun_path (Path p) = p"
| "sun_path x = []"

fun sockaddr_len :: "nat \<Rightarrow> saddr \<Rightarrow> nat" where
  "sockaddr_len unnamed (Path p) = 2 + length p + 1"
| "sockaddr_len unnamed x = unnamed"

text \<open>
  The length of the string is computed without a sign; \<open>std::string\<close> throws when it is more
  than a string can hold.
\<close>

definition extractPath :: "saddr \<Rightarrow> nat \<Rightarrow> string io" where
  "extractPath addr len =
     (let n = (int len - 2 - 1) mod 2 ^ 64
      in if 2 ^ 62 \<le> n then io_stop Length_error else io_ret (take (nat n) (sun_path addr)))"

section \<open>The class unix_socket\<close>

definition unix_socket_ctor :: "int \<Rightarrow> int \<Rightarrow> base_socket io" where
  "unix_socket_ctor type protocol = base_socket_ctor UNIX type protocol"

definition getLocalPath :: "base_socket \<Rightarrow> string io" where
  "getLocalPath s =
     io_bind (sys (c_getsockname (bs_socket s))) (\<lambda>(r, addr).
       if r < 0 then socket_exception ''Fetch of local path failed (getsockname)'' True
       else extractPath addr (sockaddr_len 2 addr))"

definition getForeignPath :: "base_socket \<Rightarrow> string io" where
  "getForeignPath s =
     io_bind (sys (c_getpeername (bs_socket s))) (\<lambda>(r, addr).
       if r < 0 then socket_exception ''Fetch of foreign path failed (getpeername)'' True
       else extractPath addr (sockaddr_len 2 addr))"

text \<open>The destructor removes the file, and the one of the base class closes the socket.\<close>

definition unix_socket_dtor :: "base_socket \<Rightarrow> unit io" where
  "unix_socket_dtor s =
     io_bind (getLocalPath s) (\<lambda>path.
     io_bind (unix_fillAddress path) (\<lambda>addr.
     io_bind (sys (c_unlink (sun_path addr))) (\<lambda>_. base_socket_dtor s)))"

definition unix_connect :: "base_socket \<Rightarrow> string \<Rightarrow> unit io" where
  "unix_connect s foreignPath =
     io_bind (unix_fillAddress foreignPath) (\<lambda>addr.
     io_bind (sys (c_connect (bs_socket s) addr)) (\<lambda>r.
       if r < 0 then socket_exception ''Connect failed (connect)'' True else io_ret ()))"

definition unix_bind :: "base_socket \<Rightarrow> string \<Rightarrow> unit io" where
  "unix_bind s localPath =
     io_bind (unix_fillAddress localPath) (\<lambda>addr.
     io_bind (sys (c_unlink (sun_path addr))) (\<lambda>_.
     io_bind (sys (c_bind (bs_socket s) addr)) (\<lambda>r.
       if r < 0 then socket_exception ''Set of local path failed (bind)'' True else io_ret ())))"

section \<open>Datagrams\<close>

definition unix_datagram_socket_ctor :: "base_socket io" where
  "unix_datagram_socket_ctor = unix_socket_ctor DATAGRAM 0"

definition unix_sendTo :: "base_socket \<Rightarrow> u8 list \<Rightarrow> string \<Rightarrow> unit io" where
  "unix_sendTo s buf foreignPath =
     io_bind (unix_fillAddress foreignPath) (\<lambda>destAddr.
     io_bind (TEMP_FAILURE_RETRY (\<lambda>x. x) (c_sendto (bs_socket s) buf destAddr)) (\<lambda>sent.
       if sent \<noteq> int_of_size (length buf) then socket_exception ''Send failed (sendto)'' True
       else io_ret ()))"

definition unix_receiveFrom :: "base_socket \<Rightarrow> nat \<Rightarrow> (int \<times> u8 list \<times> string) io" where
  "unix_receiveFrom s len =
     io_bind (TEMP_FAILURE_RETRY fst (c_recvfrom (bs_socket s) len)) (\<lambda>(ret, data, clientAddr).
       if ret < 0 then socket_exception ''Receive failed (recvfrom)'' True
       else io_bind (extractPath clientAddr (sockaddr_len 0 clientAddr)) (\<lambda>sourcePath.
              io_ret (ret, data, sourcePath)))"

section \<open>Paths\<close>

text \<open>A path the class can name a socket by.\<close>

definition path_ok :: "string \<Rightarrow> bool" where
  "path_ok p \<longleftrightarrow> p \<noteq> [] \<and> length p < 108 \<and> CHR 0x00 \<notin> set p"

lemma c_str_ok: "path_ok p \<Longrightarrow> c_str p = p"
  by (auto simp: path_ok_def c_str_def takeWhile_eq_all_conv)

lemma fillAddress_ok: "path_ok p \<Longrightarrow> unix_fillAddress p = io_ret (Path p)"
  by (simp add: unix_fillAddress_def c_str_ok) (simp add: path_ok_def)

lemma extractPath_ok: "path_ok p \<Longrightarrow> extractPath (Path p) (sockaddr_len n (Path p)) = io_ret p"
  by (simp add: extractPath_def path_ok_def)

text \<open>Without a name the length of the path underflows.\<close>

lemma extractPath_unnamed: "n < 3 \<Longrightarrow> extractPath Unnamed (sockaddr_len n Unnamed) = io_stop Length_error"
  by (auto simp: extractPath_def less_Suc_eq numeral_eq_Suc)

section \<open>Descriptors of the class\<close>

lemma keeps_extractPath [keeps_intros]: "keeps f (extractPath addr len)"
  by (simp add: extractPath_def Let_def keeps_pure)

lemma keeps_unix_fillAddress [keeps_intros]: "keeps f (unix_fillAddress path)"
  by (simp add: unix_fillAddress_def keeps_pure keeps_exception)

lemma unix_keeps_open [keeps_intros]:
  "keeps w_open (getLocalPath s)" "keeps w_open (unix_bind s path)"
  "keeps w_open (unix_sendTo s buf path)" "keeps w_open (unix_receiveFrom s len)"
  unfolding getLocalPath_def unix_bind_def unix_sendTo_def unix_receiveFrom_def
  by (auto intro!: keeps_intros split: prod.split)

lemma unix_socket_ctor_opens: "opens bs_socket (unix_socket_ctor type protocol)"
  unfolding unix_socket_ctor_def by (rule base_socket_ctor_opens)

lemma unix_socket_dtor_releases: "releases (bs_socket s) (unix_socket_dtor s)"
  unfolding unix_socket_dtor_def by (intro releases_bind keeps_intros base_socket_dtor_releases)

interpretation unix_class: socket_class "unix_socket_ctor type protocol" unix_socket_dtor bs_socket
  for type protocol
  by unfold_locales (rule unix_socket_ctor_opens unix_socket_dtor_releases)+

section \<open>Properties\<close>

definition ok_answer :: "answer \<Rightarrow> bool" where
  "ok_answer a \<longleftrightarrow> (\<exists>n bs x. a = Ok n bs x)"

lemma unix_bind_Ret:
  assumes "unix_bind s p w = (Ret u, w')" and "path_ok p" and "bs_socket s \<in> set (w_open w)"
  shows "w_name w' (bs_socket s) = Path p \<and> p \<in> set (w_files w') \<and> w_open w' = w_open w"
  using assms
  by (auto simp: unix_bind_def fillAddress_ok io_defs socket_exception_def sys_def c_bind_def c_unlink_def
      on_fd_def on_answer_def split: list.splits prod.splits answer.splits if_splits)

lemma getLocalPath_bound:
  assumes "w_name w (bs_socket s) = Path p" and "path_ok p" and "bs_socket s \<in> set (w_open w)"
    and "w_answers w = a # as" and "ok_answer a"
  shows "getLocalPath s w = (Ret p, w\<lparr>w_answers := as\<rparr>)"
  using assms
  by (auto simp: getLocalPath_def io_bind_def sys_def c_getsockname_def on_fd_def on_answer_def
      ok_answer_def extractPath_ok io_ret_def simp del: sockaddr_len.simps)

lemma unlink_ok:
  assumes "w_answers w = a # as" and "ok_answer a"
  shows "\<exists>k w'. sys (c_unlink p) w = (Ret k, w') \<and> w_answers w' = as \<and> w_open w' = w_open w
    \<and> w_name w' = w_name w \<and> w_files w' = removeAll p (w_files w)"
  using assms by (auto simp: sys_def c_unlink_def on_answer_def ok_answer_def)

lemma close_ok:
  assumes "w_answers w = a # as" and "ok_answer a" and "bs_socket s \<in> set (w_open w)"
  shows "base_socket_dtor s w =
    (Ret (), w\<lparr>w_answers := as, w_open := removeAll (bs_socket s) (w_open w)\<rparr>)"
  using assms
  by (auto simp: base_socket_dtor_def io_bind_def TEMP_FAILURE_RETRY_def c_close_def on_answer_def
      ok_answer_def io_ret_def)

text \<open>
  C30: A path a socket is bound to comes back from \<open>getLocalPath\<close>, and as long as the system
  agrees, \<open>bind\<close> succeeds even over a file left behind, and the destructor removes the file
  and closes the socket, and nothing else.
\<close>

theorem unix_path_lifecycle:
  assumes "path_ok p" and "bs_socket s \<in> set (w_open w)"
  shows "(unix_bind s p w = (Ret u, w1) \<and> getLocalPath s w1 = (Ret q, w2) \<longrightarrow> q = p)
    \<and> (5 \<le> length (w_answers w) \<and> (\<forall>a \<in> set (take 5 (w_answers w)). ok_answer a) \<longrightarrow>
        (\<exists>w1 w2. unix_bind s p w = (Ret (), w1) \<and> w_files w1 = p # removeAll p (w_files w)
          \<and> unix_socket_dtor s w1 = (Ret (), w2) \<and> w_files w2 = removeAll p (w_files w)
          \<and> w_open w2 = removeAll (bs_socket s) (w_open w)))"
proof (intro conjI impI)
  assume run: "unix_bind s p w = (Ret u, w1) \<and> getLocalPath s w1 = (Ret q, w2)"
  with unix_bind_Ret [OF _ assms] have named: "w_name w1 (bs_socket s) = Path p" "bs_socket s \<in> set (w_open w1)"
    using assms(2) by auto
  from run have "sys (c_getsockname (bs_socket s)) w1 \<noteq> (Stop Blocked, w1)"
    by (auto simp: getLocalPath_def io_bind_def)
  then obtain a as where "w_answers w1 = a # as" by (auto simp: sys_def split: list.splits)
  with run named assms(1) getLocalPath_bound [OF named(1) assms(1) named(2)] show "q = p"
    by (cases a) (auto simp: ok_answer_def getLocalPath_def io_bind_def sys_def c_getsockname_def
        on_fd_def on_answer_def socket_exception_def)
next
  assume "5 \<le> length (w_answers w) \<and> (\<forall>a \<in> set (take 5 (w_answers w)). ok_answer a)"
  then obtain a b c d e as where ans: "w_answers w = a # b # c # d # e # as"
    and ok: "ok_answer a" "ok_answer b" "ok_answer c" "ok_answer d" "ok_answer e"
    by (auto simp: numeral_eq_Suc Suc_le_length_iff)
  from unlink_ok [OF ans ok(1), of p] obtain k v where v: "sys (c_unlink p) w = (Ret k, v)"
    "w_answers v = b # c # d # e # as" "w_open v = w_open w" "w_files v = removeAll p (w_files w)" by auto
  let ?w1 = "v\<lparr>w_answers := c # d # e # as, w_files := p # w_files v,
    w_name := (w_name v)(bs_socket s := Path p)\<rparr>"
  have bind: "unix_bind s p w = (Ret (), ?w1)"
    using v ok(2) assms
    by (auto simp: unix_bind_def fillAddress_ok io_bind_def io_ret_def sys_def c_bind_def on_fd_def
        on_answer_def ok_answer_def)
  have "getLocalPath s ?w1 = (Ret p, ?w1\<lparr>w_answers := d # e # as\<rparr>)"
    by (rule getLocalPath_bound [where a = c]) (use assms v ok in auto)
  moreover from unlink_ok [of "?w1\<lparr>w_answers := d # e # as\<rparr>" d "e # as" p] ok
  obtain k' v' where v': "sys (c_unlink p) (?w1\<lparr>w_answers := d # e # as\<rparr>) = (Ret k', v')"
    "w_answers v' = e # as" "w_open v' = w_open v" "w_files v' = removeAll p (p # w_files v)" by auto
  moreover from close_ok [OF v'(2) ok(5)] v' v assms
  have "base_socket_dtor s v' = (Ret (), v'\<lparr>w_answers := as, w_open := removeAll (bs_socket s) (w_open v')\<rparr>)"
    by simp
  ultimately have "unix_socket_dtor s ?w1 =
      (Ret (), v'\<lparr>w_answers := as, w_open := removeAll (bs_socket s) (w_open v')\<rparr>)"
    using assms(1) by (simp add: unix_socket_dtor_def io_bind_def io_ret_def fillAddress_ok)
  with bind v v' show "\<exists>w1 w2. unix_bind s p w = (Ret (), w1) \<and> w_files w1 = p # removeAll p (w_files w)
      \<and> unix_socket_dtor s w1 = (Ret (), w2) \<and> w_files w2 = removeAll p (w_files w)
      \<and> w_open w2 = removeAll (bs_socket s) (w_open w)" by auto
qed

theorem unix_path_lifecycle_witness:
  "\<exists>w1 w2. unix_bind \<lparr>bs_socket = 2, bs_peerDisconnected = False\<rparr> ''/tmp/s''
      ((start_world (replicate 5 (Ok 0 [] Unnamed)))\<lparr>w_files := [''/tmp/s'']\<rparr>) = (Ret (), w1)
    \<and> unix_socket_dtor \<lparr>bs_socket = 2, bs_peerDisconnected = False\<rparr> w1 = (Ret (), w2)
    \<and> w_files w2 = [] \<and> w_open w2 = [1, 0]"
proof -
  let ?s = "\<lparr>bs_socket = 2, bs_peerDisconnected = False\<rparr>"
  let ?w = "(start_world (replicate 5 (Ok 0 [] Unnamed)))\<lparr>w_files := [''/tmp/s'']\<rparr>"
  have "path_ok ''/tmp/s''" "bs_socket ?s \<in> set (w_open ?w)"
    by (simp_all add: path_ok_def start_world_def)
  from unix_path_lifecycle [OF this, THEN conjunct2] show ?thesis
    by (auto simp: start_world_def ok_answer_def)
qed

end
