(* ===== verification/Net_Programs.thy ===== *)
theory Net_Programs
  imports Tcp_Socket Internet_Socket Unix_Socket
begin

text \<open>
  The programs of \<open>day3/socknet\<close> over the socket classes: the TCP server with one client and
  the one with a thread for each, the TCP client, and the server and client of datagrams
  named by paths. What a program prints is kept as lines of text.
\<close>

section \<open>Texts and buffers\<close>

definition bytes_of :: "string \<Rightarrow> u8 list" where
  "bytes_of s = map of_char s"

text \<open>Printing a buffer as text reads on until a null byte, out of the buffer if it has none.\<close>

definition print_buffer :: "string \<Rightarrow> u8 list \<Rightarrow> unit io" where
  "print_buffer before buf w =
     (if 0 \<in> set buf
      then (Ret (), w\<lparr>w_out := w_out w @ [before @ map byte_char (takeWhile (\<lambda>b. b \<noteq> 0) buf)]\<rparr>)
      else (UB, w))"

text \<open>The handler all programs share: the message, and status 1.\<close>

definition report :: "string \<Rightarrow> int io" where
  "report what = io_bind (io_print what) (\<lambda>_. io_ret 1)"

section \<open>TCP\<close>

definition send_msg :: "u8 list" where
  "send_msg = bytes_of (''Shut up and take my money!'' @ [CHR 0x00])"

definition tcp_session :: "int \<Rightarrow> bool io" where
  "tcp_session handle =
     io_local (tcp_socket_of handle) base_socket_dtor (\<lambda>session.
       io_bind (base_send session send_msg) (\<lambda>(_, session).
         if bs_peerDisconnected session then io_ret False
         else io_bind (io_print ''TCP server sucessfully sent data to the client.'') (\<lambda>_.
              io_bind (base_disconnect session) (\<lambda>_. io_ret True))))"

definition tcp_server :: "int io" where
  "tcp_server =
     io_main (io_catch
       (io_local tcp_socket_ctor base_socket_dtor (\<lambda>server.
          io_bind (inet_bind server ''127.0.0.1'' 12345) (\<lambda>_.
          io_bind (tcp_listen server) (\<lambda>_.
          io_bind (io_print (show_int (bs_socket server))) (\<lambda>_.
          io_bind (tcp_accept server) (\<lambda>handle.
            if handle = 0 then io_ret 1
            else io_bind (io_print (''client '' @ show_int handle)) (\<lambda>_.
                 io_bind (tcp_session handle) (\<lambda>sent. io_ret (if sent then 0 else 1)))))))))
       report)"

text \<open>
  The threaded server. A thread runs \<open>handle_client\<close>; an exception that leaves it ends the
  process.
\<close>

definition handle_client :: "int \<Rightarrow> unit io" where
  "handle_client handle =
     io_main (io_bind (io_print (''client '' @ show_int handle)) (\<lambda>_.
              io_bind (tcp_session handle) (\<lambda>_. io_ret ())))"

text \<open>
  Starting a detached thread: \<open>launch_thread\<close> takes only -1 for a failure, which
  \<open>pthread_create\<close> never returns, and then detaches an identifier that was not assigned.
\<close>

definition c_thread :: "int \<Rightarrow> int call" where
  "c_thread handle = on_answer 11 (\<lambda>n bs x w. (0, w\<lparr>w_threads := w_threads w @ [handle]\<rparr>))"

definition launch_client :: "int \<Rightarrow> unit io" where
  "launch_client handle =
     io_bind (sys (c_thread handle)) (\<lambda>err w. if err = 0 then (Ret (), w) else (UB, w))"

text \<open>One round of the loop: \<open>None\<close> to go on, \<open>Some\<close> status to return.\<close>

definition accept_round :: "base_socket \<Rightarrow> int option io" where
  "accept_round server =
     io_bind (tcp_accept server) (\<lambda>handle.
       if handle = 0 then io_ret (Some 1)
       else io_bind (launch_client handle) (\<lambda>_. io_ret None))"

text \<open>A loop that every round takes answers of the system.\<close>

lemma io_bind_answers:
  assumes "io_bind m g w = (Ret x, w')"
    and "\<And>y u. m w = (Ret y, u) \<Longrightarrow> length (w_answers u) < length (w_answers w)"
    and "\<And>y u. g y u = (Ret x, w') \<Longrightarrow> length (w_answers w') \<le> length (w_answers u)"
  shows "length (w_answers w') < length (w_answers w)"
  using assms(1)
proof (cases rule: io_bind_cases)
  case (1 y u)
  with assms(2) [OF 1(1)] assms(3) [OF 1(2)] show ?thesis by simp
qed simp_all

lemma accept_round_answers:
  assumes "accept_round server w = (Ret x, w')"
  shows "length (w_answers w') < length (w_answers w)"
  using assms unfolding accept_round_def
proof (rule io_bind_answers)
  show "length (w_answers u) < length (w_answers w)" if "tcp_accept server w = (Ret y, u)" for y u
    using that
    by (auto simp: tcp_accept_def io_defs sys_def c_accept_def on_fd_def on_answer_def new_fd_def Let_def
        socket_exception_def split: list.splits answer.splits if_splits)
  show "length (w_answers w') \<le> length (w_answers u)"
    if "(if y = 0 then io_ret (Some 1) else io_bind (launch_client y) (\<lambda>_. io_ret None)) u = (Ret x, w')" for y u
    using that
    by (auto simp: launch_client_def io_defs sys_def c_thread_def on_answer_def
        split: list.splits answer.splits if_splits)
qed

function accept_loop :: "base_socket \<Rightarrow> world \<Rightarrow> (halt, int) exec \<times> world" where
  "accept_loop server w =
     (case accept_round server w of
        (Ret None, w') \<Rightarrow> accept_loop server w'
      | (Ret (Some status), w') \<Rightarrow> (Ret status, w')
      | (Stop e, w') \<Rightarrow> (Stop e, w')
      | (UB, w') \<Rightarrow> (UB, w'))"
  by pat_completeness auto

termination
  by (relation "measure (\<lambda>(server, w). length (w_answers w))")
    (auto dest: accept_round_answers [OF sym])

declare accept_loop.simps [simp del]

definition tcp_server_threaded :: "int io" where
  "tcp_server_threaded =
     io_main (io_catch
       (io_local tcp_socket_ctor base_socket_dtor (\<lambda>server.
          io_bind (inet_bind server ''127.0.0.1'' 12345) (\<lambda>_.
          io_bind (tcp_listen server) (\<lambda>_.
          io_bind (io_print (''server socket: '' @ show_int (bs_socket server))) (\<lambda>_.
            accept_loop server)))))
       report)"

text \<open>The client sends its buffer of null bytes and prints what comes back into it.\<close>

definition tcp_client :: "int io" where
  "tcp_client =
     io_main (io_catch
       (io_local tcp_socket_ctor base_socket_dtor (\<lambda>client.
          io_bind (inet_connect client ''127.0.0.1'' 12345) (\<lambda>client.
          io_bind (base_send client (replicate 50 0)) (\<lambda>(bytes_sent, client).
          io_bind (io_print (''Sent data to server: '' @ show_int bytes_sent)) (\<lambda>_.
          io_bind (base_receive client 50) (\<lambda>(bytes_recv, data).
          io_bind (io_when (0 < bytes_recv)
              (print_buffer ''Received data from server: '' (data @ replicate (50 - length data) 0))) (\<lambda>_.
          io_bind (base_disconnect client) (\<lambda>_. io_ret 0))))))))
       report)"

section \<open>Datagrams named by paths\<close>

definition reply_msg :: "u8 list" where
  "reply_msg = bytes_of (''The quick brown fox jumps over the lazy dog'' @ [CHR 0x00])"

definition unix_round :: "base_socket \<Rightarrow> unit io" where
  "unix_round server =
     io_bind (unix_receiveFrom server 50) (\<lambda>(_, _, clientPath).
     io_bind (io_print (''recv from '' @ clientPath)) (\<lambda>_.
       unix_sendTo server reply_msg clientPath))"

lemma unix_round_answers:
  assumes "unix_round server w = (Ret x, w')"
  shows "length (w_answers w') < length (w_answers w)"
  using assms unfolding unix_round_def
proof (rule io_bind_answers)
  fix y u
  assume "unix_receiveFrom server 50 w = (Ret y, u)"
  then show "length (w_answers u) < length (w_answers w)"
    unfolding unix_receiveFrom_def
  proof (rule io_bind_answers)
    fix z v
    assume "TEMP_FAILURE_RETRY fst (c_recvfrom (bs_socket server) 50) w = (Ret z, v)"
    then show "length (w_answers v) < length (w_answers w)"
      by (rule retry_answers [rotated])
        (auto simp: c_recvfrom_def on_fd_def on_answer_def split: answer.splits if_splits)
  qed (auto simp: io_defs socket_exception_def extractPath_def Let_def split: if_splits prod.splits)
next
  fix y u
  assume "(case y of (_, _, clientPath) \<Rightarrow> io_bind (io_print (''recv from '' @ clientPath))
      (\<lambda>_. unix_sendTo server reply_msg clientPath)) u = (Ret x, w')"
  then obtain p where "unix_sendTo server reply_msg p (u\<lparr>w_out := w_out u @ [''recv from '' @ p]\<rparr>) = (Ret x, w')"
    by (auto simp: io_bind_def io_print_def split: prod.splits)
  then show "length (w_answers w') \<le> length (w_answers u)"
    unfolding unix_sendTo_def
  proof (cases rule: io_bind_cases)
    case (1 a v)
    then have v: "w_answers v = w_answers u"
      by (auto simp: unix_fillAddress_def io_ret_def socket_exception_def split: if_splits)
    from 1(2) have "length (w_answers w') < length (w_answers v)"
    proof (rule io_bind_answers)
      fix k t
      assume "TEMP_FAILURE_RETRY (\<lambda>x. x) (c_sendto (bs_socket server) reply_msg a) v = (Ret k, t)"
      then show "length (w_answers t) < length (w_answers v)"
        by (rule retry_answers [rotated])
          (auto simp: c_sendto_def on_fd_def on_answer_def split: answer.splits if_splits)
    qed (auto simp: io_ret_def socket_exception_def split: if_splits)
    with v show ?thesis by simp
  qed simp_all
qed

function unix_loop :: "base_socket \<Rightarrow> world \<Rightarrow> (halt, int) exec \<times> world" where
  "unix_loop server w =
     (case unix_round server w of
        (Ret _, w') \<Rightarrow> unix_loop server w'
      | (Stop e, w') \<Rightarrow> (Stop e, w')
      | (UB, w') \<Rightarrow> (UB, w'))"
  by pat_completeness auto

termination
  by (relation "measure (\<lambda>(server, w). length (w_answers w))")
    (auto dest: unix_round_answers [OF sym])

declare unix_loop.simps [simp del]

definition unix_server :: "int io" where
  "unix_server =
     io_main (io_catch
       (io_local unix_datagram_socket_ctor unix_socket_dtor (\<lambda>server.
          io_bind (unix_bind server ''/tmp/ux_sock'') (\<lambda>_. unix_loop server)))
       report)"

definition unix_client :: "int \<Rightarrow> int io" where
  "unix_client pid =
     io_main (io_catch
       (io_local unix_datagram_socket_ctor unix_socket_dtor (\<lambda>client.
          io_bind (unix_bind client (''/tmp/ux_sock_'' @ show_int pid)) (\<lambda>_.
          io_bind (unix_sendTo client [0] ''/tmp/ux_sock'') (\<lambda>_.
          io_bind (base_receive client 50) (\<lambda>(bytes_recv, data).
          io_bind (io_when (0 < bytes_recv)
              (print_buffer ''Received data from server: '' (data @ replicate (50 - length data) 0))) (\<lambda>_.
          io_bind (base_disconnect client) (\<lambda>_. io_ret 0)))))))
       report)"

section \<open>Descriptors of the programs\<close>

lemma report_tame: "tame {1} (report what)" "fst (report what w) \<noteq> Stop e" "keeps w_open (report what)"
  by (auto simp: report_def io_defs tame_def keeps_def)

lemma main_UB: "fst (io_main (io_catch m report) w) = UB \<longleftrightarrow> fst (m w) = UB"
proof -
  have "\<exists>t. report what v = (Ret 1, t)" for what v by (simp add: report_def io_defs)
  then obtain t where t: "report what v = (Ret 1, t what v)" for what v by metis
  obtain q u where q: "m w = (q, u)" by fastforce
  show ?thesis
    by (cases q; cases "\<exists>what e. q = Stop (Thrown what e)")
      (auto simp: q t io_main_def io_catch_def split: halt.split)
qed

lemma tcp_tame [tame_intros]:
  "tame UNIV (inet_bind s host port)" "tame UNIV (inet_connect s host port)"
  "tame UNIV (tcp_listen s)" "tame UNIV (tcp_accept s)" "tame UNIV tcp_socket_ctor"
  unfolding inet_bind_def inet_connect_def inet_fillAddress_def tcp_listen_def tcp_accept_def tcp_socket_ctor_def
  by (auto intro!: tame_intros split: option.split)

lemma tcp_keeps_open [keeps_intros]:
  "keeps w_open (inet_bind s host port)" "keeps w_open (inet_connect s host port)" "keeps w_open (tcp_listen s)"
  unfolding inet_bind_def inet_connect_def inet_fillAddress_def tcp_listen_def
  by (auto intro!: keeps_intros split: option.split)

lemma tcp_accept_opens: "opens (\<lambda>handle. handle) (tcp_accept s)"
  by (auto simp: opens_def tcp_accept_def io_defs sys_def c_accept_def on_fd_def on_answer_def
      new_fd_def Let_def socket_exception_def lowest_free_new lowest_free_new(2) [THEN leD]
      split: list.splits answer.splits if_splits)

lemma tcp_session_tame [tame_intros]: "tame UNIV (tcp_session handle)"
  unfolding tcp_session_def io_local_def tcp_socket_of_def
  by (auto intro!: tame_intros base_socket_dtor_sure split: prod.split)

lemma tcp_socket_ctor_zero: "tcp_socket_ctor w = (Ret s, u) \<Longrightarrow> 0 \<in> set (w_open u)"
  by (cases "0 \<in> set (w_open w)")
    (auto simp: tcp_socket_ctor_def base_socket_ctor_def io_defs sys_def c_socket_def on_answer_def new_fd_def
      Let_def socket_exception_def lowest_free_zero split: list.splits answer.splits if_splits)

lemma tcp_session_closes:
  assumes "0 \<le> handle" and "tcp_session handle w = (r, w')" and "settles r"
  shows "w_open w' = removeAll handle (w_open w)"
proof -
  let ?s = "\<lparr>bs_socket = handle, bs_peerDisconnected = False\<rparr>"
  let ?body = "io_bind (base_send ?s send_msg) (\<lambda>(_, session).
    if bs_peerDisconnected session then io_ret False
    else io_bind (io_print ''TCP server sucessfully sent data to the client.'') (\<lambda>_.
         io_bind (base_disconnect session) (\<lambda>_. io_ret True)))"
  have body: "keeps w_open ?body" by (auto intro!: keeps_intros split: prod.split)
  from assms(1,2) have run: "io_scope (base_socket_dtor ?s) ?body w = (r, w')"
    by (simp add: tcp_session_def io_local_def tcp_socket_of_def base_socket_of_def io_bind_def io_ret_def)
  have "w_open w' = removeAll (bs_socket ?s) (w_open w)"
    by (rule releases_scope [OF base_socket_dtor_releases _ run assms(3)]) (rule keepsD [OF body])
  then show ?thesis by simp
qed

section \<open>Properties\<close>

text \<open>
  C4: The TCP server, whatever the system answers and wherever an exception is thrown,
  returns 0 or 1 or blocks in a call, and when it returns it has closed every descriptor it
  has opened and no other. It takes a connection on descriptor 0 for a failure of \<open>accept\<close> and would
  leak it, but there is none: if 0 is not open before, the listening socket gets it.
\<close>

theorem tcp_server_releases:
  assumes "tcp_server w = (r, w')"
  shows "r = Stop Blocked \<or> (r = Ret 0 \<or> r = Ret 1) \<and> w_open w' = w_open w"
proof -
  let ?body = "\<lambda>server. io_bind (inet_bind server ''127.0.0.1'' 12345) (\<lambda>_.
    io_bind (tcp_listen server) (\<lambda>_.
    io_bind (io_print (show_int (bs_socket server))) (\<lambda>_.
    io_bind (tcp_accept server) (\<lambda>handle.
      if handle = 0 then io_ret 1
      else io_bind (io_print (''client '' @ show_int handle)) (\<lambda>_.
           io_bind (tcp_session handle) (\<lambda>sent. io_ret (if sent then 0 else 1 :: int)))))))"
  let ?main = "io_local tcp_socket_ctor base_socket_dtor ?body"
  have "tame {0, 1} ?main"
    unfolding io_local_def by (auto intro!: tame_intros base_socket_dtor_sure)
  moreover have "tame {0, 1} (report what)" for what
    using report_tame(1) [of what] by (auto simp: report_def intro: tame_intros)
  ultimately have ends: "r = Stop Blocked \<or> (\<exists>x \<in> {0, 1}. r = Ret x \<and> io_catch ?main report w = (r, w'))"
    by (rule tame_main [OF _ _ report_tame(2)]) (use assms in \<open>simp add: tcp_server_def\<close>)
  have session: "restores (insert fd {0}) (io_bind (tcp_accept s) (\<lambda>handle.
      if handle = 0 then io_ret 1
      else io_bind (io_print (''client '' @ show_int handle)) (\<lambda>_.
           io_bind (tcp_session handle) (\<lambda>sent. io_ret (if sent then 0 else 1 :: int)))))" for fd s
  proof (rule restores_opened [OF tcp_accept_opens])
    fix handle u q u'
    assume h: "handle \<notin> insert fd {0}" "0 \<le> handle" and q: "settles q"
      and run: "(if handle = 0 then io_ret 1
        else io_bind (io_print (''client '' @ show_int handle)) (\<lambda>_.
             io_bind (tcp_session handle) (\<lambda>sent. io_ret (if sent then 0 else 1 :: int)))) u = (q, u')"
    from h run have "io_bind (tcp_session handle) (\<lambda>sent. io_ret (if sent then 0 else 1))
        (u\<lparr>w_out := w_out u @ [''client '' @ show_int handle]\<rparr>) = (q, u')"
      by (simp add: io_bind_def io_print_def)
    then show "w_open u' = removeAll handle (w_open u)"
    proof (cases rule: io_bind_cases)
      case (1 sent v)
      from tcp_session_closes [OF h(2) 1(1)] 1(2) show ?thesis by (auto simp: io_ret_def)
    next
      case (2 e)
      from q 2(2) have "settles (Stop e :: (halt, bool) exec)" by (cases e) simp_all
      from tcp_session_closes [OF h(2) 2(1) this] show ?thesis by simp
    next
      case 3
      with q show ?thesis by simp
    qed
  qed
  note pass = restores_bind [OF keeps_restores]
  have "restores (insert (bs_socket s) {0}) (?body s)" for s
    by (rule pass [OF tcp_keeps_open(1)], rule pass [OF tcp_keeps_open(3)], rule pass [OF keeps_print],
        rule session)
  then have "restores {} ?main"
    using tcp_socket_ctor_zero unfolding tcp_socket_ctor_def by (intro base_class.local_restores_from [where E = "{0}"]) auto
  then have "restores {} (io_catch ?main report)"
    by (rule restores_catch) (rule keeps_restores, rule report_tame(3))
  with ends show ?thesis by (auto dest: restoresD)
qed

theorem tcp_server_releases_witness:
  "\<exists>w'. tcp_server (local_world ([Ok 0 [] Unnamed, Ok 0 [] Unnamed, Ok 0 [] Unnamed, Ok 0 [] (Inet 1 2)]
      @ [Err ENOSYS, Err EINTR, Ok 0 [] Unnamed, Ok 0 [] Unnamed])) = (Ret 1, w') \<and> w_open w' = [2, 1, 0]"
proof -
  let ?w = "local_world ([Ok 0 [] Unnamed, Ok 0 [] Unnamed, Ok 0 [] Unnamed, Ok 0 [] (Inet 1 2)]
    @ [Err ENOSYS, Err EINTR, Ok 0 [] Unnamed, Ok 0 [] Unnamed])"
  obtain r w' where run: "tcp_server ?w = (r, w')" by (rule prod.exhaust)
  have "fst (tcp_server ?w) = Ret 1" by code_simp
  with run have r: "r = Ret 1" by simp
  have "w_open ?w = [2, 1, 0]" by (simp_all add: local_world_def start_world_def)
  with tcp_server_releases [OF run] r run show ?thesis by simp
qed

text \<open>What the client does with the bytes it has received: up to there it only waits for answers.\<close>

definition client_rest :: "base_socket \<Rightarrow> u8 list \<Rightarrow> int io" where
  "client_rest s data =
     io_bind (io_when (0 < int (length data))
         (print_buffer ''Received data from server: '' (data @ replicate (50 - length data) 0))) (\<lambda>_.
     io_bind (base_disconnect s) (\<lambda>_. io_ret 0))"

lemma tcp_client_received:
  assumes "w_answers w = Ok n1 b1 x1 # Ok n2 b2 x2 # Ok n3 b3 x3 # Ok n4 received x4 # as"
    and "resolves w ''127.0.0.1'' a"
  obtains s v where
    "tcp_client w = io_main (io_catch (io_scope (base_socket_dtor s) (client_rest s (take 50 received))) report) v"
    "w_out v = w_out w @ [''Sent data to server: '' @ show_int (int (min n3 50))]"
proof -
  let ?fd = "lowest_free (w_open w)"
  let ?s = "\<lparr>bs_socket = ?fd, bs_peerDisconnected = False\<rparr>"
  let ?data = "take 50 received"
  let ?body = "\<lambda>client. io_bind (inet_connect client ''127.0.0.1'' 12345) (\<lambda>client.
    io_bind (base_send client (replicate 50 0)) (\<lambda>(bytes_sent, client).
    io_bind (io_print (''Sent data to server: '' @ show_int bytes_sent)) (\<lambda>_.
    io_bind (base_receive client 50) (\<lambda>(bytes_recv, data).
    io_bind (io_when (0 < bytes_recv)
        (print_buffer ''Received data from server: '' (data @ replicate (50 - length data) 0))) (\<lambda>_.
    io_bind (base_disconnect client) (\<lambda>_. io_ret (0 :: int)))))))"
  obtain v where v: "tcp_socket_ctor w = (Ret ?s, v)" "w_open v = ?fd # w_open w"
      "w_answers v = Ok n2 b2 x2 # Ok n3 b3 x3 # Ok n4 received x4 # as"
      "w_aton v = w_aton w" "w_hosts v = w_hosts w" "w_out v = w_out w"
    using assms(1)
    by (auto simp: tcp_socket_ctor_def base_socket_ctor_def io_defs sys_def c_socket_def on_answer_def
        new_fd_def Let_def lowest_free_new(2) [THEN leD])
  obtain v2 where v2: "inet_connect ?s ''127.0.0.1'' 12345 v = (Ret ?s, v2)"
      "w_open v2 = w_open v" "w_answers v2 = Ok n3 b3 x3 # Ok n4 received x4 # as" "w_out v2 = w_out v"
    using v assms(2)
    by (auto simp: inet_connect_def inet_fillAddress_def resolves_def io_defs sys_def c_connect_def
        on_fd_def on_answer_def split: option.splits)
  obtain v3 where v3: "base_send ?s (replicate 50 0) v2 = (Ret (int (min n3 50), ?s), v3)"
      "w_open v3 = w_open v2" "w_answers v3 = Ok n4 received x4 # as" "w_out v3 = w_out v2"
    using v2 v(2)
    by (auto simp: base_send_def io_defs TEMP_FAILURE_RETRY_def c_send_def on_fd_def on_answer_def Let_def)
  let ?v3 = "v3\<lparr>w_out := w_out v3 @ [''Sent data to server: '' @ show_int (int (min n3 50))]\<rparr>"
  obtain v4 where v4: "base_receive ?s 50 ?v3 = (Ret (int (length ?data), ?data), v4)" "w_out v4 = w_out ?v3"
    using v3 v2(2) v(2)
    by (auto simp: base_receive_def io_defs TEMP_FAILURE_RETRY_def c_recv_def on_fd_def on_answer_def)
  have "?body ?s v = client_rest ?s ?data v4"
    using v2 v3 v4 by (simp add: io_bind_def io_print_def client_rest_def)
  then have "tcp_client w = io_main (io_catch (io_scope (base_socket_dtor ?s) (client_rest ?s ?data)) report) v4"
    using v(1) by (simp add: tcp_client_def io_main_def io_catch_def io_local_def io_bind_def io_scope_def)
  with v4(2) v3(4) v2(4) v(6) show thesis by (intro that) simp_all
qed

text \<open>
  C32: The TCP client reads past the end of its buffer exactly when the server's answer fills
  all 50 bytes and holds no null byte: it prints the buffer as text, and nothing ends it.
\<close>

theorem tcp_client_overread_iff:
  assumes "w_answers w = Ok n1 b1 x1 # Ok n2 b2 x2 # Ok n3 b3 x3 # Ok n4 received x4 # as"
    and "resolves w ''127.0.0.1'' a"
  shows "fst (tcp_client w) = UB \<longleftrightarrow> 50 \<le> length received \<and> 0 \<notin> set (take 50 received)"
proof -
  let ?data = "take 50 received"
  let ?buf = "?data @ replicate (50 - length ?data) 0"
  obtain s v where run: "tcp_client w = io_main (io_catch (io_scope (base_socket_dtor s) (client_rest s ?data)) report) v"
    using tcp_client_received [OF assms] .
  have full: "0 \<in> set ?buf \<longleftrightarrow> \<not> (50 \<le> length received \<and> 0 \<notin> set ?data)" by auto
  have "fst (client_rest s ?data v) = UB \<longleftrightarrow> 0 \<notin> set ?buf"
  proof (cases "0 \<in> set ?buf")
    case True
    then have "tame UNIV (client_rest s ?data)"
      unfolding client_rest_def
      by (intro tame_intros) (auto simp: tame_def io_when_def print_buffer_def io_ret_def)
    then show ?thesis using True tameD [of UNIV "client_rest s ?data" v] by (cases "client_rest s ?data v") auto
  next
    case False
    then have "received \<noteq> []" by auto
    with False show ?thesis by (simp add: client_rest_def io_bind_def io_when_def print_buffer_def)
  qed
  moreover obtain q u where q: "client_rest s ?data v = (q, u)" by fastforce
  moreover have "fst (io_scope (base_socket_dtor s) (client_rest s ?data) v) = UB \<longleftrightarrow> q = UB"
    using q base_socket_dtor_sure [of s]
    by (cases "base_socket_dtor s u") (auto simp: io_scope_def sure_def dest!: spec [of _ u])
  ultimately show ?thesis using full by (auto simp: run main_UB)
qed

theorem tcp_client_overread_iff_witness:
  "fst (tcp_client (local_world [Ok 0 [] Unnamed, Ok 0 [] Unnamed, Ok 50 [] Unnamed, Ok 50 (replicate 50 65) Unnamed])) = UB"
proof -
  let ?w = "local_world [Ok 0 [] Unnamed, Ok 0 [] Unnamed, Ok 50 [] Unnamed, Ok 50 (replicate 50 65) Unnamed]"
  have "resolves ?w ''127.0.0.1'' 16777343" by (simp add: resolves_def local_world_def)
  then show ?thesis
    using tcp_client_overread_iff [of ?w 0 "[]" Unnamed 0 "[]" Unnamed 50 "[]" Unnamed 50 "replicate 50 65" Unnamed "[]"]
    by (simp add: local_world_def start_world_def)
qed

section \<open>The threaded server\<close>

lemma thread_calls_keep [keeps_intros]:
  "ignores_answers w_threads" "keeps_call w_threads (c_socket domain type protocol)"
  "keeps_call w_threads (c_bind fd addr)" "keeps_call w_threads (c_listen fd)"
  "keeps_call w_threads (c_close fd)"
  by (auto simp: ignores_answers_def keeps_call_def c_socket_def new_fd_def call_defs Let_def
      split: answer.split saddr.split)

lemma threads_print [keeps_intros]: "keeps w_threads (io_print s)"
  by (simp add: keeps_def io_print_def)

lemma threads_keep [keeps_intros]:
  "keeps w_threads (inet_bind s host port)" "keeps w_threads (tcp_listen s)"
  "keeps w_threads tcp_socket_ctor" "keeps w_threads (base_socket_dtor s)" "keeps w_threads (report what)"
  unfolding inet_bind_def inet_fillAddress_def tcp_listen_def tcp_socket_ctor_def base_socket_ctor_def
    base_socket_dtor_def report_def
  by (auto intro!: keeps_intros split: option.split)

text \<open>A round with an answer to \<open>accept\<close>: the connection goes to one thread, and stays open.\<close>

lemma accept_round_result:
  assumes "accept_round s w = (r, w')" and "0 \<in> set (w_open w)"
  shows "(\<exists>h. r = Ret None \<and> h \<notin> set (w_open w) \<and> w_open w' = h # w_open w \<and> w_threads w' = w_threads w @ [h])
    \<or> ((\<exists>e. r = Stop e \<and> e \<noteq> Terminated \<and> e \<noteq> Length_error) \<and> w_open w' = w_open w \<and> w_threads w' = w_threads w)
    \<or> ((r = UB \<or> r = Stop Blocked) \<and> w_threads w' = w_threads w)"
proof -
  let ?h = "lowest_free (w_open w)"
  have "?h \<noteq> 0" using lowest_free_new(1) [of "w_open w"] assms(2) by metis
  with assms show ?thesis
    by (auto simp: accept_round_def tcp_accept_def launch_client_def io_defs sys_def c_accept_def c_thread_def
        on_fd_def on_answer_def new_fd_def Let_def socket_exception_def lowest_free_new
        lowest_free_new(2) [THEN leD] split: list.splits answer.splits if_splits)
qed

text \<open>
  What a run of a part of the server does: it hands new descriptors, each once, to threads,
  and when it throws it leaves exactly those open beyond what it found.
\<close>

definition serves :: "world \<Rightarrow> (halt, int) exec \<Rightarrow> world \<Rightarrow> int list \<Rightarrow> bool" where
  "serves w r w' hs \<longleftrightarrow>
     w_threads w' = w_threads w @ hs \<and> distinct hs \<and> set hs \<inter> set (w_open w) = {}
     \<and> (r = UB \<or> r = Stop Blocked \<or> (\<exists>what e. r = Stop (Thrown what e) \<and> w_open w' = rev hs @ w_open w))"

lemma tame_halt: "e \<noteq> Terminated \<Longrightarrow> e \<noteq> Length_error \<Longrightarrow> e = Blocked \<or> (\<exists>what err. e = Thrown what err)"
  by (cases e) auto

lemma accept_loop_serves:
  "accept_loop s w = (r, w') \<Longrightarrow> 0 \<in> set (w_open w) \<Longrightarrow> \<exists>hs. serves w r w' hs"
proof (induction s w rule: accept_loop.induct)
  case (1 s w)
  obtain q u where q: "accept_round s w = (q, u)" by fastforce
  from accept_round_result [OF q "1.prems"(2)]
  consider (handed) h where "q = Ret None" "h \<notin> set (w_open w)" "w_open u = h # w_open w"
      "w_threads u = w_threads w @ [h]"
    | (thrown) what e where "q = Stop (Thrown what e)" "w_open u = w_open w" "w_threads u = w_threads w"
    | (ended) "q = UB \<or> q = Stop Blocked" "w_threads u = w_threads w"
    by (auto dest: tame_halt)
  then show ?case
  proof cases
    case handed
    from "1.prems"(1) q handed(1) have "accept_loop s u = (r, w')"
      by (subst (asm) accept_loop.simps) simp
    with "1.IH" [OF q [symmetric] handed(1) refl] handed(3) "1.prems"(2)
    obtain hs where "serves u r w' hs" by auto
    with handed show ?thesis by (intro exI [of _ "h # hs"]) (auto simp: serves_def)
  next
    case thrown
    with "1.prems"(1) q show ?thesis
      by (intro exI [of _ "[]"]) (subst (asm) accept_loop.simps, auto simp: serves_def)
  next
    case ended
    with "1.prems"(1) q show ?thesis
      by (intro exI [of _ "[]"]) (subst (asm) accept_loop.simps, auto simp: serves_def)
  qed
qed

lemma serves_bind:
  assumes "io_bind m g w = (r, w')" and "tame UNIV m" and "keeps w_threads m" and "keeps w_open m"
    and "\<And>x t. g x t = (r, w') \<Longrightarrow> 0 \<in> set (w_open t) \<Longrightarrow> \<exists>hs. serves t r w' hs"
    and "0 \<in> set (w_open w)"
  shows "\<exists>hs. serves w r w' hs"
  using assms(1)
proof (cases rule: io_bind_cases)
  case (1 x t)
  then have t: "w_threads t = w_threads w" "w_open t = w_open w"
    using keepsD [OF assms(3)] keepsD [OF assms(4)] by auto
  with assms(5) [OF 1(2)] assms(6) show ?thesis unfolding serves_def by auto
next
  case (2 e)
  then have "serves w r w' []"
    using keepsD [OF assms(3)] keepsD [OF assms(4)] tameD [OF assms(2) 2(1)]
    by (cases e) (auto simp: serves_def)
  then show ?thesis by blast
next
  case 3
  then show ?thesis using tameD [OF assms(2) 3(1)] by simp
qed

lemma serves_local:
  assumes "io_local tcp_socket_ctor base_socket_dtor body w = (r, w')" and "0 \<in> set (w_open w)"
    and body: "\<And>s v q u. body s v = (q, u) \<Longrightarrow> 0 \<in> set (w_open v) \<Longrightarrow> \<exists>hs. serves v q u hs"
  shows "\<exists>hs. serves w r w' hs"
  using assms(1) unfolding io_local_def
proof (cases rule: io_bind_cases)
  case (1 s v)
  have opened: "bs_socket s \<notin> set (w_open w)" "w_open v = bs_socket s # w_open w"
    using opens_Ret [OF base_socket_ctor_opens 1(1) [unfolded tcp_socket_ctor_def]] by auto
  have v: "w_threads v = w_threads w" using keepsD [OF threads_keep(3) 1(1)] .
  obtain q u where q: "body s v = (q, u)" by fastforce
  obtain p t where p: "base_socket_dtor s u = (p, t)" by fastforce
  from body [OF q] assms(2) opened(2) obtain hs where hs: "serves v q u hs" by auto
  have t: "w_threads t = w_threads u" "p = Ret () \<or> p = Stop Blocked"
    "p = Ret () \<Longrightarrow> w_open t = removeAll (bs_socket s) (w_open u)"
    using keepsD [OF threads_keep(4) p] base_socket_dtor_sure [of s] p
      releasesD [OF base_socket_dtor_releases, of s u] unfolding sure_def by (auto dest: spec [of _ u])
  have "serves w r w' hs"
    using 1(2) q p hs t v opened by (auto simp: io_scope_def serves_def split: if_splits)
  then show ?thesis by blast
next
  case (2 e)
  then have "serves w r w' []"
    using keepsD [OF threads_keep(3)] opens_Stop [OF base_socket_ctor_opens 2(1) [unfolded tcp_socket_ctor_def]]
      tameD [OF tcp_tame(5) 2(1)]
    by (cases e) (auto simp: serves_def)
  then show ?thesis by blast
next
  case 3
  then show ?thesis using tameD [OF tcp_tame(5) 3(1)] by simp
qed

text \<open>
  The threaded TCP server hands each connection it has accepted to exactly one thread and
  keeps it open for the thread: the connections given to threads are new descriptors, each
  once. The server returns only after an exception, with 1, having closed its own socket and
  no other descriptor.
\<close>

theorem tcp_server_threaded_hands_over:
  assumes "0 \<in> set (w_open w)" and "tcp_server_threaded w = (r, w')"
  shows "\<exists>hs. w_threads w' = w_threads w @ hs \<and> distinct hs \<and> set hs \<inter> set (w_open w) = {}
    \<and> (r = UB \<or> r = Stop Blocked \<or> r = Ret 1 \<and> w_open w' = rev hs @ w_open w)"
proof -
  let ?body = "\<lambda>server. io_bind (inet_bind server ''127.0.0.1'' 12345) (\<lambda>_.
    io_bind (tcp_listen server) (\<lambda>_.
    io_bind (io_print (''server socket: '' @ show_int (bs_socket server))) (\<lambda>_. accept_loop server)))"
  obtain q u where q: "io_local tcp_socket_ctor base_socket_dtor ?body w = (q, u)" by fastforce
  then obtain hs where hs: "serves w q u hs"
  proof (rule serves_local [OF _ assms(1), THEN exE])
    fix s v q u
    assume "?body s v = (q, u)" and "0 \<in> set (w_open v)"
    then show "\<exists>hs. serves v q u hs"
      by (elim serves_bind [OF _ tcp_tame(1) threads_keep(1) tcp_keeps_open(1)]
          serves_bind [OF _ tcp_tame(3) threads_keep(2) tcp_keeps_open(3)]
          serves_bind [OF _ tame_pure(3) threads_print keeps_print] accept_loop_serves)
  qed
  show ?thesis
  proof (cases "\<exists>what e. q = Stop (Thrown what e)")
    case True
    then obtain what e where "q = Stop (Thrown what e)" by blast
    with assms(2) q have "r = Ret 1" "w' = u\<lparr>w_out := w_out u @ [what]\<rparr>"
      by (auto simp: tcp_server_threaded_def io_main_def io_catch_def report_def io_defs)
    with hs True show ?thesis by (auto simp: serves_def)
  next
    case False
    with hs have "q = UB \<or> q = Stop Blocked" by (auto simp: serves_def)
    with assms(2) q have "r = q" "w' = u"
      by (auto simp: tcp_server_threaded_def io_main_def io_catch_def)
    with hs False show ?thesis by (auto simp: serves_def)
  qed
qed

theorem tcp_server_threaded_hands_over_witness:
  "\<exists>w'. tcp_server_threaded (local_world (replicate 5 (Ok 0 [] Unnamed) @ [Err ECONNRESET, Ok 0 [] Unnamed]))
      = (Ret 1, w') \<and> w_open w' = rev (w_threads w') @ [2, 1, 0]"
proof -
  let ?w = "local_world (replicate 5 (Ok 0 [] Unnamed) @ [Err ECONNRESET, Ok 0 [] Unnamed])"
  obtain r w' where run: "tcp_server_threaded ?w = (r, w')" by (rule prod.exhaust)
  have "fst (tcp_server_threaded ?w) = Ret 1" by code_simp
  with run have r: "r = Ret 1" by simp
  have "0 \<in> set (w_open ?w)" "w_open ?w = [2, 1, 0]" "w_threads ?w = []"
    by (simp_all add: local_world_def start_world_def)
  with tcp_server_threaded_hands_over [OF _ run] r run show ?thesis by auto
qed

section \<open>Sockets without a name\<close>

text \<open>The destructor of an unnamed socket throws, and so ends the program.\<close>

lemma unnamed_dtor:
  assumes "w_name w (bs_socket s) = Unnamed" and "bs_socket s \<in> set (w_open w)"
    and "w_answers w = Ok n bs x # as"
  shows "unix_socket_dtor s w = (Stop Length_error, w\<lparr>w_answers := as\<rparr>)"
  using assms
  by (simp add: unix_socket_dtor_def getLocalPath_def io_bind_def sys_def c_getsockname_def on_fd_def
      on_answer_def extractPath_unnamed io_stop_def del: sockaddr_len.simps)

lemma unnamed_sender:
  assumes "bs_socket s \<in> set (w_open w)" and "w_answers w = Ok n bs Unnamed # as"
  shows "unix_receiveFrom s len w = (Stop Length_error, w\<lparr>w_answers := as\<rparr>)"
  using assms
  by (simp add: unix_receiveFrom_def io_bind_def TEMP_FAILURE_RETRY_def c_recvfrom_def on_fd_def
      on_answer_def extractPath_unnamed io_stop_def del: sockaddr_len.simps)

lemma unix_ctor_eval:
  assumes "w_answers w = Ok n bs x # as"
  shows "\<exists>v. unix_datagram_socket_ctor w = (Ret \<lparr>bs_socket = lowest_free (w_open w), bs_peerDisconnected = False\<rparr>, v)
    \<and> w_open v = lowest_free (w_open w) # w_open w \<and> w_answers v = as
    \<and> w_name v (lowest_free (w_open w)) = Unnamed \<and> w_files v = w_files w"
  using assms
  by (auto simp: unix_datagram_socket_ctor_def unix_socket_ctor_def base_socket_ctor_def io_defs sys_def
      c_socket_def on_answer_def new_fd_def Let_def lowest_free_new(2) [THEN leD])

lemma unix_bind_steps:
  assumes "path_ok p" and "bs_socket s \<in> set (w_open w)" and "w_name w (bs_socket s) = Unnamed"
    and "w_answers w = a # b # as"
  shows "\<exists>v. w_answers v = as \<and> w_open v = w_open w
    \<and> (unix_bind s p w = (Ret (), v) \<and> ok_answer b
      \<or> (\<exists>what e. unix_bind s p w = (Stop (Thrown what e), v) \<and> w_name v (bs_socket s) = Unnamed))"
  using assms
  by (auto simp: unix_bind_def fillAddress_ok io_defs socket_exception_def sys_def c_bind_def c_unlink_def
      on_fd_def on_answer_def ok_answer_def split: answer.split)

text \<open>How the whole program ends when the body of its scope does not return.\<close>

lemma scope_Length_error:
  assumes "io_local ctor dtor body w = (q, u)" and "ctor w = (Ret s, v)" and "fst (body s v) = Stop Length_error"
  shows "q = UB \<or> q = Stop Blocked \<or> q = Stop Terminated \<or> q = Stop Length_error"
  using assms
  by (cases "body s v"; cases "dtor s (snd (body s v))"; cases "fst (dtor s (snd (body s v)))")
    (auto simp: io_local_def io_bind_def io_scope_def split: if_splits)

lemma scope_dtor_throws:
  assumes "ctor w = (Ret s, v)" and "body s v = (Stop (Thrown what e), v')"
    and "dtor s v' = (Stop Length_error, v'')"
  shows "io_local ctor dtor body w = (Stop Terminated, v'')"
  using assms by (simp add: io_local_def io_bind_def io_scope_def)

lemma main_not_caught:
  "m w = (q, u) \<Longrightarrow> q = UB \<or> q = Stop Blocked \<or> q = Stop Terminated \<or> q = Stop Length_error \<Longrightarrow>
   fst (io_main (io_catch m report) w) = (if q = Stop Length_error then Stop Terminated else q)"
  by (auto simp: io_main_def io_catch_def)

lemma unix_server_anonymous:
  assumes ans: "w_answers w = Ok n1 b1 x1 # a2 # Ok n3 b3 x3 # Ok n4 b4 Unnamed # as"
  shows "fst (unix_server w) \<noteq> Ret k"
proof -
  let ?fd = "lowest_free (w_open w)"
  let ?s = "\<lparr>bs_socket = ?fd, bs_peerDisconnected = False\<rparr>"
  let ?body = "\<lambda>server. io_bind (unix_bind server ''/tmp/ux_sock'') (\<lambda>_. unix_loop server)"
  from unix_ctor_eval [OF ans] obtain v where v: "unix_datagram_socket_ctor w = (Ret ?s, v)"
    "?fd \<in> set (w_open v)" "w_name v ?fd = Unnamed" "w_answers v = a2 # Ok n3 b3 x3 # Ok n4 b4 Unnamed # as"
    by auto
  obtain q u where q: "io_local unix_datagram_socket_ctor unix_socket_dtor ?body w = (q, u)" by fastforce
  have "path_ok ''/tmp/ux_sock''" by (simp add: path_ok_def)
  from unix_bind_steps [OF this, of ?s v] v obtain v' where v': "w_answers v' = Ok n4 b4 Unnamed # as"
    "bs_socket ?s \<in> set (w_open v')" and run: "unix_bind ?s ''/tmp/ux_sock'' v = (Ret (), v')
      \<or> (\<exists>what e. unix_bind ?s ''/tmp/ux_sock'' v = (Stop (Thrown what e), v') \<and> w_name v' (bs_socket ?s) = Unnamed)"
    by auto
  from run have "q = UB \<or> q = Stop Blocked \<or> q = Stop Terminated \<or> q = Stop Length_error"
  proof
    assume bound: "unix_bind ?s ''/tmp/ux_sock'' v = (Ret (), v')"
    have "unix_loop ?s v' = (Stop Length_error, v'\<lparr>w_answers := as\<rparr>)"
      by (subst unix_loop.simps) (simp add: unix_round_def io_bind_def unnamed_sender [OF v'(2,1)])
    with bound have "fst (?body ?s v) = Stop Length_error" by (simp add: io_bind_def)
    with q v(1) show ?thesis by (rule scope_Length_error)
  next
    assume "\<exists>what e. unix_bind ?s ''/tmp/ux_sock'' v = (Stop (Thrown what e), v') \<and> w_name v' (bs_socket ?s) = Unnamed"
    then obtain what e where "?body ?s v = (Stop (Thrown what e), v')" and "w_name v' (bs_socket ?s) = Unnamed"
      by (auto simp: io_bind_def)
    from scope_dtor_throws [where ctor = unix_datagram_socket_ctor and body = "?body" and dtor = unix_socket_dtor, OF v(1) this(1) unnamed_dtor [OF this(2) v'(2,1)]] q
    show ?thesis by simp
  qed
  from main_not_caught [where m = "io_local unix_datagram_socket_ctor unix_socket_dtor ?body" and w = w, OF q this] this show "fst (unix_server w) \<noteq> Ret k"
    by (auto simp: unix_server_def)
qed

lemma unix_client_unbound:
  assumes ans: "w_answers w = Ok n1 b1 x1 # a2 # Err e # Ok n4 b4 x4 # as"
    and path: "path_ok (''/tmp/ux_sock_'' @ show_int pid)"
  shows "fst (unix_client pid w) = Stop Terminated"
proof -
  let ?fd = "lowest_free (w_open w)"
  let ?s = "\<lparr>bs_socket = ?fd, bs_peerDisconnected = False\<rparr>"
  from unix_ctor_eval [OF ans] obtain v where v: "unix_datagram_socket_ctor w = (Ret ?s, v)"
    "?fd \<in> set (w_open v)" "w_name v ?fd = Unnamed" "w_answers v = a2 # Err e # Ok n4 b4 x4 # as"
    by auto
  from unix_bind_steps [OF path, of ?s v] v obtain v' what e' where v': "w_answers v' = Ok n4 b4 x4 # as"
    "bs_socket ?s \<in> set (w_open v')" "w_name v' (bs_socket ?s) = Unnamed"
    and run: "unix_bind ?s (''/tmp/ux_sock_'' @ show_int pid) v = (Stop (Thrown what e'), v')"
    by (auto simp: ok_answer_def)
  define body where "body = (\<lambda>client. io_bind (unix_bind client (''/tmp/ux_sock_'' @ show_int pid)) (\<lambda>_.
    io_bind (unix_sendTo client [0] ''/tmp/ux_sock'') (\<lambda>_.
    io_bind (base_receive client 50) (\<lambda>(bytes_recv, data).
    io_bind (io_when (0 < bytes_recv)
        (print_buffer ''Received data from server: '' (data @ replicate (50 - length data) 0))) (\<lambda>_.
    io_bind (base_disconnect client) (\<lambda>_. io_ret (0 :: int)))))))"
  from run have "body ?s v = (Stop (Thrown what e'), v')" by (simp add: body_def io_bind_def)
  from scope_dtor_throws [where ctor = unix_datagram_socket_ctor and body = body and dtor = unix_socket_dtor, OF v(1) this unnamed_dtor [OF v'(3,2,1)]]
  have "io_local unix_datagram_socket_ctor unix_socket_dtor body w = (Stop Terminated, v'\<lparr>w_answers := as\<rparr>)" .
  from main_not_caught [where m = "io_local unix_datagram_socket_ctor unix_socket_dtor body" and w = w, OF this] show "fst (unix_client pid w) = Stop Terminated"
    unfolding unix_client_def body_def [symmetric] by simp
qed

text \<open>
  A datagram from a client that has no name ends the server in whatever round it comes:
  the length of the sender's path underflows, the exception of \<open>std::string\<close> is not a
  \<open>socket_exception\<close>, and no handler takes it. And a client that cannot bind its name does not
  return 1 with the message of the failed call: the destructor of its socket throws while
  the exception is on its way, which ends the program.
\<close>

theorem unnamed_unix_sockets_terminate:
  assumes "path_ok (''/tmp/ux_sock_'' @ show_int pid)"
  shows "(bs_socket s \<in> set (w_open w) \<and> w_answers w = Ok n bs Unnamed # as \<longrightarrow>
      fst (unix_loop s w) = Stop Length_error)
    \<and> (w_answers w = Ok n1 b1 x1 # a2 # Ok n3 b3 x3 # Ok n4 b4 Unnamed # as \<longrightarrow>
      (\<forall>k. fst (unix_server w) \<noteq> Ret k))
    \<and> (w_answers w = Ok n1 b1 x1 # a2 # Err e # Ok n4 b4 x4 # as \<longrightarrow>
      fst (unix_client pid w) = Stop Terminated)"
  using unnamed_sender [of s w] unix_server_anonymous [of w] unix_client_unbound [OF _ assms, of w]
  by (subst unix_loop.simps) (auto simp: unix_round_def io_bind_def)

theorem unnamed_unix_sockets_terminate_witness:
  "fst (unix_client 7 (start_world [Ok 0 [] Unnamed, Err ENOSYS, Err EPERM, Ok 0 [] Unnamed])) = Stop Terminated"
proof -
  have "path_ok (''/tmp/ux_sock_'' @ show_int 7)" by code_simp
  from unnamed_unix_sockets_terminate [OF this] show ?thesis
    by (simp add: start_world_def)
qed

end
