(* ===== verification/Inet_Sockets.thy ===== *)
theory Inet_Sockets
  imports Base_Socket
begin

text \<open>
  \<open>day3/16_sock_inet\<close>: helpers that make a socket from a host and a service by trying the
  addresses found for them in turn, and the client that uses them. The table of addresses
  (\<open>getaddrinfo\<close>) and of names (\<open>getnameinfo\<close>) are arguments.
\<close>

section \<open>Connecting\<close>

record addrinfo =
  ai_family :: int
  ai_socktype :: int
  ai_protocol :: int
  ai_addr :: saddr
  ai_addrlen :: nat

type_synonym lookup = "string option \<Rightarrow> string \<Rightarrow> int \<Rightarrow> addrinfo list option"

definition ai_socket :: "addrinfo \<Rightarrow> int call" where
  "ai_socket rp = c_socket (ai_family rp) (ai_socktype rp) (ai_protocol rp)"

definition set_errno :: "errno \<Rightarrow> unit io" where
  "set_errno e w = (Ret (), w\<lparr>w_errno := e\<rparr>)"

text \<open>The loop over the addresses; when it runs off the list the result is -1.\<close>

primrec connect_first :: "addrinfo list \<Rightarrow> int io" where
  "connect_first [] = io_ret (-1)"
| "connect_first (rp # rest) =
     io_bind (sys (ai_socket rp)) (\<lambda>sfd.
       if sfd = -1 then connect_first rest
       else io_bind (sys (c_connect sfd (ai_addr rp))) (\<lambda>r.
              if r \<noteq> -1 then io_ret sfd
              else io_bind (sys (c_close sfd)) (\<lambda>_. connect_first rest)))"

definition sock_connect :: "lookup \<Rightarrow> string \<Rightarrow> string \<Rightarrow> int \<Rightarrow> int io" where
  "sock_connect getaddrinfo host service type =
     (case getaddrinfo (Some host) service type of
        None \<Rightarrow> io_bind (set_errno ENOSYS) (\<lambda>_. io_ret (-1))
      | Some result \<Rightarrow> connect_first result)"

section \<open>Passive sockets\<close>

text \<open>
  How the loop over the addresses is left: by \<open>break\<close> with the socket that is bound, at the
  end of the list, or by the early return when the option cannot be set.
\<close>

datatype bind_end = Bound int addrinfo | No_address | Gives_up

primrec bind_first :: "bool \<Rightarrow> addrinfo list \<Rightarrow> bind_end io" where
  "bind_first doListen [] = io_ret No_address"
| "bind_first doListen (rp # rest) =
     io_bind (sys (ai_socket rp)) (\<lambda>sfd.
       if sfd = -1 then bind_first doListen rest
       else
         io_bind (if doListen then sys (c_setsockopt sfd SO_REUSEADDR [1]) else io_ret 0) (\<lambda>opt.
           if opt = -1 then io_bind (sys (c_close sfd)) (\<lambda>_. io_ret Gives_up)
           else io_bind (sys (c_bind sfd (ai_addr rp))) (\<lambda>r.
                  if r = 0 then io_ret (Bound sfd rp)
                  else io_bind (sys (c_close sfd)) (\<lambda>_. bind_first doListen rest))))"

text \<open>The result is the descriptor and, if there is one, the length of the address.\<close>

definition sock_create_passive :: "lookup \<Rightarrow> string \<Rightarrow> int \<Rightarrow> bool \<Rightarrow> int \<Rightarrow> (int \<times> nat option) io" where
  "sock_create_passive getaddrinfo service type doListen backlog =
     (case getaddrinfo None service type of
        None \<Rightarrow> io_ret (-1, None)
      | Some result \<Rightarrow>
          io_bind (bind_first doListen result) (\<lambda>p.
            case p of
              Gives_up \<Rightarrow> io_ret (-1, None)
            | No_address \<Rightarrow> io_ret (-1, None)
            | Bound sfd rp \<Rightarrow>
                if doListen
                then io_bind (sys (c_listen sfd)) (\<lambda>r.
                       if r = -1 then io_ret (-1, None) else io_ret (sfd, Some (ai_addrlen rp)))
                else io_ret (sfd, Some (ai_addrlen rp))))"

definition sock_listen :: "lookup \<Rightarrow> string \<Rightarrow> int \<Rightarrow> (int \<times> nat option) io" where
  "sock_listen getaddrinfo service backlog = sock_create_passive getaddrinfo service STREAM True backlog"

definition sock_bind :: "lookup \<Rightarrow> string \<Rightarrow> int \<Rightarrow> (int \<times> nat option) io" where
  "sock_bind getaddrinfo service type = sock_create_passive getaddrinfo service type False 0"

section \<open>Texts of addresses\<close>

text \<open>\<open>snprintf\<close> writes one character less than the size it is given.\<close>

definition address_text :: "(string \<times> string) option \<Rightarrow> string" where
  "address_text name =
     (case name of
        Some (host, service) \<Rightarrow> ''('' @ host @ '', '' @ service @ '')''
      | None \<Rightarrow> ''(?UNKNOWN?)'')"

definition sock_address_str :: "(string \<times> string) option \<Rightarrow> nat \<Rightarrow> string" where
  "sock_address_str name addrStrLen = take (addrStrLen - 1) (address_text name)"

text \<open>The buffer for the service holds 32 characters, but the call is told that it holds 4096.\<close>

definition print_client_info :: "(string \<times> string) option \<Rightarrow> string \<Rightarrow> unit io" where
  "print_client_info name info =
     (if case name of None \<Rightarrow> False | Some (host, service) \<Rightarrow> 32 \<le> length service then (\<lambda>w. (UB, w))
      else io_print (info @ '' '' @ take 4095 (address_text name)))"

section \<open>The client\<close>

definition inet_client :: "lookup \<Rightarrow> int io" where
  "inet_client getaddrinfo =
     io_bind (sock_connect getaddrinfo ''localhost'' ''12345'' STREAM) (\<lambda>client_fd.
       if client_fd = -1 then
         io_bind (io_get (\<lambda>w. w_strerror w (w_errno w))) (\<lambda>msg.
         io_bind (io_print (''sock_connect '' @ msg)) (\<lambda>_. io_ret 1))
       else
         io_bind (sys (c_send client_fd (map of_char (''foo bar'' @ [CHR 0x00])))) (\<lambda>num_sent.
         io_bind (io_print (''num_sent '' @ show_int num_sent)) (\<lambda>_.
         io_bind (sys (c_recv client_fd 128)) (\<lambda>(num_recv, data).
         io_bind (io_print (''num_recv '' @ show_int num_recv)) (\<lambda>_.
         io_bind (sys (c_close client_fd)) (\<lambda>_. io_ret 0))))))"

section \<open>Descriptors\<close>

lemma keeps_set_errno [keeps_intros]: "keeps w_open (set_errno e)"
  by (simp add: keeps_def set_errno_def)

text \<open>What a run that returns a descriptor or -1 promises.\<close>

definition new_or_none :: "int \<Rightarrow> world \<Rightarrow> world \<Rightarrow> bool" where
  "new_or_none fd w w' \<longleftrightarrow>
     (if fd = -1 then w_open w' = w_open w
      else 0 \<le> fd \<and> fd \<notin> set (w_open w) \<and> w_open w' = fd # w_open w)"

text \<open>One address: a new socket, or none.\<close>

lemma ai_socket_result:
  assumes "sys (ai_socket rp) w = (Ret fd, u)"
  shows "new_or_none fd w u \<and> (fd \<noteq> -1 \<longrightarrow> w_kind u fd = (ai_family rp, ai_socktype rp, ai_protocol rp))"
  using assms
  by (auto simp: ai_socket_def sys_def c_socket_def on_answer_def new_fd_def Let_def new_or_none_def
      lowest_free_new split: list.splits answer.splits)

lemma close_new:
  assumes "sys (c_close fd) u = (Ret k, v)" and "w_open u = fd # l" and "fd \<notin> set l"
  shows "w_open v = l"
  using assms by (auto simp: sys_def c_close_def on_answer_def split: list.splits answer.splits)

lemma connect_result:
  assumes "sys (c_connect fd a) u = (Ret k, v)"
  shows "w_open v = w_open u \<and> w_kind v = w_kind u \<and> (k \<noteq> -1 \<longrightarrow> w_peer v fd = a)"
  using assms
  by (auto simp: sys_def c_connect_def on_fd_def on_answer_def split: list.splits answer.splits if_splits)

lemma sys_bind_cases:
  assumes "io_bind (sys c) g w = (r, w')"
  obtains "r = Stop Blocked" "w' = w" | x u where "sys c w = (Ret x, u)" "g x u = (r, w')"
  using assms by (cases rule: io_bind_cases) (auto simp: sys_def split: list.splits prod.splits)

lemma connect_first_result:
  "connect_first rps w = (r, w') \<Longrightarrow>
   r = Stop Blocked \<or>
   (\<exists>fd. r = Ret fd \<and> new_or_none fd w w' \<and>
     (fd \<noteq> -1 \<longrightarrow> (\<exists>rp \<in> set rps. w_peer w' fd = ai_addr rp
        \<and> w_kind w' fd = (ai_family rp, ai_socktype rp, ai_protocol rp))))"
proof (induction rps arbitrary: w)
  case Nil
  then show ?case by (simp add: io_ret_def new_or_none_def)
next
  case (Cons rp rps)
  have next_one: ?case if "connect_first rps t = (r, w')" "w_open t = w_open w" for t
    using Cons.IH [OF that(1)] that(2) by (auto simp: new_or_none_def)
  from Cons.prems [unfolded connect_first.simps] show ?case
  proof (cases rule: sys_bind_cases)
    case (2 fd u)
    note s = ai_socket_result [OF 2(1)]
    show ?thesis
    proof (cases "fd = -1")
      case True
      with 2(2) s show ?thesis by (intro next_one [of u]) (auto simp: new_or_none_def)
    next
      case new: False
      with 2(2) have "io_bind (sys (c_connect fd (ai_addr rp))) (\<lambda>r.
          if r \<noteq> -1 then io_ret fd else io_bind (sys (c_close fd)) (\<lambda>_. connect_first rps)) u = (r, w')"
        by simp
      then show ?thesis
      proof (cases rule: sys_bind_cases)
        case (2 k v)
        note c = connect_result [OF 2(1)]
        show ?thesis
        proof (cases "k = -1")
          case True
          with 2(2) have "io_bind (sys (c_close fd)) (\<lambda>_. connect_first rps) v = (r, w')" by simp
          then show ?thesis
            by (cases rule: sys_bind_cases)
              (use s c new close_new [of fd v] next_one in \<open>auto simp: new_or_none_def\<close>)
        next
          case False
          with 2(2) have "r = Ret fd" "w' = v" by (simp_all add: io_ret_def)
          moreover from s c new have "new_or_none fd w v" by (simp add: new_or_none_def)
          moreover from s c new False have "w_peer v fd = ai_addr rp"
            "w_kind v fd = (ai_family rp, ai_socktype rp, ai_protocol rp)" by simp_all
          ultimately show ?thesis by auto
        qed
      qed simp
    qed
  qed simp
qed

text \<open>A descriptor with the name an address gives it; the system chooses the port if it is 0.\<close>

definition bound_to :: "world \<Rightarrow> int \<Rightarrow> saddr \<Rightarrow> bool" where
  "bound_to w fd a \<longleftrightarrow>
     (case a of
        Unnamed \<Rightarrow> False
      | Path p \<Rightarrow> w_name w fd = Path p
      | Inet h p \<Rightarrow> (\<exists>q. w_name w fd = Inet h q \<and> (p = 0 \<or> q = p)))"

text \<open>A socket for an entry of the list, bound to its address, with the option if asked for.\<close>

definition bound_socket :: "bool \<Rightarrow> world \<Rightarrow> int \<Rightarrow> addrinfo \<Rightarrow> bool" where
  "bound_socket d w fd rp \<longleftrightarrow>
     w_kind w fd = (ai_family rp, ai_socktype rp, ai_protocol rp) \<and> bound_to w fd (ai_addr rp)
     \<and> (\<not> d \<or> (fd, SO_REUSEADDR, [1]) \<in> set (w_opts w))"

text \<open>The loop that binds keeps the descriptor it returns and closes all others.\<close>

definition bind_promise :: "bool \<Rightarrow> addrinfo list \<Rightarrow> world \<Rightarrow> bind_end \<Rightarrow> world \<Rightarrow> bool" where
  "bind_promise d rps w p w' \<longleftrightarrow>
     (case p of
        Bound fd rp \<Rightarrow> rp \<in> set rps \<and> fd \<noteq> -1 \<and> new_or_none fd w w' \<and> bound_socket d w' fd rp
      | _ \<Rightarrow> w_open w' = w_open w)"

lemma bind_promise_next:
  "bind_promise d rps t p w' \<Longrightarrow> w_open t = w_open w \<Longrightarrow> bind_promise d (rp # rps) w p w'"
  by (cases p) (auto simp: bind_promise_def new_or_none_def split: if_splits)

lemma option_result:
  assumes "(if d then sys (c_setsockopt fd opt val) else io_ret 0) u = (r, v)"
  shows "r = Stop Blocked \<or> (\<exists>k. r = Ret k \<and> (k = -1 \<or> \<not> d \<or> (fd, opt, val) \<in> set (w_opts v)))
    \<and> w_open v = w_open u \<and> w_kind v = w_kind u"
  using assms
  by (auto simp: sys_def c_setsockopt_def on_fd_def on_answer_def io_ret_def
      split: if_splits list.splits answer.splits)

lemma bind_call_result:
  assumes "sys (c_bind fd a) u = (Ret k, v)"
  shows "w_open v = w_open u \<and> w_kind v = w_kind u \<and> w_opts v = w_opts u \<and> (k = 0 \<longrightarrow> bound_to v fd a)"
  using assms
  by (auto simp: sys_def c_bind_def on_fd_def on_answer_def bound_to_def
      split: list.splits answer.splits saddr.splits if_splits)

lemma close_then:
  assumes "io_bind (sys (c_close fd)) (\<lambda>_. g) v = (r, w')" and "w_open v = fd # l" and "fd \<notin> set l"
  shows "r = Stop Blocked \<or> (\<exists>t. w_open t = l \<and> g t = (r, w'))"
  using assms(1) by (cases rule: sys_bind_cases) (use assms(2,3) close_new in auto)

text \<open>One address, once it has its socket: the next is tried, or the loop is left.\<close>

lemma bind_one_result:
  assumes "io_bind (if d then sys (c_setsockopt fd opt val) else io_ret 0) (\<lambda>k.
        if k = -1 then io_bind (sys (c_close fd)) (\<lambda>_. io_ret Gives_up)
        else io_bind (sys (c_bind fd a)) (\<lambda>r.
               if r = 0 then io_ret (Bound fd rp) else io_bind (sys (c_close fd)) (\<lambda>_. g))) u = (r, w')"
    and "w_open u = fd # l" and "fd \<notin> set l"
  shows "r = Stop Blocked \<or> r = Ret Gives_up \<and> w_open w' = l
    \<or> r = Ret (Bound fd rp) \<and> w_open w' = fd # l \<and> w_kind w' = w_kind u \<and> bound_to w' fd a
        \<and> (\<not> d \<or> (fd, opt, val) \<in> set (w_opts w'))
    \<or> (\<exists>t. w_open t = l \<and> g t = (r, w'))"
  using assms(1)
proof (cases rule: io_bind_cases)
  case (1 k v)
  from option_result [OF 1(1)] assms(2) have v: "w_open v = fd # l" "w_kind v = w_kind u"
    "k = -1 \<or> \<not> d \<or> (fd, opt, val) \<in> set (w_opts v)" by simp_all
  show ?thesis
  proof (cases "k = -1")
    case True
    with 1(2) close_then [OF _ v(1) assms(3), of "io_ret Gives_up"] show ?thesis by (auto simp: io_ret_def)
  next
    case False
    with 1(2) have "io_bind (sys (c_bind fd a)) (\<lambda>r.
        if r = 0 then io_ret (Bound fd rp) else io_bind (sys (c_close fd)) (\<lambda>_. g)) v = (r, w')" by simp
    then show ?thesis
    proof (cases rule: sys_bind_cases)
      case (2 j t)
      note b = bind_call_result [OF 2(1)]
      with v have t: "w_open t = fd # l" by simp
      show ?thesis
      proof (cases "j = 0")
        case True
        with 2(2) have "r = Ret (Bound fd rp)" "w' = t" by (simp_all add: io_ret_def)
        with b v t True False show ?thesis by auto
      qed (use 2(2) close_then [OF _ t assms(3), of g] in auto)
    qed simp
  qed
qed (use option_result in fastforce)+

lemma bind_first_result:
  "bind_first d rps w = (r, w') \<Longrightarrow> r = Stop Blocked \<or> (\<exists>p. r = Ret p \<and> bind_promise d rps w p w')"
proof (induction rps arbitrary: w)
  case Nil
  then show ?case by (auto simp: io_ret_def bind_promise_def)
next
  case (Cons rp rps)
  have next_one: ?case if "bind_first d rps t = (r, w')" "w_open t = w_open w" for t
    using Cons.IH [OF that(1)] that(2) bind_promise_next by blast
  from Cons.prems [unfolded bind_first.simps] show ?case
  proof (cases rule: sys_bind_cases)
    case (2 fd u)
    note s = ai_socket_result [OF 2(1)]
    show ?thesis
    proof (cases "fd = -1")
      case True
      with 2(2) s show ?thesis by (intro next_one [of u]) (auto simp: new_or_none_def)
    next
      case new: False
      with s have u: "w_open u = fd # w_open w" "fd \<notin> set (w_open w)" "0 \<le> fd"
        by (simp_all add: new_or_none_def)
      from new 2(2) have "io_bind (if d then sys (c_setsockopt fd SO_REUSEADDR [1]) else io_ret 0) (\<lambda>k.
          if k = -1 then io_bind (sys (c_close fd)) (\<lambda>_. io_ret Gives_up)
          else io_bind (sys (c_bind fd (ai_addr rp))) (\<lambda>r. if r = 0 then io_ret (Bound fd rp)
                 else io_bind (sys (c_close fd)) (\<lambda>_. bind_first d rps))) u = (r, w')" by simp
      from bind_one_result [OF this u(1,2)]
      consider "r = Stop Blocked" | "r = Ret Gives_up" "w_open w' = w_open w"
        | "r = Ret (Bound fd rp)" "w_open w' = fd # w_open w" "w_kind w' = w_kind u"
            "bound_to w' fd (ai_addr rp)" "\<not> d \<or> (fd, SO_REUSEADDR, [1]) \<in> set (w_opts w')"
        | t where "bind_first d rps t = (r, w')" "w_open t = w_open w" by blast
      then show ?thesis
        by cases (use next_one u new s in \<open>auto simp: bind_promise_def bound_socket_def new_or_none_def\<close>)
    qed
  qed simp
qed

text \<open>The passive socket, over all ways the loop is left.\<close>

lemma listen_call_result:
  assumes "sys (c_listen fd) u = (Ret k, v)"
  shows "w_open v = w_open u" and "bound_socket d v fd rp = bound_socket d u fd rp" and "k = 0 \<or> k = -1"
  using assms
  by (auto simp: sys_def c_listen_def on_fd_def on_answer_def bound_socket_def bound_to_def
      split: list.splits answer.splits saddr.splits if_splits)

text \<open>
  The passive socket, over all ways the loop is left: the calls that are made last, and on
  which descriptor, decide.
\<close>

definition passive_result ::
  "addrinfo list \<Rightarrow> bool \<Rightarrow> world \<Rightarrow> (halt, int \<times> nat option) exec \<Rightarrow> world \<Rightarrow> bool" where
  "passive_result rps d w r w' \<longleftrightarrow>
     r = Stop Blocked
     \<or> r = Ret (-1, None) \<and> w_open w' = w_open w
     \<or> (\<exists>fd rp. rp \<in> set rps \<and> 0 \<le> fd \<and> fd \<notin> set (w_open w) \<and> w_open w' = fd # w_open w
         \<and> bound_socket d w' fd rp
         \<and> (if d then \<exists>u. sys (c_listen fd) u = (Ret (-1), w') \<and> r = Ret (-1, None)
                     \<or> sys (c_listen fd) u = (Ret 0, w') \<and> r = Ret (fd, Some (ai_addrlen rp))
            else r = Ret (fd, Some (ai_addrlen rp))))"

lemma sock_create_result:
  assumes "sock_create_passive getaddrinfo service type doListen backlog w = (r, w')"
  shows "case getaddrinfo None service type of
      None \<Rightarrow> r = Ret (-1, None) \<and> w' = w
    | Some result \<Rightarrow> passive_result result doListen w r w'"
proof (cases "getaddrinfo None service type")
  case None
  with assms show ?thesis by (auto simp: sock_create_passive_def io_ret_def)
next
  case (Some result)
  from assms Some have "io_bind (bind_first doListen result) (\<lambda>p.
      case p of
        Gives_up \<Rightarrow> io_ret (-1, None)
      | No_address \<Rightarrow> io_ret (-1, None)
      | Bound sfd rp \<Rightarrow>
          if doListen
          then io_bind (sys (c_listen sfd)) (\<lambda>r.
                 if r = -1 then io_ret (-1, None) else io_ret (sfd, Some (ai_addrlen rp)))
          else io_ret (sfd, Some (ai_addrlen rp))) w = (r, w')" by (simp add: sock_create_passive_def)
  then have "passive_result result doListen w r w'"
  proof (cases rule: io_bind_cases)
    case (1 p u)
    note res = bind_first_result [OF 1(1)]
    show ?thesis
    proof (cases p)
      case (Bound fd rp)
      with res have u: "rp \<in> set result" "0 \<le> fd" "fd \<notin> set (w_open w)" "w_open u = fd # w_open w"
        "bound_socket doListen u fd rp"
        by (auto simp: bind_promise_def new_or_none_def)
      show ?thesis
      proof (cases doListen)
        case True
        with 1(2) Bound have "io_bind (sys (c_listen fd)) (\<lambda>r.
            if r = -1 then io_ret (-1, None) else io_ret (fd, Some (ai_addrlen rp))) u = (r, w')" by simp
        then show ?thesis
        proof (cases rule: sys_bind_cases)
          case (2 k v)
          then have "w' = v" "r = (if k = -1 then Ret (-1, None) else Ret (fd, Some (ai_addrlen rp)))"
            by (simp_all add: io_ret_def split: if_splits)
          with u 2(1) True listen_call_result [OF 2(1)] show ?thesis
            unfolding passive_result_def by (intro disjI2 exI [of _ fd] exI [of _ rp]) auto
        qed (simp add: passive_result_def)
      qed (use 1(2) Bound u in \<open>auto simp: io_ret_def passive_result_def\<close>)
    qed (use 1(2) res in \<open>auto simp: io_ret_def bind_promise_def passive_result_def\<close>)
  qed (use bind_first_result in \<open>fastforce simp: passive_result_def\<close>)+
  with Some show ?thesis by simp
qed

section \<open>Properties\<close>

text \<open>
  C23: \<open>sock_connect\<close> returns one new descriptor, connected to one of the addresses found and of
  that address's kind, and has closed every other it opened; or -1, with the descriptors as
  they were. It can only stop by blocking in a call.
\<close>

theorem sock_connect_descriptors:
  assumes "sock_connect getaddrinfo host service type w = (r, w')"
  shows "r = Stop Blocked
    \<or> r = Ret (-1) \<and> w_open w' = w_open w
    \<or> (\<exists>fd result. r = Ret fd \<and> 0 \<le> fd \<and> fd \<notin> set (w_open w) \<and> w_open w' = fd # w_open w
        \<and> getaddrinfo (Some host) service type = Some result
        \<and> (\<exists>rp \<in> set result. w_peer w' fd = ai_addr rp
             \<and> w_kind w' fd = (ai_family rp, ai_socktype rp, ai_protocol rp)))"
proof (cases "getaddrinfo (Some host) service type")
  case None
  with assms show ?thesis by (auto simp: sock_connect_def io_defs set_errno_def)
next
  case (Some result)
  with assms have "connect_first result w = (r, w')" by (simp add: sock_connect_def)
  from connect_first_result [OF this]
  consider "r = Stop Blocked" | "r = Ret (-1)" "w_open w' = w_open w"
    | fd rp where "r = Ret fd" "fd \<noteq> -1" "new_or_none fd w w'" "rp \<in> set result" "w_peer w' fd = ai_addr rp"
        "w_kind w' fd = (ai_family rp, ai_socktype rp, ai_protocol rp)"
    unfolding new_or_none_def by metis
  then show ?thesis by cases (use Some in \<open>auto simp: new_or_none_def\<close>)
qed

definition one_host :: lookup where
  "one_host host service type =
     Some [\<lparr>ai_family = 2, ai_socktype = type, ai_protocol = 6, ai_addr = Inet 1 80, ai_addrlen = 16\<rparr>,
           \<lparr>ai_family = 2, ai_socktype = type, ai_protocol = 6, ai_addr = Inet 2 80, ai_addrlen = 16\<rparr>]"

theorem sock_connect_descriptors_witness:
  "\<exists>w'. sock_connect one_host ''localhost'' ''12345'' STREAM
      (start_world [Ok 0 [] Unnamed, Err ECONNREFUSED, Ok 0 [] Unnamed, Ok 0 [] Unnamed, Ok 0 [] Unnamed]) = (Ret 3, w')
    \<and> w_open w' = [3, 2, 1, 0]"
proof -
  let ?w = "start_world [Ok 0 [] Unnamed, Err ECONNREFUSED, Ok 0 [] Unnamed, Ok 0 [] Unnamed, Ok 0 [] Unnamed]"
  obtain r w' where run: "sock_connect one_host ''localhost'' ''12345'' STREAM ?w = (r, w')" by (rule prod.exhaust)
  have "fst (sock_connect one_host ''localhost'' ''12345'' STREAM ?w) = Ret 3" by code_simp
  with run have r: "r = Ret 3" by simp
  have "w_open ?w = [2, 1, 0]" by (simp add: start_world_def)
  with sock_connect_descriptors [OF run] r run show ?thesis by auto
qed



text \<open>The leak: one socket more when \<open>listen\<close> fails.\<close>

lemma sock_listen_leaks:
  assumes "w_answers w = Ok n1 b1 x1 # Ok n2 b2 x2 # Ok n3 b3 x3 # Err e # as"
    and "getaddrinfo None service STREAM = Some (rp # rest)" and "ai_addr rp = Inet a p"
  shows "\<exists>w'. sock_listen getaddrinfo service backlog w = (Ret (-1, None), w')
    \<and> w_open w' = lowest_free (w_open w) # w_open w"
  using assms
  by (simp add: sock_listen_def sock_create_passive_def io_bind_def io_ret_def sys_def ai_socket_def
      c_socket_def c_setsockopt_def c_bind_def c_listen_def on_fd_def on_answer_def new_fd_def Let_def)

end
