(* ===== verification/Unix_Stream.thy ===== *)
theory Unix_Stream
  imports Unix_Socket Inet_Sockets
begin

text \<open>
  \<open>day3/unix_stream_server/main.cpp\<close>: a server that writes a line to every client that
  connects to a path, and its client. \<open>read\<close> and \<open>write\<close> on a socket are \<open>recv\<close> and \<open>send\<close>; the
  signal of a write to a closed connection is left out. \<open>exit\<close> closes the descriptors that
  are still open and leaves the files; the model shows them as they were before it.
\<close>

section \<open>The server\<close>

definition SOCK_PATH :: string where
  "SOCK_PATH = ''/tmp/ux_stream_srv''"

definition exit_message :: "string \<Rightarrow> int io" where
  "exit_message msg = io_bind (io_print msg) (\<lambda>_. io_ret 1)"

definition stream_msg :: "u8 list" where
  "stream_msg = map of_char (''foo'' @ [newline, CHR 0x00])"

text \<open>One round: \<open>Some\<close> status when the program exits.\<close>

definition stream_round :: "int \<Rightarrow> int option io" where
  "stream_round sfd =
     io_bind (sys (c_accept sfd)) (\<lambda>cfd.
       if cfd = -1 then io_bind (exit_message ''accept error'') (\<lambda>k. io_ret (Some k))
       else io_bind (io_print (''new client '' @ show_int cfd)) (\<lambda>_.
            io_bind (sys (c_send cfd stream_msg)) (\<lambda>_.
            io_bind (sys (c_close cfd)) (\<lambda>_. io_ret None))))"

lemma sys_answers:
  assumes "sys c w = (Ret x, w')" and "\<And>a v y v'. c a v = (y, v') \<Longrightarrow> w_answers v' = w_answers v"
  shows "length (w_answers w') < length (w_answers w)"
proof -
  from assms(1) obtain a as where "w_answers w = a # as" "c a (w\<lparr>w_answers := as\<rparr>) = (x, w')"
    by (rule sys_Ret)
  with assms(2) show ?thesis by fastforce
qed

lemma accept_answers: "c_accept fd a v = (y, v') \<Longrightarrow> w_answers v' = w_answers v"
  by (auto simp: c_accept_def on_fd_def on_answer_def new_fd_def Let_def split: answer.splits if_splits)

lemma send_answers: "c_send fd buf a v = (y, v') \<Longrightarrow> w_answers v' = w_answers v"
  by (auto simp: c_send_def on_fd_def on_answer_def Let_def split: answer.splits if_splits)

lemma close_answers: "c_close fd a v = (y, v') \<Longrightarrow> w_answers v' = w_answers v"
  by (auto simp: c_close_def on_answer_def split: answer.splits if_splits)

lemma stream_round_answers:
  assumes "stream_round sfd w = (Ret x, w')"
  shows "length (w_answers w') < length (w_answers w)"
  using assms unfolding stream_round_def
proof (cases rule: sys_bind_cases)
  case (2 cfd u)
  note u = sys_answers [OF 2(1) accept_answers]
  show ?thesis
  proof (cases "cfd = -1")
    case True
    with 2(2) u show ?thesis by (auto simp: exit_message_def io_defs)
  next
    case False
    with 2(2) have "io_bind (sys (c_send cfd stream_msg)) (\<lambda>_. io_bind (sys (c_close cfd)) (\<lambda>_. io_ret None))
        (u\<lparr>w_out := w_out u @ [''new client '' @ show_int cfd]\<rparr>) = (Ret x, w')"
      by (simp add: io_bind_def io_print_def)
    then show ?thesis
    proof (cases rule: sys_bind_cases)
      case (2 k v)
      note v = sys_answers [OF 2(1) send_answers]
      from 2(2) show ?thesis
        by (cases rule: sys_bind_cases)
          (use u v sys_answers [OF _ close_answers] in \<open>fastforce simp: io_ret_def\<close>)+
    qed simp
  qed
qed simp

function stream_loop :: "int \<Rightarrow> world \<Rightarrow> (halt, int) exec \<times> world" where
  "stream_loop sfd w =
     (case stream_round sfd w of
        (Ret None, w') \<Rightarrow> stream_loop sfd w'
      | (Ret (Some status), w') \<Rightarrow> (Ret status, w')
      | (Stop e, w') \<Rightarrow> (Stop e, w')
      | (UB, w') \<Rightarrow> (UB, w'))"
  by pat_completeness auto

termination
  by (relation "measure (\<lambda>(sfd, w). length (w_answers w))")
    (auto dest: stream_round_answers [OF sym])

declare stream_loop.simps [simp del]

definition stream_server :: "int io" where
  "stream_server =
     io_bind (sys (c_socket UNIX STREAM 0)) (\<lambda>sfd.
       if sfd = -1 then exit_message ''socket error''
       else io_bind (sys (c_bind sfd (Path SOCK_PATH))) (\<lambda>b.
         if b = -1 then exit_message ''bind error''
         else io_bind (sys (c_listen sfd)) (\<lambda>l.
           if l = -1 then exit_message ''listen error'' else stream_loop sfd)))"

section \<open>The client\<close>

text \<open>
  The result of \<open>socket\<close> and \<open>connect\<close> is not tested; a call on descriptor -1 fails. The
  buffer is not initialised, so printing it is defined only if a null byte was received.
\<close>

definition stream_client :: "int io" where
  "stream_client =
     io_bind (sys (c_socket UNIX STREAM 0)) (\<lambda>fd.
     io_bind (sys (c_connect fd (Path SOCK_PATH))) (\<lambda>_.
     io_bind (sys (c_recv fd 1024)) (\<lambda>(num_read, buf).
       if num_read < 1 then
         io_bind (io_print (''Read error '' @ show_int num_read)) (\<lambda>_.
         io_bind (sys (c_close fd)) (\<lambda>_. io_ret 1))
       else if 0 \<in> set buf then
         io_bind (io_print (''Rcv '' @ map byte_char (takeWhile (\<lambda>b. b \<noteq> 0) buf))) (\<lambda>_.
         io_bind (sys (c_close fd)) (\<lambda>_. io_ret 0))
       else (\<lambda>w. (UB, w)))))"

definition stream_main :: "nat \<Rightarrow> int io" where
  "stream_main argc = (if 1 < argc then stream_client else stream_server)"

section \<open>Properties\<close>

text \<open>A round leaves the descriptors and the files as they were: every client is closed.\<close>

lemma stream_round_result:
  assumes "stream_round sfd w = (r, w')"
  shows "r = Stop Blocked \<and> w_files w' = w_files w
    \<or> w_open w' = w_open w \<and> w_files w' = w_files w
      \<and> (r = Ret None \<or> r = Ret (Some 1) \<and> last (w_out w') = ''accept error'')"
  using assms unfolding stream_round_def
proof (cases rule: sys_bind_cases)
  case (2 cfd u)
  from 2(1) have u: "new_or_none cfd w u" "w_files u = w_files w"
    by (auto simp: sys_def c_accept_def on_fd_def on_answer_def new_fd_def Let_def new_or_none_def
        lowest_free_new split: list.splits answer.splits if_splits)
  show ?thesis
  proof (cases "cfd = -1")
    case True
    with 2(2) u show ?thesis by (auto simp: exit_message_def io_defs new_or_none_def)
  next
    case False
    let ?u = "u\<lparr>w_out := w_out u @ [''new client '' @ show_int cfd]\<rparr>"
    from False u have o: "w_open ?u = cfd # w_open w" "cfd \<notin> set (w_open w)"
      by (simp_all add: new_or_none_def)
    from False 2(2) have "io_bind (sys (c_send cfd stream_msg)) (\<lambda>_. io_bind (sys (c_close cfd)) (\<lambda>_. io_ret None)) ?u = (r, w')"
      by (simp add: io_bind_def io_print_def)
    then show ?thesis
    proof (cases rule: sys_bind_cases)
      case (2 k v)
      then have v: "w_open v = w_open ?u" "w_files v = w_files ?u"
        by (auto simp: sys_def c_send_def on_fd_def on_answer_def Let_def split: list.splits answer.splits if_splits)
      have files: "w_files t = w_files v" if "sys (c_close cfd) v = (Ret m, t)" for m t
        using that by (auto simp: sys_def c_close_def on_answer_def split: list.splits answer.splits if_splits)
      from 2(2) show ?thesis
        by (cases rule: sys_bind_cases)
          (use o v u close_new [of cfd v _ _ "w_open w"] files in \<open>auto simp: io_ret_def\<close>)
    qed (use u in simp)
  qed
qed simp

lemma stream_loop_result:
  "stream_loop sfd w = (r, w') \<Longrightarrow>
   w_files w' = w_files w
   \<and> (r = Stop Blocked \<or> r = Ret 1 \<and> w_open w' = w_open w \<and> last (w_out w') = ''accept error'')"
proof (induction sfd w rule: stream_loop.induct)
  case (1 sfd w)
  obtain q u where q: "stream_round sfd w = (q, u)" by fastforce
  from stream_round_result [OF q] consider "q = Stop Blocked" "w_files u = w_files w"
    | "q = Ret (Some 1)" "w_open u = w_open w" "w_files u = w_files w" "last (w_out u) = ''accept error''"
    | "q = Ret None" "w_open u = w_open w" "w_files u = w_files w" by blast
  then show ?case
  proof cases
    case 3
    from "1.prems" q 3(1) have "stream_loop sfd u = (r, w')" by (subst (asm) stream_loop.simps) simp
    from "1.IH" [OF q [symmetric] 3(1) refl this] 3(2,3) show ?thesis by simp
  qed (use "1.prems" q in \<open>simp add: stream_loop.simps\<close>)+
qed

text \<open>A call that is made first is the one that blocks, or it returns.\<close>

lemma sys_first_cases:
  assumes "io_bind (sys c) g w = (r, w')"
  obtains "sys c w = (Stop Blocked, w)" "r = Stop Blocked" "w' = w" | x u where "sys c w = (Ret x, u)" "g x u = (r, w')"
  using assms by (cases "w_answers w") (auto simp: io_bind_def sys_def split: prod.splits)

text \<open>Does the server get a socket and bind it to its path?\<close>

definition stream_bound :: "world \<Rightarrow> bool" where
  "stream_bound w \<longleftrightarrow>
     fst (io_bind (sys (c_socket UNIX STREAM 0))
            (\<lambda>sfd. if sfd = -1 then io_ret (-1) else sys (c_bind sfd (Path SOCK_PATH))) w) = Ret 0"

lemma stream_bind_result:
  assumes "sys (c_bind sfd (Path SOCK_PATH)) u = (Ret b, v)"
  shows "w_open v = w_open u \<and> w_out v = w_out u
    \<and> (b = -1 \<and> w_files v = w_files u \<or> b = 0 \<and> SOCK_PATH \<notin> set (w_files u) \<and> w_files v = SOCK_PATH # w_files u)"
  using assms by (auto simp: sys_def c_bind_def on_fd_def on_answer_def split: list.splits answer.splits if_splits)

text \<open>From \<open>listen\<close> on: the file is there, and stays.\<close>

lemma stream_listen_result:
  assumes "io_bind (sys (c_listen sfd)) (\<lambda>l.
      if l = -1 then exit_message ''listen error'' else stream_loop sfd) v = (r, w')"
  shows "w_files w' = w_files v \<and> (r = Stop Blocked \<or> r = Ret 1 \<and> w_open w' = w_open v
    \<and> last (w_out w') \<in> {''listen error'', ''accept error''})"
  using assms
proof (cases rule: sys_bind_cases)
  case (2 l t)
  then have "w_open t = w_open v" "w_files t = w_files v"
    by (auto simp: sys_def c_listen_def on_fd_def on_answer_def split: list.splits answer.splits if_splits)
  with 2(2) show ?thesis by (cases "l = -1") (auto simp: exit_message_def io_defs dest: stream_loop_result)
qed simp

text \<open>
  C28: Once the server has bound its socket the file of its path is there, and is still there
  when the server ends, which it does with status 1 and after a message that \<open>listen\<close> or
  \<open>accept\<close> failed, if it does not block in a call. If it does not get that far it makes no file,
  and ends with 1 and the one message that \<open>socket\<close> or \<open>bind\<close> failed, unless it blocks. A server
  started where the file exists does not get that far. Apart from the run that blocks in a
  call, the descriptors are as they were but for the server's own socket.
\<close>

theorem stream_server_leaves_its_file:
  assumes "stream_server w = (r, w')"
  shows "w_files w' = (if stream_bound w then SOCK_PATH # w_files w else w_files w)
    \<and> (SOCK_PATH \<in> set (w_files w) \<longrightarrow> \<not> stream_bound w)
    \<and> (r = Stop Blocked
      \<or> r = Ret 1 \<and> (w_open w' = w_open w \<or> w_open w' = lowest_free (w_open w) # w_open w)
        \<and> (if stream_bound w then last (w_out w') \<in> {''listen error'', ''accept error''}
           else w_out w' = w_out w @ [''socket error''] \<or> w_out w' = w_out w @ [''bind error'']))"
proof -
  from assms [unfolded stream_server_def] show ?thesis
  proof (cases rule: sys_first_cases)
    case 1
    then have "\<not> stream_bound w" by (simp add: stream_bound_def io_bind_def)
    with 1 show ?thesis by simp
  next
    case (2 sfd u)
    from 2(1) have u: "(sfd = -1 \<and> w_open u = w_open w) \<or> (sfd \<noteq> -1 \<and> w_open u = lowest_free (w_open w) # w_open w)"
      "w_files u = w_files w" "w_out u = w_out w"
      by (auto simp: sys_def c_socket_def on_answer_def new_fd_def Let_def split: list.splits answer.splits)
    have bound: "stream_bound w \<longleftrightarrow> sfd \<noteq> -1 \<and> fst (sys (c_bind sfd (Path SOCK_PATH)) u) = Ret 0"
      using 2(1) by (simp add: stream_bound_def io_bind_def io_ret_def)
    show ?thesis
    proof (cases "sfd = -1")
      case True
      with 2(2) u bound show ?thesis by (auto simp: exit_message_def io_defs)
    next
      case new: False
      with 2(2) have "io_bind (sys (c_bind sfd (Path SOCK_PATH))) (\<lambda>b.
           if b = -1 then exit_message ''bind error''
           else io_bind (sys (c_listen sfd)) (\<lambda>l.
             if l = -1 then exit_message ''listen error'' else stream_loop sfd)) u = (r, w')" by simp
      then show ?thesis
      proof (cases rule: sys_first_cases)
        case 1
        then have "\<not> stream_bound w" unfolding bound by simp
        with 1 u show ?thesis by simp
      next
        case (2 b v)
        note v = stream_bind_result [OF 2(1)]
        from bound new 2(1) have b: "stream_bound w \<longleftrightarrow> b = 0" by simp
        show ?thesis
        proof (cases "b = -1")
          case True
          with 2(2) u v b show ?thesis by (auto simp: exit_message_def io_defs)
        next
          case False
          with 2(2) stream_listen_result u v b new show ?thesis by fastforce
        qed
      qed
    qed
  qed
qed

theorem stream_server_leaves_its_file_witness:
  "\<exists>w1 w2. stream_server (start_world [Ok 0 [] Unnamed, Ok 0 [] Unnamed, Err EPERM]) = (Ret 1, w1)
    \<and> SOCK_PATH \<in> set (w_files w1)
    \<and> stream_server (w1\<lparr>w_answers := replicate 3 (Ok 0 [] Unnamed)\<rparr>) = (Ret 1, w2)
    \<and> w_files w2 = w_files w1"
proof -
  let ?w = "start_world [Ok 0 [] Unnamed, Ok 0 [] Unnamed, Err EPERM]"
  obtain r1 w1 where run1: "stream_server ?w = (r1, w1)" by (rule prod.exhaust)
  let ?w1 = "w1\<lparr>w_answers := replicate 3 (Ok 0 [] Unnamed)\<rparr>"
  obtain r2 w2 where run2: "stream_server ?w1 = (r2, w2)" by (rule prod.exhaust)
  have e: "fst (stream_server ?w) = Ret 1" "SOCK_PATH \<in> set (w_files (snd (stream_server ?w)))"
    "fst (stream_server ((snd (stream_server ?w))\<lparr>w_answers := replicate 3 (Ok 0 [] Unnamed)\<rparr>)) = Ret 1"
    by code_simp+
  with run1 run2 have r: "r1 = Ret 1" "SOCK_PATH \<in> set (w_files w1)" "r2 = Ret 1" by simp_all
  from stream_server_leaves_its_file [OF run2] r have "w_files w2 = w_files w1" by simp
  with run1 run2 r show ?thesis by blast
qed

end
