(* ===== verification/Pi_Darts.thy ===== *)
theory Pi_Darts
  imports C_Stdio
begin

text \<open>
  \<open>day2/ex_pi\<close>: an estimate of pi by darts thrown at random, by one thread and by several.
  The generator is a sequence of numbers with a position that all threads share. In the
  pthreads version nothing guards it: a thread reads the position in one step and advances it
  in another, so that what another thread does between them is lost. (To C++ that race is
  undefined; how the inner state of the generator may be torn is not modelled.) The test in
  floating point, whether two numbers make a hit, is an argument; the estimate itself is left
  as the two numbers it is computed from.
\<close>

section \<open>One thread\<close>

text \<open>The rounds that remain, the hits so far and the position of the generator.\<close>

primrec darts_loop :: "(int \<Rightarrow> int \<Rightarrow> bool) \<Rightarrow> (nat \<Rightarrow> int) \<Rightarrow> nat \<Rightarrow> int \<Rightarrow> nat \<Rightarrow> int \<times> nat" where
  "darts_loop hit rg 0 p pos = (p, pos)"
| "darts_loop hit rg (Suc k) p pos =
     darts_loop hit rg k (if hit (rg pos) (rg (pos + 1)) then p + 1 else p) (pos + 2)"

definition darts :: "(int \<Rightarrow> int \<Rightarrow> bool) \<Rightarrow> (nat \<Rightarrow> int) \<Rightarrow> int \<Rightarrow> int" where
  "darts hit rg num_darts = fst (darts_loop hit rg (nat num_darts) 0 0)"

text \<open>The quotient the serial program multiplies by four: hits and darts.\<close>

definition calculate_serial :: "(int \<Rightarrow> int \<Rightarrow> bool) \<Rightarrow> (nat \<Rightarrow> int) \<Rightarrow> int \<Rightarrow> int \<times> int" where
  "calculate_serial hit rg num_darts = (darts hit rg num_darts, num_darts)"

section \<open>Several threads\<close>

text \<open>
  A thread: the darts it has still to throw, the position it has read for the number it is
  drawing, the number it has drawn for \<open>x\<close>, its hits. The list of the draws, each with its
  thread and its position, is kept for the statements only.
\<close>

record dart_thread =
  dt_left :: nat
  dt_draw :: "nat option"
  dt_x :: "int option"
  dt_p :: int

record pi_state =
  pi_threads :: "tid \<Rightarrow> dart_thread"
  pi_pos :: nat
  pi_drawn :: "(tid \<times> nat) list"

text \<open>Every thread gets the quotient of the darts by the threads.\<close>

definition pi_start :: "int \<Rightarrow> int \<Rightarrow> pi_state" where
  "pi_start num_darts num_threads =
     \<lparr>pi_threads = (\<lambda>t. \<lparr>dt_left = nat (c_quot num_darts num_threads), dt_draw = None, dt_x = None, dt_p = 0\<rparr>),
      pi_pos = 0, pi_drawn = []\<rparr>"

text \<open>What a thread makes of the number it has drawn.\<close>

definition darts_step :: "(int \<Rightarrow> int \<Rightarrow> bool) \<Rightarrow> int \<Rightarrow> dart_thread \<Rightarrow> dart_thread" where
  "darts_step hit v th =
     (case dt_x th of
        None \<Rightarrow> th\<lparr>dt_x := Some v\<rparr>
      | Some x \<Rightarrow>
          th\<lparr>dt_x := None, dt_left := dt_left th - 1,
             dt_p := (if hit x v then dt_p th + 1 else dt_p th)\<rparr>)"

text \<open>A draw: the position is read, then it is advanced and the number used.\<close>

definition pi_read :: "tid \<Rightarrow> pi_state \<Rightarrow> pi_state option" where
  "pi_read t s =
     (let th = pi_threads s t
      in if dt_left th = 0 \<or> dt_draw th \<noteq> None then None
         else Some (s\<lparr>pi_threads := (pi_threads s)(t := th\<lparr>dt_draw := Some (pi_pos s)\<rparr>)\<rparr>))"

definition pi_advance ::
  "(int \<Rightarrow> int \<Rightarrow> bool) \<Rightarrow> (nat \<Rightarrow> int) \<Rightarrow> tid \<Rightarrow> pi_state \<Rightarrow> pi_state option" where
  "pi_advance hit rg t s =
     (let th = pi_threads s t
      in case dt_draw th of
           None \<Rightarrow> None
         | Some p \<Rightarrow>
             Some (s\<lparr>pi_threads := (pi_threads s)(t := darts_step hit (rg p) (th\<lparr>dt_draw := None\<rparr>)),
                     pi_pos := Suc p, pi_drawn := pi_drawn s @ [(t, p)]\<rparr>))"

inductive pi_step :: "(int \<Rightarrow> int \<Rightarrow> bool) \<Rightarrow> (nat \<Rightarrow> int) \<Rightarrow> nat \<Rightarrow> pi_state \<Rightarrow> pi_state \<Rightarrow> bool"
  for hit rg n where
  read: "t < n \<Longrightarrow> pi_read t s = Some s' \<Longrightarrow> pi_step hit rg n s s'"
| advance: "t < n \<Longrightarrow> pi_advance hit rg t s = Some s' \<Longrightarrow> pi_step hit rg n s s'"

text \<open>A draw nothing comes between.\<close>

inductive pi_draw :: "(int \<Rightarrow> int \<Rightarrow> bool) \<Rightarrow> (nat \<Rightarrow> int) \<Rightarrow> nat \<Rightarrow> pi_state \<Rightarrow> pi_state \<Rightarrow> bool"
  for hit rg n where
  "t < n \<Longrightarrow> pi_read t s = Some u \<Longrightarrow> pi_advance hit rg t u = Some s' \<Longrightarrow> pi_draw hit rg n s s'"

inductive_cases pi_stepE: "pi_step hit rg n s s'"
inductive_cases pi_drawE: "pi_draw hit rg n s s'"

definition pi_joined :: "nat \<Rightarrow> pi_state \<Rightarrow> bool" where
  "pi_joined n s \<longleftrightarrow> (\<forall>t<n. dt_left (pi_threads s t) = 0)"

definition calculate_threaded :: "nat \<Rightarrow> int \<Rightarrow> pi_state \<Rightarrow> int \<times> int" where
  "calculate_threaded n num_darts s = ((\<Sum>t<n. dt_p (pi_threads s t)), num_darts)"

section \<open>The darts of a run\<close>

text \<open>The positions a thread has drawn, in order; two make a dart.\<close>

definition draws_by :: "tid \<Rightarrow> pi_state \<Rightarrow> nat list" where
  "draws_by t s = map snd (filter (\<lambda>d. fst d = t) (pi_drawn s))"

fun darts_of :: "nat list \<Rightarrow> (nat \<times> nat) list" where
  "darts_of (i # j # is) = (i, j) # darts_of is"
| "darts_of is = []"

definition hits :: "(int \<Rightarrow> int \<Rightarrow> bool) \<Rightarrow> (nat \<Rightarrow> int) \<Rightarrow> (nat \<times> nat) list \<Rightarrow> int" where
  "hits hit rg ps = int (length (filter (\<lambda>(i, j). hit (rg i) (rg j)) ps))"

lemma hits_simps [simp]:
  "hits hit rg [] = 0" "hits hit rg ((i, j) # ps) = (if hit (rg i) (rg j) then hits hit rg ps + 1 else hits hit rg ps)"
  "hits hit rg (ps @ qs) = hits hit rg ps + hits hit rg qs"
  by (simp_all add: hits_def)

lemma length_darts_of: "length (darts_of is) = length is div 2"
  by (induction "is" rule: darts_of.induct) simp_all

lemma darts_of_snoc:
  "even (length is) \<Longrightarrow> darts_of (is @ [j]) = darts_of is"
  "odd (length is) \<Longrightarrow> darts_of (is @ [j]) = darts_of is @ [(last is, j)]"
  by (induction "is" rule: darts_of.induct) auto

text \<open>What a thread with \<open>m\<close> darts has made of the numbers it drew.\<close>

definition dart_inv :: "(int \<Rightarrow> int \<Rightarrow> bool) \<Rightarrow> (nat \<Rightarrow> int) \<Rightarrow> nat \<Rightarrow> nat list \<Rightarrow> dart_thread \<Rightarrow> bool" where
  "dart_inv hit rg m is th \<longleftrightarrow>
     dt_left th \<le> m \<and> length is = 2 * (m - dt_left th) + (if dt_x th = None then 0 else 1)
     \<and> dt_p th = hits hit rg (darts_of is)
     \<and> dt_x th = (if odd (length is) then Some (rg (last is)) else None)
     \<and> (dt_left th = 0 \<longrightarrow> dt_x th = None \<and> dt_draw th = None)"

text \<open>Positions stay below the number of draws.\<close>

definition pi_inv :: "(int \<Rightarrow> int \<Rightarrow> bool) \<Rightarrow> (nat \<Rightarrow> int) \<Rightarrow> nat \<Rightarrow> pi_state \<Rightarrow> bool" where
  "pi_inv hit rg m s \<longleftrightarrow>
     (\<forall>t. dart_inv hit rg m (draws_by t s) (pi_threads s t)
        \<and> (case dt_draw (pi_threads s t) of None \<Rightarrow> True | Some p \<Rightarrow> p \<le> length (pi_drawn s)))
     \<and> pi_pos s \<le> length (pi_drawn s) \<and> list_all (\<lambda>d. snd d < length (pi_drawn s)) (pi_drawn s)"

text \<open>The steps that remain.\<close>

definition dart_left :: "dart_thread \<Rightarrow> nat" where
  "dart_left th = 4 * dt_left th - (if dt_x th = None then 0 else 2) - (if dt_draw th = None then 0 else 1)"

definition draws_left :: "nat \<Rightarrow> pi_state \<Rightarrow> nat" where
  "draws_left n s = thread_sum n dart_left (pi_threads s)"

lemma pi_inv_start: "pi_inv hit rg (nat (c_quot num_darts num_threads)) (pi_start num_darts num_threads)"
  by (simp add: pi_inv_def pi_start_def dart_inv_def draws_by_def)

lemma pi_read_inv:
  assumes "pi_inv hit rg m s" and "pi_read t s = Some s'"
  shows "pi_inv hit rg m s'"
proof -
  from assms(2) have left: "dt_left (pi_threads s t) \<noteq> 0"
    and s': "s' = s\<lparr>pi_threads := (pi_threads s)(t := (pi_threads s t)\<lparr>dt_draw := Some (pi_pos s)\<rparr>)\<rparr>"
    by (auto simp: pi_read_def Let_def split: if_splits)
  have "dart_inv hit rg m is (th\<lparr>dt_draw := d\<rparr>)" if "dart_inv hit rg m is th" "dt_left th \<noteq> 0" for "is" th d
  proof -
    have "dt_left (th\<lparr>dt_draw := d\<rparr>) = dt_left th" "dt_x (th\<lparr>dt_draw := d\<rparr>) = dt_x th"
      "dt_p (th\<lparr>dt_draw := d\<rparr>) = dt_p th" by simp_all
    note fields = this
    show ?thesis using that unfolding dart_inv_def fields by blast
  qed
  moreover have "draws_by u s' = draws_by u s" for u by (simp add: s' draws_by_def)
  ultimately show ?thesis using assms(1) left by (auto simp: s' pi_inv_def split: option.splits)
qed

lemma dart_inv_draw:
  assumes "dart_inv hit rg m is th" and "dt_left th \<noteq> 0"
  shows "dart_inv hit rg m (is @ [p]) (darts_step hit (rg p) (th\<lparr>dt_draw := None\<rparr>))"
proof (cases "dt_x th")
  case None
  then have even: "even (length is)" using assms(1) by (auto simp: dart_inv_def split: if_splits)
  with None assms show ?thesis by (auto simp: dart_inv_def darts_step_def darts_of_snoc)
next
  case (Some x)
  then have odd: "odd (length is)" "x = rg (last is)"
    using assms(1) by (auto simp: dart_inv_def split: if_splits)
  have "length is = 2 * (m - dt_left th) + 1" "dt_left th \<le> m" using assms(1) Some by (simp_all add: dart_inv_def)
  then have "Suc (length is) = 2 * (m - (dt_left th - 1))" using assms(2) by simp
  with Some odd assms show ?thesis by (auto simp: dart_inv_def darts_step_def darts_of_snoc)
qed

lemma draws_by_advance:
  "draws_by u (s\<lparr>pi_threads := f, pi_pos := k, pi_drawn := pi_drawn s @ [(t, p)]\<rparr>)
    = (if u = t then draws_by u s @ [p] else draws_by u s)"
  by (auto simp: draws_by_def)

lemma pi_advance_inv:
  assumes inv: "pi_inv hit rg m s" and step: "pi_advance hit rg t s = Some s'"
  shows "pi_inv hit rg m s'"
proof -
  from step obtain p where p: "dt_draw (pi_threads s t) = Some p"
    and s': "s' = s\<lparr>pi_threads := (pi_threads s)(t := darts_step hit (rg p) ((pi_threads s t)\<lparr>dt_draw := None\<rparr>)),
      pi_pos := Suc p, pi_drawn := pi_drawn s @ [(t, p)]\<rparr>"
    by (auto simp: pi_advance_def Let_def split: option.splits)
  have th: "dart_inv hit rg m (draws_by t s) (pi_threads s t)" and "p \<le> length (pi_drawn s)"
    using inv p unfolding pi_inv_def by (auto split: option.splits)
  from th p have "dt_left (pi_threads s t) \<noteq> 0" by (auto simp: dart_inv_def)
  from dart_inv_draw [OF th this, of p]
  have "dart_inv hit rg m (draws_by u s') (pi_threads s' u)" for u
    using inv unfolding s' draws_by_advance by (simp add: pi_inv_def)
  moreover have "case dt_draw (pi_threads s' u) of None \<Rightarrow> True | Some q \<Rightarrow> q \<le> length (pi_drawn s')" for u
  proof (cases "u = t")
    case True
    then show ?thesis by (simp add: s' darts_step_def split: option.split)
  next
    case False
    then show ?thesis using inv by (auto simp: s' pi_inv_def le_SucI split: option.splits)
  qed
  moreover have "pi_pos s' \<le> length (pi_drawn s')" using \<open>p \<le> length (pi_drawn s)\<close> by (simp add: s')
  moreover have "list_all (\<lambda>d. snd d < length (pi_drawn s')) (pi_drawn s')"
    using inv \<open>p \<le> length (pi_drawn s)\<close> by (auto simp: s' pi_inv_def list_all_iff less_SucI)
  ultimately show ?thesis unfolding pi_inv_def by blast
qed

lemma pi_read_left: "t < n \<Longrightarrow> pi_inv hit rg m s \<Longrightarrow> pi_read t s = Some s' \<Longrightarrow> draws_left n s' < draws_left n s"
  using thread_sum_upd [of t n dart_left "pi_threads s" "(pi_threads s t)\<lparr>dt_draw := Some (pi_pos s)\<rparr>"]
  by (auto simp: pi_read_def draws_left_def dart_left_def Let_def split: if_splits)

lemma pi_advance_left:
  assumes "t < n" and inv: "pi_inv hit rg m s" and step: "pi_advance hit rg t s = Some s'"
  shows "draws_left n s' < draws_left n s"
proof -
  from step obtain p where p: "dt_draw (pi_threads s t) = Some p"
    and s': "pi_threads s' = (pi_threads s)(t := darts_step hit (rg p) ((pi_threads s t)\<lparr>dt_draw := None\<rparr>))"
    by (auto simp: pi_advance_def Let_def split: option.splits)
  have "dart_inv hit rg m (draws_by t s) (pi_threads s t)" using inv by (simp add: pi_inv_def)
  with p have "dt_left (pi_threads s t) \<noteq> 0" by (auto simp: dart_inv_def)
  with p have "dart_left (darts_step hit (rg p) ((pi_threads s t)\<lparr>dt_draw := None\<rparr>)) < dart_left (pi_threads s t)"
    by (auto simp: dart_left_def darts_step_def split: option.split)
  with thread_sum_upd [OF assms(1), of dart_left "pi_threads s"
      "darts_step hit (rg p) ((pi_threads s t)\<lparr>dt_draw := None\<rparr>)"]
  show ?thesis unfolding draws_left_def s' by linarith
qed

lemma not_joined_draws:
  assumes "\<not> pi_joined n s"
  obtains t where "t < n" "dt_left (pi_threads s t) \<noteq> 0"
  using assms by (auto simp: pi_joined_def)

interpretation pi_sys: terminating_system "pi_start num_darts num_threads" "pi_step hit rg n"
    "pi_inv hit rg (nat (c_quot num_darts num_threads))" "draws_left n" "pi_joined n"
  for num_darts num_threads hit rg n
proof unfold_locales
  show "pi_inv hit rg (nat (c_quot num_darts num_threads)) (pi_start num_darts num_threads)"
    by (rule pi_inv_start)
next
  fix s t
  assume inv: "pi_inv hit rg (nat (c_quot num_darts num_threads)) s" and st: "pi_step hit rg n s t"
  from st inv show "pi_inv hit rg (nat (c_quot num_darts num_threads)) t"
    by (auto elim!: pi_stepE dest: pi_read_inv pi_advance_inv)
  from st inv show "draws_left n t < draws_left n s"
    by (auto elim!: pi_stepE intro: pi_read_left pi_advance_left)
next
  fix s assume "\<not> pi_joined n s"
  then obtain t where t: "t < n" "dt_left (pi_threads s t) \<noteq> 0" by (rule not_joined_draws)
  then have "(\<exists>u. pi_read t s = Some u) \<or> (\<exists>u. pi_advance hit rg t s = Some u)"
    by (cases "dt_draw (pi_threads s t)") (simp_all add: pi_read_def pi_advance_def Let_def)
  with t(1) show "\<exists>t. pi_step hit rg n s t" by (blast intro: pi_step.intros)
qed

text \<open>One draw after the other: the numbers of the generator are used in order, each once.\<close>

definition in_order :: "pi_state \<Rightarrow> bool" where
  "in_order s \<longleftrightarrow>
     (\<forall>t. dt_draw (pi_threads s t) = None) \<and> map snd (pi_drawn s) = [0..<length (pi_drawn s)]
     \<and> pi_pos s = length (pi_drawn s)"

lemma pi_draw_in_order:
  assumes "pi_draw hit rg n s s'" and "in_order s"
  shows "in_order s'"
  using assms
  by (auto elim!: pi_drawE simp: pi_read_def pi_advance_def in_order_def darts_step_def Let_def
      split: if_splits option.splits)

interpretation draw_sys: terminating_system "pi_start num_darts num_threads" "pi_draw hit rg n"
    "\<lambda>s. pi_inv hit rg (nat (c_quot num_darts num_threads)) s \<and> in_order s" "draws_left n" "pi_joined n"
  for num_darts num_threads hit rg n
proof unfold_locales
  show "pi_inv hit rg (nat (c_quot num_darts num_threads)) (pi_start num_darts num_threads)
      \<and> in_order (pi_start num_darts num_threads)"
    using pi_inv_start by (simp add: in_order_def pi_start_def)
next
  fix s t
  assume inv: "pi_inv hit rg (nat (c_quot num_darts num_threads)) s \<and> in_order s" and st: "pi_draw hit rg n s t"
  from st obtain i u where u: "i < n" "pi_read i s = Some u" "pi_advance hit rg i u = Some t" by (rule pi_drawE)
  from u(2) inv have uinv: "pi_inv hit rg (nat (c_quot num_darts num_threads)) u" using pi_read_inv by blast
  with u(3) st inv show "pi_inv hit rg (nat (c_quot num_darts num_threads)) t \<and> in_order t"
    using pi_advance_inv pi_draw_in_order by blast
  from pi_read_left [OF u(1) _ u(2)] pi_advance_left [OF u(1) uinv u(3)] inv
  show "draws_left n t < draws_left n s" by (meson order_less_trans)
next
  fix s assume inv: "pi_inv hit rg (nat (c_quot num_darts num_threads)) s \<and> in_order s" and "\<not> pi_joined n s"
  then obtain t where t: "t < n" "dt_left (pi_threads s t) \<noteq> 0" using not_joined_draws by blast
  with inv obtain u where u: "pi_read t s = Some u" by (simp add: pi_read_def in_order_def Let_def)
  then have "dt_draw (pi_threads u t) \<noteq> None" by (auto simp: pi_read_def Let_def split: if_splits)
  then obtain s' where "pi_advance hit rg t u = Some s'" by (auto simp: pi_advance_def Let_def)
  with t(1) u show "\<exists>t. pi_draw hit rg n s t" by (blast intro: pi_draw.intros)
qed

text \<open>At the joins every thread has thrown its darts, and its hits are those of its draws.\<close>

lemma joined_darts:
  assumes "pi_inv hit rg m s" and "pi_joined n s"
  shows "(\<forall>t<n. length (draws_by t s) = 2 * m \<and> length (darts_of (draws_by t s)) = m)
    \<and> (\<Sum>t<n. dt_p (pi_threads s t)) = (\<Sum>t<n. hits hit rg (darts_of (draws_by t s)))
    \<and> (\<forall>t<n. list_all (\<lambda>p. p < length (pi_drawn s)) (draws_by t s))"
proof (intro conjI allI impI)
  have th: "dart_inv hit rg m (draws_by t s) (pi_threads s t)" for t using assms(1) by (simp add: pi_inv_def)
  show "(\<Sum>t<n. dt_p (pi_threads s t)) = (\<Sum>t<n. hits hit rg (darts_of (draws_by t s)))"
    by (rule sum.cong [OF refl]) (use th in \<open>unfold dart_inv_def, blast\<close>)
  fix t assume "t < n"
  with assms(2) have "dt_left (pi_threads s t) = 0" by (simp add: pi_joined_def)
  moreover have "dt_left (pi_threads s t) = 0 \<longrightarrow> dt_x (pi_threads s t) = None"
    "length (draws_by t s) = 2 * (m - dt_left (pi_threads s t)) + (if dt_x (pi_threads s t) = None then 0 else 1)"
    using th [of t] unfolding dart_inv_def by blast+
  ultimately show "length (draws_by t s) = 2 * m" by simp
  then show "length (darts_of (draws_by t s)) = m" by (simp add: length_darts_of)
next
  fix t
  show "list_all (\<lambda>p. p < length (pi_drawn s)) (draws_by t s)"
    using assms(1) by (auto simp: pi_inv_def draws_by_def list_all_iff)
qed

text \<open>
  Two threads can draw the same number, the second of them for nothing: both read the position
  before either advances it.
\<close>

lemma draws_can_repeat:
  assumes "2 \<le> n" and "0 < nat (c_quot num_darts num_threads)"
  shows "\<exists>s. reach (pi_start num_darts num_threads) (pi_step hit rg n) s \<and> pi_drawn s = [(0, 0), (1, 0)]
    \<and> dt_x (pi_threads s 0) = Some (rg 0) \<and> dt_x (pi_threads s 1) = Some (rg 0) \<and> pi_pos s = 1"
proof -
  let ?s = "pi_start num_darts num_threads"
  obtain s1 where 1: "pi_read 0 ?s = Some s1" "dt_left (pi_threads s1 1) \<noteq> 0" "dt_draw (pi_threads s1 1) = None"
    "dt_draw (pi_threads s1 0) = Some 0" "dt_x (pi_threads s1 0) = None" "dt_x (pi_threads s1 1) = None"
    "pi_pos s1 = 0" "pi_drawn s1 = []"
    using assms(2) by (simp add: pi_read_def pi_start_def)
  then obtain s2 where 2: "pi_read 1 s1 = Some s2" "dt_draw (pi_threads s2 0) = Some 0" "dt_draw (pi_threads s2 1) = Some 0"
    "dt_x (pi_threads s2 0) = None" "dt_x (pi_threads s2 1) = None" "pi_drawn s2 = []"
    by (simp add: pi_read_def Let_def)
  then obtain s3 where 3: "pi_advance hit rg 0 s2 = Some s3" "dt_draw (pi_threads s3 1) = Some 0"
    "dt_x (pi_threads s3 0) = Some (rg 0)" "dt_x (pi_threads s3 1) = None" "pi_drawn s3 = [(0, 0)]"
    by (simp add: pi_advance_def darts_step_def Let_def)
  then obtain s4 where 4: "pi_advance hit rg 1 s3 = Some s4" "dt_x (pi_threads s4 0) = Some (rg 0)"
    "dt_x (pi_threads s4 1) = Some (rg 0)" "pi_drawn s4 = [(0, 0), (1, 0)]" "pi_pos s4 = 1"
    by (simp add: pi_advance_def darts_step_def Let_def)
  have n: "0 < n" "1 < n" using assms(1) by simp_all
  have "reach ?s (pi_step hit rg n) s4"
    by (rule reach_step [OF reach_step [OF reach_step [OF reach_step [OF reach_init [of ?s "pi_step hit rg n"]
        pi_step.read [OF n(1) 1(1)]] pi_step.read [OF n(2) 2(1)]]
        pi_step.advance [OF n(1) 3(1)]] pi_step.advance [OF n(2) 4(1)]])
  with 4(2-5) show ?thesis by blast
qed

text \<open>
  C26: The threaded estimate always comes to its joins, in at most two draws of two steps per
  dart whatever the interleaving. At the joins each thread has thrown the quotient of the darts
  by the threads, and the result is the number of hits among the darts, two consecutive draws
  of one thread each, made of the numbers that were drawn. Which numbers these are the race
  decides: their positions are below the number of draws, and they are the positions from 0 on,
  each drawn once, if no draw comes between the two steps of another; but with two threads the
  same number can be drawn twice. The remainder of the division of the darts by the threads is
  thrown by no thread, though the estimate divides by all the darts.
\<close>

theorem calculate_threaded_counts_hits:
  assumes "reach (pi_start num_darts num_threads) (pi_step hit rg n) s"
  shows "(\<exists>s'. reach s (pi_step hit rg n) s' \<and> pi_joined n s')
    \<and> (\<forall>k s'. (pi_step hit rg n ^^ k) (pi_start num_darts num_threads) s'
         \<longrightarrow> k \<le> n * (4 * nat (c_quot num_darts num_threads)))
    \<and> (pi_joined n s \<longrightarrow>
        (\<forall>t<n. length (darts_of (draws_by t s)) = nat (c_quot num_darts num_threads)
           \<and> length (draws_by t s) = 2 * nat (c_quot num_darts num_threads)
           \<and> list_all (\<lambda>p. p < length (pi_drawn s)) (draws_by t s))
        \<and> calculate_threaded n num_darts s = ((\<Sum>t<n. hits hit rg (darts_of (draws_by t s))), num_darts))
    \<and> (reach (pi_start num_darts num_threads) (pi_draw hit rg n) s \<longrightarrow>
        map snd (pi_drawn s) = [0..<length (pi_drawn s)])
    \<and> (2 \<le> n \<and> 0 < nat (c_quot num_darts num_threads) \<longrightarrow>
        (\<exists>s'. reach (pi_start num_darts num_threads) (pi_step hit rg n) s' \<and> pi_drawn s' = [(0, 0), (1, 0)]))"
proof -
  have "k \<le> n * (4 * nat (c_quot num_darts num_threads))"
    if "(pi_step hit rg n ^^ k) (pi_start num_darts num_threads) s'" for k s'
    using pi_sys.run_bounded [OF that] by (simp add: draws_left_def pi_start_def thread_sum_def dart_left_def)
  moreover have "map snd (pi_drawn s) = [0..<length (pi_drawn s)]"
    if "reach (pi_start num_darts num_threads) (pi_draw hit rg n) s"
    using draw_sys.reach_inv [OF that] by (simp add: in_order_def)
  ultimately show ?thesis
    using pi_sys.reaches_final [OF assms] joined_darts [OF pi_sys.reach_inv [OF assms], of n]
      draws_can_repeat [of n num_darts num_threads hit rg]
    unfolding calculate_threaded_def by blast
qed

text \<open>Three darts and two threads: two darts are thrown, and the estimate divides by three.\<close>

theorem calculate_threaded_counts_hits_witness:
  "\<exists>s. reach (pi_start 3 2) (pi_step (\<lambda>x y. x * x + y * y \<le> 10) int 2) s \<and> pi_joined 2 s
     \<and> length (darts_of (draws_by 0 s)) + length (darts_of (draws_by 1 s)) = 2
     \<and> calculate_threaded 2 3 s
         = (hits (\<lambda>x y. x * x + y * y \<le> 10) int (darts_of (draws_by 0 s))
            + hits (\<lambda>x y. x * x + y * y \<le> 10) int (darts_of (draws_by 1 s)), 3)"
proof -
  let ?hit = "\<lambda>x y. x * x + y * y \<le> (10::int)"
  let ?s0 = "pi_start 3 2"
  have q: "c_quot 3 2 = 1" by code_simp
  have two: "{..<2::nat} = {0, 1}" by auto
  obtain s where s: "reach ?s0 (pi_step ?hit int 2) s" "pi_joined 2 s"
    using calculate_threaded_counts_hits [OF reach_init [of ?s0 "pi_step ?hit int 2"]] by blast
  with calculate_threaded_counts_hits [OF s(1)] q
  have "\<forall>t<2::nat. length (darts_of (draws_by t s)) = 1"
    "calculate_threaded 2 3 s = ((\<Sum>t<2::nat. hits ?hit int (darts_of (draws_by t s))), 3)" by simp_all
  with s two show ?thesis by (intro exI [of _ s]) simp
qed

text \<open>
  \<open>main\<close>: both estimates of \<open>num_darts\<close> darts, with a generator each. As two threads divide the
  darts without a remainder, neither estimate misses one.
\<close>

definition pi_num_darts :: int where
  "pi_num_darts = 100000000"

definition pi_num_threads :: int where
  "pi_num_threads = 2"

definition pi_main :: "(int \<Rightarrow> int \<Rightarrow> bool) \<Rightarrow> (nat \<Rightarrow> int) \<Rightarrow> pi_state \<Rightarrow> (int \<times> int) \<times> (int \<times> int)" where
  "pi_main hit rg s =
     (calculate_threaded (nat pi_num_threads) pi_num_darts s, calculate_serial hit rg pi_num_darts)"

lemma pi_main_throws_all:
  assumes "reach (pi_start pi_num_darts pi_num_threads) (pi_step hit rg (nat pi_num_threads)) s"
    and "pi_joined (nat pi_num_threads) s"
  shows "length (darts_of (draws_by 0 s)) + length (darts_of (draws_by 1 s)) = nat pi_num_darts
    \<and> pi_main hit rg' s =
        ((hits hit rg (darts_of (draws_by 0 s)) + hits hit rg (darts_of (draws_by 1 s)), pi_num_darts),
         (darts hit rg' pi_num_darts, pi_num_darts))"
proof -
  have q: "c_quot pi_num_darts pi_num_threads = 50000000" by code_simp
  have two: "{..<nat pi_num_threads} = {0, 1}" by (auto simp: pi_num_threads_def)
  note darts = joined_darts [OF pi_sys.reach_inv [OF assms(1)] assms(2)]
  have "length (darts_of (draws_by 0 s)) = 50000000" "length (darts_of (draws_by 1 s)) = 50000000"
    using darts q by (simp_all add: pi_num_threads_def)
  moreover have "(\<Sum>t<nat pi_num_threads. dt_p (pi_threads s t))
      = hits hit rg (darts_of (draws_by 0 s)) + hits hit rg (darts_of (draws_by 1 s))"
    using darts two by simp
  ultimately show ?thesis
    unfolding pi_main_def calculate_threaded_def calculate_serial_def
    by (simp add: pi_num_darts_def)
qed

section \<open>The boost variant\<close>

text \<open>
  \<open>day2/ex_pi/boost\<close>: the same loops over \<open>rand\<close>, which all threads share
  and which the GNU library guards by a lock of its own, so that draws do not overlap. The number of threads is
  what \<open>hardware_concurrency\<close> answers, 0 if that is unknown; the results are in a vector,
  which \<open>accumulate\<close> adds up after the join.
\<close>

definition boost_darts :: "(int \<Rightarrow> int \<Rightarrow> bool) \<Rightarrow> (nat \<Rightarrow> int) \<Rightarrow> int \<Rightarrow> int \<times> int" where
  "boost_darts hit rand num_darts = (fst (darts_loop hit rand (nat num_darts) 0 0), num_darts)"

definition boost_results :: "int \<Rightarrow> pi_state \<Rightarrow> int list" where
  "boost_results num_threads s = map (\<lambda>i. dt_p (pi_threads s i)) [0..<nat num_threads]"

definition boost_start :: "int \<Rightarrow> int \<Rightarrow> pi_state" where
  "boost_start num_darts num_threads = pi_start num_darts num_threads"

definition boost_step :: "(int \<Rightarrow> int \<Rightarrow> bool) \<Rightarrow> (nat \<Rightarrow> int) \<Rightarrow> int \<Rightarrow> pi_state \<Rightarrow> pi_state \<Rightarrow> bool" where
  "boost_step hit rand num_threads = pi_draw hit rand (nat num_threads)"

definition boost_calculate :: "int \<Rightarrow> int \<Rightarrow> pi_state \<Rightarrow> int \<times> int" where
  "boost_calculate num_darts num_threads s = (foldl (+) 0 (boost_results num_threads s), num_darts)"

lemma boost_calculate_eq: "boost_calculate num_darts num_threads s = calculate_threaded (nat num_threads) num_darts s"
proof -
  have "foldl (+) x (map f [0..<n]) = x + (\<Sum>i<n. f i)" for x :: int and f n
    by (induction n) simp_all
  then show ?thesis by (simp add: boost_calculate_def boost_results_def calculate_threaded_def)
qed

text \<open>
  The variant ends and counts its hits as the other does; where the number of threads is
  unknown it throws no dart, and the estimate is 0.
\<close>

lemma boost_counts_hits:
  assumes "reach (boost_start num_darts num_threads) (boost_step hit rand num_threads) s"
  shows "(\<exists>f. reach s (boost_step hit rand num_threads) f \<and> pi_joined (nat num_threads) f)
    \<and> map snd (pi_drawn s) = [0..<length (pi_drawn s)]
    \<and> (pi_joined (nat num_threads) s \<longrightarrow>
        (\<forall>t<nat num_threads. length (darts_of (draws_by t s)) = nat (c_quot num_darts num_threads))
        \<and> boost_calculate num_darts num_threads s
          = ((\<Sum>t<nat num_threads. hits hit rand (darts_of (draws_by t s))), num_darts))
    \<and> (num_threads = 0 \<longrightarrow> boost_calculate num_darts num_threads s = (0, num_darts))"
proof -
  note run = assms [unfolded boost_start_def boost_step_def]
  note inv = draw_sys.reach_inv [OF run]
  show ?thesis
    using draw_sys.reaches_final [OF run] joined_darts [OF inv [THEN conjunct1], of "nat num_threads"] inv
    by (auto simp: boost_step_def boost_calculate_eq calculate_threaded_def in_order_def)
qed

text \<open>
  \<open>main\<close> seeds \<open>rand\<close> alike for both computations, so that both start at the same place of one
  sequence. With one thread they give the same.
\<close>

definition boost_calculate_serial :: "(int \<Rightarrow> int \<Rightarrow> bool) \<Rightarrow> (int \<Rightarrow> nat \<Rightarrow> int) \<Rightarrow> int \<Rightarrow> int \<Rightarrow> int \<times> int" where
  "boost_calculate_serial hit srand num_darts seed = boost_darts hit (srand seed) num_darts"

definition boost_main :: "(int \<Rightarrow> int \<Rightarrow> bool) \<Rightarrow> (int \<Rightarrow> nat \<Rightarrow> int) \<Rightarrow> int \<Rightarrow> int \<Rightarrow> pi_state \<Rightarrow> (int \<times> int) \<times> (int \<times> int)"
  where
  "boost_main hit srand seed num_threads s =
     (boost_calculate_serial hit srand 10000000 seed, boost_calculate 10000000 num_threads s)"

fun darts_result :: "(int \<Rightarrow> int \<Rightarrow> bool) \<Rightarrow> (nat \<Rightarrow> int) \<Rightarrow> nat \<Rightarrow> int option \<Rightarrow> int \<Rightarrow> nat \<Rightarrow> int" where
  "darts_result hit rg k None p pos = fst (darts_loop hit rg k p pos)"
| "darts_result hit rg k (Some x) p pos =
     fst (darts_loop hit rg (k - 1) (if hit x (rg pos) then p + 1 else p) (pos + 1))"

lemma one_thread_darts:
  assumes "reach (pi_start d m) (pi_draw hit rg 1) s"
  shows "(dt_left (pi_threads s 0) = 0 \<longrightarrow> dt_x (pi_threads s 0) = None) \<and> dt_draw (pi_threads s 0) = None
    \<and> darts_result hit rg (dt_left (pi_threads s 0)) (dt_x (pi_threads s 0)) (dt_p (pi_threads s 0)) (pi_pos s)
      = fst (darts_loop hit rg (nat (c_quot d m)) 0 0)"
  using assms
proof (induction rule: reach.induct)
  case reach_init
  show ?case by (simp add: pi_start_def)
next
  case (reach_step s t)
  have same: "th\<lparr>dt_draw := None\<rparr> = th" if "dt_draw th = None" for th using that by (cases th) simp
  from reach_step(2) have "dt_left (pi_threads s 0) \<noteq> 0"
    and t: "pi_threads t 0 = darts_step hit (rg (pi_pos s)) (pi_threads s 0)" "pi_pos t = Suc (pi_pos s)"
    using reach_step(3)
    by (auto elim!: pi_drawE simp: pi_read_def pi_advance_def Let_def same split: if_splits)
  with reach_step(3) show ?case
    by (cases "dt_left (pi_threads s 0)"; cases "dt_x (pi_threads s 0)") (auto simp: darts_step_def)
qed

lemma boost_main_one_thread:
  assumes "reach (boost_start 10000000 1) (boost_step hit (srand seed) 1) s" and "pi_joined 1 s"
  shows "fst (boost_main hit srand seed 1 s) = snd (boost_main hit srand seed 1 s)"
proof -
  have "dt_left (pi_threads s 0) = 0" using assms(2) by (simp add: pi_joined_def)
  with one_thread_darts [of 10000000 1 hit "srand seed" s] assms(1)
  have "dt_p (pi_threads s 0) = fst (darts_loop hit (srand seed) (nat (c_quot 10000000 1)) 0 0)"
    by (auto simp: boost_start_def boost_step_def)
  moreover have "c_quot 10000000 1 = 10000000" by (simp add: c_quot_def)
  ultimately show ?thesis
    by (simp add: boost_main_def boost_calculate_serial_def boost_darts_def boost_calculate_def boost_results_def)
qed

end
