(* ===== verification/Barrier_Threads.thy ===== *)
theory Barrier_Threads
  imports Pthread
begin

text \<open>
  \<open>day2/12_barrier\<close>: ten workers that meet at a barrier. The barrier is POSIX's: the last of
  the threads that enter releases all of them, and one of them, which one POSIX leaves open,
  gets \<open>PTHREAD_BARRIER_SERIAL_THREAD\<close>. The value of \<open>rand\<close> is open as well, and every call
  that can fail in \<open>main\<close> may fail.
\<close>

section \<open>The barrier\<close>

definition PTHREAD_BARRIER_SERIAL_THREAD :: int where
  "PTHREAD_BARRIER_SERIAL_THREAD = - 1"

text \<open>The threads inside, and the status each released thread has still to return with.\<close>

record barrier =
  bar_count :: nat
  bar_in :: "tid list"
  bar_ret :: "tid \<Rightarrow> int option"

definition barrier_init :: "nat \<Rightarrow> barrier" where
  "barrier_init n = \<lparr>bar_count = n, bar_in = [], bar_ret = (\<lambda>_. None)\<rparr>"

definition barrier_enter :: "tid \<Rightarrow> tid \<Rightarrow> barrier \<Rightarrow> barrier" where
  "barrier_enter u t b =
     (if Suc (length (bar_in b)) = bar_count b
      then b\<lparr>bar_in := [],
             bar_ret := (\<lambda>v. if v \<in> set (t # bar_in b)
                             then Some (if v = u then PTHREAD_BARRIER_SERIAL_THREAD else 0)
                             else bar_ret b v)\<rparr>
      else b\<lparr>bar_in := t # bar_in b\<rparr>)"

definition barrier_return :: "tid \<Rightarrow> barrier \<Rightarrow> (int \<times> barrier) outcome" where
  "barrier_return t b =
     (case bar_ret b t of
        None \<Rightarrow> Block
      | Some status \<Rightarrow> Done (status, b\<lparr>bar_ret := (bar_ret b)(t := None)\<rparr>))"

section \<open>The program\<close>

definition NUM_THREADS :: nat where
  "NUM_THREADS = 10"

datatype bar_msg = StartSleep tid int | Reached tid | Serial tid | WaitError tid int | Quit tid | InSync

datatype bar_pc = WNew | WStart | WSlept | WCall | WWait | WSwitch int | WQuit | WDone

datatype bar_main = BInit | BCreate nat | BJoin nat | BDestroy | BExit int

record bar_state =
  bs_main :: bar_main
  bs_pc :: "tid \<Rightarrow> bar_pc"
  bs_barrier :: barrier
  bs_out :: "bar_msg list"

definition bar_start :: bar_state where
  "bar_start = \<lparr>bs_main = BInit, bs_pc = (\<lambda>_. WNew), bs_barrier = barrier_init 0, bs_out = []\<rparr>"

definition worker_switch :: "tid \<Rightarrow> int \<Rightarrow> bar_msg list" where
  "worker_switch numer status =
     (if status = 0 then []
      else if status = PTHREAD_BARRIER_SERIAL_THREAD then [Serial numer]
      else [WaitError numer status])"

text \<open>A step of a worker between two calls; \<open>r\<close> is what \<open>rand\<close> returns, \<open>u\<close> whom a release picks.\<close>

definition bar_goto :: "tid \<Rightarrow> bar_pc \<Rightarrow> bar_msg list \<Rightarrow> bar_state \<Rightarrow> bar_state" where
  "bar_goto t pc ms s = s\<lparr>bs_pc := (bs_pc s)(t := pc), bs_out := bs_out s @ ms\<rparr>"

definition worker :: "int \<Rightarrow> tid \<Rightarrow> tid \<Rightarrow> bar_state \<Rightarrow> bar_state option" where
  "worker r u t s =
     (case bs_pc s t of
        WNew \<Rightarrow> None
      | WStart \<Rightarrow> Some (bar_goto t WSlept [StartSleep t (r mod 4 + 1)] s)
      | WSlept \<Rightarrow> Some (bar_goto t WCall [Reached t] s)
      | WCall \<Rightarrow>
          if u \<in> set (t # bar_in (bs_barrier s))
          then Some (bar_goto t WWait [] (s\<lparr>bs_barrier := barrier_enter u t (bs_barrier s)\<rparr>)) else None
      | WWait \<Rightarrow>
          (case barrier_return t (bs_barrier s) of
             Done (status, b) \<Rightarrow> Some (bar_goto t (WSwitch status) [] (s\<lparr>bs_barrier := b\<rparr>))
           | _ \<Rightarrow> None)
      | WSwitch status \<Rightarrow> Some (bar_goto t WQuit (worker_switch t status) s)
      | WQuit \<Rightarrow> Some (bar_goto t WDone [Quit t] s)
      | WDone \<Rightarrow> None)"

text \<open>
  A step of \<open>main\<close>; \<open>err\<close> is the error number of the call it makes, 0 for success: a failing call,
  \<open>pthread_join\<close> among them, ends the process. What \<open>perror\<close> then says is left out.
\<close>

definition bar_main_step :: "int \<Rightarrow> bar_state \<Rightarrow> bar_state option" where
  "bar_main_step err s =
     (case bs_main s of
        BInit \<Rightarrow>
          Some (if err \<noteq> 0 then s\<lparr>bs_main := BExit 1\<rparr>
                else s\<lparr>bs_main := BCreate 0, bs_barrier := barrier_init NUM_THREADS\<rparr>)
      | BCreate i \<Rightarrow>
          Some (if i = NUM_THREADS then s\<lparr>bs_main := BJoin 0\<rparr>
                else if err \<noteq> 0 then s\<lparr>bs_main := BExit 1\<rparr>
                else s\<lparr>bs_main := BCreate (Suc i), bs_pc := (bs_pc s)(i := WStart)\<rparr>)
      | BJoin i \<Rightarrow>
          if i = NUM_THREADS then Some (s\<lparr>bs_main := BDestroy, bs_out := bs_out s @ [InSync]\<rparr>)
          else if err \<noteq> 0 then Some (s\<lparr>bs_main := BExit 1\<rparr>)
          else if bs_pc s i = WDone then Some (s\<lparr>bs_main := BJoin (Suc i)\<rparr>)
          else None
      | BDestroy \<Rightarrow> Some (s\<lparr>bs_main := BExit (if err \<noteq> 0 then 1 else 0)\<rparr>)
      | BExit _ \<Rightarrow> None)"

definition bar_ended :: "bar_state \<Rightarrow> bool" where
  "bar_ended s \<longleftrightarrow> (\<exists>c. bs_main s = BExit c)"

lemma bar_ended_code [code]: "bar_ended s \<longleftrightarrow> (case bs_main s of BExit c \<Rightarrow> True | _ \<Rightarrow> False)"
  by (simp add: bar_ended_def split: bar_main.split)

inductive bar_step :: "bar_state \<Rightarrow> bar_state \<Rightarrow> bool" where
  main: "bar_main_step err s = Some s' \<Longrightarrow> bar_step s s'"
| worker: "\<not> bar_ended s \<Longrightarrow> t < NUM_THREADS \<Longrightarrow> worker r u t s = Some s' \<Longrightarrow> bar_step s s'"

inductive_cases bar_stepE: "bar_step s s'"

section \<open>Nobody passes before everybody has come\<close>

primrec before_barrier :: "bar_msg \<Rightarrow> bool" where
  "before_barrier (StartSleep t n) = True"
| "before_barrier (Reached t) = True"
| "before_barrier (Serial t) = False"
| "before_barrier (WaitError t n) = False"
| "before_barrier (Quit t) = False"
| "before_barrier InSync = False"

definition in_phases :: "bar_msg list \<Rightarrow> bool" where
  "in_phases ms \<longleftrightarrow> sorted_wrt (\<lambda>a b. before_barrier b \<longrightarrow> before_barrier a) ms"

text \<open>Before the release, and after it: \<open>u\<close> is the thread that was picked.\<close>

definition gathering_thread :: "bar_state \<Rightarrow> tid \<Rightarrow> bool" where
  "gathering_thread s t \<longleftrightarrow> bs_pc s t \<in> {WNew, WStart, WSlept, WCall, WWait}
     \<and> (t \<in> set (bar_in (bs_barrier s)) \<longleftrightarrow> bs_pc s t = WWait)"

definition gathering :: "bar_state \<Rightarrow> bool" where
  "gathering s \<longleftrightarrow>
     (\<forall>t<NUM_THREADS. gathering_thread s t)
     \<and> bar_ret (bs_barrier s) = (\<lambda>_. None)
     \<and> set (bar_in (bs_barrier s)) \<subseteq> {..<NUM_THREADS}
     \<and> distinct (bar_in (bs_barrier s)) \<and> length (bar_in (bs_barrier s)) < NUM_THREADS
     \<and> (\<forall>m \<in> set (bs_out s). before_barrier m)"

definition holds_serial :: "bar_state \<Rightarrow> tid \<Rightarrow> bool" where
  "holds_serial s t \<longleftrightarrow>
     (bs_pc s t = WWait \<and> bar_ret (bs_barrier s) t = Some PTHREAD_BARRIER_SERIAL_THREAD)
     \<or> bs_pc s t = WSwitch PTHREAD_BARRIER_SERIAL_THREAD"

definition leaving_thread :: "bar_state \<Rightarrow> tid \<Rightarrow> tid \<Rightarrow> bool" where
  "leaving_thread s u t \<longleftrightarrow>
     (bs_pc s t \<in> {WWait, WSwitch 0, WSwitch PTHREAD_BARRIER_SERIAL_THREAD, WQuit, WDone})
     \<and> (bs_pc s t = WWait \<longrightarrow> bar_ret (bs_barrier s) t \<in> {Some 0, Some PTHREAD_BARRIER_SERIAL_THREAD})
     \<and> count_list (bs_out s) (Serial t) + (if holds_serial s t then 1 else 0) = (if t = u then 1 else 0)
     \<and> count_list (bs_out s) (Quit t) = (if bs_pc s t = WDone then 1 else 0)"

definition leaving :: "bar_state \<Rightarrow> bool" where
  "leaving s \<longleftrightarrow>
     (\<exists>u<NUM_THREADS. \<forall>t<NUM_THREADS. leaving_thread s u t) \<and> in_phases (bs_out s)"

definition bar_main_ok :: "bar_state \<Rightarrow> bool" where
  "bar_main_ok s \<longleftrightarrow>
     (case bs_main s of
        BInit \<Rightarrow> s = bar_start
      | BCreate k \<Rightarrow> k \<le> NUM_THREADS \<and> (\<forall>t<NUM_THREADS. bs_pc s t = WNew \<longleftrightarrow> k \<le> t)
      | BJoin k \<Rightarrow> k \<le> NUM_THREADS \<and> (\<forall>t<NUM_THREADS. bs_pc s t \<noteq> WNew) \<and> (\<forall>t<k. bs_pc s t = WDone)
      | BDestroy \<Rightarrow> (\<forall>t<NUM_THREADS. bs_pc s t = WDone)
      | BExit c \<Rightarrow> c = 0 \<longrightarrow> (\<forall>t<NUM_THREADS. bs_pc s t = WDone))"

definition bar_inv :: "bar_state \<Rightarrow> bool" where
  "bar_inv s \<longleftrightarrow> bar_main_ok s \<and> (gathering s \<or> leaving s)
     \<and> (bs_main s = BInit \<or> bar_ended s \<or> bar_count (bs_barrier s) = NUM_THREADS)"

lemma NUM_THREADS_pos [simp]: "0 < NUM_THREADS"
  by (simp add: NUM_THREADS_def)

lemma serial_not_0 [simp]: "PTHREAD_BARRIER_SERIAL_THREAD \<noteq> 0" "0 \<noteq> PTHREAD_BARRIER_SERIAL_THREAD"
  by (simp_all add: PTHREAD_BARRIER_SERIAL_THREAD_def)

lemma bar_goto_simps [simp]:
  "bs_main (bar_goto t pc ms s) = bs_main s" "bs_pc (bar_goto t pc ms s) = (bs_pc s)(t := pc)"
  "bs_barrier (bar_goto t pc ms s) = bs_barrier s" "bs_out (bar_goto t pc ms s) = bs_out s @ ms"
  by (simp_all add: bar_goto_def)

lemma in_phases_append:
  "in_phases (ms @ ns) \<longleftrightarrow> in_phases ms \<and> in_phases ns
     \<and> ((\<exists>n \<in> set ns. before_barrier n) \<longrightarrow> (\<forall>m \<in> set ms. before_barrier m))"
  by (auto simp: in_phases_def sorted_wrt_append)

lemma in_phases_early: "\<forall>m \<in> set ms. before_barrier m \<Longrightarrow> in_phases ms"
  by (induction ms) (auto simp: in_phases_def)

lemma in_phases_late: "\<forall>m \<in> set ms. \<not> before_barrier m \<Longrightarrow> in_phases ms"
  by (induction ms) (auto simp: in_phases_def)

lemma early_counts:
  assumes "\<forall>m \<in> set ms. before_barrier m"
  shows "count_list ms (Serial t) = 0" "count_list ms (Quit t) = 0"
  using assms by (auto simp: count_list_0_iff)


lemma gathering_inside:
  "gathering s \<Longrightarrow> v \<in> set (bar_in (bs_barrier s)) \<Longrightarrow> v < NUM_THREADS \<and> bs_pc s v = WWait"
  by (auto simp: gathering_def gathering_thread_def)

text \<open>The thread that completes the round finds all the others waiting.\<close>

lemma last_to_enter:
  assumes "gathering s" "t < NUM_THREADS" "bs_pc s t = WCall"
    and "Suc (length (bar_in (bs_barrier s))) = NUM_THREADS"
  shows "insert t (set (bar_in (bs_barrier s))) = {..<NUM_THREADS}"
proof (rule card_subset_eq)
  show "insert t (set (bar_in (bs_barrier s))) \<subseteq> {..<NUM_THREADS}"
    using assms by (auto simp: gathering_def)
  have "t \<notin> set (bar_in (bs_barrier s))" using assms(3) gathering_inside [OF assms(1), of t] by force
  moreover have "distinct (bar_in (bs_barrier s))" using assms(1) by (simp add: gathering_def)
  ultimately show "card (insert t (set (bar_in (bs_barrier s)))) = card {..<NUM_THREADS}"
    using assms(4) by (simp add: distinct_card)
qed simp

lemma released_leaving:
  assumes "gathering s" "t < NUM_THREADS" "bs_pc s t = WCall"
    and "Suc (length (bar_in (bs_barrier s))) = NUM_THREADS" "bar_count (bs_barrier s) = NUM_THREADS"
    and "u \<in> set (t # bar_in (bs_barrier s))"
  shows "leaving (bar_goto t WWait [] (s\<lparr>bs_barrier := barrier_enter u t (bs_barrier s)\<rparr>))" (is "leaving ?s")
proof -
  note all = last_to_enter [OF assms(1-4)]
  have waits: "bs_pc ?s v = WWait" if "v < NUM_THREADS" for v
  proof (cases "v = t")
    case False
    with that all have "v \<in> set (bar_in (bs_barrier s))" by blast
    with gathering_inside [OF assms(1)] False show ?thesis by simp
  qed simp
  have ret: "bar_ret (bs_barrier ?s) v = Some (if v = u then PTHREAD_BARRIER_SERIAL_THREAD else 0)"
    if "v < NUM_THREADS" for v
  proof -
    from that all have "v \<in> set (t # bar_in (bs_barrier s))" by auto
    with assms(4,5) show ?thesis by (simp add: barrier_enter_def)
  qed
  have early: "\<forall>m \<in> set (bs_out ?s). before_barrier m" using assms(1) by (simp add: gathering_def)
  from early have "leaving_thread ?s u v" if "v < NUM_THREADS" for v
    using waits [OF that] ret [OF that] by (simp add: leaving_thread_def holds_serial_def early_counts)
  moreover from assms(6) all have "u < NUM_THREADS" by auto
  ultimately show ?thesis using in_phases_early [OF early] by (auto simp: leaving_def)
qed

lemma gathering_enter:
  assumes "gathering s" "t < NUM_THREADS" "bs_pc s t = WCall"
    and "bar_count (bs_barrier s) = NUM_THREADS" "Suc (length (bar_in (bs_barrier s))) \<noteq> NUM_THREADS"
  shows "gathering (bar_goto t WWait [] (s\<lparr>bs_barrier := barrier_enter u t (bs_barrier s)\<rparr>))" (is "gathering ?s")
proof -
  have "gathering_thread ?s v" if "v < NUM_THREADS" for v
    using assms that by (auto simp: gathering_def gathering_thread_def barrier_enter_def)
  with assms show ?thesis by (auto simp: gathering_def gathering_thread_def barrier_enter_def)
qed

lemma gathering_goto:
  assumes "gathering s" "t < NUM_THREADS" "bs_pc s t \<in> {WStart, WSlept}" "pc \<in> {WSlept, WCall}"
    and "\<forall>m \<in> set ms. before_barrier m"
  shows "gathering (bar_goto t pc ms s)"
proof -
  have "gathering_thread (bar_goto t pc ms s) v" if "v < NUM_THREADS" for v
    using assms that by (auto simp: gathering_def gathering_thread_def)
  with assms show ?thesis by (auto simp: gathering_def)
qed

lemma gathering_worker:
  assumes "gathering s" "t < NUM_THREADS" "worker r u t s = Some s'"
    and "bar_count (bs_barrier s) = NUM_THREADS"
  shows "gathering s' \<or> leaving s'"
proof -
  from assms(1,2) have pc: "bs_pc s t \<in> {WNew, WStart, WSlept, WCall, WWait}"
    and ret: "bar_ret (bs_barrier s) t = None" by (auto simp: gathering_def gathering_thread_def)
  from pc consider "bs_pc s t \<in> {WNew, WWait}" | "bs_pc s t \<in> {WStart, WSlept}" | "bs_pc s t = WCall" by auto
  then show ?thesis
  proof cases
    case 1
    with assms(3) ret show ?thesis by (auto simp: worker_def barrier_return_def)
  next
    case 2
    with assms(3) show ?thesis by (auto simp: worker_def intro!: gathering_goto [OF assms(1,2)])
  next
    case 3
    with assms(3) have u: "u \<in> set (t # bar_in (bs_barrier s))"
      and s': "s' = bar_goto t WWait [] (s\<lparr>bs_barrier := barrier_enter u t (bs_barrier s)\<rparr>)"
      by (auto simp: worker_def split: if_splits)
    show ?thesis unfolding s'
      using released_leaving [OF assms(1,2) 3 _ assms(4) u] gathering_enter [OF assms(1,2) 3 assms(4)] by blast
  qed
qed

text \<open>What a worker does after the release.\<close>

lemma leaving_worker_goto:
  assumes "leaving_thread s w t" "worker r u t s = Some s'"
  obtains (wait) status where "bs_pc s t = WWait" "bar_ret (bs_barrier s) t = Some status"
      "status \<in> {0, PTHREAD_BARRIER_SERIAL_THREAD}"
      "s' = bar_goto t (WSwitch status) [] (s\<lparr>bs_barrier := (bs_barrier s)\<lparr>bar_ret := (bar_ret (bs_barrier s))(t := None)\<rparr>\<rparr>)"
    | (plain) "bs_pc s t = WSwitch 0" "s' = bar_goto t WQuit [] s"
    | (serial) "bs_pc s t = WSwitch PTHREAD_BARRIER_SERIAL_THREAD" "s' = bar_goto t WQuit [Serial t] s"
    | (quit) "bs_pc s t = WQuit" "s' = bar_goto t WDone [Quit t] s"
proof (cases "bs_pc s t")
  case WWait
  with assms that(1) show ?thesis by (auto simp: leaving_thread_def worker_def barrier_return_def)
next
  case (WSwitch st)
  with assms that(2,3) show ?thesis by (auto simp: leaving_thread_def worker_def worker_switch_def)
qed (use assms that(4) in \<open>auto simp: leaving_thread_def worker_def\<close>)

lemma leaving_thread_worker:
  assumes "leaving_thread s w t" "worker r u t s = Some s'"
  shows "leaving_thread s' w t"
  using assms
proof (cases rule: leaving_worker_goto)
  case (wait status)
  with assms(1) show ?thesis by (auto simp: leaving_thread_def holds_serial_def)
next
  case plain
  with assms(1) show ?thesis by (simp add: leaving_thread_def holds_serial_def)
next
  case serial
  with assms(1) show ?thesis by (simp add: leaving_thread_def holds_serial_def)
next
  case quit
  with assms(1) show ?thesis by (simp add: leaving_thread_def holds_serial_def)
qed

lemma leaving_thread_other:
  assumes "leaving_thread s w t" "worker r u t s = Some s'" and "leaving_thread s w v" "v \<noteq> t"
  shows "leaving_thread s' w v"
  using assms(1,2)
  by (cases rule: leaving_worker_goto) (use assms(3,4) in \<open>simp_all add: leaving_thread_def holds_serial_def\<close>)

lemma leaving_out:
  assumes "leaving_thread s w t" "worker r u t s = Some s'" and "in_phases (bs_out s)"
  shows "in_phases (bs_out s')"
  using assms(1,2)
  by (cases rule: leaving_worker_goto) (use assms(3) in \<open>simp_all add: in_phases_append in_phases_late\<close>)

lemma leaving_worker:
  assumes "leaving s" "t < NUM_THREADS" "worker r u t s = Some s'"
  shows "leaving s'"
proof -
  from assms(1) obtain w where w: "w < NUM_THREADS" "\<And>v. v < NUM_THREADS \<Longrightarrow> leaving_thread s w v"
    and ph: "in_phases (bs_out s)" by (auto simp: leaving_def)
  note lt = w(2) [OF assms(2)]
  have "leaving_thread s' w v" if "v < NUM_THREADS" for v
    using leaving_thread_worker [OF lt assms(3)] leaving_thread_other [OF lt assms(3) w(2) [OF that]] by blast
  with w(1) leaving_out [OF lt assms(3) ph] show ?thesis by (auto simp: leaving_def)
qed


section \<open>The steps of main\<close>

text \<open>Creating a thread and printing the last line keep the phase.\<close>

lemma gathering_create:
  assumes "gathering s" "bs_pc s i = WNew"
  shows "gathering (s\<lparr>bs_main := m, bs_pc := (bs_pc s)(i := WStart)\<rparr>)" (is "gathering ?s")
proof -
  have "gathering_thread ?s v" if "v < NUM_THREADS" for v
    using assms that by (auto simp: gathering_def gathering_thread_def)
  with assms(1) show ?thesis by (auto simp: gathering_def)
qed

lemma not_leaving:
  assumes "v < NUM_THREADS" "bs_pc s v = WNew"
  shows "\<not> leaving s"
  using assms unfolding leaving_def leaving_thread_def by fastforce

lemma not_gathering:
  assumes "v < NUM_THREADS" "bs_pc s v = WDone"
  shows "\<not> gathering s"
  using assms unfolding gathering_def gathering_thread_def by fastforce

lemma phase_main_only:
  "gathering (s\<lparr>bs_main := m\<rparr>) = gathering s" "leaving (s\<lparr>bs_main := m\<rparr>) = leaving s"
  by (simp_all add: gathering_def gathering_thread_def leaving_def leaving_thread_def holds_serial_def)

lemma leaving_in_sync: "leaving s \<Longrightarrow> leaving (s\<lparr>bs_main := m, bs_out := bs_out s @ [InSync]\<rparr>)"
  by (simp add: leaving_def leaving_thread_def holds_serial_def in_phases_append in_phases_late)

lemma gathering_empty:
  "bs_pc s = (\<lambda>_. WNew) \<Longrightarrow> bs_barrier s = barrier_init k \<Longrightarrow> bs_out s = [] \<Longrightarrow> gathering s"
  by (simp add: gathering_def gathering_thread_def barrier_init_def)

lemma bar_inv_main:
  assumes "bar_inv s" "bar_main_step err s = Some s'"
  shows "bar_inv s'"
proof (cases "bs_main s")
  case BInit
  with assms(1) have "s = bar_start" by (simp add: bar_inv_def bar_main_ok_def)
  with assms(2) BInit consider "s' = bar_start\<lparr>bs_main := BExit 1\<rparr>"
    | "s' = bar_start\<lparr>bs_main := BCreate 0, bs_barrier := barrier_init NUM_THREADS\<rparr>"
    by (auto simp: bar_main_step_def split: if_splits)
  then show ?thesis
  proof cases
    case 1
    then have "gathering s'" by (auto simp: bar_start_def intro: gathering_empty)
    with 1 show ?thesis by (simp add: bar_inv_def bar_main_ok_def bar_ended_def)
  next
    case 2
    then have "gathering s'" by (auto simp: bar_start_def intro: gathering_empty)
    with 2 show ?thesis by (simp add: bar_inv_def bar_main_ok_def bar_start_def barrier_init_def)
  qed
next
  case (BCreate k)
  show ?thesis
  proof (cases "k = NUM_THREADS")
    case True
    with assms BCreate show ?thesis
      by (auto simp: bar_inv_def bar_main_ok_def bar_main_step_def bar_ended_def phase_main_only)
  next
    case False
    with assms(1) BCreate have k: "k < NUM_THREADS" "bs_pc s k = WNew"
      by (auto simp: bar_inv_def bar_main_ok_def)
    with assms(1) have "gathering s" using not_leaving by (auto simp: bar_inv_def)
    from gathering_create [OF this k(2)] assms BCreate k show ?thesis
      by (auto simp: bar_inv_def bar_main_ok_def bar_main_step_def bar_ended_def phase_main_only split: if_splits)
  qed
next
  case (BJoin k)
  show ?thesis
  proof (cases "k = NUM_THREADS")
    case True
    with assms(1) BJoin have d: "\<forall>t<NUM_THREADS. bs_pc s t = WDone"
      by (auto simp: bar_inv_def bar_main_ok_def)
    with assms(1) have "leaving s" using not_gathering [of 0] by (auto simp: bar_inv_def)
    from leaving_in_sync [OF this] d assms BJoin True show ?thesis
      by (auto simp: bar_inv_def bar_main_ok_def bar_main_step_def bar_ended_def)
  next
    case False
    with assms BJoin show ?thesis
      by (auto simp: bar_inv_def bar_main_ok_def bar_main_step_def bar_ended_def phase_main_only
          less_Suc_eq split: if_splits)
  qed
qed (use assms in \<open>auto simp: bar_inv_def bar_main_ok_def bar_main_step_def bar_ended_def phase_main_only\<close>)

lemma worker_main:
  assumes "worker r u t s = Some s'"
  shows "bs_main s' = bs_main s" "bar_count (bs_barrier s') = bar_count (bs_barrier s)"
    "bs_pc s t \<notin> {WNew, WDone}" "\<exists>pc. pc \<noteq> WNew \<and> bs_pc s' = (bs_pc s)(t := pc)"
  using assms
  by (auto simp: worker_def barrier_return_def barrier_enter_def
      split: bar_pc.splits if_splits option.splits)

lemma bar_main_ok_worker:
  assumes "bar_main_ok s" "\<not> bar_ended s" "worker r u t s = Some s'" "t < NUM_THREADS"
  shows "bar_main_ok s'" "bs_main s \<noteq> BInit"
proof -
  note w = worker_main [OF assms(3)]
  from w(4) obtain pc where pc: "pc \<noteq> WNew" "bs_pc s' = (bs_pc s)(t := pc)" by blast
  show "bs_main s \<noteq> BInit" using assms(1) w(3) by (auto simp: bar_main_ok_def bar_start_def)
  then show "bar_main_ok s'" using assms(1,2,4) w(1,3) pc
    by (cases "bs_main s") (auto simp: bar_main_ok_def bar_ended_def)
qed

lemma bar_inv_step: "bar_inv s \<Longrightarrow> bar_step s s' \<Longrightarrow> bar_inv s'"
proof (elim bar_stepE)
  fix t r u
  assume inv: "bar_inv s" and st: "\<not> bar_ended s" "t < NUM_THREADS" "worker r u t s = Some s'"
  from inv have ok: "bar_main_ok s" by (simp add: bar_inv_def)
  note m = bar_main_ok_worker [OF ok st(1,3,2)]
  from inv st(1) m(2) have cnt: "bar_count (bs_barrier s) = NUM_THREADS" by (auto simp: bar_inv_def)
  have "gathering s' \<or> leaving s'"
    using inv gathering_worker [OF _ st(2,3) cnt] leaving_worker [OF _ st(2,3)] by (auto simp: bar_inv_def)
  with m(1) cnt worker_main(2) [OF st(3)] show "bar_inv s'" by (simp add: bar_inv_def)
qed (rule bar_inv_main)

lemma bar_inv_init: "bar_inv bar_start"
  by (simp add: bar_inv_def bar_main_ok_def gathering_def gathering_thread_def bar_start_def barrier_init_def)


section \<open>The program ends\<close>

primrec worker_left :: "bar_pc \<Rightarrow> nat" where
  "worker_left WNew = 7"
| "worker_left WStart = 6"
| "worker_left WSlept = 5"
| "worker_left WCall = 4"
| "worker_left WWait = 3"
| "worker_left (WSwitch st) = 2"
| "worker_left WQuit = 1"
| "worker_left WDone = 0"

primrec bar_main_left :: "bar_main \<Rightarrow> nat" where
  "bar_main_left BInit = 2 * NUM_THREADS + 4"
| "bar_main_left (BCreate k) = (NUM_THREADS - k) + NUM_THREADS + 3"
| "bar_main_left (BJoin k) = (NUM_THREADS - k) + 2"
| "bar_main_left BDestroy = 1"
| "bar_main_left (BExit c) = 0"

definition bar_left :: "bar_state \<Rightarrow> nat" where
  "bar_left s = bar_main_left (bs_main s) + thread_sum NUM_THREADS worker_left (bs_pc s)"

lemma worker_left_less:
  "worker r u t s = Some s' \<Longrightarrow> bs_pc s' = (bs_pc s)(t := bs_pc s' t) \<and> worker_left (bs_pc s' t) < worker_left (bs_pc s t)"
  by (auto simp: worker_def barrier_return_def split: bar_pc.splits if_splits option.splits)

lemma bar_left_step:
  assumes "bar_inv s" "bar_step s s'"
  shows "bar_left s' < bar_left s"
  using assms(2)
proof (rule bar_stepE)
  fix err assume st: "bar_main_step err s = Some s'"
  show ?thesis
  proof (cases "\<exists>k<NUM_THREADS. bs_main s = BCreate k \<and> err = 0")
    case True
    then obtain k where k: "k < NUM_THREADS" "bs_main s = BCreate k" "err = 0" by blast
    with assms(1) have "bs_pc s k = WNew" by (simp add: bar_inv_def bar_main_ok_def)
    with thread_sum_upd [OF k(1), of worker_left "bs_pc s" WStart] k st show ?thesis
      by (auto simp: bar_left_def bar_main_step_def)
  next
    case False
    with assms(1) st show ?thesis
      by (auto simp: bar_left_def bar_main_step_def bar_inv_def bar_main_ok_def split: bar_main.splits if_splits)
  qed
next
  fix t r u
  assume t: "t < NUM_THREADS" "worker r u t s = Some s'"
  from worker_left_less [OF t(2)] thread_sum_upd [OF t(1), of worker_left "bs_pc s" "bs_pc s' t"]
  show ?thesis using worker_main(1) [OF t(2)] by (simp add: bar_left_def)
qed

lemma worker_moves:
  assumes "bs_pc s t \<in> {WStart, WSlept, WCall, WSwitch st, WQuit}"
  shows "\<exists>s'. worker r t t s = Some s'"
  using assms by (auto simp: worker_def)

lemma someone_moves:
  assumes "gathering s \<or> leaving s" "i < NUM_THREADS" "bs_pc s i \<noteq> WDone" "\<forall>t<NUM_THREADS. bs_pc s t \<noteq> WNew"
  shows "\<exists>t<NUM_THREADS. \<exists>s'. worker 0 t t s = Some s'"
  using assms(1)
proof
  assume g: "gathering s"
  have "\<not> {..<NUM_THREADS} \<subseteq> set (bar_in (bs_barrier s))"
  proof
    assume "{..<NUM_THREADS} \<subseteq> set (bar_in (bs_barrier s))"
    then have "NUM_THREADS \<le> card (set (bar_in (bs_barrier s)))" using card_mono by fastforce
    also have "\<dots> < NUM_THREADS" using g by (simp add: gathering_def distinct_card)
    finally show False by simp
  qed
  then obtain t where t: "t < NUM_THREADS" "t \<notin> set (bar_in (bs_barrier s))" by auto
  with g assms(4) have "bs_pc s t \<in> {WStart, WSlept, WCall}" by (auto simp: gathering_def gathering_thread_def)
  with t(1) worker_moves show ?thesis by blast
next
  assume "leaving s"
  with assms(2) obtain u where "leaving_thread s u i" by (auto simp: leaving_def)
  with assms(2,3) show ?thesis
    by (intro exI [of _ i]) (auto simp: leaving_thread_def worker_def barrier_return_def)
qed

lemma bar_progress_ok:
  assumes "bar_inv s" "\<not> bar_ended s"
  shows "\<exists>s'. bar_step s s' \<and> (\<forall>c. bs_main s' = BExit c \<longrightarrow> c = 0)"
proof (cases "bar_main_step 0 s")
  case (Some s')
  with assms(2) have "\<forall>c. bs_main s' = BExit c \<longrightarrow> c = 0"
    by (auto simp: bar_main_step_def split: bar_main.splits if_splits)
  with Some show ?thesis by (blast intro: bar_step.main)
next
  case None
  with assms(2) obtain i where i: "bs_main s = BJoin i" "i \<noteq> NUM_THREADS" "bs_pc s i \<noteq> WDone"
    by (auto simp: bar_main_step_def bar_ended_def split: bar_main.splits if_splits)
  with assms(1) have "\<exists>t<NUM_THREADS. \<exists>s'. worker 0 t t s = Some s'"
    by (intro someone_moves [of s i]) (auto simp: bar_inv_def bar_main_ok_def)
  then obtain t s' where t: "t < NUM_THREADS" "worker 0 t t s = Some s'" by blast
  with worker_main(1) [OF t(2)] i(1) have "\<forall>c. bs_main s' = BExit c \<longrightarrow> c = 0" by simp
  with t assms(2) show ?thesis by (blast intro: bar_step.worker)
qed

interpretation bar_sys: terminating_system bar_start bar_step bar_inv bar_left bar_ended
proof unfold_locales
  show "bar_inv bar_start" by (rule bar_inv_init)
qed (use bar_inv_step bar_left_step bar_progress_ok in blast)+

text \<open>The same program when no call of \<open>main\<close> fails.\<close>

definition bar_step_ok :: "bar_state \<Rightarrow> bar_state \<Rightarrow> bool" where
  "bar_step_ok s s' \<longleftrightarrow> bar_step s s' \<and> (\<forall>c. bs_main s' = BExit c \<longrightarrow> c = 0)"

interpretation bar_ok: terminating_system bar_start bar_step_ok
    "\<lambda>s. bar_inv s \<and> (\<forall>c. bs_main s = BExit c \<longrightarrow> c = 0)" bar_left bar_ended
proof unfold_locales
  show "bar_inv bar_start \<and> (\<forall>c. bs_main bar_start = BExit c \<longrightarrow> c = 0)"
    by (simp add: bar_inv_init) (simp add: bar_start_def)
qed (use bar_progress_ok in \<open>auto simp: bar_step_ok_def bar_inv_init bar_inv_step bar_left_step\<close>)+

lemma success_reached: "\<exists>s. reach bar_start bar_step s \<and> bs_main s = BExit 0"
proof -
  obtain s where s: "reach bar_start bar_step_ok s" "bar_ended s"
    using bar_ok.reaches_final [OF reach_init] by blast
  with bar_ok.reach_inv [OF s(1)] have "bs_main s = BExit 0" by (auto simp: bar_ended_def)
  moreover have "reach bar_start bar_step s" using s(1) by (rule reach_mono) (simp add: bar_step_ok_def)
  ultimately show ?thesis by blast
qed




end
