(* ===== verification/Tss_Threads.thy ===== *)
theory Tss_Threads
  imports Pthread
begin

text \<open>
  \<open>day2/14_tss\<close>: three threads that keep a copy of their argument in thread-specific data.
  Strings live at addresses of a heap; a use of an address that is not allocated, or a second
  \<open>delete\<close>, sets \<open>ts_undefined\<close>. The value of the key is a map from threads to addresses, and
  a thread that ends with a value of its own runs the destructor on it, as POSIX has it.
\<close>

section \<open>The program\<close>

definition tss_N :: nat where
  "tss_N = 3"

definition tss_texts :: "string list" where
  "tss_texts = [''abcefgh'', ''12356789'', ''!@#$%^&*'']"

definition tss_arg :: "tid \<Rightarrow> string" where
  "tss_arg i = tss_texts ! (i mod 3)"

datatype tss_msg = SetError | Address nat string | Shown string | ThreadEnd | Destruktor nat

text \<open>Where a thread is; after the \<open>new\<close> it holds its local pointer \<open>text\<close>.\<close>

datatype tss_pc = TNew | TStart | TSet nat | TShow nat | TEnd nat | TReturn nat | TDone nat

datatype tss_main = TKey | TCreate nat | TJoin nat | TDelete | TExit int

record tss_state =
  ts_main :: tss_main
  ts_pc :: "tid \<Rightarrow> tss_pc"
  ts_key :: "tid \<Rightarrow> nat option"
  ts_heap :: "nat \<Rightarrow> string option"
  ts_next :: nat
  ts_undefined :: bool
  ts_out :: "(tid \<times> tss_msg) list"

definition tss_start :: tss_state where
  "tss_start = \<lparr>ts_main = TKey, ts_pc = (\<lambda>_. TNew), ts_key = (\<lambda>_. None), ts_heap = (\<lambda>_. None),
     ts_next = 0, ts_undefined = False, ts_out = []\<rparr>"

definition tss_print :: "tid \<Rightarrow> tss_msg \<Rightarrow> tss_state \<Rightarrow> tss_state" where
  "tss_print t m s = s\<lparr>ts_out := ts_out s @ [(t, m)]\<rparr>"

text \<open>The three functions of a thread; \<open>err\<close> is what \<open>pthread_setspecific\<close> returns.\<close>

definition wyswietl :: "tid \<Rightarrow> tss_state \<Rightarrow> tss_state" where
  "wyswietl t s =
     (case ts_key s t of
        None \<Rightarrow> s
      | Some a \<Rightarrow>
          (case ts_heap s a of
             None \<Rightarrow> s\<lparr>ts_undefined := True\<rparr>
           | Some txt \<Rightarrow> tss_print t (Shown txt) s))"

definition destruktor :: "tid \<Rightarrow> nat \<Rightarrow> tss_state \<Rightarrow> tss_state" where
  "destruktor t a s =
     (let s = tss_print t (Destruktor a) s
      in if ts_heap s a = None then s\<lparr>ts_undefined := True\<rparr>
         else s\<lparr>ts_heap := (ts_heap s)(a := None)\<rparr>)"

definition tss_at :: "tid \<Rightarrow> tss_pc \<Rightarrow> tss_state \<Rightarrow> tss_state" where
  "tss_at t pc s = s\<lparr>ts_pc := (ts_pc s)(t := pc)\<rparr>"

definition watek_set :: "int \<Rightarrow> tid \<Rightarrow> nat \<Rightarrow> tss_state \<Rightarrow> tss_state" where
  "watek_set err t a s =
     (if err \<noteq> 0 then tss_print t SetError s
      else case ts_heap s a of
             None \<Rightarrow> s\<lparr>ts_undefined := True\<rparr>
           | Some txt \<Rightarrow> tss_print t (Address a txt) (s\<lparr>ts_key := (ts_key s)(t := Some a)\<rparr>))"

definition watek_exit :: "tid \<Rightarrow> tss_state \<Rightarrow> tss_state" where
  "watek_exit t s =
     (case ts_key s t of
        None \<Rightarrow> s
      | Some a \<Rightarrow> destruktor t a (s\<lparr>ts_key := (ts_key s)(t := None)\<rparr>))"

definition tss_watek :: "int \<Rightarrow> tid \<Rightarrow> tss_state \<Rightarrow> tss_state option" where
  "tss_watek err t s =
     (case ts_pc s t of
        TNew \<Rightarrow> None
      | TStart \<Rightarrow>
          Some (tss_at t (TSet (ts_next s))
            (s\<lparr>ts_heap := (ts_heap s)(ts_next s := Some (tss_arg t)), ts_next := Suc (ts_next s)\<rparr>))
      | TSet a \<Rightarrow> Some (tss_at t (TShow a) (watek_set err t a s))
      | TShow a \<Rightarrow> Some (tss_at t (TEnd a) (wyswietl t s))
      | TEnd a \<Rightarrow> Some (tss_at t (TReturn a) (tss_print t ThreadEnd s))
      | TReturn a \<Rightarrow> Some (tss_at t (TDone a) (watek_exit t s))
      | TDone a \<Rightarrow> None)"

definition tss_main_step :: "int \<Rightarrow> tss_state \<Rightarrow> tss_state option" where
  "tss_main_step err s =
     (case ts_main s of
        TKey \<Rightarrow> Some (s\<lparr>ts_main := if err \<noteq> 0 then TExit 1 else TCreate 0\<rparr>)
      | TCreate i \<Rightarrow>
          Some (if i = tss_N then s\<lparr>ts_main := TJoin 0\<rparr>
                else if err \<noteq> 0 then s\<lparr>ts_main := TExit 1\<rparr>
                else s\<lparr>ts_main := TCreate (Suc i), ts_pc := (ts_pc s)(i := TStart)\<rparr>)
      | TJoin i \<Rightarrow>
          if i = tss_N then Some (s\<lparr>ts_main := TDelete\<rparr>)
          else (case ts_pc s i of TDone a \<Rightarrow> Some (s\<lparr>ts_main := TJoin (Suc i)\<rparr>) | _ \<Rightarrow> None)
      | TDelete \<Rightarrow> Some (s\<lparr>ts_main := TExit (if err \<noteq> 0 then 1 else 0)\<rparr>)
      | TExit _ \<Rightarrow> None)"

definition tss_ended :: "tss_state \<Rightarrow> bool" where
  "tss_ended s \<longleftrightarrow> (\<exists>c. ts_main s = TExit c)"

lemma tss_ended_code [code]: "tss_ended s \<longleftrightarrow> (case ts_main s of TExit c \<Rightarrow> True | _ \<Rightarrow> False)"
  by (simp add: tss_ended_def split: tss_main.split)

inductive tss_step :: "tss_state \<Rightarrow> tss_state \<Rightarrow> bool" where
  main: "tss_main_step err s = Some s' \<Longrightarrow> tss_step s s'"
| thread: "\<not> tss_ended s \<Longrightarrow> t < tss_N \<Longrightarrow> tss_watek err t s = Some s' \<Longrightarrow> tss_step s s'"

inductive_cases tss_stepE: "tss_step s s'"

section \<open>What a thread has done\<close>

definition said :: "tss_state \<Rightarrow> tid \<Rightarrow> tss_msg list" where
  "said s t = map snd (filter (\<lambda>m. fst m = t) (ts_out s))"

primrec tss_addr :: "tss_pc \<Rightarrow> nat option" where
  "tss_addr TNew = None"
| "tss_addr TStart = None"
| "tss_addr (TSet a) = Some a"
| "tss_addr (TShow a) = Some a"
| "tss_addr (TEnd a) = Some a"
| "tss_addr (TReturn a) = Some a"
| "tss_addr (TDone a) = Some a"

text \<open>
  What thread \<open>t\<close> has printed, and what is at its key and its address, at each place. The
  first message tells whether \<open>pthread_setspecific\<close> succeeded.
\<close>

primrec tss_said :: "tid \<Rightarrow> bool \<Rightarrow> tss_pc \<Rightarrow> tss_msg list" where
  "tss_said t ok TNew = []"
| "tss_said t ok TStart = []"
| "tss_said t ok (TSet a) = []"
| "tss_said t ok (TShow a) = (if ok then [Address a (tss_arg t)] else [SetError])"
| "tss_said t ok (TEnd a) = (if ok then [Address a (tss_arg t), Shown (tss_arg t)] else [SetError])"
| "tss_said t ok (TReturn a) =
     (if ok then [Address a (tss_arg t), Shown (tss_arg t), ThreadEnd] else [SetError, ThreadEnd])"
| "tss_said t ok (TDone a) =
     (if ok then [Address a (tss_arg t), Shown (tss_arg t), ThreadEnd, Destruktor a] else [SetError, ThreadEnd])"

primrec tss_has_key :: "bool \<Rightarrow> tss_pc \<Rightarrow> nat option" where
  "tss_has_key ok TNew = None"
| "tss_has_key ok TStart = None"
| "tss_has_key ok (TSet a) = None"
| "tss_has_key ok (TShow a) = (if ok then Some a else None)"
| "tss_has_key ok (TEnd a) = (if ok then Some a else None)"
| "tss_has_key ok (TReturn a) = (if ok then Some a else None)"
| "tss_has_key ok (TDone a) = None"

definition tss_freed :: "bool \<Rightarrow> tss_pc \<Rightarrow> bool" where
  "tss_freed ok pc \<longleftrightarrow> ok \<and> (case pc of TDone a \<Rightarrow> True | _ \<Rightarrow> False)"

definition tss_thread_ok :: "tss_state \<Rightarrow> (tid \<Rightarrow> bool) \<Rightarrow> tid \<Rightarrow> bool" where
  "tss_thread_ok s ok t \<longleftrightarrow>
     said s t = tss_said t (ok t) (ts_pc s t)
     \<and> ts_key s t = tss_has_key (ok t) (ts_pc s t)
     \<and> (\<forall>a. tss_addr (ts_pc s t) = Some a \<longrightarrow> a < ts_next s
          \<and> ts_heap s a = (if tss_freed (ok t) (ts_pc s t) then None else Some (tss_arg t)))"

definition tss_heap_ok :: "tss_state \<Rightarrow> bool" where
  "tss_heap_ok s \<longleftrightarrow>
     (\<forall>t<tss_N. \<forall>u<tss_N. t \<noteq> u \<longrightarrow> tss_addr (ts_pc s t) = None \<or> tss_addr (ts_pc s t) \<noteq> tss_addr (ts_pc s u))
     \<and> (\<forall>a. ts_heap s a \<noteq> None \<longrightarrow> (\<exists>t<tss_N. tss_addr (ts_pc s t) = Some a))"


definition tss_done :: "tss_pc \<Rightarrow> bool" where
  "tss_done pc \<longleftrightarrow> (case pc of TDone a \<Rightarrow> True | _ \<Rightarrow> False)"

definition tss_main_ok :: "tss_state \<Rightarrow> bool" where
  "tss_main_ok s \<longleftrightarrow>
     (case ts_main s of
        TKey \<Rightarrow> \<forall>t<tss_N. ts_pc s t = TNew
      | TCreate k \<Rightarrow> k \<le> tss_N \<and> (\<forall>t<tss_N. ts_pc s t = TNew \<longleftrightarrow> k \<le> t)
      | TJoin k \<Rightarrow> k \<le> tss_N \<and> (\<forall>t<tss_N. ts_pc s t \<noteq> TNew) \<and> (\<forall>t<k. tss_done (ts_pc s t))
      | TDelete \<Rightarrow> \<forall>t<tss_N. tss_done (ts_pc s t)
      | TExit c \<Rightarrow> c = 0 \<longrightarrow> (\<forall>t<tss_N. tss_done (ts_pc s t)))"

definition tss_inv :: "tss_state \<Rightarrow> bool" where
  "tss_inv s \<longleftrightarrow> tss_main_ok s \<and> \<not> ts_undefined s \<and> tss_heap_ok s
     \<and> (\<exists>ok. \<forall>t<tss_N. tss_thread_ok s ok t)"

lemma tss_at_simps [simp]:
  "ts_main (tss_at t pc s) = ts_main s" "ts_pc (tss_at t pc s) = (ts_pc s)(t := pc)"
  "ts_key (tss_at t pc s) = ts_key s" "ts_heap (tss_at t pc s) = ts_heap s"
  "ts_next (tss_at t pc s) = ts_next s" "ts_undefined (tss_at t pc s) = ts_undefined s"
  "ts_out (tss_at t pc s) = ts_out s"
  by (simp_all add: tss_at_def)

lemma tss_print_simps [simp]:
  "ts_main (tss_print t m s) = ts_main s" "ts_pc (tss_print t m s) = ts_pc s"
  "ts_key (tss_print t m s) = ts_key s" "ts_heap (tss_print t m s) = ts_heap s"
  "ts_next (tss_print t m s) = ts_next s" "ts_undefined (tss_print t m s) = ts_undefined s"
  "ts_out (tss_print t m s) = ts_out s @ [(t, m)]"
  by (simp_all add: tss_print_def)

text \<open>The steps of a thread in a state that satisfies the invariant, by the place it is at.\<close>

lemma watek_cases:
  assumes "tss_watek err t s = Some s'" "tss_thread_ok s ok t"
  obtains (start) "ts_pc s t = TStart"
      "s' = tss_at t (TSet (ts_next s)) (s\<lparr>ts_heap := (ts_heap s)(ts_next s := Some (tss_arg t)), ts_next := Suc (ts_next s)\<rparr>)"
    | (set_fails) a where "ts_pc s t = TSet a" "err \<noteq> 0" "s' = tss_at t (TShow a) (tss_print t SetError s)"
    | (set) a where "ts_pc s t = TSet a" "err = 0"
      "s' = tss_at t (TShow a) (tss_print t (Address a (tss_arg t)) (s\<lparr>ts_key := (ts_key s)(t := Some a)\<rparr>))"
    | (quiet) a where "ts_pc s t = TShow a" "\<not> ok t" "s' = tss_at t (TEnd a) s"
    | (shown) a where "ts_pc s t = TShow a" "ok t" "s' = tss_at t (TEnd a) (tss_print t (Shown (tss_arg t)) s)"
    | (ending) a where "ts_pc s t = TEnd a" "s' = tss_at t (TReturn a) (tss_print t ThreadEnd s)"
    | (leave) a where "ts_pc s t = TReturn a" "\<not> ok t" "s' = tss_at t (TDone a) s"
    | (destroy) a where "ts_pc s t = TReturn a" "ok t"
      "s' = tss_at t (TDone a) ((tss_print t (Destruktor a) (s\<lparr>ts_key := (ts_key s)(t := None)\<rparr>))
         \<lparr>ts_heap := (ts_heap s)(a := None)\<rparr>)"
proof (cases "ts_pc s t")
  case TStart
  with assms that(1) show ?thesis by (simp add: tss_watek_def)
next
  case (TSet a)
  with assms that(2,3) show ?thesis
    by (cases "err = 0") (simp_all add: tss_watek_def watek_set_def tss_thread_ok_def tss_freed_def)
next
  case (TShow a)
  with assms that(4,5) show ?thesis
    by (cases "ok t") (simp_all add: tss_watek_def wyswietl_def tss_thread_ok_def tss_freed_def)
next
  case (TEnd a)
  with assms that(6) show ?thesis by (simp add: tss_watek_def)
next
  case (TReturn a)
  with assms that(7,8) show ?thesis
    by (cases "ok t")
      (simp_all add: tss_watek_def watek_exit_def destruktor_def tss_thread_ok_def tss_freed_def)
qed (use assms(1) in \<open>simp_all add: tss_watek_def\<close>)

lemma said_print [simp]:
  "said (s\<lparr>ts_out := ts_out s @ [(t, m)]\<rparr>) u = (if t = u then said s u @ [m] else said s u)"
  by (simp add: said_def)

lemma said_same: "ts_out s' = ts_out s \<Longrightarrow> said s' u = said s u"
  by (simp add: said_def)

lemma said_more: "ts_out s' = ts_out s @ [(t, m)] \<Longrightarrow> said s' u = (if t = u then said s u @ [m] else said s u)"
  by (simp add: said_def)

lemma watek_thread_ok:
  assumes "tss_watek err t s = Some s'" "tss_thread_ok s ok t"
  shows "tss_thread_ok s' (ok(t := (case ts_pc s t of TSet a \<Rightarrow> err = 0 | _ \<Rightarrow> ok t))) t"
  using assms
  by (cases rule: watek_cases) (use assms(2) in \<open>auto simp: tss_thread_ok_def said_def tss_freed_def\<close>)

lemma watek_other:
  assumes "tss_watek err t s = Some s'" "tss_thread_ok s ok t" and "tss_thread_ok s ok u" "u \<noteq> t"
    and "tss_addr (ts_pc s u) = None \<or> tss_addr (ts_pc s u) \<noteq> tss_addr (ts_pc s t)"
  shows "tss_thread_ok s' (ok(t := b)) u"
  using assms(1,2)
  by (cases rule: watek_cases) (use assms(3-5) in \<open>auto simp: tss_thread_ok_def said_def tss_freed_def\<close>)

lemma watek_frame:
  assumes "tss_watek err t s = Some s'" "tss_thread_ok s ok t"
  shows "ts_main s' = ts_main s" "\<not> ts_undefined s \<Longrightarrow> \<not> ts_undefined s'"
    "\<exists>pc. pc \<noteq> TNew \<and> ts_pc s' = (ts_pc s)(t := pc)" "ts_pc s t \<noteq> TNew" "\<not> tss_done (ts_pc s t)"
  using assms by (cases rule: watek_cases; force simp: tss_done_def)+

lemma tss_heap_ok_mono:
  assumes "tss_heap_ok s" "\<And>u. tss_addr (ts_pc s' u) = tss_addr (ts_pc s u)"
    and "\<And>a. ts_heap s' a \<noteq> None \<Longrightarrow> ts_heap s a \<noteq> None"
  shows "tss_heap_ok s'"
  using assms by (simp add: tss_heap_ok_def)

lemma tss_heap_ok_new:
  assumes "tss_heap_ok s" "t < tss_N" "\<And>u a. u < tss_N \<Longrightarrow> tss_addr (ts_pc s u) = Some a \<Longrightarrow> a < n"
    and "tss_addr (ts_pc s t) = None"
    and "ts_pc s' = (ts_pc s)(t := TSet n)" "ts_heap s' = (ts_heap s)(n := Some txt)"
  shows "tss_heap_ok s'"
  unfolding tss_heap_ok_def
proof (intro conjI allI impI)
  fix u v
  assume u: "u < tss_N" and v: "v < tss_N" "u \<noteq> v"
  have neq: "tss_addr (ts_pc s w) \<noteq> Some n" if "w < tss_N" for w using assms(3) [OF that] by blast
  from assms(1) u v have "tss_addr (ts_pc s u) = None \<or> tss_addr (ts_pc s u) \<noteq> tss_addr (ts_pc s v)"
    by (simp add: tss_heap_ok_def)
  with neq [OF u] neq [OF v(1)] v(2)
  show "tss_addr (ts_pc s' u) = None \<or> tss_addr (ts_pc s' u) \<noteq> tss_addr (ts_pc s' v)"
    by (simp add: assms(5))
next
  fix a
  assume a: "ts_heap s' a \<noteq> None"
  show "\<exists>u<tss_N. tss_addr (ts_pc s' u) = Some a"
  proof (cases "a = n")
    case True
    with assms(2,5) show ?thesis by (intro exI [of _ t]) simp
  next
    case False
    with a assms(1,6) obtain u where "u < tss_N" "tss_addr (ts_pc s u) = Some a" by (auto simp: tss_heap_ok_def)
    with assms(4,5) show ?thesis by (intro exI [of _ u]) auto
  qed
qed

lemma watek_heap_ok:
  assumes "tss_watek err t s = Some s'" "t < tss_N" "\<forall>t<tss_N. tss_thread_ok s ok t" "tss_heap_ok s"
  shows "tss_heap_ok s'"
proof -
  from assms(2,3) have ok: "tss_thread_ok s ok t" by blast
  have below: "a < ts_next s" if "u < tss_N" "tss_addr (ts_pc s u) = Some a" for u a
    using assms(3) that by (auto simp: tss_thread_ok_def)
  from assms(1) ok show ?thesis
  proof (cases rule: watek_cases)
    case start
    show ?thesis
      by (rule tss_heap_ok_new [OF assms(4,2) below]) (simp_all add: start)
  qed (auto intro!: tss_heap_ok_mono [OF assms(4)] split: if_splits)
qed

lemma tss_thread_step:
  assumes "tss_inv s" "\<not> tss_ended s" "t < tss_N" "tss_watek err t s = Some s'"
  shows "tss_inv s'"
proof -
  from assms(1) obtain ok where ok: "\<forall>t<tss_N. tss_thread_ok s ok t" and main: "tss_main_ok s"
    and heap: "tss_heap_ok s" and def: "\<not> ts_undefined s" by (auto simp: tss_inv_def)
  from ok assms(3) have okt: "tss_thread_ok s ok t" by blast
  note f = watek_frame [OF assms(4) okt]
  have "tss_main_ok s'"
    using main assms(2,3) f(1,3-5)
    by (cases "ts_main s") (auto simp: tss_main_ok_def tss_ended_def split: if_splits)
  moreover have "tss_thread_ok s' (ok(t := (case ts_pc s t of TSet a \<Rightarrow> err = 0 | _ \<Rightarrow> ok t))) u"
    if "u < tss_N" for u
  proof (cases "u = t")
    case True
    with watek_thread_ok [OF assms(4) okt] show ?thesis by simp
  next
    case False
    with heap that assms(3) ok show ?thesis
      by (intro watek_other [OF assms(4) okt]) (auto simp: tss_heap_ok_def)
  qed
  ultimately show ?thesis
    using watek_heap_ok [OF assms(4,3) ok heap] f(2) [OF def] unfolding tss_inv_def by blast
qed

lemma tss_main_moves:
  assumes "tss_inv s" "tss_main_step err s = Some s'"
  obtains (create) k where "k < tss_N" "ts_main s = TCreate k" "ts_pc s k = TNew"
      "s' = s\<lparr>ts_main := TCreate (Suc k), ts_pc := (ts_pc s)(k := TStart)\<rparr>"
    | (goes) m where "s' = s\<lparr>ts_main := m\<rparr>" "tss_main_ok (s\<lparr>ts_main := m\<rparr>)"
proof (cases "ts_main s")
  case TKey
  with assms that(2) show ?thesis
    by (cases "err = 0") (auto simp: tss_main_step_def tss_inv_def tss_main_ok_def)
next
  case (TCreate k)
  have k: "k \<le> tss_N" "\<forall>t<tss_N. ts_pc s t = TNew \<longleftrightarrow> k \<le> t"
    using assms(1) TCreate by (auto simp: tss_inv_def tss_main_ok_def)
  consider "k = tss_N" | "k \<noteq> tss_N" "err \<noteq> 0" | "k \<noteq> tss_N" "err = 0" by blast
  then show ?thesis
  proof cases
    case 1
    with assms(2) TCreate k show ?thesis
      by (intro that(2) [of "TJoin 0"]) (auto simp: tss_main_step_def tss_main_ok_def)
  next
    case 2
    with assms(2) TCreate show ?thesis
      by (intro that(2) [of "TExit 1"]) (auto simp: tss_main_step_def tss_main_ok_def)
  next
    case 3
    with assms(2) TCreate k show ?thesis
      by (intro that(1) [of k]) (auto simp: tss_main_step_def)
  qed
next
  case (TJoin k)
  show ?thesis
  proof (cases "k = tss_N")
    case True
    with assms TJoin show ?thesis
      by (intro that(2) [of TDelete]) (auto simp: tss_main_step_def tss_inv_def tss_main_ok_def)
  next
    case False
    with assms(2) TJoin have d: "tss_done (ts_pc s k)" "s' = s\<lparr>ts_main := TJoin (Suc k)\<rparr>"
      by (cases "ts_pc s k"; simp add: tss_main_step_def tss_done_def)+
    from assms(1) have "tss_main_ok s" by (simp add: tss_inv_def)
    with TJoin False d(1) have "tss_main_ok (s\<lparr>ts_main := TJoin (Suc k)\<rparr>)"
      by (simp add: tss_main_ok_def less_Suc_eq)
    with d(2) show ?thesis by (rule that(2))
  qed
next
  case TDelete
  with assms that(2) show ?thesis
    by (cases "err = 0") (auto simp: tss_main_step_def tss_inv_def tss_main_ok_def)
qed (use assms(2) in \<open>simp add: tss_main_step_def\<close>)

lemma tss_main_inv:
  assumes "tss_inv s" "tss_main_step err s = Some s'"
  shows "tss_inv s'"
  using assms
proof (cases rule: tss_main_moves)
  case (create k)
  have "tss_thread_ok s' ok u" if "tss_thread_ok s ok u" for ok u
    using that create(3,4) by (auto simp: tss_thread_ok_def said_def)
  moreover have "tss_heap_ok s'"
    by (rule tss_heap_ok_mono [of s]) (use assms(1) create(3) in \<open>simp_all add: create(4) tss_inv_def\<close>)
  moreover have "tss_main_ok s" using assms(1) by (simp add: tss_inv_def)
  with create(1-3) have "tss_main_ok s'" by (auto simp: create(4) tss_main_ok_def)
  moreover have "\<not> ts_undefined s'" using assms(1) by (simp add: create(4) tss_inv_def)
  ultimately show ?thesis using assms(1) unfolding tss_inv_def by blast
next
  case (goes m)
  then have "tss_thread_ok s' ok u = tss_thread_ok s ok u" "tss_heap_ok s' = tss_heap_ok s" for ok u
    by (simp_all add: tss_thread_ok_def said_def tss_heap_ok_def)
  with goes assms(1) show ?thesis by (simp add: tss_inv_def)
qed


lemma tss_inv_step: "tss_inv s \<Longrightarrow> tss_step s s' \<Longrightarrow> tss_inv s'"
  by (elim tss_stepE) (auto intro: tss_main_inv tss_thread_step)

lemma tss_inv_init: "tss_inv tss_start"
  by (simp add: tss_inv_def tss_start_def tss_main_ok_def tss_heap_ok_def tss_thread_ok_def said_def)

section \<open>The program ends\<close>

primrec watek_left :: "tss_pc \<Rightarrow> nat" where
  "watek_left TNew = 6"
| "watek_left TStart = 5"
| "watek_left (TSet a) = 4"
| "watek_left (TShow a) = 3"
| "watek_left (TEnd a) = 2"
| "watek_left (TReturn a) = 1"
| "watek_left (TDone a) = 0"

primrec tss_main_left :: "tss_main \<Rightarrow> nat" where
  "tss_main_left TKey = 2 * tss_N + 4"
| "tss_main_left (TCreate k) = (tss_N - k) + tss_N + 3"
| "tss_main_left (TJoin k) = (tss_N - k) + 2"
| "tss_main_left TDelete = 1"
| "tss_main_left (TExit c) = 0"

definition tss_left :: "tss_state \<Rightarrow> nat" where
  "tss_left s = tss_main_left (ts_main s) + thread_sum tss_N watek_left (ts_pc s)"

lemma watek_less:
  assumes "tss_watek err t s = Some s'" "tss_thread_ok s ok t"
  shows "\<exists>pc. ts_pc s' = (ts_pc s)(t := pc) \<and> watek_left pc < watek_left (ts_pc s t)"
  using assms by (cases rule: watek_cases) force+

lemma tss_main_less:
  assumes "tss_inv s" "tss_main_step err s = Some s'"
  shows "tss_main_left (ts_main s') < tss_main_left (ts_main s)"
proof -
  from assms(1) have "tss_main_ok s" by (simp add: tss_inv_def)
  with assms(2) show ?thesis
    by (cases "ts_main s") (auto simp: tss_main_step_def tss_main_ok_def split: if_splits tss_pc.splits)
qed

lemma tss_left_step:
  assumes "tss_inv s" "tss_step s s'"
  shows "tss_left s' < tss_left s"
  using assms(2)
proof (rule tss_stepE)
  fix err assume st: "tss_main_step err s = Some s'"
  from assms(1) st show ?thesis
  proof (cases rule: tss_main_moves)
    case (create k)
    with thread_sum_upd [OF create(1), of watek_left "ts_pc s" TStart] tss_main_less [OF assms(1) st]
    show ?thesis by (simp add: tss_left_def)
  next
    case (goes m)
    with tss_main_less [OF assms(1) st] show ?thesis by (simp add: tss_left_def)
  qed
next
  fix t err
  assume t: "t < tss_N" "tss_watek err t s = Some s'"
  from assms(1) t(1) obtain ok where ok: "tss_thread_ok s ok t" by (auto simp: tss_inv_def)
  from watek_less [OF t(2) ok] obtain pc
    where "ts_pc s' = (ts_pc s)(t := pc)" "watek_left pc < watek_left (ts_pc s t)" by blast
  with thread_sum_upd [OF t(1), of watek_left "ts_pc s" pc] watek_frame(1) [OF t(2) ok]
  show ?thesis by (simp add: tss_left_def)
qed

lemma watek_moves: "\<not> tss_done (ts_pc s t) \<Longrightarrow> ts_pc s t \<noteq> TNew \<Longrightarrow> \<exists>s'. tss_watek err t s = Some s'"
  by (cases "ts_pc s t") (simp_all add: tss_watek_def tss_done_def)

text \<open>A step that is not a failure: the one there is if no call fails.\<close>

definition tss_ok_exit :: "tss_state \<Rightarrow> bool" where
  "tss_ok_exit s \<longleftrightarrow> (\<forall>c. ts_main s = TExit c \<longrightarrow> c = 0)"

lemma tss_progress_ok:
  assumes "tss_inv s" "\<not> tss_ended s"
  shows "\<exists>s'. tss_step s s' \<and> tss_ok_exit s'"
proof (cases "tss_main_step 0 s")
  case (Some s')
  with assms(2) have "tss_ok_exit s'"
    by (cases "ts_main s") (auto simp: tss_main_step_def tss_ok_exit_def split: if_splits tss_pc.splits)
  with Some show ?thesis by (blast intro: tss_step.main)
next
  case None
  with assms(2) obtain i where i: "ts_main s = TJoin i" "i \<noteq> tss_N" "\<not> tss_done (ts_pc s i)"
    by (cases "ts_main s")
      (auto simp: tss_main_step_def tss_ended_def tss_done_def split: if_splits tss_pc.splits)
  with assms(1) have ti: "i < tss_N" "ts_pc s i \<noteq> TNew" by (auto simp: tss_inv_def tss_main_ok_def)
  with i(3) watek_moves obtain s' where s': "tss_watek 0 i s = Some s'" by blast
  from assms(1) ti(1) obtain ok where "tss_thread_ok s ok i" by (auto simp: tss_inv_def)
  from watek_frame(1) [OF s' this] i(1) have "tss_ok_exit s'" by (simp add: tss_ok_exit_def)
  with s' ti(1) assms(2) show ?thesis by (blast intro: tss_step.thread)
qed

interpretation tss_sys: terminating_system tss_start tss_step tss_inv tss_left tss_ended
proof unfold_locales
  show "tss_inv tss_start" by (rule tss_inv_init)
qed (use tss_inv_step tss_left_step tss_progress_ok in blast)+

interpretation tss_ok: terminating_system tss_start "\<lambda>s s'. tss_step s s' \<and> tss_ok_exit s'"
    "\<lambda>s. tss_inv s \<and> tss_ok_exit s" tss_left tss_ended
proof unfold_locales
  show "tss_inv tss_start \<and> tss_ok_exit tss_start"
    using tss_inv_init by (simp add: tss_ok_exit_def tss_start_def)
qed (use tss_inv_step tss_left_step tss_progress_ok in blast)+


lemma done_said:
  assumes "tss_thread_ok s ok t" "tss_done (ts_pc s t)"
  shows "\<exists>a. ts_pc s t = TDone a
    \<and> said s t = (if ok t then [Address a (tss_arg t), Shown (tss_arg t), ThreadEnd, Destruktor a]
                   else [SetError, ThreadEnd])
    \<and> (ts_heap s a = None \<longleftrightarrow> ok t)"
  using assms by (cases "ts_pc s t") (auto simp: tss_thread_ok_def tss_done_def tss_freed_def)

text \<open>
  C22: Under every interleaving no string is used after its \<open>delete\<close> or deleted twice, and the
  program ends. When it ends with success, a thread whose value was stored has printed its own
  copy and its destructor has freed that copy, once, at the end; a thread whose value could
  not be stored has printed the error and nothing of its own. Memory is left allocated exactly
  when there is a thread of the second kind.
\<close>

theorem tss_copies_are_own:
  assumes "reach tss_start tss_step s"
  shows "\<not> ts_undefined s \<and> (\<exists>s'. reach s tss_step s' \<and> tss_ended s')
    \<and> (ts_main s = TExit 0 \<longrightarrow>
        (\<forall>t<3. (\<exists>a. said s t = [Address a (tss_arg t), Shown (tss_arg t), ThreadEnd, Destruktor a])
            \<or> said s t = [SetError, ThreadEnd])
        \<and> ((\<exists>a. ts_heap s a \<noteq> None) \<longleftrightarrow> (\<exists>t<3. said s t = [SetError, ThreadEnd])))"
proof (intro conjI impI)
  have inv: "tss_inv s" using assms by (rule tss_sys.reach_inv)
  then show "\<not> ts_undefined s" by (simp add: tss_inv_def)
  show "\<exists>s'. reach s tss_step s' \<and> tss_ended s'" using assms by (rule tss_sys.reaches_final)
  assume ex: "ts_main s = TExit 0"
  from inv obtain ok where ok: "\<forall>t<3. tss_thread_ok s ok t" and heap: "tss_heap_ok s"
    by (auto simp: tss_inv_def tss_N_def)
  from inv ex have d: "tss_done (ts_pc s t)" if "t < 3" for t
    using that by (simp add: tss_inv_def tss_main_ok_def tss_N_def)
  note ds = done_said [OF ok [rule_format] d]
  show "\<forall>t<3. (\<exists>a. said s t = [Address a (tss_arg t), Shown (tss_arg t), ThreadEnd, Destruktor a])
            \<or> said s t = [SetError, ThreadEnd]"
    using ds by metis
  show "(\<exists>a. ts_heap s a \<noteq> None) \<longleftrightarrow> (\<exists>t<3. said s t = [SetError, ThreadEnd])"
  proof
    assume "\<exists>a. ts_heap s a \<noteq> None"
    then obtain a where a: "ts_heap s a \<noteq> None" by blast
    with heap obtain t where "t < 3" "tss_addr (ts_pc s t) = Some a"
      unfolding tss_heap_ok_def tss_N_def by blast
    with a ds [of t] show "\<exists>t<3. said s t = [SetError, ThreadEnd]" by (intro exI [of _ t]) auto
  next
    assume "\<exists>t<3. said s t = [SetError, ThreadEnd]"
    then obtain t where "t < 3" "said s t = [SetError, ThreadEnd]" by blast
    with ds [of t] show "\<exists>a. ts_heap s a \<noteq> None" by (auto split: if_splits)
  qed
qed

text \<open>A run that ends with success.\<close>

theorem tss_copies_are_own_witness:
  "\<exists>s. reach tss_start tss_step s \<and> ts_main s = TExit 0 \<and> \<not> ts_undefined s \<and> said s 0 \<noteq> []"
proof -
  obtain s where s: "reach tss_start (\<lambda>s s'. tss_step s s' \<and> tss_ok_exit s') s" "tss_ended s"
    using tss_ok.reaches_final [OF reach_init] by blast
  with tss_ok.reach_inv [OF s(1)] have ex: "ts_main s = TExit 0" by (auto simp: tss_ended_def tss_ok_exit_def)
  from s(1) have r: "reach tss_start tss_step s" by (rule reach_mono) blast
  have "said s 0 \<noteq> []" "\<not> ts_undefined s" using tss_copies_are_own [OF r] ex by force+
  with r ex show ?thesis by blast
qed

end
