(* ===== verification/Sched_Attribs.thy ===== *)
theory Sched_Attribs
  imports Pthread C_Stdio
begin

text \<open>
  \<open>day2/04_attribs/sched.cpp\<close>: four threads of growing priority under \<open>SCHED_FIFO\<close>, each of
  which displays attributes and counts until \<open>main\<close> raises its flag. Every call that can fail
  may fail; the range of priorities and the sizes are those of the system, as arguments. The
  flag and the counter, shared without synchronisation, are read and written one at a time.
\<close>

section \<open>Attribute objects\<close>

definition PTHREAD_CREATE_JOINABLE :: int where "PTHREAD_CREATE_JOINABLE = 0"
definition PTHREAD_CREATE_DETACHED :: int where "PTHREAD_CREATE_DETACHED = 1"
definition PTHREAD_SCOPE_SYSTEM :: int where "PTHREAD_SCOPE_SYSTEM = 0"
definition PTHREAD_SCOPE_PROCESS :: int where "PTHREAD_SCOPE_PROCESS = 1"
definition SCHED_OTHER :: int where "SCHED_OTHER = 0"
definition SCHED_FIFO :: int where "SCHED_FIFO = 1"
definition SCHED_RR :: int where "SCHED_RR = 2"

record pthread_attr =
  pa_detachstate :: int
  pa_stacksize :: int
  pa_guardsize :: int
  pa_scope :: int
  pa_explicit :: bool
  pa_policy :: int
  pa_priority :: int

text \<open>What the system fixes: the sizes of a fresh attribute object and the range of priorities.\<close>

record sched_system =
  sys_stacksize :: int
  sys_stack_min :: int
  sys_guardsize :: int
  sys_pmin :: int
  sys_pmax :: int

definition pthread_attr_init :: "sched_system \<Rightarrow> pthread_attr" where
  "pthread_attr_init y =
     \<lparr>pa_detachstate = PTHREAD_CREATE_JOINABLE, pa_stacksize = sys_stacksize y,
      pa_guardsize = sys_guardsize y, pa_scope = PTHREAD_SCOPE_SYSTEM, pa_explicit = False,
      pa_policy = SCHED_OTHER, pa_priority = 0\<rparr>"

text \<open>The policy and the priority of a thread that is created with an attribute object.\<close>

definition created_with :: "pthread_attr \<Rightarrow> int \<times> int \<Rightarrow> int \<times> int" where
  "created_with attr creator = (if pa_explicit attr then (pa_policy attr, pa_priority attr) else creator)"

section \<open>display_attr\<close>

text \<open>The lines printed so far, and the message of the call that ended the process, if one did.\<close>

definition test_errno :: "int \<Rightarrow> string \<Rightarrow> string list \<times> string option \<Rightarrow> string list \<times> string option" where
  "test_errno err msg r = (if err \<noteq> 0 then ([], Some msg) else r)"

definition printf :: "string \<Rightarrow> string list \<times> string option \<Rightarrow> string list \<times> string option" where
  "printf line r = (line # fst r, snd r)"

definition detach_name :: "int \<Rightarrow> string" where
  "detach_name x =
     (if x = PTHREAD_CREATE_JOINABLE then ''joinable''
      else if x = PTHREAD_CREATE_DETACHED then ''detached'' else ''???'')"

definition policy_name :: "int \<Rightarrow> string" where
  "policy_name policy =
     (if policy = SCHED_OTHER then '' SCHED_OTHER'' else if policy = SCHED_RR then '' SCHED_RR''
      else if policy = SCHED_FIFO then '' SCHED_FIFO'' else '' ???'')"

definition scope_name :: "int \<Rightarrow> string" where
  "scope_name x =
     (if x = PTHREAD_SCOPE_PROCESS then ''proces''
      else if x = PTHREAD_SCOPE_SYSTEM then ''system'' else ''???'')"

text \<open>
  \<open>err i\<close> is the error number of the tested call \<open>i\<close>; \<open>self\<close> is what
  \<open>pthread_getschedparam\<close> tells of the calling thread.
\<close>

definition display_attr :: "sched_system \<Rightarrow> (nat \<Rightarrow> int) \<Rightarrow> int \<times> int \<Rightarrow> string list \<times> string option" where
  "display_attr y err self =
     (let attr = pthread_attr_init y in
      printf ''* detach state: '' (test_errno (err 0) ''pthread_attr_getdetachstate''
      (printf (detach_name (pa_detachstate attr)) (test_errno (err 1) ''pthread attr getstacksize''
      (printf (''* stack size: '' @ show_int (pa_stacksize attr) @ '' (min '' @ show_int (sys_stack_min y) @ '')'')
      (test_errno (err 2) ''pthread_attr_getguardsize''
      (printf (''* guard size: '' @ show_int (pa_guardsize attr))
      (test_errno (err 3) ''pthread_attr_getschedpolicy''
      (printf ''* policy: '' (printf (policy_name (fst self))
      (printf (''* priority: '' @ show_int (snd self)) (test_errno (err 4) ''pthread_attr_getscope''
      (printf ''* scope: '' (printf (scope_name (pa_scope attr)) ([], None)))))))))))))))"

section \<open>The program\<close>

definition sched_N :: nat where
  "sched_N = 4"

record sched_arg =
  arg_counter :: int
  arg_interrupt :: int
  arg_priority :: int

datatype sched_msg =
  PriorityRange int int
| ThreadLine nat int
| AttrLines tid "string list"
| CountLine tid int int
| ReportLine nat int int
| ErrorLine string

datatype sched_pc = DNew | DDisplay | DZero | DTest | DIncr | DPrint | DDone

datatype sched_main = SStart | SCreate nat | SSleep | SFlag nat | SReport nat | SJoin nat | SExit int

record sched_state =
  sd_main :: sched_main
  sd_attr :: pthread_attr
  sd_arg :: "nat \<Rightarrow> sched_arg"
  sd_pc :: "tid \<Rightarrow> sched_pc"
  sd_self :: "tid \<Rightarrow> int \<times> int"
  sd_undefined :: bool
  sd_out :: "sched_msg list"

definition sched_start :: "sched_system \<Rightarrow> (nat \<Rightarrow> sched_arg) \<Rightarrow> sched_state" where
  "sched_start y args =
     \<lparr>sd_main = SStart, sd_attr = pthread_attr_init y, sd_arg = args, sd_pc = (\<lambda>_. DNew),
      sd_self = (\<lambda>_. (SCHED_OTHER, 0)), sd_undefined = False, sd_out = []\<rparr>"

definition sched_print :: "sched_msg \<Rightarrow> sched_state \<Rightarrow> sched_state" where
  "sched_print m s = s\<lparr>sd_out := sd_out s @ [m]\<rparr>"

definition sched_fail :: "string \<Rightarrow> sched_state \<Rightarrow> sched_state" where
  "sched_fail msg s = s\<lparr>sd_main := SExit 1, sd_out := sd_out s @ [ErrorLine msg]\<rparr>"

definition sched_ended :: "sched_state \<Rightarrow> bool" where
  "sched_ended s \<longleftrightarrow> (\<exists>c. sd_main s = SExit c) \<or> sd_undefined s"

definition sched_at :: "tid \<Rightarrow> sched_pc \<Rightarrow> sched_state \<Rightarrow> sched_state" where
  "sched_at t pc s = s\<lparr>sd_pc := (sd_pc s)(t := pc)\<rparr>"

definition set_arg :: "nat \<Rightarrow> sched_arg \<Rightarrow> sched_state \<Rightarrow> sched_state" where
  "set_arg i a s = s\<lparr>sd_arg := (sd_arg s)(i := a)\<rparr>"

text \<open>A worker; the pair of \<open>main\<close>'s and its own accesses to \<open>arg\<close> is a step each.\<close>

definition worker_thread :: "sched_system \<Rightarrow> (nat \<Rightarrow> int) \<Rightarrow> tid \<Rightarrow> sched_state \<Rightarrow> sched_state option" where
  "worker_thread y err t s =
     (let a = sd_arg s t in
      case sd_pc s t of
        DNew \<Rightarrow> None
      | DDisplay \<Rightarrow>
          (case display_attr y err (sd_self s t) of
             (ls, None) \<Rightarrow> Some (sched_at t DZero (sched_print (AttrLines t ls) s))
           | (ls, Some msg) \<Rightarrow> Some (sched_fail msg (sched_print (AttrLines t ls) s)))
      | DZero \<Rightarrow> Some (sched_at t DTest (set_arg t (a\<lparr>arg_counter := 0\<rparr>) s))
      | DTest \<Rightarrow> Some (sched_at t (if arg_interrupt a = 0 then DIncr else DDone) s)
      | DIncr \<Rightarrow>
          if arg_counter a = INT_MAX then Some (s\<lparr>sd_undefined := True\<rparr>)
          else Some (sched_at t DPrint (set_arg t (a\<lparr>arg_counter := arg_counter a + 1\<rparr>) s))
      | DPrint \<Rightarrow> Some (sched_at t DTest (sched_print (CountLine t (arg_priority a) (arg_counter a)) s))
      | DDone \<Rightarrow> None)"

text \<open>The part of \<open>main\<close> that creates thread \<open>i\<close>; \<open>setschedparam\<close> refuses a priority out of range.\<close>

definition sched_create :: "sched_system \<Rightarrow> (nat \<Rightarrow> int) \<Rightarrow> nat \<Rightarrow> sched_state \<Rightarrow> sched_state" where
  "sched_create y err i s =
     (let prio = sys_pmin y + int i in
      if prio < sys_pmin y \<or> sys_pmax y < prio \<or> err 0 \<noteq> 0
      then sched_fail ''pthread_attr_setschedparam'' s
      else
        let attr = (sd_attr s)\<lparr>pa_priority := prio\<rparr>;
            s = set_arg i \<lparr>arg_counter = 0, arg_interrupt = 0, arg_priority = prio\<rparr> (s\<lparr>sd_attr := attr\<rparr>)
        in if err 1 \<noteq> 0 then sched_fail ''pthread_create'' s
           else sched_print (ThreadLine i prio)
             (s\<lparr>sd_main := SCreate (Suc i), sd_pc := (sd_pc s)(i := DDisplay),
                sd_self := (sd_self s)(i := created_with attr (SCHED_OTHER, 0))\<rparr>))"

definition sched_main_step :: "sched_system \<Rightarrow> (nat \<Rightarrow> int) \<Rightarrow> sched_state \<Rightarrow> sched_state option" where
  "sched_main_step y err s =
     (case sd_main s of
        SStart \<Rightarrow>
          let s = sched_print (PriorityRange (sys_pmin y) (sys_pmax y)) s
          in Some (if err 0 \<noteq> 0 then sched_fail ''pthread_attr_init'' s
                   else if err 1 \<noteq> 0 then sched_fail ''pthread_attr_setinheritsched'' s
                   else if err 2 \<noteq> 0 then sched_fail ''pthread_attr_setschedpolicy'' s
                   else s\<lparr>sd_main := SCreate 0,
                          sd_attr := (pthread_attr_init y)\<lparr>pa_explicit := True, pa_policy := SCHED_FIFO\<rparr>\<rparr>)
      | SCreate i \<Rightarrow>
          if i < sched_N then Some (sched_create y err i s)
          else Some (if err 0 \<noteq> 0 then sched_fail ''pthread_attr_destroy'' s else s\<lparr>sd_main := SSleep\<rparr>)
      | SSleep \<Rightarrow> Some (s\<lparr>sd_main := SFlag 0\<rparr>)
      | SFlag i \<Rightarrow>
          Some (if i < sched_N then set_arg i ((sd_arg s i)\<lparr>arg_interrupt := 1\<rparr>) (s\<lparr>sd_main := SReport i\<rparr>)
                else s\<lparr>sd_main := SJoin 0\<rparr>)
      | SReport i \<Rightarrow>
          Some (sched_print (ReportLine i (arg_priority (sd_arg s i)) (arg_counter (sd_arg s i)))
            (s\<lparr>sd_main := SFlag (Suc i)\<rparr>))
      | SJoin i \<Rightarrow>
          if i < sched_N then
            (if sd_pc s i = DDone
             then Some (if err 0 \<noteq> 0 then sched_fail ''pthread_join'' s else s\<lparr>sd_main := SJoin (Suc i)\<rparr>)
             else None)
          else Some (s\<lparr>sd_main := SExit 0\<rparr>)
      | SExit _ \<Rightarrow> None)"

inductive sched_step :: "sched_system \<Rightarrow> sched_state \<Rightarrow> sched_state \<Rightarrow> bool" for y where
  main: "\<not> sched_ended s \<Longrightarrow> sched_main_step y err s = Some s' \<Longrightarrow> sched_step y s s'"
| worker: "\<not> sched_ended s \<Longrightarrow> t < sched_N \<Longrightarrow> worker_thread y err t s = Some s' \<Longrightarrow> sched_step y s s'"

inductive_cases sched_stepE: "sched_step y s s'"

section \<open>What a worker has printed\<close>

definition counts :: "sched_state \<Rightarrow> tid \<Rightarrow> (int \<times> int) list" where
  "counts s t = concat (map (\<lambda>m. case m of CountLine u p c \<Rightarrow> if u = t then [(p, c)] else [] | _ \<Rightarrow> []) (sd_out s))"

definition reports :: "sched_state \<Rightarrow> tid \<Rightarrow> (int \<times> int) list" where
  "reports s t = concat (map (\<lambda>m. case m of ReportLine u p c \<Rightarrow> if u = t then [(p, c)] else [] | _ \<Rightarrow> []) (sd_out s))"

definition shown :: "sched_state \<Rightarrow> tid \<Rightarrow> string list list" where
  "shown s t = concat (map (\<lambda>m. case m of AttrLines u ls \<Rightarrow> if u = t then [ls] else [] | _ \<Rightarrow> []) (sd_out s))"

text \<open>The attributes a fresh object has, with the policy and the priority of thread \<open>t\<close>.\<close>

definition expected_lines :: "sched_system \<Rightarrow> tid \<Rightarrow> string list" where
  "expected_lines y t = fst (display_attr y (\<lambda>_. 0) (SCHED_FIFO, sys_pmin y + int t))"

definition counted :: "sched_system \<Rightarrow> tid \<Rightarrow> int \<Rightarrow> (int \<times> int) list" where
  "counted y t n = map (\<lambda>k. (sys_pmin y + int t, k)) [1..n]"

definition counting_ok :: "sched_system \<Rightarrow> sched_state \<Rightarrow> tid \<Rightarrow> bool" where
  "counting_ok y s t \<longleftrightarrow>
     (let n = arg_counter (sd_arg s t) in
      0 \<le> n \<and> (case sd_pc s t of
        DNew \<Rightarrow> counts s t = []
      | DDisplay \<Rightarrow> n = 0 \<and> counts s t = []
      | DZero \<Rightarrow> n = 0 \<and> counts s t = []
      | DPrint \<Rightarrow> 1 \<le> n \<and> counts s t = counted y t (n - 1)
      | _ \<Rightarrow> counts s t = counted y t n))"

definition sched_thread_ok :: "sched_system \<Rightarrow> sched_state \<Rightarrow> tid \<Rightarrow> bool" where
  "sched_thread_ok y s t \<longleftrightarrow>
     (if sd_pc s t = DNew then counts s t = [] else
        counting_ok y s t
        \<and> arg_priority (sd_arg s t) = sys_pmin y + int t \<and> sd_self s t = (SCHED_FIFO, sys_pmin y + int t)
        \<and> (sd_pc s t = DDone \<longrightarrow> arg_interrupt (sd_arg s t) \<noteq> 0))
     \<and> shown s t = (if sd_pc s t \<in> {DNew, DDisplay} then [] else [expected_lines y t])"

text \<open>How far \<open>main\<close> has come with the flag of thread \<open>t\<close>.\<close>

definition flagged :: "sched_main \<Rightarrow> tid \<Rightarrow> bool" where
  "flagged m t \<longleftrightarrow> (case m of SFlag k \<Rightarrow> t < k | SReport k \<Rightarrow> t \<le> k | SJoin k \<Rightarrow> True | SExit c \<Rightarrow> True | _ \<Rightarrow> False)"

definition reported :: "sched_main \<Rightarrow> tid \<Rightarrow> bool" where
  "reported m t \<longleftrightarrow> (case m of SFlag k \<Rightarrow> t < k | SReport k \<Rightarrow> t < k | SJoin k \<Rightarrow> True | SExit c \<Rightarrow> True | _ \<Rightarrow> False)"

definition created :: "sched_main \<Rightarrow> tid \<Rightarrow> bool" where
  "created m t \<longleftrightarrow> (case m of SStart \<Rightarrow> False | SCreate k \<Rightarrow> t < k | _ \<Rightarrow> True)"

definition is_joined :: "sched_main \<Rightarrow> tid \<Rightarrow> bool" where
  "is_joined m t \<longleftrightarrow> (case m of SJoin k \<Rightarrow> t < k | SExit c \<Rightarrow> True | _ \<Rightarrow> False)"

definition sched_main_thread :: "sched_system \<Rightarrow> sched_state \<Rightarrow> tid \<Rightarrow> bool" where
  "sched_main_thread y s t \<longleftrightarrow>
     (sd_pc s t \<noteq> DNew \<longleftrightarrow> created (sd_main s) t)
     \<and> (created (sd_main s) t \<longrightarrow> arg_interrupt (sd_arg s t) = (if flagged (sd_main s) t then 1 else 0))
     \<and> (is_joined (sd_main s) t \<longrightarrow> sd_pc s t = DDone)
     \<and> (if reported (sd_main s) t
        then \<exists>c. reports s t = [(sys_pmin y + int t, c)] \<and> 0 \<le> c \<and> c \<le> arg_counter (sd_arg s t)
        else reports s t = [])"

definition sched_main_ok :: "sched_state \<Rightarrow> bool" where
  "sched_main_ok s \<longleftrightarrow>
     (case sd_main s of
        SCreate k \<Rightarrow> k \<le> sched_N \<and> pa_explicit (sd_attr s) \<and> pa_policy (sd_attr s) = SCHED_FIFO
      | SFlag k \<Rightarrow> k \<le> sched_N
      | SReport k \<Rightarrow> k < sched_N
      | SJoin k \<Rightarrow> k \<le> sched_N
      | _ \<Rightarrow> True)"

definition sched_failed :: "sched_state \<Rightarrow> bool" where
  "sched_failed s \<longleftrightarrow> (\<exists>c. sd_main s = SExit c \<and> c \<noteq> 0)"

definition sched_inv :: "sched_system \<Rightarrow> sched_state \<Rightarrow> bool" where
  "sched_inv y s \<longleftrightarrow> sched_failed s
     \<or> sched_main_ok s \<and> (\<forall>t < sched_N. sched_thread_ok y s t \<and> sched_main_thread y s t)"

lemma display_attr_ok:
  "display_attr y err self = (ls, None) \<Longrightarrow> ls = fst (display_attr y (\<lambda>_. 0) self)"
  by (auto simp: display_attr_def test_errno_def printf_def Let_def split: if_splits)

lemma sched_simps [simp]:
  "sd_main (sched_print m s) = sd_main s" "sd_pc (sched_print m s) = sd_pc s"
  "sd_arg (sched_print m s) = sd_arg s" "sd_self (sched_print m s) = sd_self s"
  "sd_attr (sched_print m s) = sd_attr s" "sd_undefined (sched_print m s) = sd_undefined s"
  "sd_out (sched_print m s) = sd_out s @ [m]"
  "sd_main (sched_at t pc s) = sd_main s" "sd_pc (sched_at t pc s) = (sd_pc s)(t := pc)"
  "sd_arg (sched_at t pc s) = sd_arg s" "sd_self (sched_at t pc s) = sd_self s"
  "sd_attr (sched_at t pc s) = sd_attr s" "sd_out (sched_at t pc s) = sd_out s"
  "sd_main (set_arg t a s) = sd_main s" "sd_pc (set_arg t a s) = sd_pc s"
  "sd_arg (set_arg t a s) = (sd_arg s)(t := a)" "sd_self (set_arg t a s) = sd_self s"
  "sd_attr (set_arg t a s) = sd_attr s" "sd_out (set_arg t a s) = sd_out s"
  by (simp_all add: sched_print_def sched_at_def set_arg_def)

lemma failed_fail [simp]: "sched_failed (sched_fail msg s)"
  by (simp add: sched_failed_def sched_fail_def)

lemma printed_simps [simp]:
  "counts (sched_print m s) t = counts s t @ (case m of CountLine u p c \<Rightarrow> if u = t then [(p, c)] else [] | _ \<Rightarrow> [])"
  "reports (sched_print m s) t = reports s t @ (case m of ReportLine u p c \<Rightarrow> if u = t then [(p, c)] else [] | _ \<Rightarrow> [])"
  "shown (sched_print m s) t = shown s t @ (case m of AttrLines u ls \<Rightarrow> if u = t then [ls] else [] | _ \<Rightarrow> [])"
  by (simp_all add: counts_def reports_def shown_def)

lemma printed_same [simp]:
  "counts (sched_at u pc s) t = counts s t" "reports (sched_at u pc s) t = reports s t"
  "shown (sched_at u pc s) t = shown s t"
  "counts (set_arg u a s) t = counts s t" "reports (set_arg u a s) t = reports s t"
  "shown (set_arg u a s) t = shown s t"
  "counts (s\<lparr>sd_main := m\<rparr>) t = counts s t" "reports (s\<lparr>sd_main := m\<rparr>) t = reports s t"
  "shown (s\<lparr>sd_main := m\<rparr>) t = shown s t"
  "counts (s\<lparr>sd_attr := at\<rparr>) t = counts s t" "reports (s\<lparr>sd_attr := at\<rparr>) t = reports s t"
  "shown (s\<lparr>sd_attr := at\<rparr>) t = shown s t"
  "counts (s\<lparr>sd_undefined := un\<rparr>) t = counts s t" "reports (s\<lparr>sd_undefined := un\<rparr>) t = reports s t"
  "shown (s\<lparr>sd_undefined := un\<rparr>) t = shown s t"
  "counts (s\<lparr>sd_pc := pcs\<rparr>) t = counts s t" "reports (s\<lparr>sd_pc := pcs\<rparr>) t = reports s t"
  "shown (s\<lparr>sd_pc := pcs\<rparr>) t = shown s t"
  "counts (s\<lparr>sd_self := ss\<rparr>) t = counts s t" "reports (s\<lparr>sd_self := ss\<rparr>) t = reports s t"
  "shown (s\<lparr>sd_self := ss\<rparr>) t = shown s t"
  by (simp_all add: counts_def reports_def shown_def sched_at_def set_arg_def)

lemma counted_more: "1 \<le> n \<Longrightarrow> counted y t (n - 1) @ [(sys_pmin y + int t, n)] = counted y t n"
proof -
  assume "1 \<le> n"
  then have "[1..n] = [1..n - 1] @ [n]" by (simp add: upto_rec2)
  then show ?thesis by (simp add: counted_def)
qed


section \<open>The steps of a worker\<close>

lemma worker_thread_cases:
  assumes "worker_thread y err t s = Some s'"
  obtains (fails) "sched_failed s'"
    | (display) "sd_pc s t = DDisplay"
      "s' = sched_at t DZero (sched_print (AttrLines t (fst (display_attr y (\<lambda>_. 0) (sd_self s t)))) s)"
    | (zero) "sd_pc s t = DZero" "s' = sched_at t DTest (set_arg t ((sd_arg s t)\<lparr>arg_counter := 0\<rparr>) s)"
    | (goes) "sd_pc s t = DTest" "arg_interrupt (sd_arg s t) = 0" "s' = sched_at t DIncr s"
    | (stops) "sd_pc s t = DTest" "arg_interrupt (sd_arg s t) \<noteq> 0" "s' = sched_at t DDone s"
    | (overflow) "sd_pc s t = DIncr" "s' = s\<lparr>sd_undefined := True\<rparr>"
    | (incr) "sd_pc s t = DIncr" "arg_counter (sd_arg s t) \<noteq> INT_MAX"
      "s' = sched_at t DPrint (set_arg t ((sd_arg s t)\<lparr>arg_counter := arg_counter (sd_arg s t) + 1\<rparr>) s)"
    | (prints) "sd_pc s t = DPrint"
      "s' = sched_at t DTest (sched_print (CountLine t (arg_priority (sd_arg s t)) (arg_counter (sd_arg s t))) s)"
proof (cases "sd_pc s t")
  case DDisplay
  obtain ls r where d: "display_attr y err (sd_self s t) = (ls, r)" by (cases "display_attr y err (sd_self s t)")
  show ?thesis
  proof (cases r)
    case None
    with assms DDisplay d show ?thesis
      using display_attr_ok [of y err "sd_self s t" ls] by (intro that(2)) (auto simp: worker_thread_def)
  next
    case (Some msg)
    with assms DDisplay d show ?thesis by (intro that(1)) (auto simp: worker_thread_def)
  qed
next
  case DTest
  with assms that(4,5) show ?thesis by (cases "arg_interrupt (sd_arg s t) = 0") (simp_all add: worker_thread_def)
next
  case DIncr
  with assms that(6,7) show ?thesis by (cases "arg_counter (sd_arg s t) = INT_MAX") (simp_all add: worker_thread_def Let_def)
next
  case DZero
  with assms that(3) show ?thesis by (simp add: worker_thread_def Let_def)
next
  case DPrint
  with assms that(8) show ?thesis by (simp add: worker_thread_def Let_def)
qed (use assms in \<open>simp_all add: worker_thread_def\<close>)

lemma worker_thread_ok:
  assumes "worker_thread y err t s = Some s'" "sched_thread_ok y s t" "\<not> sched_failed s'"
  shows "sched_thread_ok y s' t"
  using assms(1)
proof (cases rule: worker_thread_cases)
  case fails
  with assms(3) show ?thesis by blast
next
  case zero
  with assms(2) show ?thesis by (simp add: sched_thread_ok_def counting_ok_def counted_def Let_def)
qed (use assms(2) in \<open>simp_all add: sched_thread_ok_def counting_ok_def counted_more expected_lines_def Let_def\<close>)

text \<open>What a step of thread \<open>t\<close> leaves as it is.\<close>

lemma worker_frame:
  assumes "worker_thread y err t s = Some s'" "\<not> sched_failed s'"
  shows "sd_main s' = sd_main s" "sd_attr s' = sd_attr s" "reports s' u = reports s u"
    "sd_pc s t \<noteq> DNew" "sd_pc s t \<noteq> DDone" "sd_pc s' t \<noteq> DNew"
    "arg_interrupt (sd_arg s' u) = arg_interrupt (sd_arg s u)"
    "u \<noteq> t \<Longrightarrow> sd_pc s' u = sd_pc s u \<and> sd_arg s' u = sd_arg s u \<and> sd_self s' u = sd_self s u
       \<and> counts s' u = counts s u \<and> shown s' u = shown s u"
    "sched_thread_ok y s t \<Longrightarrow> arg_counter (sd_arg s u) \<le> arg_counter (sd_arg s' u)"
  using assms(1)
  by (cases rule: worker_thread_cases; use assms(2) in
      \<open>auto simp: counts_def reports_def shown_def sched_thread_ok_def counting_ok_def Let_def\<close>)+


lemma sched_thread_ok_cong:
  assumes "sd_pc s' u = sd_pc s u" "sd_arg s' u = sd_arg s u" "sd_self s' u = sd_self s u"
    "counts s' u = counts s u" "shown s' u = shown s u"
  shows "sched_thread_ok y s' u = sched_thread_ok y s u"
  unfolding sched_thread_ok_def counting_ok_def assms ..

lemma worker_inv:
  assumes "sched_inv y s" "\<not> sched_ended s" "t < sched_N" "worker_thread y err t s = Some s'"
  shows "sched_inv y s'"
proof (cases "sched_failed s'")
  case False
  note f = worker_frame [OF assms(4) False]
  from assms(1,2) have main: "sched_main_ok s"
    and ok: "\<And>u. u < sched_N \<Longrightarrow> sched_thread_ok y s u \<and> sched_main_thread y s u"
    by (auto simp: sched_inv_def sched_failed_def sched_ended_def)
  have mt: "sched_main_thread y s' u" if "u < sched_N" for u
  proof (cases "u = t")
    case True
    with ok [OF that] f(4-6) have "\<not> is_joined (sd_main s) u" "created (sd_main s) u" "sd_pc s' u \<noteq> DNew"
      by (auto simp: sched_main_thread_def)
    with ok [OF that] f(1,3,7) f(9) [of u] True show ?thesis by (fastforce simp: sched_main_thread_def)
  next
    case False
    with ok [OF that] f(1,3) f(8) [of u] show ?thesis by (simp add: sched_main_thread_def)
  qed
  have "sched_thread_ok y s' u" if "u < sched_N" for u
  proof (cases "u = t")
    case True
    with worker_thread_ok [OF assms(4) _ False] ok [OF that] show ?thesis by simp
  next
    case False
    with ok [OF that] f(8) [of u] show ?thesis using sched_thread_ok_cong [of s' u s y] by simp
  qed
  moreover have "sched_main_ok s' = sched_main_ok s" unfolding sched_main_ok_def f(1,2) ..
  ultimately show ?thesis using mt main by (simp add: sched_inv_def)
qed (simp add: sched_inv_def)

section \<open>The steps of main\<close>

lemma main_cases:
  assumes "sched_main_step y err s = Some s'"
  obtains (fails) "sched_failed s'"
    | (init) "sd_main s = SStart"
      "s' = (sched_print (PriorityRange (sys_pmin y) (sys_pmax y)) s)\<lparr>sd_main := SCreate 0,
              sd_attr := (pthread_attr_init y)\<lparr>pa_explicit := True, pa_policy := SCHED_FIFO\<rparr>\<rparr>"
    | (create) i prio attr where "sd_main s = SCreate i" "i < sched_N" "prio = sys_pmin y + int i" "prio \<le> sys_pmax y"
      "attr = (sd_attr s)\<lparr>pa_priority := prio\<rparr>"
      "s' = sched_print (ThreadLine i prio)
             ((set_arg i \<lparr>arg_counter = 0, arg_interrupt = 0, arg_priority = prio\<rparr> (s\<lparr>sd_attr := attr\<rparr>))
              \<lparr>sd_main := SCreate (Suc i), sd_pc := (sd_pc s)(i := DDisplay),
               sd_self := (sd_self s)(i := created_with attr (SCHED_OTHER, 0))\<rparr>)"
    | (all_created) i where "sd_main s = SCreate i" "\<not> i < sched_N" "s' = s\<lparr>sd_main := SSleep\<rparr>"
    | (slept) "sd_main s = SSleep" "s' = s\<lparr>sd_main := SFlag 0\<rparr>"
    | (flag) i where "sd_main s = SFlag i" "i < sched_N"
      "s' = set_arg i ((sd_arg s i)\<lparr>arg_interrupt := 1\<rparr>) (s\<lparr>sd_main := SReport i\<rparr>)"
    | (all_flagged) i where "sd_main s = SFlag i" "\<not> i < sched_N" "s' = s\<lparr>sd_main := SJoin 0\<rparr>"
    | (report) i where "sd_main s = SReport i"
      "s' = sched_print (ReportLine i (arg_priority (sd_arg s i)) (arg_counter (sd_arg s i)))
            (s\<lparr>sd_main := SFlag (Suc i)\<rparr>)"
    | (join) i where "sd_main s = SJoin i" "i < sched_N" "sd_pc s i = DDone" "s' = s\<lparr>sd_main := SJoin (Suc i)\<rparr>"
    | (all_joined) i where "sd_main s = SJoin i" "\<not> i < sched_N" "s' = s\<lparr>sd_main := SExit 0\<rparr>"
proof (cases "sd_main s")
  case SStart
  with assms that(1,2) show ?thesis by (auto simp: sched_main_step_def Let_def split: if_splits)
next
  case (SCreate i)
  with assms that(1,3,4) show ?thesis
    by (auto simp: sched_main_step_def sched_create_def Let_def split: if_splits)
next
  case SSleep
  with assms that(5) show ?thesis by (simp add: sched_main_step_def)
next
  case (SFlag i)
  with assms that(6,7) show ?thesis by (auto simp: sched_main_step_def split: if_splits)
next
  case (SReport i)
  with assms that(8) show ?thesis by (simp add: sched_main_step_def)
next
  case (SJoin i)
  with assms that(1,9,10) show ?thesis by (auto simp: sched_main_step_def split: if_splits)
qed (use assms in \<open>simp add: sched_main_step_def\<close>)


lemma main_inv:
  assumes "sched_inv y s" "\<not> sched_ended s" "sched_main_step y err s = Some s'"
  shows "sched_inv y s'"
proof (cases "sched_failed s'")
  case False
  from assms(1,2) have main: "sched_main_ok s"
    and ok: "\<And>u. u < sched_N \<Longrightarrow> sched_thread_ok y s u \<and> sched_main_thread y s u"
    by (auto simp: sched_inv_def sched_failed_def sched_ended_def)
  note defs = sched_main_thread_def created_def flagged_def is_joined_def reported_def
  have th: "sched_thread_ok y s' u \<and> sched_main_thread y s' u" if "u < sched_N" for u
    using assms(3)
  proof (cases rule: main_cases)
    case fails
    with False show ?thesis by blast
  next
    case init
    then have "sched_thread_ok y s' u = sched_thread_ok y s u" by (intro sched_thread_ok_cong) simp_all
    with init ok [OF that] show ?thesis by (simp add: defs)
  next
    case (create i prio attr)
    from main create(1) have attr: "created_with attr (SCHED_OTHER, 0) = (SCHED_FIFO, prio)"
      by (simp add: sched_main_ok_def created_with_def create(5))
    show ?thesis
    proof (cases "u = i")
      case True
      with ok [OF that] create attr show ?thesis
        by (simp add: defs sched_thread_ok_def counting_ok_def)
    next
      case F: False
      with create(6) have "sched_thread_ok y s' u = sched_thread_ok y s u"
        by (intro sched_thread_ok_cong) simp_all
      with F ok [OF that] create show ?thesis by (auto simp: defs)
    qed
  next
    case (flag i)
    then have "sched_thread_ok y s' u"
      using ok [OF that] by (cases "sd_pc s u") (auto simp: sched_thread_ok_def counting_ok_def Let_def)
    with flag ok [OF that] show ?thesis by (auto simp: defs)
  next
    case (report i)
    then have "sched_thread_ok y s' u = sched_thread_ok y s u" by (intro sched_thread_ok_cong) simp_all
    with report ok [OF that] show ?thesis
      by (auto simp: defs sched_thread_ok_def counting_ok_def Let_def)
  next
    case (join i)
    then have "sched_thread_ok y s' u = sched_thread_ok y s u" by (intro sched_thread_ok_cong) simp_all
    with join ok [OF that] show ?thesis by (auto simp: defs less_Suc_eq)
  next
    case (all_created i)
    then have "sched_thread_ok y s' u = sched_thread_ok y s u" by (intro sched_thread_ok_cong) simp_all
    with all_created ok [OF that] main that show ?thesis by (simp add: defs sched_main_ok_def)
  next
    case slept
    then have "sched_thread_ok y s' u = sched_thread_ok y s u" by (intro sched_thread_ok_cong) simp_all
    with slept ok [OF that] show ?thesis by (simp add: defs)
  next
    case (all_flagged i)
    then have "sched_thread_ok y s' u = sched_thread_ok y s u" by (intro sched_thread_ok_cong) simp_all
    with all_flagged ok [OF that] main that show ?thesis by (simp add: defs sched_main_ok_def)
  next
    case (all_joined i)
    then have "sched_thread_ok y s' u = sched_thread_ok y s u" by (intro sched_thread_ok_cong) simp_all
    with all_joined ok [OF that] main that show ?thesis by (simp add: defs sched_main_ok_def)
  qed
  have "sched_main_ok s'"
    using assms(3) by (cases rule: main_cases) (use False main in \<open>auto simp: sched_main_ok_def\<close>)
  with th show ?thesis by (simp add: sched_inv_def)
qed (simp add: sched_inv_def)


lemma sched_inv_start: "sched_inv y (sched_start y args)"
  by (simp add: sched_inv_def sched_start_def sched_main_ok_def sched_thread_ok_def sched_main_thread_def
      created_def is_joined_def reported_def counts_def shown_def reports_def)

lemma sched_inv_step: "sched_inv y s \<Longrightarrow> sched_step y s s' \<Longrightarrow> sched_inv y s'"
  by (elim sched_stepE) (blast intro: main_inv worker_inv)+

section \<open>Once the flags are up\<close>

definition all_flags_up :: "sched_state \<Rightarrow> bool" where
  "all_flags_up s \<longleftrightarrow> sched_ended s \<or> (\<exists>k. sd_main s = SJoin k)"

primrec steps_to_stop :: "sched_pc \<Rightarrow> nat" where
  "steps_to_stop DNew = 3"
| "steps_to_stop DDisplay = 3"
| "steps_to_stop DZero = 2"
| "steps_to_stop DTest = 1"
| "steps_to_stop DIncr = 3"
| "steps_to_stop DPrint = 2"
| "steps_to_stop DDone = 0"

definition joins_left :: "sched_main \<Rightarrow> nat" where
  "joins_left m = (case m of SJoin k \<Rightarrow> sched_N - k | _ \<Rightarrow> 0)"

definition sched_left :: "sched_state \<Rightarrow> nat" where
  "sched_left s =
     (if sched_ended s then 0
      else Suc (joins_left (sd_main s) + thread_sum sched_N steps_to_stop (sd_pc s)))"

lemma worker_stops:
  assumes "worker_thread y err t s = Some s'" "\<not> sched_failed s'" "\<not> sd_undefined s'"
    and "arg_interrupt (sd_arg s t) \<noteq> 0"
  shows "\<exists>pc. sd_pc s' = (sd_pc s)(t := pc) \<and> steps_to_stop pc < steps_to_stop (sd_pc s t)"
  using assms(1) by (cases rule: worker_thread_cases) (use assms(2-4) in \<open>force+\<close>)

lemma flags_up_step:
  assumes "sched_inv y s" "all_flags_up s" "sched_step y s s'"
  shows "all_flags_up s' \<and> sched_left s' < sched_left s"
proof -
  from assms(3) have ne: "\<not> sched_ended s" by (auto elim: sched_stepE)
  with assms(2) obtain k where k: "sd_main s = SJoin k" by (auto simp: all_flags_up_def)
  show ?thesis
  proof (cases "sched_ended s'")
    case True
    with ne show ?thesis by (simp add: all_flags_up_def sched_left_def)
  next
    case False
    then have nf: "\<not> sched_failed s'" "\<not> sd_undefined s'" by (auto simp: sched_ended_def sched_failed_def)
    from assms(3) show ?thesis
    proof (rule sched_stepE)
      fix err assume "sched_main_step y err s = Some s'"
      then show ?thesis
        by (cases rule: main_cases)
          (use k nf ne False in \<open>auto simp: all_flags_up_def sched_left_def joins_left_def sched_ended_def\<close>)
    next
      fix t err
      assume t: "t < sched_N" "worker_thread y err t s = Some s'"
      from worker_frame(1) [OF t(2) nf(1)] k have m: "sd_main s' = SJoin k" by simp
      from assms(1) k t(1) ne have "arg_interrupt (sd_arg s t) \<noteq> 0"
        by (auto simp: sched_inv_def sched_failed_def sched_main_thread_def created_def flagged_def)
      from worker_stops [OF t(2) nf this] obtain pc
        where "sd_pc s' = (sd_pc s)(t := pc)" "steps_to_stop pc < steps_to_stop (sd_pc s t)" by blast
      with thread_sum_upd [OF t(1), of steps_to_stop "sd_pc s" pc] m k ne False show ?thesis
        by (simp add: all_flags_up_def sched_left_def)
    qed
  qed
qed

lemma worker_goes: "sd_pc s t \<notin> {DNew, DDone} \<Longrightarrow> \<exists>s'. worker_thread y err t s = Some s'"
  by (cases "sd_pc s t") (auto simp: worker_thread_def Let_def split: prod.split option.split)

lemma flags_up_progress:
  assumes "sched_inv y s" "all_flags_up s" "\<not> sched_ended s"
  shows "\<exists>s'. sched_step y s s'"
proof -
  from assms(2,3) obtain k where k: "sd_main s = SJoin k" by (auto simp: all_flags_up_def)
  show ?thesis
  proof (cases "k < sched_N \<and> sd_pc s k \<noteq> DDone")
    case True
    with assms(1,3) k have "sd_pc s k \<noteq> DNew"
      by (auto simp: sched_inv_def sched_failed_def sched_main_thread_def created_def sched_ended_def)
    with True worker_goes [of s k y] assms(3) show ?thesis by (blast intro: sched_step.worker)
  next
    case False
    with k have "\<exists>s'. sched_main_step y (\<lambda>_. 0) s = Some s'" by (auto simp: sched_main_step_def)
    with assms(3) show ?thesis by (blast intro: sched_step.main)
  qed
qed

interpretation sched_sys: ending_phase "sched_start y args" "sched_step y" "sched_inv y"
    all_flags_up sched_left sched_ended
  for y args
proof unfold_locales
  show "sched_inv y (sched_start y args)" by (rule sched_inv_start)
next
  fix s t assume "sched_inv y s" "sched_step y s t"
  then show "sched_inv y t" by (rule sched_inv_step)
next
  fix s t assume "sched_inv y s" "all_flags_up s" "sched_step y s t"
  then show "all_flags_up t \<and> sched_left t < sched_left s" by (rule flags_up_step)
next
  fix s assume "sched_inv y s" "all_flags_up s" "\<not> sched_ended s"
  then show "\<exists>t. sched_step y s t" by (rule flags_up_progress)
qed

text \<open>The actions of a schedule: \<open>None\<close> is \<open>main\<close>, \<open>Some t\<close> a worker; no call fails.\<close>

definition sched_act :: "sched_system \<Rightarrow> tid option \<Rightarrow> sched_state \<Rightarrow> sched_state option" where
  "sched_act y l s =
     (if sched_ended s then None
      else case l of
          None \<Rightarrow> sched_main_step y (\<lambda>_. 0) s
        | Some t \<Rightarrow> if t < sched_N then worker_thread y (\<lambda>_. 0) t s else None)"

lemma sched_act_step: "sched_act y l s = Some s' \<Longrightarrow> sched_step y s s'"
  by (cases l) (auto simp: sched_act_def intro: sched_step.intros split: if_splits)

lemma steps_to_stop_le: "steps_to_stop pc \<le> 3"
  by (cases pc) simp_all

lemma left_bound: "sd_main s = SJoin k \<Longrightarrow> sched_left s \<le> 17"
proof -
  assume k: "sd_main s = SJoin k"
  have "thread_sum sched_N steps_to_stop (sd_pc s) \<le> sched_N * 3"
    by (rule thread_sum_le) (simp add: steps_to_stop_le)
  with k show ?thesis by (simp add: sched_left_def joins_left_def sched_N_def) linarith
qed


lemma counts_numbered:
  assumes "sched_inv y s" "\<not> sched_failed s" "t < sched_N"
  shows "counts s t = counted y t (int (length (counts s t)))"
    and "sd_main s = SExit 0 \<Longrightarrow> shown s t = [expected_lines y t]
      \<and> (\<exists>c. reports s t = [(sys_pmin y + int t, c)] \<and> 0 \<le> c \<and> c \<le> int (length (counts s t)))"
proof -
  from assms have th: "sched_thread_ok y s t" "sched_main_thread y s t" by (auto simp: sched_inv_def)
  then show "counts s t = counted y t (int (length (counts s t)))"
    by (cases "sd_pc s t") (auto simp: sched_thread_ok_def counting_ok_def counted_def Let_def)
  assume "sd_main s = SExit 0"
  with th show "shown s t = [expected_lines y t]
      \<and> (\<exists>c. reports s t = [(sys_pmin y + int t, c)] \<and> 0 \<le> c \<and> c \<le> int (length (counts s t)))"
    by (auto simp: sched_thread_ok_def sched_main_thread_def counting_ok_def counted_def Let_def
        is_joined_def reported_def)
qed

text \<open>
  C25: Unless a call failed, each worker's lines carry its own priority, the least one plus its
  number, and the counts 1, 2, 3 without a gap, whatever the interleaving with the others and
  with \<open>main\<close>. Once all the flags are up the program ends within 17 steps (or overflows a
  counter). When it ends with success each worker has displayed, once, the attributes of a
  fresh object with its own policy and priority, and \<open>main\<close> has reported, once, a count the
  worker had reached.
\<close>

theorem sched_workers_count:
  assumes "reach (sched_start y args) (sched_step y) s" and "\<not> sched_failed s"
  shows "(\<forall>t < 4. counts s t = map (\<lambda>k. (sys_pmin y + int t, k)) [1..int (length (counts s t))])
    \<and> (\<forall>k. sd_main s = SJoin k \<longrightarrow>
         (\<exists>s'. reach s (sched_step y) s' \<and> sched_ended s')
         \<and> (\<forall>n s'. (sched_step y ^^ n) s s' \<longrightarrow> n \<le> 17))
    \<and> (sd_main s = SExit 0 \<longrightarrow>
         (\<forall>t < 4. shown s t = [fst (display_attr y (\<lambda>_. 0) (SCHED_FIFO, sys_pmin y + int t))]
            \<and> (\<exists>c. reports s t = [(sys_pmin y + int t, c)] \<and> 0 \<le> c \<and> c \<le> int (length (counts s t)))))"
proof (intro conjI)
  have inv: "sched_inv y s" using assms(1) by (rule sched_sys.reach_inv)
  note cn = counts_numbered [OF inv assms(2), unfolded sched_N_def]
  show "\<forall>t < 4. counts s t = map (\<lambda>k. (sys_pmin y + int t, k)) [1..int (length (counts s t))]"
    using cn(1) by (simp add: counted_def)
  show "\<forall>k. sd_main s = SJoin k \<longrightarrow>
         (\<exists>s'. reach s (sched_step y) s' \<and> sched_ended s')
         \<and> (\<forall>n s'. (sched_step y ^^ n) s s' \<longrightarrow> n \<le> 17)"
  proof (intro allI impI conjI)
    fix k assume k: "sd_main s = SJoin k"
    then have up: "all_flags_up s" by (simp add: all_flags_up_def)
    show "\<exists>s'. reach s (sched_step y) s' \<and> sched_ended s'"
      using sched_sys.phase_reaches_final [OF assms(1) up] .
    fix n s' assume "(sched_step y ^^ n) s s'"
    from sched_sys.phase_run_bounded [OF assms(1) up this] left_bound [OF k] show "n \<le> 17" by simp
  qed
  show "sd_main s = SExit 0 \<longrightarrow>
         (\<forall>t < 4. shown s t = [fst (display_attr y (\<lambda>_. 0) (SCHED_FIFO, sys_pmin y + int t))]
            \<and> (\<exists>c. reports s t = [(sys_pmin y + int t, c)] \<and> 0 \<le> c \<and> c \<le> int (length (counts s t))))"
    using cn(2) by (simp add: expected_lines_def)
qed

lemma sched_ended_code [code]:
  "sched_ended s \<longleftrightarrow> (case sd_main s of SExit c \<Rightarrow> True | _ \<Rightarrow> sd_undefined s)"
  by (simp add: sched_ended_def split: sched_main.split)

definition sched_machine :: sched_system where
  "sched_machine = \<lparr>sys_stacksize = 8, sys_stack_min = 4, sys_guardsize = 1, sys_pmin = 1, sys_pmax = 99\<rparr>"

definition sched_schedule :: "tid option list" where
  "sched_schedule = replicate 6 None @ [Some 0, Some 0, Some 0, Some 0, Some 0]
     @ replicate 10 None @ [Some 0]
     @ concat (map (\<lambda>t. [Some t, Some t, Some t]) [1, 2, 3]) @ replicate 5 None"

lemma sched_schedule_ends:
  "case follow (sched_act sched_machine) sched_schedule
      (sched_start sched_machine (\<lambda>_. \<lparr>arg_counter = 7, arg_interrupt = 7, arg_priority = 7\<rparr>)) of
     None \<Rightarrow> False
   | Some s \<Rightarrow> sd_main s = SExit 0 \<and> counts s 0 = [(1, 1)]"
  by code_simp


text \<open>Worker 0 counts once before its flag is raised; all four end and are is_joined.\<close>

theorem sched_workers_count_witness:
  "\<exists>s args. reach (sched_start sched_machine args) (sched_step sched_machine) s \<and> sd_main s = SExit 0
     \<and> counts s 0 = [(1, 1)]
     \<and> shown s 3 = [fst (display_attr sched_machine (\<lambda>_. 0) (SCHED_FIFO, 4))]
     \<and> (\<exists>c \<in> {0, 1}. reports s 0 = [(1, c)])"
proof -
  let ?args = "\<lambda>_. \<lparr>arg_counter = 7, arg_interrupt = 7, arg_priority = 7\<rparr>"
  from sched_schedule_ends obtain s
    where run: "follow (sched_act sched_machine) sched_schedule (sched_start sched_machine ?args) = Some s"
      and ex: "sd_main s = SExit 0" "counts s 0 = [(1, 1)]"
    by (cases "follow (sched_act sched_machine) sched_schedule (sched_start sched_machine ?args)") auto
  from run have r: "reach (sched_start sched_machine ?args) (sched_step sched_machine) s"
    by (rule follow_reach) (rule sched_act_step)
  have nf: "\<not> sched_failed s" using ex(1) by (simp add: sched_failed_def)
  from sched_workers_count [OF r nf] ex(1)
  have all: "\<forall>t < 4. shown s t = [fst (display_attr sched_machine (\<lambda>_. 0) (SCHED_FIFO, sys_pmin sched_machine + int t))]
            \<and> (\<exists>c. reports s t = [(sys_pmin sched_machine + int t, c)] \<and> 0 \<le> c \<and> c \<le> int (length (counts s t)))"
    by blast
  have "sys_pmin sched_machine = 1" by (simp add: sched_machine_def)
  with all [rule_format, of 3]
  have "shown s 3 = [fst (display_attr sched_machine (\<lambda>_. 0) (SCHED_FIFO, 4))]" by simp
  moreover from all [rule_format, of 0] ex(2) \<open>sys_pmin sched_machine = 1\<close>
  have "\<exists>c \<in> {0, 1}. reports s 0 = [(1, c)]" by (auto simp: int_one_le_iff_zero_less)
  ultimately show ?thesis using r ex by blast
qed

end
