(* ===== verification/Cancel_Thread.thy ===== *)
theory Cancel_Thread
  imports Pthread C_Stdio
begin

text \<open>
  \<open>day2/13_cancel/pthread_cancel.c\<close>: a thread that is cancelled, under three ways of answering
  a request. A request is acted on as POSIX has it: never while cancellation is disabled, at a
  cancellation point if it is deferred (and \<open>printf\<close> may be one), anywhere if it is
  asynchronous; then the handlers that were pushed run, the last one first. To be cancelled
  inside \<open>printf\<close> with asynchronous cancellation is undefined, since \<open>printf\<close> is not
  async-cancel-safe. The third function has its \<open>pthread_cleanup_pop\<close> commented out, which
  does not compile where the pair is a pair of macros; it is read as if the pop stood there.
\<close>

section \<open>The state of a program\<close>

datatype cancel_prog = Async | Deferred | Disabled

text \<open>Where the thread is: before the statement named.\<close>

datatype cancel_pc =
  CNone | CPush | CSetState | CSetType | CPrint | CSpin | CPrintTest | CTestCancel
| CSleep | CPrintEnabled | CEnable | CPause | CGone

datatype cancel_main =
  MCreate | MNanosleep | MPrintStart | MCancel | MPrintWait | MJoin | MPrintEnd | MExit int

datatype cancel_msg =
  ThreadLine int string | TestCancelLine | CleanupLine int | MainLine string | CancelError string

record cancel_state =
  cs_main :: cancel_main
  cs_pc :: cancel_pc
  cs_enabled :: bool
  cs_async :: bool
  cs_pending :: bool
  cs_cleanup :: "int list"
  cs_undefined :: bool
  cs_out :: "cancel_msg list"

definition cancel_print :: "cancel_msg \<Rightarrow> cancel_state \<Rightarrow> cancel_state" where
  "cancel_print m s = s\<lparr>cs_out := cs_out s @ [m]\<rparr>"

definition cancel_fail :: "string \<Rightarrow> cancel_state \<Rightarrow> cancel_state" where
  "cancel_fail msg s = s\<lparr>cs_main := MExit 1, cs_out := cs_out s @ [CancelError msg]\<rparr>"

definition cancel_test :: "int \<Rightarrow> string \<Rightarrow> cancel_state \<Rightarrow> cancel_state \<Rightarrow> cancel_state" where
  "cancel_test err msg s s' = (if err \<noteq> 0 then cancel_fail msg s else s')"

section \<open>The threads\<close>

definition thread_cleanup :: "int \<Rightarrow> cancel_msg" where
  "thread_cleanup num = CleanupLine num"

definition thread_01 :: "int \<Rightarrow> int \<Rightarrow> cancel_state \<Rightarrow> cancel_state option" where
  "thread_01 err num s =
     (case cs_pc s of
        CPush \<Rightarrow> Some (s\<lparr>cs_pc := CSetState, cs_cleanup := num # cs_cleanup s\<rparr>)
      | CSetState \<Rightarrow> Some (cancel_test err ''pthread_setcancelstate'' s (s\<lparr>cs_pc := CSetType, cs_enabled := True\<rparr>))
      | CSetType \<Rightarrow> Some (cancel_test err ''pthread_setcanceltype'' s (s\<lparr>cs_pc := CPrint, cs_async := True\<rparr>))
      | CPrint \<Rightarrow> Some (cancel_print (ThreadLine num ''PTHREAD_CANCEL_ASYNCHRONOUS'') (s\<lparr>cs_pc := CSpin\<rparr>))
      | CSpin \<Rightarrow> Some s
      | _ \<Rightarrow> None)"

definition thread_02 :: "int \<Rightarrow> int \<Rightarrow> cancel_state \<Rightarrow> cancel_state option" where
  "thread_02 err num s =
     (case cs_pc s of
        CPush \<Rightarrow> Some (s\<lparr>cs_pc := CSetState, cs_cleanup := num # cs_cleanup s\<rparr>)
      | CSetState \<Rightarrow> Some (cancel_test err ''pthread_setcancelstate'' s (s\<lparr>cs_pc := CSetType, cs_enabled := True\<rparr>))
      | CSetType \<Rightarrow> Some (cancel_test err ''pthread_setcanceltype'' s (s\<lparr>cs_pc := CPrint, cs_async := False\<rparr>))
      | CPrint \<Rightarrow> Some (cancel_print (ThreadLine num ''PTHREAD_CANCEL_DEFERRED'') (s\<lparr>cs_pc := CSpin\<rparr>))
      | CSpin \<Rightarrow> Some (s\<lparr>cs_pc := CPrintTest\<rparr>)
      | CPrintTest \<Rightarrow> Some (cancel_print TestCancelLine (s\<lparr>cs_pc := CTestCancel\<rparr>))
      | CTestCancel \<Rightarrow> Some (s\<lparr>cs_pc := CSpin\<rparr>)
      | _ \<Rightarrow> None)"

definition thread_03 :: "int \<Rightarrow> int \<Rightarrow> cancel_state \<Rightarrow> cancel_state option" where
  "thread_03 err num s =
     (case cs_pc s of
        CPush \<Rightarrow> Some (s\<lparr>cs_pc := CSetState, cs_cleanup := num # cs_cleanup s\<rparr>)
      | CSetState \<Rightarrow> Some (cancel_test err ''pthread_setcancelstate'' s (s\<lparr>cs_pc := CPrint, cs_enabled := False\<rparr>))
      | CPrint \<Rightarrow> Some (cancel_print (ThreadLine num ''cancel disabled for 2s'') (s\<lparr>cs_pc := CSleep\<rparr>))
      | CSleep \<Rightarrow> Some (s\<lparr>cs_pc := CPrintEnabled\<rparr>)
      | CPrintEnabled \<Rightarrow> Some (cancel_print (ThreadLine num ''cancel enabled'') (s\<lparr>cs_pc := CEnable\<rparr>))
      | CEnable \<Rightarrow> Some (cancel_test err ''pthread_setcancelstate'' s (s\<lparr>cs_pc := CPause, cs_enabled := True\<rparr>))
      | CPause \<Rightarrow> None
      | _ \<Rightarrow> None)"

definition thread_of :: "cancel_prog \<Rightarrow> int \<Rightarrow> cancel_state \<Rightarrow> cancel_state option" where
  "thread_of p err s =
     (case p of Async \<Rightarrow> thread_01 err 0 s | Deferred \<Rightarrow> thread_02 err 1 s | Disabled \<Rightarrow> thread_03 err 2 s)"

text \<open>When a request is acted on at the latest, and when it may be.\<close>

definition cancel_requested :: "cancel_state \<Rightarrow> bool" where
  "cancel_requested s \<longleftrightarrow> cs_enabled s \<and> cs_pending s \<and> cs_pc s \<noteq> CGone \<and> cs_pc s \<noteq> CNone"

definition must_act :: "cancel_state \<Rightarrow> bool" where
  "must_act s \<longleftrightarrow> cancel_requested s \<and> (cs_async s \<or> cs_pc s \<in> {CTestCancel, CSleep, CPause})"

definition printing :: "cancel_pc \<Rightarrow> bool" where
  "printing pc \<longleftrightarrow> pc \<in> {CPrint, CPrintTest, CPrintEnabled}"

definition may_act :: "cancel_state \<Rightarrow> bool" where
  "may_act s \<longleftrightarrow> must_act s \<or> cancel_requested s \<and> printing (cs_pc s)"

definition act_on_cancel :: "cancel_state \<Rightarrow> cancel_state" where
  "act_on_cancel s =
     s\<lparr>cs_pc := CGone, cs_cleanup := [], cs_out := cs_out s @ map thread_cleanup (cs_cleanup s)\<rparr>"

section \<open>main\<close>

text \<open>The steps of \<open>main\<close> from the creation of the thread, with \<open>interrupt\<close>.\<close>

definition interrupt :: "int \<Rightarrow> string \<Rightarrow> cancel_state \<Rightarrow> cancel_state option" where
  "interrupt err napis s =
     (case cs_main s of
        MNanosleep \<Rightarrow> Some (s\<lparr>cs_main := MPrintStart\<rparr>)
      | MPrintStart \<Rightarrow> Some (cancel_print (MainLine (napis @ '': interrupt start'')) (s\<lparr>cs_main := MCancel\<rparr>))
      | MCancel \<Rightarrow> Some (cancel_test err ''pthread_cancel'' s (s\<lparr>cs_main := MPrintWait, cs_pending := True\<rparr>))
      | MPrintWait \<Rightarrow> Some (cancel_print (MainLine (napis @ '': wating for thread '')) (s\<lparr>cs_main := MJoin\<rparr>))
      | MJoin \<Rightarrow>
          if cs_pc s = CGone then Some (cancel_test err ''pthread_join'' s (s\<lparr>cs_main := MPrintEnd\<rparr>)) else None
      | MPrintEnd \<Rightarrow> Some (cancel_print (MainLine (napis @ '': interrupt end'')) (s\<lparr>cs_main := MExit 0\<rparr>))
      | _ \<Rightarrow> None)"

definition cancel_main_step :: "cancel_prog \<Rightarrow> int \<Rightarrow> cancel_state \<Rightarrow> cancel_state option" where
  "cancel_main_step p err s =
     (case cs_main s of
        MCreate \<Rightarrow>
          Some (cancel_test err
            (case p of Async \<Rightarrow> ''pthread_create (1)'' | Deferred \<Rightarrow> ''pthread_create (2)''
             | Disabled \<Rightarrow> ''pthread_create (3)'')
            s (s\<lparr>cs_main := MNanosleep, cs_pc := CPush\<rparr>))
      | _ \<Rightarrow> interrupt err (case p of Async \<Rightarrow> ''#0'' | Deferred \<Rightarrow> ''#1'' | Disabled \<Rightarrow> ''#2'') s)"

text \<open>The choice of the function: \<open>argv[1]\<close> is the null pointer if there is no argument.\<close>

definition cancel_choice :: "string list \<Rightarrow> (int, cancel_prog) exec" where
  "cancel_choice argv =
     (if length argv < 1 then Stop 1
      else if length argv = 1 then UB
      else exec_bind (atoi (argv ! 1)) (\<lambda>n.
             Ret (if n = 1 then Async else if n = 2 then Deferred else Disabled)))"

definition cancel_start :: cancel_state where
  "cancel_start = \<lparr>cs_main = MCreate, cs_pc = CNone, cs_enabled = True, cs_async = False, cs_pending = False,
     cs_cleanup = [], cs_undefined = False, cs_out = []\<rparr>"

definition cancel_ended :: "cancel_state \<Rightarrow> bool" where
  "cancel_ended s \<longleftrightarrow> cs_undefined s \<or> (case cs_main s of MExit c \<Rightarrow> True | _ \<Rightarrow> False)"

inductive cancel_step :: "cancel_prog \<Rightarrow> cancel_state \<Rightarrow> cancel_state \<Rightarrow> bool" for p where
  main: "\<not> cancel_ended s \<Longrightarrow> cancel_main_step p err s = Some s' \<Longrightarrow> cancel_step p s s'"
| thread: "\<not> cancel_ended s \<Longrightarrow> \<not> must_act s \<Longrightarrow> thread_of p err s = Some s' \<Longrightarrow> cancel_step p s s'"
| act: "\<not> cancel_ended s \<Longrightarrow> may_act s \<Longrightarrow> cancel_step p s (act_on_cancel s)"
| unsafe: "\<not> cancel_ended s \<Longrightarrow> must_act s \<Longrightarrow> cs_async s \<Longrightarrow> printing (cs_pc s) \<Longrightarrow>
    cancel_step p s (s\<lparr>cs_undefined := True\<rparr>)"

inductive_cases cancel_stepE: "cancel_step p s s'"

section \<open>What the thread has printed\<close>

definition thread_said :: "cancel_state \<Rightarrow> cancel_msg list" where
  "thread_said s = filter (\<lambda>m. case m of MainLine t \<Rightarrow> False | CancelError t \<Rightarrow> False | _ \<Rightarrow> True) (cs_out s)"

definition thread_num :: "cancel_prog \<Rightarrow> int" where
  "thread_num p = (case p of Async \<Rightarrow> 0 | Deferred \<Rightarrow> 1 | Disabled \<Rightarrow> 2)"

text \<open>The lines a thread may have printed when it is cancelled, or so far at a place.\<close>

definition lines_at_end :: "cancel_prog \<Rightarrow> cancel_msg list \<Rightarrow> bool" where
  "lines_at_end p ms \<longleftrightarrow>
     (case p of
        Async \<Rightarrow> ms = [] \<or> ms = [ThreadLine 0 ''PTHREAD_CANCEL_ASYNCHRONOUS'']
      | Deferred \<Rightarrow> ms = [] \<or> (\<exists>k. ms = ThreadLine 1 ''PTHREAD_CANCEL_DEFERRED'' # replicate k TestCancelLine)
      | Disabled \<Rightarrow> ms = [ThreadLine 2 ''cancel disabled for 2s'', ThreadLine 2 ''cancel enabled''])"

definition lines_at :: "cancel_prog \<Rightarrow> cancel_pc \<Rightarrow> cancel_msg list \<Rightarrow> bool" where
  "lines_at p pc ms \<longleftrightarrow>
     (if pc \<in> {CNone, CPush, CSetState, CSetType, CPrint} then ms = []
      else if pc \<in> {CSleep, CPrintEnabled} then p = Disabled \<and> ms = [ThreadLine 2 ''cancel disabled for 2s'']
      else (pc \<in> {CEnable, CPause} \<longleftrightarrow> p = Disabled) \<and> (pc \<in> {CPrintTest, CTestCancel} \<longrightarrow> p = Deferred)
         \<and> ms \<noteq> [] \<and> lines_at_end p ms)"

text \<open>The cancellation state at a place.\<close>

definition cancel_flags :: "cancel_prog \<Rightarrow> cancel_state \<Rightarrow> bool" where
  "cancel_flags p s \<longleftrightarrow>
     cs_enabled s = (p \<noteq> Disabled \<or> cs_pc s \<notin> {CPrint, CSleep, CPrintEnabled, CEnable})
     \<and> cs_async s = (p = Async \<and> cs_pc s \<in> {CPrint, CSpin})
     \<and> (p = Disabled \<longrightarrow> cs_pc s \<noteq> CSetType)
     \<and> cs_cleanup s = (if cs_pc s \<in> {CNone, CPush} then [] else [thread_num p])"

definition cancel_thread_ok :: "cancel_prog \<Rightarrow> cancel_state \<Rightarrow> bool" where
  "cancel_thread_ok p s \<longleftrightarrow>
     (if cs_pc s = CGone
      then \<exists>ms. lines_at_end p ms \<and> thread_said s = ms @ [CleanupLine (thread_num p)]
      else cancel_flags p s \<and> lines_at p (cs_pc s) (thread_said s))"

definition cancel_main_ok :: "cancel_state \<Rightarrow> bool" where
  "cancel_main_ok s \<longleftrightarrow>
     (cs_main s = MCreate \<longleftrightarrow> cs_pc s = CNone)
     \<and> (cs_pending s \<longleftrightarrow> cs_main s \<in> {MPrintWait, MJoin, MPrintEnd, MExit 0})
     \<and> (cs_pc s = CGone \<longrightarrow> cs_pending s)
     \<and> (cs_main s \<in> {MPrintEnd, MExit 0} \<longrightarrow> cs_pc s = CGone)"

definition cancel_failed :: "cancel_state \<Rightarrow> bool" where
  "cancel_failed s \<longleftrightarrow> cs_main s = MExit 1"

definition cancel_inv :: "cancel_prog \<Rightarrow> cancel_state \<Rightarrow> bool" where
  "cancel_inv p s \<longleftrightarrow> cancel_failed s \<or> cancel_thread_ok p s \<and> cancel_main_ok s"

lemma thread_said_simps [simp]:
  "thread_said (cancel_print m s) =
     thread_said s @ (case m of MainLine t \<Rightarrow> [] | CancelError t \<Rightarrow> [] | _ \<Rightarrow> [m])"
  "thread_said (s\<lparr>cs_main := mn\<rparr>) = thread_said s" "thread_said (s\<lparr>cs_pc := pc\<rparr>) = thread_said s"
  "thread_said (s\<lparr>cs_enabled := b\<rparr>) = thread_said s" "thread_said (s\<lparr>cs_async := b\<rparr>) = thread_said s"
  "thread_said (s\<lparr>cs_pending := b\<rparr>) = thread_said s" "thread_said (s\<lparr>cs_cleanup := cl\<rparr>) = thread_said s"
  "thread_said (s\<lparr>cs_undefined := b\<rparr>) = thread_said s"
  by (simp_all add: thread_said_def cancel_print_def split: cancel_msg.split)

lemma cancel_print_simps [simp]:
  "cs_main (cancel_print m s) = cs_main s" "cs_pc (cancel_print m s) = cs_pc s"
  "cs_enabled (cancel_print m s) = cs_enabled s" "cs_async (cancel_print m s) = cs_async s"
  "cs_pending (cancel_print m s) = cs_pending s" "cs_cleanup (cancel_print m s) = cs_cleanup s"
  "cs_undefined (cancel_print m s) = cs_undefined s"
  by (simp_all add: cancel_print_def)

lemma cancel_failed_fail [simp]: "cancel_failed (cancel_fail msg s)"
  by (simp add: cancel_failed_def cancel_fail_def)

lemma cancel_test_ok: "\<not> cancel_failed (cancel_test err msg s s') \<Longrightarrow> cancel_test err msg s s' = s'"
  by (simp add: cancel_test_def split: if_splits)

lemma cancel_test_undefined [simp]:
  "cs_undefined (cancel_test err msg s s') = (if err = 0 then cs_undefined s' else cs_undefined s)"
  by (simp add: cancel_test_def cancel_fail_def)

lemma replicate_more: "replicate k x @ [x] = replicate (Suc k) x"
  by (simp add: replicate_append_same)

lemma lines_deferred_more:
  "lines_at_end Deferred ms \<Longrightarrow> ms \<noteq> [] \<Longrightarrow> lines_at_end Deferred (ms @ [TestCancelLine])"
  unfolding lines_at_end_def by (auto simp: replicate_more simp del: replicate.simps)

lemma lines_end: "lines_at p pc ms \<Longrightarrow> pc \<in> {CPrint, CSpin, CPrintTest, CTestCancel, CPause} \<Longrightarrow>
    pc = CPrint \<longrightarrow> p \<noteq> Disabled \<Longrightarrow> lines_at_end p ms"
  by (cases p) (auto simp: lines_at_def lines_at_end_def split: if_splits)


lemma thread_frame:
  assumes "thread_of p err s = Some s'" "\<not> cancel_failed s'"
  shows "cs_main s' = cs_main s" "cs_pending s' = cs_pending s" "cs_undefined s' = cs_undefined s"
    "cs_pc s \<notin> {CNone, CGone}" "cs_pc s' \<notin> {CNone, CGone}"
  using assms
  by (cases p; cases "cs_pc s"; force simp: thread_of_def thread_01_def thread_02_def thread_03_def
      dest: cancel_test_ok)+

lemma thread_flags:
  assumes "thread_of p err s = Some s'" "\<not> cancel_failed s'" "cancel_flags p s"
  shows "cancel_flags p s'"
  using assms
  by (cases p; cases "cs_pc s"; auto simp: thread_of_def thread_01_def thread_02_def thread_03_def
      cancel_flags_def thread_num_def dest: cancel_test_ok)

lemma thread_lines:
  assumes "thread_of p err s = Some s'" "\<not> cancel_failed s'" "lines_at p (cs_pc s) (thread_said s)"
    "p = Disabled \<longrightarrow> cs_pc s \<noteq> CSetType"
  shows "lines_at p (cs_pc s') (thread_said s')"
proof (cases p)
  case Async
  with assms show ?thesis
    by (cases "cs_pc s")
      (auto simp: thread_of_def thread_01_def lines_at_def lines_at_end_def dest: cancel_test_ok)
next
  case Deferred
  show ?thesis
  proof (cases "cs_pc s")
    case CPrint
    with Deferred assms show ?thesis
      by (auto simp: thread_of_def thread_02_def lines_at_def lines_at_end_def intro!: exI [of _ "0::nat"])
  next
    case CPrintTest
    with Deferred assms show ?thesis
      by (auto simp: thread_of_def thread_02_def lines_at_def lines_deferred_more)
  qed (use Deferred assms in \<open>auto simp: thread_of_def thread_02_def lines_at_def dest: cancel_test_ok\<close>)
next
  case Disabled
  with assms show ?thesis
    by (cases "cs_pc s")
      (auto simp: thread_of_def thread_03_def lines_at_def lines_at_end_def dest: cancel_test_ok)
qed

lemma thread_of_ok:
  assumes "thread_of p err s = Some s'" "\<not> cancel_failed s'" "cancel_thread_ok p s"
  shows "cancel_thread_ok p s'"
proof -
  note fr = thread_frame [OF assms(1,2)]
  from fr(4) assms(3) have "cancel_flags p s" "lines_at p (cs_pc s) (thread_said s)"
    by (simp_all add: cancel_thread_ok_def)
  with thread_flags [OF assms(1,2)] thread_lines [OF assms(1,2)] fr(5) show ?thesis
    by (simp add: cancel_thread_ok_def) (simp add: cancel_flags_def)
qed

lemma cancel_thread_ok_cong:
  assumes "cs_pc s' = cs_pc s" "cs_enabled s' = cs_enabled s" "cs_async s' = cs_async s"
      "cs_cleanup s' = cs_cleanup s" "thread_said s' = thread_said s"
  shows "cancel_thread_ok p s' = cancel_thread_ok p s"
  unfolding cancel_thread_ok_def cancel_flags_def assms ..

lemma act_ok:
  assumes "may_act s" "cancel_thread_ok p s"
  shows "cancel_thread_ok p (act_on_cancel s)"
proof -
  from assms(1) have req: "cs_enabled s" "cs_pc s \<notin> {CGone, CNone}"
    and at: "cs_async s \<or> cs_pc s \<in> {CTestCancel, CSleep, CPause} \<or> printing (cs_pc s)"
    by (auto simp: may_act_def must_act_def cancel_requested_def)
  with assms(2) have fl: "cancel_flags p s" and li: "lines_at p (cs_pc s) (thread_said s)"
    by (auto simp: cancel_thread_ok_def)
  from li have "p \<noteq> Disabled \<longrightarrow> cs_pc s \<notin> {CPrintEnabled, CSleep}"
    by (cases "cs_pc s") (simp_all add: lines_at_def)
  moreover from fl req(1) have "p = Disabled \<longrightarrow> cs_pc s \<notin> {CPrint, CPrintEnabled, CSleep}"
    by (cases "cs_pc s") (simp_all add: cancel_flags_def)
  moreover from fl have "cs_async s \<longrightarrow> cs_pc s \<in> {CPrint, CSpin}" by (simp add: cancel_flags_def)
  ultimately have pc: "cs_pc s \<in> {CPrint, CSpin, CPrintTest, CTestCancel, CPause}"
    "cs_pc s = CPrint \<longrightarrow> p \<noteq> Disabled"
    using at unfolding printing_def by blast+
  with fl have "cs_cleanup s = [thread_num p]" by (auto simp: cancel_flags_def)
  then have "thread_said (act_on_cancel s) = thread_said s @ [CleanupLine (thread_num p)]"
    by (simp add: act_on_cancel_def thread_said_def thread_cleanup_def)
  moreover have "cs_pc (act_on_cancel s) = CGone" by (simp add: act_on_cancel_def)
  ultimately show ?thesis using lines_end [OF li pc] by (auto simp: cancel_thread_ok_def)
qed

lemma main_step_ok:
  assumes "cancel_main_step p err s = Some s'" "\<not> cancel_failed s'" "cancel_thread_ok p s" "cancel_main_ok s"
    "\<not> cancel_ended s"
  shows "cancel_thread_ok p s' \<and> cancel_main_ok s'"
proof (cases "cs_main s = MCreate")
  case True
  with assms(1,2) have "s' = s\<lparr>cs_main := MNanosleep, cs_pc := CPush\<rparr>"
    by (auto simp: cancel_main_step_def dest: cancel_test_ok)
  moreover have "cs_pc s = CNone" using True assms(4) by (simp add: cancel_main_ok_def)
  ultimately show ?thesis using True assms(3,4)
    by (auto simp: cancel_thread_ok_def cancel_main_ok_def cancel_flags_def lines_at_def)
next
  case False
  with assms(1) obtain nm where "interrupt err nm s = Some s'"
    by (cases "cs_main s") (auto simp: cancel_main_step_def interrupt_def)
  with assms(2) have fr: "cs_pc s' = cs_pc s" "cs_enabled s' = cs_enabled s" "cs_async s' = cs_async s"
      "cs_cleanup s' = cs_cleanup s" "thread_said s' = thread_said s"
    and mn: "cs_main s' \<noteq> MCreate" "cs_pending s' \<longleftrightarrow> cs_pending s \<or> cs_main s = MCancel"
      "(cs_main s, cs_main s') \<in> {(MNanosleep, MPrintStart), (MPrintStart, MCancel), (MCancel, MPrintWait),
         (MPrintWait, MJoin), (MJoin, MPrintEnd), (MPrintEnd, MExit 0)}"
      "cs_main s = MJoin \<longrightarrow> cs_pc s = CGone"
    by (cases "cs_main s"; force simp: interrupt_def split: if_splits dest: cancel_test_ok)+
  from cancel_thread_ok_cong [OF fr] assms(3) have "cancel_thread_ok p s'" by simp
  moreover have "cancel_main_ok s'" using assms(4) mn fr(1) False by (auto simp: cancel_main_ok_def)
  ultimately show ?thesis ..
qed

lemma cancel_inv_step:
  assumes "cancel_inv p s" "cancel_step p s s'"
  shows "cancel_inv p s'"
proof (cases "cancel_failed s'")
  case False
  from assms(2) have ne: "\<not> cancel_ended s" by (auto elim: cancel_stepE)
  with assms(1) have ok: "cancel_thread_ok p s" "cancel_main_ok s"
    by (auto simp: cancel_inv_def cancel_failed_def cancel_ended_def)
  from assms(2) show ?thesis
  proof (rule cancel_stepE)
    fix err assume "cancel_main_step p err s = Some s'"
    from main_step_ok [OF this False ok ne] show ?thesis by (simp add: cancel_inv_def)
  next
    fix err assume st: "thread_of p err s = Some s'"
    note fr = thread_frame [OF st False]
    have "cancel_main_ok s'" using ok(2) fr unfolding cancel_main_ok_def by auto
    with thread_of_ok [OF st False ok(1)] show ?thesis by (simp add: cancel_inv_def)
  next
    assume a: "may_act s" "s' = act_on_cancel s"
    then have "cancel_main_ok s'"
      using ok(2) by (auto simp: cancel_main_ok_def act_on_cancel_def may_act_def must_act_def cancel_requested_def)
    with act_ok [OF a(1) ok(1)] a(2) show ?thesis by (simp add: cancel_inv_def)
  next
    assume s': "s' = s\<lparr>cs_undefined := True\<rparr>"
    then have "cancel_thread_ok p s' = cancel_thread_ok p s" by (intro cancel_thread_ok_cong) simp_all
    moreover have "cancel_main_ok s' = cancel_main_ok s" by (simp add: cancel_main_ok_def s')
    ultimately show ?thesis using ok by (simp add: cancel_inv_def)
  qed
qed (simp add: cancel_inv_def)


lemma cancel_inv_start: "cancel_inv p cancel_start"
  by (simp add: cancel_inv_def cancel_start_def cancel_thread_ok_def cancel_main_ok_def cancel_flags_def
      lines_at_def thread_said_def)

section \<open>Once the request is sent\<close>

definition cancel_sent :: "cancel_state \<Rightarrow> bool" where
  "cancel_sent s \<longleftrightarrow> cancel_ended s \<or> cs_pending s"

primrec steps_to_gone :: "cancel_pc \<Rightarrow> nat" where
  "steps_to_gone CNone = 9"
| "steps_to_gone CPush = 9"
| "steps_to_gone CSetState = 8"
| "steps_to_gone CSetType = 7"
| "steps_to_gone CPrint = 6"
| "steps_to_gone CSleep = 5"
| "steps_to_gone CPrintEnabled = 4"
| "steps_to_gone CEnable = 3"
| "steps_to_gone CSpin = 3"
| "steps_to_gone CPrintTest = 2"
| "steps_to_gone CTestCancel = 1"
| "steps_to_gone CPause = 1"
| "steps_to_gone CGone = 0"

primrec steps_to_exit :: "cancel_main \<Rightarrow> nat" where
  "steps_to_exit MCreate = 0"
| "steps_to_exit MNanosleep = 0"
| "steps_to_exit MPrintStart = 0"
| "steps_to_exit MCancel = 0"
| "steps_to_exit MPrintWait = 3"
| "steps_to_exit MJoin = 2"
| "steps_to_exit MPrintEnd = 1"
| "steps_to_exit (MExit c) = 0"

definition cancel_left :: "cancel_state \<Rightarrow> nat" where
  "cancel_left s =
     (if cancel_ended s then 0 else Suc (steps_to_exit (cs_main s) + steps_to_gone (cs_pc s)))"

lemma pending_facts:
  assumes "cancel_inv p s" "\<not> cancel_ended s" "cs_pending s"
  shows "cancel_thread_ok p s" "cs_main s \<in> {MPrintWait, MJoin, MPrintEnd}" "cs_pc s \<noteq> CNone"
  using assms by (auto simp: cancel_inv_def cancel_failed_def cancel_ended_def cancel_main_ok_def)

lemma pending_thread:
  assumes "cancel_thread_ok p s" "cs_pending s" "\<not> must_act s" "thread_of p err s = Some s'" "\<not> cancel_failed s'"
  shows "steps_to_gone (cs_pc s') < steps_to_gone (cs_pc s)"
proof -
  note fr = thread_frame [OF assms(4,5)]
  with assms(1) have "cancel_flags p s" by (simp add: cancel_thread_ok_def)
  with assms(2,3) fr(4) have "p = Async \<longrightarrow> cs_pc s \<noteq> CSpin" "p = Deferred \<longrightarrow> cs_pc s \<noteq> CTestCancel"
    by (auto simp: must_act_def cancel_requested_def cancel_flags_def)
  with assms(4,5) show ?thesis
    by (cases p; cases "cs_pc s"; auto simp: thread_of_def thread_01_def thread_02_def thread_03_def
        dest: cancel_test_ok)
qed

lemma sent_step:
  assumes "cancel_inv p s" "cancel_sent s" "cancel_step p s s'"
  shows "cancel_sent s' \<and> cancel_left s' < cancel_left s"
proof -
  from assms(3) have ne: "\<not> cancel_ended s" by (auto elim: cancel_stepE)
  with assms(2) have pend: "cs_pending s" by (simp add: cancel_sent_def)
  note pf = pending_facts [OF assms(1) ne pend]
  show ?thesis
  proof (cases "cancel_ended s'")
    case True
    with ne show ?thesis by (simp add: cancel_sent_def cancel_left_def)
  next
    case False
    then have nf: "\<not> cancel_failed s'" by (auto simp: cancel_failed_def cancel_ended_def)
    from assms(3) show ?thesis
    proof (rule cancel_stepE)
      fix err assume st: "cancel_main_step p err s = Some s'"
      with pf(2) nf have "cs_pc s' = cs_pc s" "cs_pending s'" "steps_to_exit (cs_main s') < steps_to_exit (cs_main s)"
        using pend by (cases "err = 0"; auto simp: cancel_main_step_def interrupt_def cancel_test_def split: if_splits)+
      with ne False show ?thesis by (simp add: cancel_sent_def cancel_left_def)
    next
      fix err assume st: "thread_of p err s = Some s'" "\<not> must_act s"
      from pending_thread [OF pf(1) pend st(2,1) nf] thread_frame(1,2) [OF st(1) nf] ne False pend
      show ?thesis by (simp add: cancel_sent_def cancel_left_def)
    next
      assume a: "may_act s" "s' = act_on_cancel s"
      then have "cs_pc s \<noteq> CGone" by (auto simp: may_act_def must_act_def cancel_requested_def)
      then have "0 < steps_to_gone (cs_pc s)" by (cases "cs_pc s") simp_all
      with a ne False pend show ?thesis by (simp add: cancel_sent_def cancel_left_def act_on_cancel_def)
    next
      assume "s' = s\<lparr>cs_undefined := True\<rparr>"
      with False show ?thesis by (simp add: cancel_ended_def)
    qed
  qed
qed

lemma thread_goes:
  assumes "cancel_thread_ok p s" "cs_pc s \<notin> {CNone, CPause, CGone}"
  shows "\<exists>s'. thread_of p err s = Some s'"
  using assms
  by (cases p; cases "cs_pc s") (auto simp: thread_of_def thread_01_def thread_02_def thread_03_def
      cancel_thread_ok_def lines_at_def cancel_flags_def)

lemma sent_progress:
  assumes "cancel_inv p s" "cancel_sent s" "\<not> cancel_ended s"
  shows "\<exists>s'. cancel_step p s s'"
proof -
  from assms(2,3) have pend: "cs_pending s" by (simp add: cancel_sent_def)
  note pf = pending_facts [OF assms(1,3) pend]
  show ?thesis
  proof (cases "cs_main s = MJoin \<and> cs_pc s \<noteq> CGone")
    case False
    with pf(2) have "\<exists>s'. cancel_main_step p 0 s = Some s'"
      by (auto simp: cancel_main_step_def interrupt_def)
    with assms(3) show ?thesis by (blast intro: cancel_step.main)
  next
    case True
    show ?thesis
    proof (cases "must_act s")
      case True
      then have "may_act s" by (simp add: may_act_def)
      with assms(3) show ?thesis by (blast intro: cancel_step.act)
    next
      case F: False
      have "cs_pc s \<noteq> CPause"
      proof
        assume pc: "cs_pc s = CPause"
        with pf(1) have "cs_enabled s" by (simp add: cancel_thread_ok_def cancel_flags_def)
        with pc pend F show False by (simp add: must_act_def cancel_requested_def)
      qed
      with thread_goes [OF pf(1), of 0] pf(3) True F assms(3) show ?thesis by (blast intro: cancel_step.thread)
    qed
  qed
qed

interpretation cancel_sys: ending_phase cancel_start "cancel_step p" "cancel_inv p" cancel_sent cancel_left cancel_ended
  for p
proof unfold_locales
  show "cancel_inv p cancel_start" by (rule cancel_inv_start)
next
  fix s t assume "cancel_inv p s" "cancel_step p s t"
  then show "cancel_inv p t" by (rule cancel_inv_step)
next
  fix s t assume "cancel_inv p s" "cancel_sent s" "cancel_step p s t"
  then show "cancel_sent t \<and> cancel_left t < cancel_left s" by (rule sent_step)
next
  fix s assume "cancel_inv p s" "cancel_sent s" "\<not> cancel_ended s"
  then show "\<exists>t. cancel_step p s t" by (rule sent_progress)
qed


lemma undefined_async:
  assumes "reach cancel_start (cancel_step p) s"
  shows "cs_undefined s \<longrightarrow> p = Async"
  using assms
proof (induction rule: reach.induct)
  case reach_init
  then show ?case by (simp add: cancel_start_def)
next
  case (reach_step s s')
  from cancel_sys.reach_inv [OF reach_step.hyps(1)] have inv: "cancel_inv p s" .
  from reach_step.hyps(2) have ne: "\<not> cancel_ended s" by (auto elim: cancel_stepE)
  with inv have ok: "cancel_thread_ok p s" by (auto simp: cancel_inv_def cancel_failed_def cancel_ended_def)
  from reach_step.hyps(2) show ?case
  proof (rule cancel_stepE)
    assume "must_act s" "cs_async s"
    with ok show ?thesis
      by (auto simp: cancel_thread_ok_def cancel_flags_def must_act_def cancel_requested_def)
  next
    fix err assume "cancel_main_step p err s = Some s'"
    then have "cs_undefined s' = cs_undefined s"
      by (cases "cs_main s")
        (auto simp: cancel_main_step_def interrupt_def cancel_test_def cancel_fail_def split: if_splits)
    with reach_step.IH show ?thesis by simp
  next
    fix err assume st: "thread_of p err s = Some s'"
    have "cs_undefined s' = cs_undefined s"
      using st by (cases p; cases "cs_pc s"; auto simp: thread_of_def thread_01_def thread_02_def
          thread_03_def cancel_print_def split: if_splits)
    with reach_step.IH show ?thesis by simp
  qed (use reach_step.IH in \<open>simp add: act_on_cancel_def\<close>)
qed

lemma cancel_left_bound: "cancel_inv p s \<Longrightarrow> cs_pending s \<Longrightarrow> cancel_left s \<le> 13"
proof -
  assume "cancel_inv p s" "cs_pending s"
  have "steps_to_gone (cs_pc s) \<le> 9" by (cases "cs_pc s") simp_all
  moreover have "steps_to_exit (cs_main s) \<le> 3" by (cases "cs_main s") simp_all
  ultimately show ?thesis by (simp add: cancel_left_def)
qed

text \<open>
  C11: A thread that is cancelled runs its cleanup handler exactly once, as the last thing it
  does, wherever the request reaches it; the third thread, which has cancellation disabled,
  has printed both its lines before. When \<open>main\<close> ends with success the join has seen that.
  Once the request is sent the program ends within 13 steps. Only with asynchronous
  cancellation can its behaviour be undefined. A start without an argument passes the null
  pointer to \<open>atoi\<close>, whatever the test of \<open>argc\<close>.
\<close>

theorem cancel_runs_cleanup_once:
  assumes "reach cancel_start (cancel_step p) s"
  shows "(cs_main s = MExit 0 \<longrightarrow>
            (\<exists>ms. lines_at_end p ms \<and> thread_said s = ms @ [CleanupLine (thread_num p)]))
    \<and> (cs_pending s \<longrightarrow>
         (\<exists>s'. reach s (cancel_step p) s' \<and> cancel_ended s')
         \<and> (\<forall>n s'. (cancel_step p ^^ n) s s' \<longrightarrow> n \<le> 13))
    \<and> (cs_undefined s \<longrightarrow> p = Async)
    \<and> (\<forall>prog. cancel_choice [prog] = UB)"
proof (intro conjI impI allI)
  have inv: "cancel_inv p s" using assms by (rule cancel_sys.reach_inv)
  show "\<exists>ms. lines_at_end p ms \<and> thread_said s = ms @ [CleanupLine (thread_num p)]" if "cs_main s = MExit 0"
    using inv that by (auto simp: cancel_inv_def cancel_failed_def cancel_main_ok_def cancel_thread_ok_def)
  show "\<exists>s'. reach s (cancel_step p) s' \<and> cancel_ended s'" if "cs_pending s"
    using cancel_sys.phase_reaches_final [OF assms] that by (simp add: cancel_sent_def)
  show "n \<le> 13" if "cs_pending s" "(cancel_step p ^^ n) s s'" for n s'
    using cancel_sys.phase_run_bounded [OF assms _ that(2)] cancel_left_bound [OF inv that(1)] that(1)
    by (simp add: cancel_sent_def)
  show "p = Async" if "cs_undefined s" using undefined_async [OF assms] that by simp
  show "cancel_choice [prog] = UB" for prog by (simp add: cancel_choice_def)
qed


text \<open>The actions of a schedule in which no call fails.\<close>

datatype cancel_label = LMain | LThread | LAct

definition cancel_act :: "cancel_prog \<Rightarrow> cancel_label \<Rightarrow> cancel_state \<Rightarrow> cancel_state option" where
  "cancel_act p l s =
     (if cancel_ended s then None
      else case l of
          LMain \<Rightarrow> cancel_main_step p 0 s
        | LThread \<Rightarrow> if must_act s then None else thread_of p 0 s
        | LAct \<Rightarrow> if may_act s then Some (act_on_cancel s) else None)"

lemma cancel_act_step: "cancel_act p l s = Some s' \<Longrightarrow> cancel_step p s s'"
  by (cases l) (auto simp: cancel_act_def intro: cancel_step.intros split: if_splits)

definition cancel_asleep :: "cancel_label list" where
  "cancel_asleep = [LMain, LThread, LThread, LThread, LMain, LMain, LMain, LThread, LThread, LThread,
     LMain, LAct, LMain, LMain]"

lemma cancel_asleep_ends:
  "case follow (cancel_act Disabled) cancel_asleep cancel_start of None \<Rightarrow> False | Some s \<Rightarrow> cs_main s = MExit 0"
  by code_simp

text \<open>The request arrives in the sleep of the third thread, which answers it after both lines.\<close>

theorem cancel_runs_cleanup_once_witness:
  "\<exists>s. reach cancel_start (cancel_step Disabled) s \<and> cs_main s = MExit 0 \<and> \<not> cs_undefined s
     \<and> thread_said s = [ThreadLine 2 ''cancel disabled for 2s'', ThreadLine 2 ''cancel enabled'', CleanupLine 2]"
proof -
  from cancel_asleep_ends obtain s where run: "follow (cancel_act Disabled) cancel_asleep cancel_start = Some s"
    and ex: "cs_main s = MExit 0"
    by (cases "follow (cancel_act Disabled) cancel_asleep cancel_start") auto
  from run have r: "reach cancel_start (cancel_step Disabled) s" by (rule follow_reach) (rule cancel_act_step)
  from cancel_runs_cleanup_once [OF r] ex obtain ms
    where "lines_at_end Disabled ms" "thread_said s = ms @ [CleanupLine (thread_num Disabled)]" by blast
  moreover from cancel_runs_cleanup_once [OF r] have "\<not> cs_undefined s" by blast
  ultimately show ?thesis using r ex by (intro exI [of _ s]) (simp add: lines_at_end_def thread_num_def)
qed

end
