(* ===== verification/Signals.thy ===== *)
theory Signals
  imports Pthread
begin

text \<open>
  \<open>day2/04a_signals\<close>: a thread that waits for a signal another one sends it. A signal for a
  thread is pending while the thread blocks it; otherwise its handler runs or, without one,
  the process is terminated, the default of both signals used. A finite list of signals from
  outside the program may arrive at any time. \<open>printf\<close> may leave any value in \<open>errno\<close>; which
  values, and which error numbers the tested calls may give, are arguments of the step.
\<close>

section \<open>The state\<close>

definition SIGUSR1 :: int where "SIGUSR1 = 10"
definition SIGRTMIN :: int where "SIGRTMIN = 34"

datatype sig_main =
  SgAction | SgPrintId | SgMask | SgSetId | SgCreate | SgPrintWait | SgWait | SgReport int | SgJoin
| SgExit int | SgKilled int

datatype sig_worker = WsNew | WsStart | WsPrintId | WsSleep | WsPrintSend | WsKill | WsDone

datatype sig_msg = HandlerLine | MainId | ThreadStart | ThreadId | SendLine | WaitLine | Received int | SigError string

record sig_state =
  sg_main :: sig_main
  sg_worker :: sig_worker
  sg_handlers :: "int list"
  sg_mask :: "int list"
  sg_worker_mask :: "int list"
  sg_pending :: "int list"
  sg_main_id :: bool
  sg_errno :: int
  sg_ext :: "int list"
  sg_out :: "sig_msg list"

definition sig_start :: "int list \<Rightarrow> sig_state" where
  "sig_start ext =
     \<lparr>sg_main = SgAction, sg_worker = WsNew, sg_handlers = [], sg_mask = [], sg_worker_mask = [],
      sg_pending = [], sg_main_id = False, sg_errno = 0, sg_ext = ext, sg_out = []\<rparr>"

definition sig_print :: "sig_msg \<Rightarrow> sig_state \<Rightarrow> sig_state" where
  "sig_print m s = s\<lparr>sg_out := sg_out s @ [m]\<rparr>"

definition sig_fail :: "string \<Rightarrow> sig_state \<Rightarrow> sig_state" where
  "sig_fail msg s = s\<lparr>sg_main := SgExit 1, sg_out := sg_out s @ [SigError msg]\<rparr>"

definition bt_sighandler :: "int \<Rightarrow> sig_state \<Rightarrow> sig_state" where
  "bt_sighandler sig s = sig_print HandlerLine s"

text \<open>A signal for the main thread.\<close>

definition deliver :: "int \<Rightarrow> sig_state \<Rightarrow> sig_state" where
  "deliver sig s =
     (if sig \<in> set (sg_mask s) then s\<lparr>sg_pending := sg_pending s @ [sig]\<rparr>
      else if sig \<in> set (sg_handlers s) then bt_sighandler sig s
      else s\<lparr>sg_main := SgKilled sig\<rparr>)"

section \<open>The steps\<close>

definition worker_sends :: "int \<Rightarrow> sig_state \<Rightarrow> sig_state option" where
  "worker_sends err s =
     (case sg_worker s of
        WsStart \<Rightarrow> Some (sig_print ThreadStart (s\<lparr>sg_worker := WsPrintId\<rparr>))
      | WsPrintId \<Rightarrow> Some (sig_print ThreadId (s\<lparr>sg_worker := WsSleep\<rparr>))
      | WsSleep \<Rightarrow> Some (s\<lparr>sg_worker := WsPrintSend\<rparr>)
      | WsPrintSend \<Rightarrow> Some (sig_print SendLine (s\<lparr>sg_worker := WsKill\<rparr>))
      | WsKill \<Rightarrow>
          Some (if err \<noteq> 0 then sig_fail ''pthread_kill'' s else deliver SIGUSR1 (s\<lparr>sg_worker := WsDone\<rparr>))
      | _ \<Rightarrow> None)"

text \<open>
  \<open>err\<close> is the result of the call that is tested, \<open>e\<close> what a \<open>printf\<close> leaves in \<open>errno\<close>, \<open>sig\<close>
  the pending signal that \<open>sigwait\<close> picks. After
  \<open>sigwait\<close>, whose result is not assigned, the test looks at the \<open>errno\<close> there is.
\<close>

definition sig_main_step :: "int \<Rightarrow> int \<Rightarrow> int \<Rightarrow> sig_state \<Rightarrow> sig_state option" where
  "sig_main_step err e sig s =
     (case sg_main s of
        SgAction \<Rightarrow> Some (s\<lparr>sg_main := SgPrintId, sg_handlers := [SIGRTMIN]\<rparr>)
      | SgPrintId \<Rightarrow> Some (sig_print MainId (s\<lparr>sg_main := SgMask, sg_errno := e\<rparr>))
      | SgMask \<Rightarrow>
          Some (if err \<noteq> 0 then sig_fail ''pthread_kill'' s
                else s\<lparr>sg_main := SgSetId, sg_errno := 0, sg_mask := [SIGUSR1, SIGRTMIN]\<rparr>)
      | SgSetId \<Rightarrow> Some (s\<lparr>sg_main := SgCreate, sg_main_id := True\<rparr>)
      | SgCreate \<Rightarrow>
          Some (if err \<noteq> 0 then sig_fail ''pthread_create'' s
                else s\<lparr>sg_main := SgPrintWait, sg_errno := 0, sg_worker := WsStart, sg_worker_mask := sg_mask s\<rparr>)
      | SgPrintWait \<Rightarrow> Some (sig_print WaitLine (s\<lparr>sg_main := SgWait, sg_errno := e\<rparr>))
      | SgWait \<Rightarrow>
          if sig \<in> set (sg_pending s) \<and> sig \<in> {SIGUSR1, SIGRTMIN} then
            let s = s\<lparr>sg_pending := remove1 sig (sg_pending s)\<rparr>
            in Some (if sg_errno s \<noteq> 0 then sig_fail ''sigwait'' s else s\<lparr>sg_main := SgReport sig\<rparr>)
          else None
      | SgReport signum \<Rightarrow> Some (sig_print (Received signum) (s\<lparr>sg_main := SgJoin\<rparr>))
      | SgJoin \<Rightarrow> if sg_worker s = WsDone then Some (s\<lparr>sg_main := SgExit 0\<rparr>) else None
      | _ \<Rightarrow> None)"

definition sig_ended :: "sig_state \<Rightarrow> bool" where
  "sig_ended s \<longleftrightarrow> (case sg_main s of SgExit c \<Rightarrow> True | SgKilled sig \<Rightarrow> True | _ \<Rightarrow> False)"

inductive sig_step :: "int set \<Rightarrow> int set \<Rightarrow> sig_state \<Rightarrow> sig_state \<Rightarrow> bool" for E P where
  main: "err \<in> E \<Longrightarrow> e \<in> P \<Longrightarrow> sig_main_step err e sig s = Some s' \<Longrightarrow> sig_step E P s s'"
| worker: "\<not> sig_ended s \<Longrightarrow> err \<in> E \<Longrightarrow> worker_sends err s = Some s' \<Longrightarrow> sig_step E P s s'"
| outside: "\<not> sig_ended s \<Longrightarrow> sg_ext s = sig # sigs \<Longrightarrow> sig_step E P s (deliver sig (s\<lparr>sg_ext := sigs\<rparr>))"

inductive_cases sig_stepE: "sig_step E P s s'"

section \<open>No signal of the program is lost or fatal\<close>

text \<open>The mask is in place before the thread exists, and with it before its signal.\<close>

definition sig_main_ok :: "sig_state \<Rightarrow> bool" where
  "sig_main_ok s \<longleftrightarrow>
     (case sg_main s of
        SgAction \<Rightarrow> sg_worker s = WsNew \<and> sg_mask s = []
      | SgPrintId \<Rightarrow> sg_worker s = WsNew \<and> sg_mask s = []
      | SgMask \<Rightarrow> sg_worker s = WsNew \<and> sg_mask s = []
      | SgSetId \<Rightarrow> sg_worker s = WsNew \<and> sg_mask s = [SIGUSR1, SIGRTMIN]
      | SgCreate \<Rightarrow> sg_worker s = WsNew \<and> sg_mask s = [SIGUSR1, SIGRTMIN]
      | SgExit c \<Rightarrow> c = 0 \<longrightarrow> sg_worker s = WsDone
      | SgKilled sig \<Rightarrow> True
      | _ \<Rightarrow> sg_worker s \<noteq> WsNew \<and> sg_mask s = [SIGUSR1, SIGRTMIN])"

text \<open>A signal the worker has sent is pending or has been taken.\<close>

definition taken :: "sig_state \<Rightarrow> bool" where
  "taken s \<longleftrightarrow> (case sg_main s of SgReport sig \<Rightarrow> True | SgJoin \<Rightarrow> True | SgExit c \<Rightarrow> True | SgKilled sig \<Rightarrow> True | _ \<Rightarrow> False)"

definition waited_for :: "sig_state \<Rightarrow> bool" where
  "waited_for s \<longleftrightarrow> (\<exists>sig \<in> set (sg_pending s). sig = SIGUSR1 \<or> sig = SIGRTMIN)"

definition sig_inv :: "int list \<Rightarrow> sig_state \<Rightarrow> bool" where
  "sig_inv ext s \<longleftrightarrow> sig_main_ok s
     \<and> (sg_worker s = WsDone \<longrightarrow> waited_for s \<or> taken s)
     \<and> set (sg_ext s) \<subseteq> set ext
     \<and> (case sg_main s of SgKilled sig \<Rightarrow> sig \<in> set ext | _ \<Rightarrow> True)"


primrec sig_main_left :: "sig_main \<Rightarrow> nat" where
  "sig_main_left SgAction = 9"
| "sig_main_left SgPrintId = 8"
| "sig_main_left SgMask = 7"
| "sig_main_left SgSetId = 6"
| "sig_main_left SgCreate = 5"
| "sig_main_left SgPrintWait = 4"
| "sig_main_left SgWait = 3"
| "sig_main_left (SgReport sig) = 2"
| "sig_main_left SgJoin = 1"
| "sig_main_left (SgExit c) = 0"
| "sig_main_left (SgKilled sig) = 0"

primrec sig_worker_left :: "sig_worker \<Rightarrow> nat" where
  "sig_worker_left WsNew = 5"
| "sig_worker_left WsStart = 5"
| "sig_worker_left WsPrintId = 4"
| "sig_worker_left WsSleep = 3"
| "sig_worker_left WsPrintSend = 2"
| "sig_worker_left WsKill = 1"
| "sig_worker_left WsDone = 0"

definition sig_left :: "sig_state \<Rightarrow> nat" where
  "sig_left s =
     (if sig_ended s then 0
      else sig_main_left (sg_main s) + sig_worker_left (sg_worker s) + length (sg_ext s))"

lemma sig_print_simps [simp]:
  "sg_main (sig_print m s) = sg_main s" "sg_worker (sig_print m s) = sg_worker s"
  "sg_handlers (sig_print m s) = sg_handlers s" "sg_mask (sig_print m s) = sg_mask s"
  "sg_pending (sig_print m s) = sg_pending s" "sg_errno (sig_print m s) = sg_errno s"
  "sg_ext (sig_print m s) = sg_ext s" "sg_out (sig_print m s) = sg_out s @ [m]"
  by (simp_all add: sig_print_def)

lemma deliver_cases:
  obtains (pends) "sig \<in> set (sg_mask s)" "deliver sig s = s\<lparr>sg_pending := sg_pending s @ [sig]\<rparr>"
    | (handled) "sig \<notin> set (sg_mask s)" "sig \<in> set (sg_handlers s)" "deliver sig s = sig_print HandlerLine s"
    | (fatal) "sig \<notin> set (sg_mask s)" "sig \<notin> set (sg_handlers s)" "deliver sig s = s\<lparr>sg_main := SgKilled sig\<rparr>"
proof -
  consider "sig \<in> set (sg_mask s)" | "sig \<notin> set (sg_mask s)" "sig \<in> set (sg_handlers s)"
    | "sig \<notin> set (sg_mask s)" "sig \<notin> set (sg_handlers s)" by blast
  then show ?thesis
    by cases (simp_all add: that deliver_def bt_sighandler_def)
qed

lemma sig_inv_start: "sig_inv ext (sig_start ext)"
  by (simp add: sig_inv_def sig_start_def sig_main_ok_def)

lemma sig_main_inv:
  assumes "sig_inv ext s" "sig_main_step err e sig s = Some s'"
  shows "sig_inv ext s'"
  using assms
  by (cases "sg_main s")
    (auto simp: sig_main_step_def sig_inv_def sig_main_ok_def taken_def waited_for_def sig_fail_def Let_def
      split: if_splits)

lemma sig_worker_inv:
  assumes "sig_inv ext s" "\<not> sig_ended s" "worker_sends err s = Some s'"
  shows "sig_inv ext s'"
proof (cases "sg_worker s = WsKill \<and> err = 0")
  case True
  with assms(1,2) have m: "sg_mask s = [SIGUSR1, SIGRTMIN]"
    by (cases "sg_main s") (auto simp: sig_inv_def sig_main_ok_def sig_ended_def)
  with True assms(3) have s': "s' = s\<lparr>sg_worker := WsDone, sg_pending := sg_pending s @ [SIGUSR1]\<rparr>"
    by (simp add: worker_sends_def deliver_def)
  from assms(1,2) True show ?thesis
    by (cases "sg_main s") (auto simp: s' sig_inv_def sig_main_ok_def sig_ended_def waited_for_def)
next
  case False
  with assms show ?thesis
    by (cases "sg_worker s"; cases "sg_main s")
      (auto simp: worker_sends_def sig_inv_def sig_main_ok_def sig_ended_def sig_fail_def waited_for_def taken_def)
qed

lemma sig_outside_inv:
  assumes "sig_inv ext s" "\<not> sig_ended s" "sg_ext s = sig # sigs"
  shows "sig_inv ext (deliver sig (s\<lparr>sg_ext := sigs\<rparr>))"
proof (cases rule: deliver_cases [of sig "s\<lparr>sg_ext := sigs\<rparr>"])
  case pends
  with assms show ?thesis
    by (cases "sg_main s") (auto simp: sig_inv_def sig_main_ok_def waited_for_def taken_def)
next
  case handled
  with assms show ?thesis
    by (cases "sg_main s") (auto simp: sig_inv_def sig_main_ok_def waited_for_def taken_def)
next
  case fatal
  with assms show ?thesis by (auto simp: sig_inv_def sig_main_ok_def waited_for_def taken_def)
qed

lemma sig_inv_step: "sig_inv ext s \<Longrightarrow> sig_step E P s s' \<Longrightarrow> sig_inv ext s'"
  by (elim sig_stepE) (auto intro: sig_main_inv sig_worker_inv sig_outside_inv)

lemma sig_left_step:
  assumes "sig_inv ext s" "sig_step E P s s'"
  shows "sig_left s' < sig_left s"
  using assms(2)
proof (rule sig_stepE)
  fix err e sig assume "sig_main_step err e sig s = Some s'"
  with assms(1) show ?thesis
    by (cases "sg_main s")
      (auto simp: sig_main_step_def sig_left_def sig_ended_def sig_fail_def sig_inv_def sig_main_ok_def Let_def
        split: if_splits)
next
  fix err assume a: "\<not> sig_ended s" "worker_sends err s = Some s'"
  then have "0 < sig_left s" by (cases "sg_main s") (simp_all add: sig_left_def sig_ended_def)
  with a show ?thesis
    by (cases "sg_worker s"; cases "sg_main s")
      (auto simp: worker_sends_def sig_left_def sig_ended_def sig_fail_def deliver_def bt_sighandler_def)
next
  fix sig sigs
  assume a: "\<not> sig_ended s" "sg_ext s = sig # sigs" "s' = deliver sig (s\<lparr>sg_ext := sigs\<rparr>)"
  show ?thesis
    by (cases rule: deliver_cases [of sig "s\<lparr>sg_ext := sigs\<rparr>"])
      (use a in \<open>auto simp: sig_left_def sig_ended_def split: sig_main.splits\<close>)
qed

lemma sig_progress:
  assumes "sig_inv ext s" "\<not> sig_ended s" "0 \<in> E" "0 \<in> P"
  shows "\<exists>s'. sig_step E P s s'"
proof (cases "\<exists>sig. sig_main_step 0 0 sig s \<noteq> None")
  case True
  then obtain sig s' where "sig_main_step 0 0 sig s = Some s'" by blast
  with assms(3,4) show ?thesis by (blast intro: sig_step.main)
next
  case False
  have "\<not> (sg_main s = SgWait \<and> waited_for s)"
  proof
    assume w: "sg_main s = SgWait \<and> waited_for s"
    then obtain sig where "sig \<in> set (sg_pending s)" "sig = SIGUSR1 \<or> sig = SIGRTMIN"
      by (auto simp: waited_for_def)
    with w have "sig_main_step 0 0 sig s \<noteq> None" by (simp add: sig_main_step_def Let_def)
    with False show False by blast
  qed
  with False assms(2) have "sg_main s = SgWait \<and> \<not> waited_for s \<or> sg_main s = SgJoin \<and> sg_worker s \<noteq> WsDone"
    by (cases "sg_main s") (auto simp: sig_main_step_def sig_ended_def)
  with assms(1) have "sg_worker s \<notin> {WsNew, WsDone}"
    by (auto simp: sig_inv_def sig_main_ok_def taken_def)
  then have "\<exists>s'. worker_sends 0 s = Some s'" by (cases "sg_worker s") (simp_all add: worker_sends_def)
  with assms(2,3) show ?thesis by (blast intro: sig_step.worker)
qed


interpretation sig_sys: terminating_system "sig_start ext" "sig_step (insert 0 E) (insert 0 P)"
    "sig_inv ext" sig_left sig_ended
  for ext E P
proof unfold_locales
  show "sig_inv ext (sig_start ext)" by (rule sig_inv_start)
next
  fix s t assume a: "sig_inv ext s" "sig_step (insert 0 E) (insert 0 P) s t"
  then show "sig_inv ext t" by (rule sig_inv_step)
  from a show "sig_left t < sig_left s" by (rule sig_left_step)
next
  fix s assume "sig_inv ext s" "\<not> sig_ended s"
  then show "\<exists>t. sig_step (insert 0 E) (insert 0 P) s t" by (rule sig_progress) simp_all
qed

text \<open>
  The program by itself, when no call fails; \<open>P\<close> are the values other than 0 that \<open>printf\<close> may leave in
  \<open>errno\<close>.
\<close>

definition sig_quiet :: "int set \<Rightarrow> sig_state \<Rightarrow> bool" where
  "sig_quiet P s \<longleftrightarrow> sg_ext s = [] \<and> sg_errno s \<in> insert 0 P \<and> set (sg_pending s) \<subseteq> {SIGUSR1}
     \<and> HandlerLine \<notin> set (sg_out s)
     \<and> (case sg_main s of SgReport sig \<Rightarrow> sig = SIGUSR1 | SgJoin \<Rightarrow> Received SIGUSR1 \<in> set (sg_out s)
        | SgExit c \<Rightarrow> c = 0 \<and> Received SIGUSR1 \<in> set (sg_out s)
            \<or> c = 1 \<and> SigError ''sigwait'' \<in> set (sg_out s) \<and> (\<exists>e \<in> P. e \<noteq> 0)
        | SgKilled sig \<Rightarrow> False | _ \<Rightarrow> True)"

lemma sig_quiet_main:
  assumes q: "sig_quiet P s" and e: "e \<in> insert 0 P" and step: "sig_main_step 0 e sig s = Some s'"
  shows "sig_quiet P s'"
proof (cases "sg_main s = SgWait")
  case True
  with step have sig: "sig \<in> set (sg_pending s)"
    and s': "s' = (let s = s\<lparr>sg_pending := remove1 sig (sg_pending s)\<rparr>
        in if sg_errno s \<noteq> 0 then sig_fail ''sigwait'' s else s\<lparr>sg_main := SgReport sig\<rparr>)"
    by (simp_all add: sig_main_step_def Let_def split: if_splits)
  have rest: "set (remove1 sig (sg_pending s)) \<subseteq> {SIGUSR1}"
    using q set_remove1_subset by (fastforce simp: sig_quiet_def)
  show ?thesis
  proof (cases "sg_errno s = 0")
    case True
    with q sig rest s' show ?thesis by (auto simp: sig_quiet_def)
  next
    case False
    with q have "\<exists>e \<in> P. e \<noteq> 0" by (auto simp: sig_quiet_def)
    with q rest s' False show ?thesis by (simp add: sig_quiet_def sig_fail_def)
  qed
next
  case False
  with assms show ?thesis
    by (cases "sg_main s") (auto simp: sig_main_step_def sig_quiet_def split: if_splits)
qed

lemma sig_quiet_step:
  assumes "sig_inv [] s \<and> sig_quiet P s" "sig_step {0} (insert 0 P) s s'"
  shows "sig_inv [] s' \<and> sig_quiet P s'"
proof -
  have inv: "sig_inv [] s'" using assms sig_inv_step by blast
  from assms(2) show ?thesis
  proof (rule sig_stepE)
    fix err e sig assume "err \<in> {0}" "e \<in> insert 0 P" "sig_main_step err e sig s = Some s'"
    with assms(1) inv show ?thesis by (auto intro: sig_quiet_main)
  next
    fix err assume a: "\<not> sig_ended s" "err \<in> {0}" "worker_sends err s = Some s'"
    with assms(1) have "sg_worker s \<noteq> WsNew" by (auto simp: worker_sends_def)
    with a(1) assms(1) have m: "sg_mask s = [SIGUSR1, SIGRTMIN]"
      by (cases "sg_main s") (auto simp: sig_inv_def sig_main_ok_def sig_ended_def)
    from a assms(1) m have "sig_quiet P s'"
      by (cases "sg_worker s"; cases "sg_main s") (auto simp: worker_sends_def sig_quiet_def deliver_def sig_ended_def)
    with inv show ?thesis by blast
  next
    fix sig sigs assume "sg_ext s = sig # sigs"
    with assms(1) show ?thesis by (simp add: sig_quiet_def)
  qed
qed

interpretation sig_alone: invariant_system "sig_start []" "sig_step {0} (insert 0 P)" "\<lambda>s. sig_inv [] s \<and> sig_quiet P s" for P
proof unfold_locales
  show "sig_inv [] (sig_start []) \<and> sig_quiet P (sig_start [])"
    using sig_inv_start [of "[]"] by (simp add: sig_quiet_def sig_start_def)
next
  fix s t assume "sig_inv [] s \<and> sig_quiet P s" "sig_step {0} (insert 0 P) s t"
  then show "sig_inv [] t \<and> sig_quiet P t" by (rule sig_quiet_step)
qed

text \<open>
  C12: Whatever calls fail and whatever \<open>printf\<close> leaves in \<open>errno\<close>, the program always ends, in at
  most 14 steps and one for each signal from outside, and a signal ends it only if that signal came
  from outside. The signal the worker sends is not lost: once sent, \<open>main\<close> has taken a signal, or one it
  waits for is pending. Without signals from outside and with no failing call the handler never runs and
  the program ends either with success, having received \<open>SIGUSR1\<close>, or with failure at the test after
  \<open>sigwait\<close>; the latter only if a \<open>printf\<close> has left \<open>errno\<close> different from 0, which \<open>sigwait\<close> does not
  set.
\<close>

theorem signal_reaches_main:
  assumes "reach (sig_start ext) (sig_step (insert 0 E) (insert 0 P)) s"
  shows "(\<exists>s'. reach s (sig_step (insert 0 E) (insert 0 P)) s' \<and> sig_ended s')
    \<and> (\<forall>k s'. (sig_step (insert 0 E) (insert 0 P) ^^ k) (sig_start ext) s' \<longrightarrow> k \<le> 14 + length ext)
    \<and> (\<forall>sig. sg_main s = SgKilled sig \<longrightarrow> sig \<in> set ext)
    \<and> (sg_worker s = WsDone \<and> \<not> sig_ended s \<longrightarrow>
         waited_for s \<or> (\<exists>sig. sg_main s = SgReport sig) \<or> sg_main s = SgJoin)
    \<and> (ext = [] \<and> E = {} \<longrightarrow> HandlerLine \<notin> set (sg_out s)
         \<and> (sig_ended s \<longrightarrow> sg_main s = SgExit 0 \<and> Received SIGUSR1 \<in> set (sg_out s)
              \<or> sg_main s = SgExit 1 \<and> SigError ''sigwait'' \<in> set (sg_out s) \<and> (\<exists>e \<in> P. e \<noteq> 0)))"
proof -
  have inv: "sig_inv ext s" using assms by (rule sig_sys.reach_inv)
  have bound: "k \<le> 14 + length ext" if "(sig_step (insert 0 E) (insert 0 P) ^^ k) (sig_start ext) s'" for k s'
    using sig_sys.run_bounded [OF that] by (simp add: sig_left_def sig_start_def sig_ended_def)
  have kept: "waited_for s \<or> (\<exists>sig. sg_main s = SgReport sig) \<or> sg_main s = SgJoin"
    if "sg_worker s = WsDone" "\<not> sig_ended s"
    using inv that by (cases "sg_main s") (auto simp: sig_inv_def taken_def sig_ended_def)
  have alone: "HandlerLine \<notin> set (sg_out s)
      \<and> (sig_ended s \<longrightarrow> sg_main s = SgExit 0 \<and> Received SIGUSR1 \<in> set (sg_out s)
           \<or> sg_main s = SgExit 1 \<and> SigError ''sigwait'' \<in> set (sg_out s) \<and> (\<exists>e \<in> P. e \<noteq> 0))" if "ext = []" "E = {}"
  proof -
    from assms that have "reach (sig_start []) (sig_step {0} (insert 0 P)) s" by simp
    from sig_alone.reach_inv [OF this] have "sig_quiet P s" ..
    then show ?thesis by (cases "sg_main s") (auto simp: sig_quiet_def sig_ended_def)
  qed
  have "\<forall>sig. sg_main s = SgKilled sig \<longrightarrow> sig \<in> set ext" using inv by (auto simp: sig_inv_def)
  with sig_sys.reaches_final [OF assms] bound kept alone show ?thesis by blast
qed

theorem signal_reaches_main_witness:
  "\<exists>s. reach (sig_start []) (sig_step {0} {0}) s \<and> sg_main s = SgExit 0 \<and> Received SIGUSR1 \<in> set (sg_out s)"
proof -
  obtain s where s: "reach (sig_start []) (sig_step {0} {0}) s" "sig_ended s"
    using signal_reaches_main [of "[]" "{}" "{}", OF reach_init] by blast
  with signal_reaches_main [of "[]" "{}" "{}" s] show ?thesis by blast
qed


section \<open>The test after sigwait\<close>

text \<open>The actions of a schedule: a number that \<open>printf\<close> leaves in \<open>errno\<close> for \<open>main\<close>, or the worker.\<close>

definition sig_act :: "int option \<Rightarrow> sig_state \<Rightarrow> sig_state option" where
  "sig_act l s =
     (case l of
        Some e \<Rightarrow> if e \<in> {0, 25} then sig_main_step 0 e SIGUSR1 s else None
      | None \<Rightarrow> if sig_ended s then None else worker_sends 0 s)"

lemma sig_act_step: "sig_act l s = Some s' \<Longrightarrow> sig_step {0} {0, 25} s s'"
  by (cases l) (auto simp: sig_act_def intro: sig_step.intros split: if_splits)

text \<open>
  No call fails and \<open>SIGUSR1\<close> is received, but the process exits with failure, because the
  \<open>printf\<close> before \<open>sigwait\<close> has left \<open>ENOTTY\<close> (25) in \<open>errno\<close>.
\<close>

lemma sigwait_stale_errno:
  "\<exists>s. reach (sig_start []) (sig_step {0} {0, 25}) s \<and> sg_main s = SgExit 1 \<and> sg_pending s = []
     \<and> sg_out s = [MainId, WaitLine, ThreadStart, ThreadId, SendLine, SigError ''sigwait'']"
proof -
  let ?ls = "replicate 6 (Some 25) @ replicate 5 None @ [Some 0]"
  have "follow sig_act ?ls (sig_start []) \<noteq> None
    \<and> (\<forall>s. follow sig_act ?ls (sig_start []) = Some s \<longrightarrow> sg_main s = SgExit 1 \<and> sg_pending s = []
     \<and> sg_out s = [MainId, WaitLine, ThreadStart, ThreadId, SendLine, SigError ''sigwait''])"
    by (simp add: sig_act_def sig_start_def sig_main_step_def worker_sends_def sig_ended_def sig_print_def
        deliver_def sig_fail_def Let_def numeral_eq_Suc)
  then obtain s where "follow sig_act ?ls (sig_start []) = Some s" and s: "sg_main s = SgExit 1" "sg_pending s = []"
    "sg_out s = [MainId, WaitLine, ThreadStart, ThreadId, SendLine, SigError ''sigwait'']" by blast
  from this(1) have "reach (sig_start []) (sig_step {0} {0, 25}) s" by (rule follow_reach) (rule sig_act_step)
  with s show ?thesis by blast
qed

end
