(* ===== verification/Thread_Basics.thy ===== *)
theory Thread_Basics
  imports Pthread C_Stdio
begin

text \<open>
  The first programs of the course: a thread that is not joined (\<open>01_simple_thread\<close>), threads
  that get their argument by a static table (\<open>02_arguments_adv\<close>), \<open>pthread_exit\<close> deep in a
  recursion (\<open>03_exit\<close>), and the check which thread library is linked (\<open>x_check_nptl_lt\<close>).
\<close>

section \<open>02_arguments_adv\<close>

definition NUM_ARG_THREADS :: nat where
  "NUM_ARG_THREADS = 8"

definition arg_messages :: "string list" where
  "arg_messages = [''1 A'', ''2 B'', ''3 C'', ''4 D'', ''5 E'', ''6 F'', ''7 G'', ''8 H'']"

record arg_thread_data =
  td_thread_id :: int
  td_sum :: int
  td_message :: string

datatype arg_msg = Hello int string int | Creating nat | CreateError int

datatype arg_worker_pc = ANew | AStart | ADone

datatype arg_main_pc = ACreate nat | ALeft | AExit int

record arg_state =
  ag_main :: arg_main_pc
  ag_sum :: int
  ag_data :: "nat \<Rightarrow> arg_thread_data"
  ag_pc :: "tid \<Rightarrow> arg_worker_pc"
  ag_out :: "arg_msg list"

definition arg_start :: arg_state where
  "arg_start = \<lparr>ag_main = ACreate 0, ag_sum = 0, ag_data = (\<lambda>_. \<lparr>td_thread_id = 0, td_sum = 0, td_message = ''''\<rparr>),
     ag_pc = (\<lambda>_. ANew), ag_out = []\<rparr>"

definition arg_worker :: "tid \<Rightarrow> arg_state \<Rightarrow> arg_state option" where
  "arg_worker t s =
     (if ag_pc s t = AStart
      then let my_data = ag_data s t
           in Some (s\<lparr>ag_pc := (ag_pc s)(t := ADone),
                ag_out := ag_out s @ [Hello (td_thread_id my_data) (td_message my_data) (td_sum my_data)]\<rparr>)
      else None)"

definition arg_main :: "int \<Rightarrow> arg_state \<Rightarrow> arg_state option" where
  "arg_main rc s =
     (case ag_main s of
        ACreate t \<Rightarrow>
          Some (if t < NUM_ARG_THREADS then
            let sum = ag_sum s + int t;
                s = s\<lparr>ag_sum := sum,
                      ag_data := (ag_data s)(t := \<lparr>td_thread_id = int t, td_sum = sum, td_message = arg_messages ! t\<rparr>),
                      ag_out := ag_out s @ [Creating t]\<rparr>
            in if rc \<noteq> 0 then s\<lparr>ag_main := AExit (-1), ag_out := ag_out s @ [CreateError rc]\<rparr>
               else s\<lparr>ag_main := ACreate (Suc t), ag_pc := (ag_pc s)(t := AStart)\<rparr>
          else s\<lparr>ag_main := ALeft\<rparr>)
      | _ \<Rightarrow> None)"

text \<open>After \<open>pthread_exit\<close> in \<open>main\<close> the process lives until the last thread ends.\<close>

definition arg_ended :: "arg_state \<Rightarrow> bool" where
  "arg_ended s \<longleftrightarrow> ag_main s = AExit (-1) \<or> ag_main s = ALeft \<and> (\<forall>t < NUM_ARG_THREADS. ag_pc s t = ADone)"

inductive arg_step :: "arg_state \<Rightarrow> arg_state \<Rightarrow> bool" where
  main: "arg_main rc s = Some s' \<Longrightarrow> arg_step s s'"
| worker: "ag_main s \<noteq> AExit (-1) \<Longrightarrow> t < NUM_ARG_THREADS \<Longrightarrow> arg_worker t s = Some s' \<Longrightarrow> arg_step s s'"

inductive_cases arg_stepE: "arg_step s s'"

text \<open>The sum of thread \<open>t\<close> is that of the numbers up to \<open>t\<close>.\<close>

definition arg_line :: "nat \<Rightarrow> arg_msg" where
  "arg_line t = Hello (int t) (arg_messages ! t) (\<Sum>i\<le>t. int i)"

definition arg_thread_ok :: "arg_state \<Rightarrow> tid \<Rightarrow> bool" where
  "arg_thread_ok s t \<longleftrightarrow>
     (ag_pc s t \<noteq> ANew \<longrightarrow>
        ag_data s t = \<lparr>td_thread_id = int t, td_sum = (\<Sum>i\<le>t. int i), td_message = arg_messages ! t\<rparr>)
     \<and> count_list (ag_out s) (arg_line t) = (if ag_pc s t = ADone then 1 else 0)"

definition arg_main_ok :: "arg_state \<Rightarrow> bool" where
  "arg_main_ok s \<longleftrightarrow>
     (case ag_main s of
        ACreate k \<Rightarrow> k \<le> NUM_ARG_THREADS \<and> ag_sum s = (\<Sum>i<k. int i)
            \<and> (\<forall>t < NUM_ARG_THREADS. ag_pc s t = ANew \<longleftrightarrow> k \<le> t)
      | ALeft \<Rightarrow> \<forall>t < NUM_ARG_THREADS. ag_pc s t \<noteq> ANew
      | AExit c \<Rightarrow> c = -1)"

definition arg_inv :: "arg_state \<Rightarrow> bool" where
  "arg_inv s \<longleftrightarrow> (\<forall>t < NUM_ARG_THREADS. arg_thread_ok s t) \<and> arg_main_ok s"

lemma arg_line_inj [simp]: "arg_line t = arg_line u \<longleftrightarrow> t = u"
  by (auto simp: arg_line_def)

lemma arg_line_not [simp]: "arg_line t \<noteq> Creating k" "arg_line t \<noteq> CreateError e"
    "Creating k \<noteq> arg_line t" "CreateError e \<noteq> arg_line t"
  by (simp_all add: arg_line_def)

lemma arg_main_inv:
  assumes "arg_inv s" "arg_main rc s = Some s'"
  shows "arg_inv s'"
proof -
  from assms(2) obtain k where k: "ag_main s = ACreate k" by (cases "ag_main s") (simp_all add: arg_main_def)
  show ?thesis
  proof (cases "k < NUM_ARG_THREADS")
    case True
    from assms(1) k have sm: "ag_sum s = (\<Sum>i<k. int i)" by (simp add: arg_inv_def arg_main_ok_def)
    have sums: "(\<Sum>i<k. int i) + int k = (\<Sum>i\<le>k. int i)" "(\<Sum>i<Suc k. int i) = (\<Sum>i\<le>k. int i)"
      by (simp_all add: lessThan_Suc_atMost [symmetric])
    from assms(1) k True have new: "ag_pc s k = ANew" by (simp add: arg_inv_def arg_main_ok_def)
    have "arg_thread_ok s' t" if "t < NUM_ARG_THREADS" for t
    proof -
      from assms(1) that have "arg_thread_ok s t" by (simp add: arg_inv_def)
      with assms(2) True k sm sums new show ?thesis
        by (cases "t = k"; cases "rc = 0") (auto simp: arg_main_def arg_thread_ok_def Let_def)
    qed
    moreover have "arg_main_ok s'"
      using assms True k sm sums by (cases "rc = 0") (auto simp: arg_main_def arg_inv_def arg_main_ok_def Let_def)
    ultimately show ?thesis by (simp add: arg_inv_def)
  next
    case False
    with assms k show ?thesis by (auto simp: arg_main_def arg_inv_def arg_main_ok_def arg_thread_ok_def)
  qed
qed

lemma arg_worker_inv:
  assumes "arg_inv s" "t < NUM_ARG_THREADS" "arg_worker t s = Some s'"
  shows "arg_inv s'"
proof -
  from assms have s': "s' = s\<lparr>ag_pc := (ag_pc s)(t := ADone), ag_out := ag_out s @ [arg_line t]\<rparr>"
    and pc: "ag_pc s t = AStart"
    by (auto simp: arg_worker_def arg_inv_def arg_thread_ok_def arg_line_def Let_def split: if_splits)
  have "arg_thread_ok s' u" if "u < NUM_ARG_THREADS" for u
  proof -
    from assms(1) that have "arg_thread_ok s u" by (simp add: arg_inv_def)
    with pc show ?thesis by (cases "u = t") (auto simp: s' arg_thread_ok_def)
  qed
  moreover from assms(1,2) pc have "arg_main_ok s'"
    by (cases "ag_main s") (auto simp: s' arg_inv_def arg_main_ok_def)
  ultimately show ?thesis by (simp add: arg_inv_def)
qed

definition arg_left :: "arg_state \<Rightarrow> nat" where
  "arg_left s =
     (case ag_main s of ACreate k \<Rightarrow> Suc (NUM_ARG_THREADS - k) | _ \<Rightarrow> 0)
     + thread_sum NUM_ARG_THREADS (\<lambda>pc. case pc of ANew \<Rightarrow> 1 | AStart \<Rightarrow> 1 | ADone \<Rightarrow> 0) (ag_pc s)"

lemma arg_left_step:
  assumes "arg_inv s" "arg_step s s'"
  shows "arg_left s' < arg_left s"
  using assms(2)
proof (rule arg_stepE)
  let ?w = "\<lambda>pc. case pc of ANew \<Rightarrow> 1 | AStart \<Rightarrow> 1 | ADone \<Rightarrow> (0::nat)"
  fix rc assume m: "arg_main rc s = Some s'"
  then obtain k where k: "ag_main s = ACreate k" by (cases "ag_main s") (simp_all add: arg_main_def)
  show ?thesis
  proof (cases "k < NUM_ARG_THREADS \<and> rc = 0")
    case True
    with assms(1) k have "ag_pc s k = ANew" by (simp add: arg_inv_def arg_main_ok_def)
    with thread_sum_upd [of k NUM_ARG_THREADS ?w "ag_pc s" AStart] True m k show ?thesis
      by (auto simp: arg_main_def arg_left_def Let_def)
  next
    case False
    with m k show ?thesis by (auto simp: arg_main_def arg_left_def Let_def split: if_splits)
  qed
next
  let ?w = "\<lambda>pc. case pc of ANew \<Rightarrow> 1 | AStart \<Rightarrow> 1 | ADone \<Rightarrow> (0::nat)"
  fix t assume t: "t < NUM_ARG_THREADS" "arg_worker t s = Some s'"
  with thread_sum_upd [OF t(1), of ?w "ag_pc s" ADone] show ?thesis
    by (auto simp: arg_worker_def arg_left_def Let_def split: if_splits)
qed

lemma arg_progress:
  assumes "arg_inv s" "\<not> arg_ended s"
  shows "\<exists>s'. arg_step s s'"
proof (cases "ag_main s")
  case (ACreate k)
  then have "\<exists>s'. arg_main 0 s = Some s'" by (simp add: arg_main_def)
  then show ?thesis by (blast intro: arg_step.main)
next
  case ALeft
  with assms(2) obtain t where t: "t < NUM_ARG_THREADS" "ag_pc s t \<noteq> ADone" by (auto simp: arg_ended_def)
  moreover from assms(1) ALeft t(1) have "ag_pc s t \<noteq> ANew" by (simp add: arg_inv_def arg_main_ok_def)
  ultimately have "t < NUM_ARG_THREADS" "ag_pc s t = AStart" by (cases "ag_pc s t"; simp)+
  moreover from this obtain s' where "arg_worker t s = Some s'" by (simp add: arg_worker_def Let_def)
  ultimately have "arg_step s s'" using ALeft by (intro arg_step.worker) simp_all
  then show ?thesis ..
next
  case (AExit c)
  with assms show ?thesis by (simp add: arg_inv_def arg_main_ok_def arg_ended_def)
qed

interpretation arg_sys: terminating_system arg_start arg_step arg_inv arg_left arg_ended
proof unfold_locales
  show "arg_inv arg_start" by (simp add: arg_inv_def arg_thread_ok_def arg_main_ok_def arg_start_def)
next
  fix s t assume a: "arg_inv s" "arg_step s t"
  then show "arg_inv t" by (auto elim!: arg_stepE intro: arg_main_inv arg_worker_inv)
  from a show "arg_left t < arg_left s" by (rule arg_left_step)
next
  fix s assume "arg_inv s" "\<not> arg_ended s"
  then show "\<exists>t. arg_step s t" by (rule arg_progress)
qed

text \<open>
  The program ends, and unless a thread could not be created each of the eight has printed its
  own message and sum, once.
\<close>

lemma arguments_arrive:
  assumes "reach arg_start arg_step s"
  shows "(\<exists>s'. reach s arg_step s' \<and> arg_ended s')
    \<and> (arg_ended s \<and> ag_main s \<noteq> AExit (-1) \<longrightarrow>
         (\<forall>t<8. count_list (ag_out s) (Hello (int t) (arg_messages ! t) (\<Sum>i\<le>t. int i)) = 1))"
proof
  show "\<exists>s'. reach s arg_step s' \<and> arg_ended s'" using assms by (rule arg_sys.reaches_final)
  have "arg_inv s" using assms by (rule arg_sys.reach_inv)
  then show "arg_ended s \<and> ag_main s \<noteq> AExit (-1) \<longrightarrow>
         (\<forall>t<8. count_list (ag_out s) (Hello (int t) (arg_messages ! t) (\<Sum>i\<le>t. int i)) = 1)"
    by (auto simp: arg_inv_def arg_thread_ok_def arg_ended_def arg_line_def NUM_ARG_THREADS_def)
qed


section \<open>03_exit\<close>

text \<open>
  How a call ends: it returns, it ends the thread, or it is undefined because the counter
  overflows. The lines printed come with it.
\<close>

datatype call_end = Returns | Thread_exits | Overflows

definition counter_line :: "int \<Rightarrow> int \<Rightarrow> string" where
  "counter_line counter limit =
     replicate (nat counter) (CHR '' '') @ ''counter = '' @ show_int counter @ '', limit = '' @ show_int limit"

function recursive_worker :: "int \<Rightarrow> int \<Rightarrow> string list \<times> call_end" where
  "recursive_worker counter limit =
     (let line = counter_line counter limit in
      if counter = limit then ([line], Thread_exits)
      else if INT_MAX \<le> counter then ([line], Overflows)
      else case recursive_worker (counter + 1) limit of
             (ls, Returns) \<Rightarrow> (line # ls @ [''finished''], Returns)
           | (ls, e) \<Rightarrow> (line # ls, e))"
  by pat_completeness auto

termination
  by (relation "measure (\<lambda>(counter, limit). nat (INT_MAX - counter))") auto

declare recursive_worker.simps [simp del]

text \<open>\<open>main\<close>: the lines of the thread and the status, for the results of \<open>create\<close> and \<open>join\<close>.\<close>

definition exit_main :: "int \<Rightarrow> int \<Rightarrow> (string list \<times> int) option" where
  "exit_main create_err join_err =
     (if create_err \<noteq> 0 then Some ([''pthread_create''], 1)
      else case recursive_worker 0 5 of
             (ls, Overflows) \<Rightarrow> None
           | (ls, e) \<Rightarrow> if join_err \<noteq> 0 then Some (ls @ [''pthread_join''], 1) else Some (ls, 0))"

text \<open>The calls end the thread at the limit, from the innermost: none of them returns.\<close>

lemma recursive_worker_exits:
  "counter \<le> limit \<Longrightarrow> limit \<le> INT_MAX \<Longrightarrow>
     recursive_worker counter limit = (map (\<lambda>c. counter_line c limit) [counter..limit], Thread_exits)"
proof (induction counter limit rule: recursive_worker.induct)
  case (1 counter limit)
  show ?case
  proof (cases "counter = limit")
    case True
    then show ?thesis by (simp add: recursive_worker.simps [of limit])
  next
    case False
    with 1 have "recursive_worker (counter + 1) limit =
        (map (\<lambda>c. counter_line c limit) [counter + 1..limit], Thread_exits)" by simp
    with False 1 show ?thesis
      by (simp add: recursive_worker.simps [of counter] upto_rec1 [of counter limit])
  qed
qed

lemma recursive_worker_never_returns: "snd (recursive_worker counter limit) \<noteq> Returns"
proof (induction counter limit rule: recursive_worker.induct)
  case (1 counter limit)
  show ?case
  proof (cases "counter = limit \<or> INT_MAX \<le> counter")
    case True
    then show ?thesis by (subst recursive_worker.simps) (auto simp: Let_def)
  next
    case False
    with 1 have "snd (recursive_worker (counter + 1) limit) \<noteq> Returns" by simp
    with False show ?thesis
      by (subst recursive_worker.simps) (auto simp: Let_def split: prod.split call_end.split)
  qed
qed

lemma exit_main_prints: "exit_main 0 0 = Some (map (\<lambda>c. counter_line c 5) [0..5], 0)"
  by (simp add: exit_main_def recursive_worker_exits)

section \<open>01_simple_thread\<close>

datatype simple_msg = WorkerArgument int | ReturnLine int int | ErrorText int

datatype simple_worker_pc = SimpleNew | SimplePrint | SimpleSet | SimpleDone

datatype simple_main_pc = SimpleCreate | SimpleShow | SimpleExit int | SimpleUndefined

record simple_state =
  si_main :: simple_main_pc
  si_worker :: simple_worker_pc
  si_value :: int
  si_out :: "simple_msg list"

definition simple_start :: simple_state where
  "simple_start = \<lparr>si_main = SimpleCreate, si_worker = SimpleNew, si_value = 0, si_out = []\<rparr>"

definition simple_worker :: "simple_state \<Rightarrow> simple_state option" where
  "simple_worker s =
     (case si_worker s of
        SimplePrint \<Rightarrow> Some (s\<lparr>si_worker := SimpleSet, si_out := si_out s @ [WorkerArgument (si_value s)]\<rparr>)
      | SimpleSet \<Rightarrow> Some (s\<lparr>si_worker := SimpleDone, si_value := 42\<rparr>)
      | _ \<Rightarrow> None)"

text \<open>
  \<open>return_value\<close> is never assigned: the call that would do it is commented out. A failing
  \<open>pthread_create\<close> gives a positive number and no thread.
\<close>

definition simple_main :: "int \<Rightarrow> simple_state \<Rightarrow> simple_state option" where
  "simple_main err s =
     (case si_main s of
        SimpleCreate \<Rightarrow>
          Some (if err < 0 then s\<lparr>si_main := SimpleExit 1, si_out := si_out s @ [ErrorText err]\<rparr>
                else s\<lparr>si_main := SimpleShow, si_worker := (if err = 0 then SimplePrint else SimpleNew)\<rparr>)
      | SimpleShow \<Rightarrow>
          (case (use_var None :: (unit, int) exec) of
             Ret r \<Rightarrow> Some (s\<lparr>si_main := SimpleExit 0, si_out := si_out s @ [ReturnLine (si_value s) r]\<rparr>)
           | _ \<Rightarrow> Some (s\<lparr>si_main := SimpleUndefined\<rparr>))
      | _ \<Rightarrow> None)"

inductive simple_step :: "simple_state \<Rightarrow> simple_state \<Rightarrow> bool" where
  main: "0 \<le> err \<Longrightarrow> simple_main err s = Some s' \<Longrightarrow> simple_step s s'"
| worker: "si_main s \<in> {SimpleCreate, SimpleShow} \<Longrightarrow> simple_worker s = Some s' \<Longrightarrow> simple_step s s'"

definition simple_inv :: "simple_state \<Rightarrow> bool" where
  "simple_inv s \<longleftrightarrow> (\<forall>c. si_main s \<noteq> SimpleExit c) \<and> (\<forall>e. ErrorText e \<notin> set (si_out s))"

interpretation simple_sys: invariant_system simple_start simple_step simple_inv
proof unfold_locales
  show "simple_inv simple_start" by (simp add: simple_inv_def simple_start_def)
next
  fix s t assume "simple_inv s" "simple_step s t"
  from this(2,1) show "simple_inv t"
    by (cases rule: simple_step.cases)
      (auto simp: simple_inv_def simple_main_def simple_worker_def use_var_def
        split: simple_main_pc.splits simple_worker_pc.splits)
qed

text \<open>No run ends well or reports an error: whatever the threads do, \<open>main\<close> reads an unset variable.\<close>

lemma simple_thread_undefined:
  assumes "reach simple_start simple_step s" and "\<nexists>s'. simple_step s s'"
  shows "si_main s = SimpleUndefined \<and> (\<forall>e. ErrorText e \<notin> set (si_out s))"
proof -
  have inv: "simple_inv s" using assms(1) by (rule simple_sys.reach_inv)
  have "si_main s \<notin> {SimpleCreate, SimpleShow}"
  proof
    assume "si_main s \<in> {SimpleCreate, SimpleShow}"
    then have "\<exists>s'. simple_main 0 s = Some s'" by (auto simp: simple_main_def use_var_def)
    with assms(2) show False by (blast intro: simple_step.main [of 0])
  qed
  with inv show ?thesis by (cases "si_main s") (auto simp: simple_inv_def)
qed

section \<open>x_check_nptl_lt\<close>

text \<open>
  Process numbers are arguments; \<open>None\<close> for the memory is a failing \<open>malloc\<close>. Nothing is
  tested, so a thread that does not exist leaves \<open>status_ptr\<close> unset.
\<close>

definition obtain_thread_pid :: "bool \<Rightarrow> int \<Rightarrow> (unit, int) exec" where
  "obtain_thread_pid malloc_ok pid = (if malloc_ok then Ret pid else UB)"

definition check_pid :: "int \<Rightarrow> bool \<Rightarrow> int \<Rightarrow> int \<Rightarrow> (unit, string) exec" where
  "check_pid create_err malloc_ok process_pid thread_pid =
     (if create_err \<noteq> 0 then UB
      else exec_bind (obtain_thread_pid malloc_ok thread_pid) (\<lambda>status.
             Ret (if status \<noteq> process_pid then ''This is linked to the LinuxThreads library.''
                  else ''This is linked to the NPTL library.'')))"

lemma check_pid_tells:
  "check_pid e ok p t = Ret ''This is linked to the NPTL library.'' \<longleftrightarrow> e = 0 \<and> ok \<and> t = p"
  by (simp add: check_pid_def obtain_thread_pid_def)

end
