(* ===== verification/Thread_Ends.thy ===== *)
theory Thread_Ends
  imports Pthread
begin

text \<open>
  Two programs about the end of a thread: a child made by \<open>clone\<close> that shares the descriptors
  of its parent (\<open>day2/00_clone-test\<close>), and a C++ thread that is cancelled while it waits on a
  condition variable (\<open>day2/13_cancel/cpp_version\<close>).
\<close>

section \<open>00_clone-test\<close>

datatype clone_flag = SIGCHLD | CLONE_FS | CLONE_FILES | CLONE_SIGHAND | CLONE_VM

definition clone_flags :: "clone_flag list" where
  "clone_flags = [SIGCHLD, CLONE_FS, CLONE_FILES, CLONE_SIGHAND, CLONE_VM]"

text \<open>The child closes the descriptor it is given, in the table it runs on.\<close>

definition threadFunction :: "int \<Rightarrow> int list \<Rightarrow> string list \<times> int list" where
  "threadFunction fd fds = ([''child thread entering'', ''child thread exiting''], removeAll fd fds)"

text \<open>\<open>clone\<close>: the child runs on the table of the parent, or on a copy of it.\<close>

definition clone_child :: "clone_flag list \<Rightarrow> int \<Rightarrow> int list \<Rightarrow> string list \<times> int list" where
  "clone_child flags fd fds =
     (case threadFunction fd fds of (ls, fds') \<Rightarrow> (ls, if CLONE_FILES \<in> set flags then fds' else fds))"

text \<open>
  What the calls answer: the descriptor of \<open>open\<close>, whether \<open>malloc\<close> succeeds, the process of
  \<open>clone\<close> and the result of \<open>waitpid\<close>. The result has the lines printed, the descriptors left
  and the exit status. Nothing but the descriptor being closed makes the write fail.
\<close>

definition clone_main :: "clone_flag list \<Rightarrow> int \<Rightarrow> bool \<Rightarrow> int \<Rightarrow> int \<Rightarrow> int list \<Rightarrow> string list \<times> int list \<times> int" where
  "clone_main flags fd malloc_ok pid waited fds =
     (if fd < 0 then ([''/dev/null''], fds, 1)
      else let fds = fd # fds in
      if \<not> malloc_ok then ([''malloc: could not allocate stack''], fds, 1)
      else if pid = -1 then ([''Creating child thread'', ''clone''], fds, 2)
      else case clone_child flags fd fds of (ls, fds) \<Rightarrow>
        if waited = -1 then (''Creating child thread'' # ls @ [''waitpid''], fds, 3)
        else (''Creating child thread'' # ls
                @ (if fd \<in> set fds then [] else [''Parent: child closed our file descriptor'']), fds, 0))"

text \<open>
  The parent finds its descriptor closed exactly because the table is shared, and then has the
  descriptors it started with; without \<open>CLONE_FILES\<close> it would keep the one it opened.
\<close>

lemma clone_shares_descriptors:
  assumes "0 \<le> fd" "fd \<notin> set fds" "pid \<noteq> -1" "waited \<noteq> -1"
  shows "clone_main flags fd True pid waited fds =
     (if CLONE_FILES \<in> set flags
      then ([''Creating child thread'', ''child thread entering'', ''child thread exiting'',
             ''Parent: child closed our file descriptor''], fds, 0)
      else ([''Creating child thread'', ''child thread entering'', ''child thread exiting''], fd # fds, 0))"
  using assms by (simp add: clone_main_def clone_child_def threadFunction_def Let_def)

lemma clone_program: "0 \<le> fd \<Longrightarrow> fd \<notin> set fds \<Longrightarrow> pid \<noteq> -1 \<Longrightarrow> waited \<noteq> -1 \<Longrightarrow>
    fst (snd (clone_main clone_flags fd True pid waited fds)) = fds"
  by (simp add: clone_shares_descriptors clone_flags_def)

section \<open>13_cancel/cpp_version\<close>

text \<open>
  The thread has number 1. A cancelled wait takes the mutex again before the stack is unwound;
  the handler of the forced unwind rethrows. A wait that returns, which it may without a signal,
  leads to the end of a function that is to return a value.
\<close>

datatype tf_pc = TfNew | TfLock | TfWait | TfWaiting | TfRelock bool | TfUnwinds | TfEnded | TfFallsOff

datatype cpp_main_pc = CppCreate | CppSleep | CppCancel | CppJoin | CppExit

record cpp_state =
  cpp_main :: cpp_main_pc
  cpp_tf :: tf_pc
  cpp_mutex :: mutex
  cpp_pending :: bool
  cpp_undefined :: bool

definition cpp_start :: cpp_state where
  "cpp_start = \<lparr>cpp_main = CppCreate, cpp_tf = TfNew, cpp_mutex = mutex_init NORMAL, cpp_pending = False,
     cpp_undefined = False\<rparr>"

definition tf_step :: "cpp_state \<Rightarrow> cpp_state option" where
  "tf_step s =
     (case cpp_tf s of
        TfLock \<Rightarrow>
          (case mutex_lock 1 (cpp_mutex s) of
             Done m \<Rightarrow> Some (s\<lparr>cpp_tf := TfWait, cpp_mutex := m\<rparr>) | _ \<Rightarrow> None)
      | TfWait \<Rightarrow>
          (case mutex_unlock 1 (cpp_mutex s) of
             Done m \<Rightarrow> Some (s\<lparr>cpp_tf := TfWaiting, cpp_mutex := m\<rparr>) | _ \<Rightarrow> None)
      | TfWaiting \<Rightarrow> if cpp_pending s then Some (s\<lparr>cpp_tf := TfRelock True\<rparr>) else None
      | TfRelock cancelled \<Rightarrow>
          (case mutex_lock 1 (cpp_mutex s) of
             Done m \<Rightarrow> Some (s\<lparr>cpp_tf := (if cancelled then TfUnwinds else TfFallsOff), cpp_mutex := m\<rparr>)
           | _ \<Rightarrow> None)
      | TfUnwinds \<Rightarrow> Some (s\<lparr>cpp_tf := TfEnded\<rparr>)
      | TfFallsOff \<Rightarrow> Some (s\<lparr>cpp_undefined := True\<rparr>)
      | _ \<Rightarrow> None)"

text \<open>\<open>main\<close> tests no result: without a thread the identifier it cancels is unset.\<close>

definition cpp_main_step :: "int \<Rightarrow> cpp_state \<Rightarrow> cpp_state option" where
  "cpp_main_step err s =
     (case cpp_main s of
        CppCreate \<Rightarrow> Some (s\<lparr>cpp_main := CppSleep, cpp_tf := (if err = 0 then TfLock else TfNew)\<rparr>)
      | CppSleep \<Rightarrow> Some (s\<lparr>cpp_main := CppCancel\<rparr>)
      | CppCancel \<Rightarrow>
          Some (if cpp_tf s = TfNew then s\<lparr>cpp_undefined := True\<rparr>
                else s\<lparr>cpp_main := CppJoin, cpp_pending := True\<rparr>)
      | CppJoin \<Rightarrow> if cpp_tf s = TfEnded then Some (s\<lparr>cpp_main := CppExit\<rparr>) else None
      | CppExit \<Rightarrow> None)"

definition cpp_ended :: "cpp_state \<Rightarrow> bool" where
  "cpp_ended s \<longleftrightarrow> cpp_undefined s \<or> cpp_main s = CppExit"

inductive cpp_step :: "cpp_state \<Rightarrow> cpp_state \<Rightarrow> bool" where
  main: "\<not> cpp_ended s \<Longrightarrow> cpp_main_step err s = Some s' \<Longrightarrow> cpp_step s s'"
| thread: "\<not> cpp_ended s \<Longrightarrow> tf_step s = Some s' \<Longrightarrow> cpp_step s s'"
| wakes_up: "\<not> cpp_ended s \<Longrightarrow> cpp_tf s = TfWaiting \<Longrightarrow> cpp_step s (s\<lparr>cpp_tf := TfRelock False\<rparr>)"

inductive_cases cpp_stepE: "cpp_step s s'"

primrec tf_holds :: "tf_pc \<Rightarrow> bool" where
  "tf_holds TfNew = False"
| "tf_holds TfLock = False"
| "tf_holds TfWait = True"
| "tf_holds TfWaiting = False"
| "tf_holds (TfRelock c) = False"
| "tf_holds TfUnwinds = True"
| "tf_holds TfEnded = True"
| "tf_holds TfFallsOff = True"

primrec tf_cancelled :: "tf_pc \<Rightarrow> bool" where
  "tf_cancelled TfNew = False"
| "tf_cancelled TfLock = False"
| "tf_cancelled TfWait = False"
| "tf_cancelled TfWaiting = False"
| "tf_cancelled (TfRelock c) = c"
| "tf_cancelled TfUnwinds = True"
| "tf_cancelled TfEnded = True"
| "tf_cancelled TfFallsOff = False"

definition tf_mutex :: "bool \<Rightarrow> mutex" where
  "tf_mutex held = \<lparr>m_kind = NORMAL, m_owner = (if held then Some 1 else None), m_count = (if held then 1 else 0)\<rparr>"

lemma tf_mutex_calls:
  "mutex_lock (Suc 0) (tf_mutex False) = Done (tf_mutex True)" "mutex_unlock (Suc 0) (tf_mutex True) = Done (tf_mutex False)"
  "mutex_lock t (tf_mutex True) = Block"
  by (simp_all add: tf_mutex_def mutex_lock_def mutex_unlock_def)

definition cpp_inv :: "cpp_state \<Rightarrow> bool" where
  "cpp_inv s \<longleftrightarrow> cpp_mutex s = tf_mutex (tf_holds (cpp_tf s))
     \<and> (case cpp_main s of
          CppCreate \<Rightarrow> cpp_tf s = TfNew
        | CppSleep \<Rightarrow> True
        | CppCancel \<Rightarrow> True
        | CppJoin \<Rightarrow> cpp_pending s \<and> cpp_tf s \<noteq> TfNew
        | CppExit \<Rightarrow> cpp_tf s = TfEnded)
     \<and> (tf_cancelled (cpp_tf s) \<longrightarrow> cpp_pending s)"

definition cpp_left :: "cpp_state \<Rightarrow> nat" where
  "cpp_left s =
     (if cpp_undefined s then 0
      else Suc ((case cpp_main s of CppCreate \<Rightarrow> 4 | CppSleep \<Rightarrow> 3 | CppCancel \<Rightarrow> 2 | CppJoin \<Rightarrow> 1 | CppExit \<Rightarrow> 0)
        + (case cpp_tf s of TfNew \<Rightarrow> 5 | TfLock \<Rightarrow> 5 | TfWait \<Rightarrow> 4 | TfWaiting \<Rightarrow> 3 | TfRelock c \<Rightarrow> 2
             | TfUnwinds \<Rightarrow> 1 | TfFallsOff \<Rightarrow> 1 | TfEnded \<Rightarrow> 0)))"

lemma cpp_inv_start: "cpp_inv cpp_start"
  by (simp add: cpp_inv_def cpp_start_def mutex_init_def tf_mutex_def)

lemma tf_step_inv:
  assumes "cpp_inv s" "cpp_main s \<noteq> CppExit" "tf_step s = Some s'"
  shows "cpp_inv s'" "\<not> cpp_undefined s \<Longrightarrow> cpp_left s' < cpp_left s"
proof -
  from assms have "cpp_inv s' \<and> (\<not> cpp_undefined s \<longrightarrow> cpp_left s' < cpp_left s)"
    by (cases "cpp_tf s"; cases "cpp_main s")
      (auto simp: tf_step_def cpp_inv_def tf_mutex_calls cpp_left_def split: if_splits)
  then show "cpp_inv s'" "\<not> cpp_undefined s \<Longrightarrow> cpp_left s' < cpp_left s" by blast+
qed

lemma cpp_inv_step:
  assumes "cpp_inv s" "cpp_step s s'"
  shows "cpp_inv s'"
  using assms(2)
proof (rule cpp_stepE)
  fix err assume "\<not> cpp_ended s" "cpp_main_step err s = Some s'"
  with assms(1) show ?thesis
    by (cases "cpp_main s") (auto simp: cpp_main_step_def cpp_inv_def cpp_ended_def split: if_splits)
next
  assume "\<not> cpp_ended s" "tf_step s = Some s'"
  with tf_step_inv(1) [OF assms(1)] show ?thesis by (auto simp: cpp_ended_def)
next
  assume "cpp_tf s = TfWaiting" "s' = s\<lparr>cpp_tf := TfRelock False\<rparr>"
  with assms(1) show ?thesis by (cases "cpp_main s") (auto simp: cpp_inv_def)
qed

lemma cpp_left_step:
  assumes "cpp_inv s" "cpp_step s s'"
  shows "cpp_left s' < cpp_left s"
  using assms(2)
proof (rule cpp_stepE)
  fix err assume "\<not> cpp_ended s" "cpp_main_step err s = Some s'"
  with assms(1) show ?thesis
    by (cases "cpp_main s")
      (auto simp: cpp_main_step_def cpp_left_def cpp_ended_def cpp_inv_def split: if_splits)
next
  assume "\<not> cpp_ended s" "tf_step s = Some s'"
  with tf_step_inv(2) [OF assms(1)] show ?thesis by (auto simp: cpp_ended_def)
next
  assume "\<not> cpp_ended s" "cpp_tf s = TfWaiting" "s' = s\<lparr>cpp_tf := TfRelock False\<rparr>"
  then show ?thesis by (simp add: cpp_left_def cpp_ended_def)
qed

lemma cpp_progress:
  assumes "cpp_inv s" "\<not> cpp_ended s"
  shows "\<exists>s'. cpp_step s s'"
proof (cases "cpp_main_step 0 s")
  case (Some s')
  with assms(2) show ?thesis by (blast intro: cpp_step.main)
next
  case None
  with assms(2) have m: "cpp_main s = CppJoin" "cpp_tf s \<noteq> TfEnded"
    by (auto simp: cpp_main_step_def cpp_ended_def split: cpp_main_pc.splits if_splits)
  with assms(1) have "\<exists>s'. tf_step s = Some s'"
    by (cases "cpp_tf s") (auto simp: tf_step_def cpp_inv_def tf_mutex_calls)
  with assms(2) show ?thesis by (blast intro: cpp_step.thread)
qed

interpretation cpp_sys: terminating_system cpp_start cpp_step cpp_inv cpp_left cpp_ended
proof unfold_locales
  show "cpp_inv cpp_start" by (rule cpp_inv_start)
next
  fix s t assume a: "cpp_inv s" "cpp_step s t"
  then show "cpp_inv t" by (rule cpp_inv_step)
  from a show "cpp_left t < cpp_left s" by (rule cpp_left_step)
next
  fix s assume "cpp_inv s" "\<not> cpp_ended s"
  then show "\<exists>t. cpp_step s t" by (rule cpp_progress)
qed

text \<open>
  The program always ends or becomes undefined, and when \<open>main\<close> returns, the thread has ended
  with the mutex in its hands: whoever locked it next would wait for ever.
\<close>

lemma cancelled_wait_keeps_mutex:
  assumes "reach cpp_start cpp_step s"
  shows "(\<exists>s'. reach s cpp_step s' \<and> cpp_ended s')
    \<and> (cpp_main s = CppExit \<longrightarrow> cpp_tf s = TfEnded \<and> (\<forall>t. mutex_lock t (cpp_mutex s) = Block))"
proof
  show "\<exists>s'. reach s cpp_step s' \<and> cpp_ended s'" using assms by (rule cpp_sys.reaches_final)
  have "cpp_inv s" using assms by (rule cpp_sys.reach_inv)
  then show "cpp_main s = CppExit \<longrightarrow> cpp_tf s = TfEnded \<and> (\<forall>t. mutex_lock t (cpp_mutex s) = Block)"
    by (auto simp: cpp_inv_def tf_mutex_calls)
qed

end
