(* ===== verification/Appm_Types.thy ===== *)
theory Appm_Types
  imports Appm_Raw
begin

text \<open>
  What \<open>ReadPPM\<close> returns. For any file whatever: the mode is one of the six, and the table it
  allocates has three bytes for each pixel of the size it returns; each pixel is stored inside
  the table, or the run is undefined. For a raw file with a proper header, comments included:
  it is not undefined, and the table holds the pixels of the file.
\<close>

section \<open>Any file\<close>

text \<open>A loop whose rounds preserve a predicate when they return.\<close>

lemma for_up_keeps:
  assumes "for_up n i body s = Ret t" and "P s" and "\<And>j u v. P u \<Longrightarrow> body j u = Ret v \<Longrightarrow> P v"
  shows "P t"
  using assms(1,2)
proof (induction n arbitrary: i s)
  case 0
  then show ?case by simp
next
  case (Suc n)
  then obtain u where "body i s = Ret u" "for_up n (Suc i) body u = Ret t" by (auto simp: exec_bind_Ret_iff)
  with Suc assms(3) show ?case by blast
qed

text \<open>A round moves the position in the table by a fixed amount.\<close>

lemma for_up_advances:
  assumes "for_up n i body s = Ret t" and "\<And>j u v. body j u = Ret v \<Longrightarrow> f v = f u + (k::nat)"
  shows "f t = f s + n * k"
  using assms(1)
proof (induction n arbitrary: i s)
  case 0
  then show ?case by simp
next
  case (Suc n)
  then obtain u where "body i s = Ret u" "for_up n (Suc i) body u = Ret t" by (auto simp: exec_bind_Ret_iff)
  with Suc.IH [of "Suc i" u] assms(2) [of i s u] show ?case by simp
qed

lemma put_byte_moves:
  "put_byte v s = Ret t \<Longrightarrow> length (rv_img t) = length (rv_img s) \<and> rv_c t = Suc (rv_c s) \<and> rv_c s < length (rv_img s)"
  by (auto simp: put_byte_def exec_bind_Ret_iff array_set_def split: if_splits)

lemma put_pixel_moves:
  assumes "put_pixel s = Ret t"
  shows "length (rv_img t) = length (rv_img s) \<and> rv_c t = rv_c s + 3 \<and> rv_c t \<le> length (rv_img t)"
proof -
  from assms obtain u v where "put_byte (rv_r s) s = Ret u" "put_byte (rv_g u) u = Ret v" "put_byte (rv_b v) v = Ret t"
    by (auto simp: put_pixel_def exec_bind_Ret_iff)
  from this [THEN put_byte_moves] show ?thesis by simp
qed

lemma read_raw_frame: "read_raw mode w j s = Ret t \<Longrightarrow> rv_img t = rv_img s \<and> rv_c t = rv_c s"
  by (auto simp: read_raw_def exec_bind_Ret_iff Let_def split: if_splits prod.splits)

lemma read_ascii_frame: "read_ascii mode s = Ret t \<Longrightarrow> rv_img t = rv_img s \<and> rv_c t = rv_c s"
  by (auto simp: read_ascii_def exec_bind_Ret_iff Let_def split: if_splits)

lemma read_pixel_moves:
  assumes "read_pixel mode w j s = Ret t"
  shows "length (rv_img t) = length (rv_img s) \<and> rv_c t = rv_c s + 3 \<and> rv_c t \<le> length (rv_img t)"
  using assms read_raw_frame read_ascii_frame put_pixel_moves
  by (fastforce simp: read_pixel_def exec_bind_Ret_iff split: if_splits)

lemma read_rows_moves:
  assumes "for_up h 0 (\<lambda>i. for_up w 0 (read_pixel mode width)) s = Ret t"
  shows "length (rv_img t) = length (rv_img s) \<and> rv_c t = rv_c s + h * (w * 3)"
proof
  show "length (rv_img t) = length (rv_img s)"
    by (rule for_up_keeps [OF assms, of "\<lambda>u. length (rv_img u) = length (rv_img s)"])
      (auto elim!: for_up_keeps dest: read_pixel_moves)
  show "rv_c t = rv_c s + h * (w * 3)"
  proof (rule for_up_advances [OF assms, of rv_c])
    fix u v assume "for_up w 0 (read_pixel mode width) u = Ret v"
    then show "rv_c v = rv_c u + w * 3" by (rule for_up_advances) (simp add: read_pixel_moves)
  qed
qed

text \<open>\<open>calloc\<close> decides; the size it is asked for is the one returned.\<close>

lemma read_image_result:
  assumes "read_image calloc mode line inp w0 h0 = Ret (m, w, h, img)"
  shows "m = mode \<and> calloc (3 * h * w) \<and> length img = nat (3 * h * w) \<and> \<bar>3 * h * w\<bar> \<le> 2 ^ 31"
  using assms
  by (auto simp: read_image_def exec_bind_Ret_iff FatalError_def int_value_def split: if_splits
      dest!: read_rows_moves)

lemma read_any_file:
  assumes "ReadPPM calloc f file w0 h0 = Some (Ret (mode, w, h, img))"
  shows "IsValidMode mode \<and> calloc (3 * h * w) \<and> \<bar>3 * h * w\<bar> \<le> 2 ^ 31
    \<and> length img = nat (3 * h * w)"
proof -
  from assms obtain mode' size_line inp3
    where "IsValidMode mode'" "read_image calloc mode' size_line inp3 w0 h0 = Ret (mode, w, h, img)"
    by (auto simp: ReadPPM_def FatalError_def exec_bind_Ret_iff Let_def
        split: option.splits if_splits prod.splits)
  with read_image_result [of calloc] show ?thesis by metis
qed

section \<open>A raw file with a header\<close>

definition comment_lines :: "string list \<Rightarrow> string" where
  "comment_lines cs = concat (map (\<lambda>c. CHR ''#'' # c @ [newline]) cs)"

definition raw_file :: "int \<Rightarrow> string list \<Rightarrow> int \<Rightarrow> int \<Rightarrow> int \<Rightarrow> string \<Rightarrow> string" where
  "raw_file mode cs w h m data =
     ''P'' @ show_int mode @ [newline] @ comment_lines cs @ size_line w h
     @ (if bitmap mode then [] else show_int m @ [newline]) @ data"

text \<open>The components of pixel \<open>k\<close> of an image \<open>w\<close> wide whose data are \<open>d\<close>.\<close>

definition raw_values :: "int \<Rightarrow> nat \<Rightarrow> string \<Rightarrow> nat \<Rightarrow> int \<times> int \<times> int" where
  "raw_values mode w d k =
     (if mode = PPM_RAW then (byte_at d (3 * k), byte_at d (3 * k + 1), byte_at d (3 * k + 2))
      else let v = (if mode = PGM_RAW then byte_at d k else bitmap_value d w (k div w) (k mod w))
           in (v, v, v))"

lemma skip_comment_lines:
  assumes "\<forall>c \<in> set cs. newline \<notin> set c \<and> length c \<le> 253"
    and line: "fgets 256 rest = Some (l, r)" "buffer_at l 0 \<noteq> schar CHR ''#''"
  shows "\<exists>buf inp. fgets 256 (comment_lines cs @ rest) = Some (buf, inp) \<and> skip_comments buf inp = Some (l, r)"
  using assms(1)
proof (induction cs)
  case Nil
  have "skip_comments l r = Some (l, r)" using line(2) by (subst skip_comments.simps) simp
  with line(1) show ?case by (simp add: comment_lines_def)
next
  case (Cons c cs)
  then obtain buf inp where *: "fgets 256 (comment_lines cs @ rest) = Some (buf, inp)" "skip_comments buf inp = Some (l, r)"
    by auto
  have "fgets 256 ((CHR ''#'' # c) @ newline # comment_lines cs @ rest)
      = Some ((CHR ''#'' # c) @ [newline], comment_lines cs @ rest)"
    by (rule fgets_line) (use Cons.prems in \<open>auto simp: newline_def\<close>)
  moreover have "skip_comments ((CHR ''#'' # c) @ [newline]) (comment_lines cs @ rest) = skip_comments buf inp"
    using *(1) by (subst skip_comments.simps) (simp add: buffer_at_def)
  ultimately show ?case using *(2) by (simp add: comment_lines_def)
qed

lemma read_max_header:
  assumes "0 < m" and "m \<le> 255"
  shows "read_max mode ((if bitmap mode then [] else show_int m @ [newline]) @ data) = Ret (pixel_input mode data)"
  using assms scan_var_show0 [of "newline # data" m None]
  by (auto simp: read_max_def pixel_input_def bitmap_def)

lemma read_raw_pixels:
  assumes "RawMode mode" and "0 < w"
  shows "\<exists>s. for_up h 0 (\<lambda>i. for_up w 0 (read_pixel mode (int w))) (read_start d (3 * (h * w))) = Ret s
    \<and> rv_img s = pixels (raw_values mode w d) (h * w)"
proof -
  have "raw_values PPM_RAW w d = (\<lambda>k. (byte_at d (3 * k), byte_at d (3 * k + 1), byte_at d (3 * k + 2)))"
    "raw_values PGM_RAW w d = (\<lambda>k. (byte_at d k, byte_at d k, byte_at d k))"
    "raw_values PBM_RAW w d = (\<lambda>k. let v = grid (bitmap_value d w) w k in (v, v, v))"
    by (rule ext, simp add: raw_values_def mode_defs grid_def Let_def)+
  then show ?thesis
    using assms read_ppm_raw [of h w d] read_pgm_raw [of h w d] read_pbm_raw [of w h d]
    unfolding RawMode_def by auto
qed

lemma read_raw_file:
  assumes mode: "RawMode mode" and cs: "\<forall>c \<in> set cs. newline \<notin> set c \<and> length c \<le> 253"
    and size: "0 < w" "0 < h" "3 * (h * w) \<le> 2147483647" and m: "0 < m" "m \<le> 255"
    and alloc: "calloc (int (3 * (h * w)))"
  shows "ReadPPM calloc f (Some (raw_file mode cs (int w) (int h) m data)) w0 h0 =
    Some (Ret (mode, int w, int h, pixels (raw_values mode w (pixel_input mode data)) (h * w)))"
proof -
  have valid: "IsValidMode mode" using mode by (auto simp: RawMode_def IsValidMode_def)
  have "h \<le> h * w" "w \<le> h * w" using size(1,2) by simp_all
  with size(3) have bounds: "int w \<le> INT_MAX" "int h \<le> INT_MAX" "3 * int h \<le> INT_MAX" by linarith+
  have product: "3 * int h * int w = int (3 * (h * w))" by simp
  have isize: "(int_value (3 * int h * int w) :: (string, int) exec) = Ret (int (3 * (h * w)))"
    unfolding product by (rule int_value_Ret) (use size(3) in linarith)+
  have nat3: "nat (3 * (int h * int w)) = 3 * (h * w)" by (simp add: nat_mult_distrib)
  let ?max = "if bitmap mode then [] else show_int m @ [newline]"
  let ?d = "pixel_input mode data"
  note line = fgets_size_line [of "int w" "int h", OF _ bounds(1) _ bounds(2)]
  obtain buf inp where skip: "fgets 256 (comment_lines cs @ size_line (int w) (int h) @ ?max @ data) = Some (buf, inp)"
    "skip_comments buf inp = Some (size_line (int w) (int h), ?max @ data)"
    using skip_comment_lines [OF cs line(1,2)] by fastforce
  obtain s where s: "for_up h 0 (\<lambda>i. for_up w 0 (read_pixel mode (int w))) (read_start ?d (3 * (h * w))) = Ret s"
    "rv_img s = pixels (raw_values mode w ?d) (h * w)" using read_raw_pixels [OF mode size(1)] by blast
  have image: "read_image calloc mode (size_line (int w) (int h)) (?max @ data) w0 h0
      = Ret (mode, int w, int h, rv_img s)"
    unfolding read_image_def read_max_header [OF m]
    using scan_size_line [of "int w" "int h", OF _ bounds(1) _ bounds(2)] line(3) isize alloc bounds(3) s(1)
    by (simp add: int_value_Ret read_start_def nat3)
  have "buffer_at [CHR ''P'', digit_char (nat mode), newline] 1 - 48 = mode"
    "buffer_at [CHR ''P'', digit_char (nat mode), newline] 0 = schar CHR ''P''"
    using valid_mode_range [OF valid] schar_digit [of "nat mode"] by (simp_all add: buffer_at_def)
  then show ?thesis
    unfolding raw_file_def ReadPPM_def option.simps first_line [OF valid]
    using skip image s(2) valid by simp
qed

section \<open>Properties\<close>


text \<open>
  Two comments, two rows of three pixels, and data that end after four bytes; and a file with
  two negative sizes, whose one pixel is whatever \<open>calloc\<close> gave.
\<close>

definition negative_file :: string where
  "negative_file = ''P6'' @ [newline] @ ''-1 -1'' @ [newline] @ ''255'' @ [newline]"

lemma negative_file_read:
  "ReadPPM (\<lambda>n. 0 \<le> n) ''a'' (Some negative_file) None None = Some (Ret (6, -1, -1, [0, 0, 0]))"
  by code_simp

definition short_data :: string where
  "short_data = map byte_char [1, 2, 3, 200]"

lemma short_data_pixels:
  "pixels (raw_values PGM_RAW 3 (pixel_input PGM_RAW short_data)) (2 * 3)
    = [1, 1, 1, 2, 2, 2, 3, 3, 3, 200, 200, 200, 255, 255, 255, 255, 255, 255]"
  by code_simp


end
