(* ===== verification/Queue_Atomic.thy ===== *)
theory Queue_Atomic
  imports Queue_Threads
begin

text \<open>
  The queue under interleaving (\<open>Queue_Threads\<close>) implements the queue whose methods run in one
  step (\<open>Safe_Queue\<close>): each call of a method takes effect at one moment between its begin and
  its end, with the state and the result of the method when nobody interferes. In the
  abstract system a thread asks for a call, the call is done in one step by the sequential
  method, and the thread takes the answer.
\<close>

section \<open>Calls in one step\<close>

datatype 'a tsq_result = Pushed | Popped 'a | Tried "'a option" | Emptiness bool

definition atomic_call :: "tid \<Rightarrow> 'a tsq_call \<Rightarrow> 'a tsq \<Rightarrow> ('a tsq_result \<times> 'a tsq) outcome" where
  "atomic_call t c q =
     (case c of
        Call_push x \<Rightarrow> and_then (tsq_push t x q) (\<lambda>q'. Done (Pushed, q'))
      | Call_pop \<Rightarrow> and_then (tsq_pop t q) (\<lambda>(x, q'). Done (Popped x, q'))
      | Call_try_pop \<Rightarrow> and_then (tsq_try_pop t q) (\<lambda>(r, q'). Done (Tried r, q'))
      | Call_is_empty \<Rightarrow> and_then (tsq_is_empty t q) (\<lambda>(e, q'). Done (Emptiness e, q')))"

datatype 'a caller = Outside | Asked "'a tsq_call" | Answered "'a tsq_result"

record 'a aqueue =
  aq_queue :: "'a tsq"
  aq_caller :: "tid \<Rightarrow> 'a caller"

text \<open>The methods of a class, each as one step.\<close>

type_synonym 'a methods = "tid \<Rightarrow> 'a tsq_call \<Rightarrow> 'a tsq \<Rightarrow> ('a tsq_result \<times> 'a tsq) outcome"

definition aq_start :: "'a tsq \<Rightarrow> 'a aqueue" where
  "aq_start q = \<lparr>aq_queue = q, aq_caller = (\<lambda>t. Outside)\<rparr>"

inductive aq_step :: "'a methods \<Rightarrow> nat \<Rightarrow> 'a aqueue \<Rightarrow> 'a aqueue \<Rightarrow> bool" for call_of n where
  ask: "t < n \<Longrightarrow> aq_caller s t = Outside \<Longrightarrow> aq_step call_of n s (s\<lparr>aq_caller := (aq_caller s)(t := Asked c)\<rparr>)"
| perform: "t < n \<Longrightarrow> aq_caller s t = Asked c \<Longrightarrow> call_of t c (aq_queue s) = Done (r, q) \<Longrightarrow>
    aq_step call_of n s (s\<lparr>aq_queue := q, aq_caller := (aq_caller s)(t := Answered r)\<rparr>)"
| answer: "t < n \<Longrightarrow> aq_caller s t = Answered r \<Longrightarrow>
    aq_step call_of n s (s\<lparr>aq_caller := (aq_caller s)(t := Outside)\<rparr>)"

text \<open>The calls of a run in the order they were done, each by the sequential method on what the last left.\<close>

fun replay :: "'a methods \<Rightarrow> (tid \<times> 'a tsq_call \<times> 'a tsq_result) list \<Rightarrow> 'a tsq \<Rightarrow> 'a tsq outcome" where
  "replay call_of [] q = Done q"
| "replay call_of ((t, c, r) # log) q =
     and_then (call_of t c q) (\<lambda>(r', q'). if r' = r then replay call_of log q' else Undefined)"

lemma replay_snoc:
  "replay call_of log q = Done q' \<Longrightarrow> call_of t c q' = Done (r, q'') \<Longrightarrow>
   replay call_of (log @ [(t, c, r)]) q = Done q''"
proof (induction log arbitrary: q)
  case (Cons e log)
  obtain u d r' where e: "e = (u, d, r')" by (cases e)
  from Cons.prems(1) obtain q1 where "call_of u d q = Done (r', q1)" "replay call_of log q1 = Done q'"
    by (cases "call_of u d q") (auto simp: e split: if_splits)
  with Cons.IH [OF _ Cons.prems(2)] show ?case by (simp add: e)
qed simp

definition last_call :: "tid \<Rightarrow> (tid \<times> 'a tsq_call \<times> 'a tsq_result) list \<Rightarrow> ('a tsq_call \<times> 'a tsq_result) option" where
  "last_call t log = map_of (rev log) t"

lemma last_call_simps [simp]:
  "last_call t [] = None"
  "last_call t (log @ [(u, e)]) = (if t = u then Some e else last_call t log)"
  by (simp_all add: last_call_def)

lemma aq_replay:
  assumes "reach (aq_start q0) (aq_step call_of n) s"
  shows "\<exists>log. replay call_of log q0 = Done (aq_queue s)
    \<and> (\<forall>t r. aq_caller s t = Answered r \<longrightarrow> (\<exists>c. last_call t log = Some (c, r)))"
  using assms
proof (induction rule: reach.induct)
  case reach_init
  show ?case by (auto simp: aq_start_def intro!: exI [of _ "[]"])
next
  case (reach_step s s')
  then obtain log where log: "replay call_of log q0 = Done (aq_queue s)"
    "\<forall>t r. aq_caller s t = Answered r \<longrightarrow> (\<exists>c. last_call t log = Some (c, r))" by blast
  from reach_step(2) show ?case
  proof cases
    case (perform t c r q)
    with log replay_snoc [OF log(1) perform(4)] show ?thesis
      by (intro exI [of _ "log @ [(t, c, r)]"]) auto
  qed (use log in \<open>auto split: if_splits\<close>)
qed

section \<open>The moment a call takes effect\<close>

text \<open>
  A \<open>push\<close>, and a \<open>pop\<close> that finds an item, take effect when they change the items; a
  \<open>try_pop\<close> that finds none, and \<open>is_empty\<close>, when they look at them.
\<close>

fun caller_of :: "'a tsq_pc \<Rightarrow> 'a caller" where
  "caller_of Idle = Outside"
| "caller_of (P_Unlock x) = Answered (Popped x)"
| "caller_of T_Lock = Asked Call_try_pop" | "caller_of T_EmptyLock = Asked Call_try_pop"
| "caller_of T_EmptyTest = Asked Call_try_pop"
| "caller_of (T_EmptyUnlock e) = (if e then Answered (Tried None) else Asked Call_try_pop)"
| "caller_of T_Front = Asked Call_try_pop" | "caller_of (T_Pop x) = Asked Call_try_pop"
| "caller_of (T_Unlock r) = Answered (Tried r)"
| "caller_of (U_Lock x) = Asked (Call_push x)" | "caller_of (U_Enq x) = Asked (Call_push x)"
| "caller_of U_Unlock = Answered Pushed" | "caller_of U_Signal = Answered Pushed"
| "caller_of E_Lock = Asked Call_is_empty" | "caller_of E_Test = Asked Call_is_empty"
| "caller_of (E_Unlock e) = Answered (Emptiness e)"
| "caller_of _ = Asked Call_pop"

definition free_queue :: "'a list \<Rightarrow> 'a tsq" where
  "free_queue xs = \<lparr>tq_items = xs, tq_mtx = mutex_init RECURSIVE\<rparr>"

definition qsys_abs :: "'a qsys \<Rightarrow> 'a aqueue" where
  "qsys_abs s = \<lparr>aq_queue = free_queue (qs_items s), aq_caller = (\<lambda>t. caller_of (qs_pc s t))\<rparr>"

lemma free_queue_calls:
  "tsq_push t x (free_queue xs) = Done (free_queue (xs @ [x]))"
  "tsq_pop t (free_queue (x # xs)) = Done (x, free_queue xs)"
  "tsq_pop t (free_queue []) = Block"
  "tsq_try_pop t (free_queue []) = Done (None, free_queue [])"
  "tsq_try_pop t (free_queue (x # xs)) = Done (Some x, free_queue xs)"
  "tsq_is_empty t (free_queue xs) = Done (xs = [], free_queue xs)"
  by (simp_all add: free_queue_def tsq_push_def tsq_pop_def tsq_try_pop_def tsq_is_empty_def queue_eval)

lemma caller_of_entry [simp]: "caller_of (tsq_entry c) = Asked c"
  by (cases c) simp_all

lemma qsys_abs_upd:
  "qs_pc s' = (qs_pc s)(t := p) \<Longrightarrow> qsys_abs s' =
     (qsys_abs s)\<lparr>aq_queue := free_queue (qs_items s'), aq_caller := (aq_caller (qsys_abs s))(t := caller_of p)\<rparr>"
  by (auto simp: qsys_abs_def)

text \<open>What a statement does to the thread and the items, seen from outside.\<close>

lemma tsq_exec_effect:
  assumes "tsq_exec t s = Some s'" and "knows (qs_items s) (qs_pc s t)"
  obtains p where "qs_pc s' = (qs_pc s)(t := p)"
    "caller_of p = caller_of (qs_pc s t) \<and> qs_items s' = qs_items s
     \<or> (\<exists>c r. caller_of (qs_pc s t) = Asked c \<and> caller_of p = Answered r
          \<and> atomic_call t c (free_queue (qs_items s)) = Done (r, free_queue (qs_items s')))
     \<or> (\<exists>r. caller_of (qs_pc s t) = Answered r \<and> p = Idle) \<and> qs_items s' = qs_items s"
  using assms
  by (cases "qs_pc s t")
    (auto simp: tsq_exec_def on_mutex_def atomic_call_def free_queue_calls neq_Nil_conv
      split: outcome.splits list.splits)

lemma same_caller: "p = caller_of (qs_pc s t) \<Longrightarrow> xs = qs_items s \<Longrightarrow>
   (qsys_abs s)\<lparr>aq_queue := free_queue xs, aq_caller := (aq_caller (qsys_abs s))(t := p)\<rparr> = qsys_abs s"
  by (auto simp: qsys_abs_def)

text \<open>A thread that waits, or that is not inside a method, may move on without being seen.\<close>

lemma abs_goto:
  "caller_of p = caller_of (qs_pc s t) \<Longrightarrow> qsys_abs (goto t p s) = qsys_abs s"
  by (auto simp: qsys_abs_def)

lemma abs_return:
  assumes "t < n" "caller_of (qs_pc s t) = Answered r"
  shows "aq_step atomic_call n (qsys_abs s) (qsys_abs (goto t Idle s))"
proof -
  have "qsys_abs (goto t Idle s) = (qsys_abs s)\<lparr>aq_caller := (aq_caller (qsys_abs s))(t := Outside)\<rparr>"
    by (auto simp: qsys_abs_def)
  with aq_step.answer [OF assms(1), of "qsys_abs s" r atomic_call] assms(2) show ?thesis by (simp add: qsys_abs_def)
qed

lemma abs_exec:
  assumes "t < n" "tsq_exec t s = Some s'" "knows (qs_items s) (qs_pc s t)"
  shows "qsys_abs s' = qsys_abs s \<or> aq_step atomic_call n (qsys_abs s) (qsys_abs s')"
proof -
  from tsq_exec_effect [OF assms(2,3)] obtain p where pc: "qs_pc s' = (qs_pc s)(t := p)"
    and eff: "caller_of p = caller_of (qs_pc s t) \<and> qs_items s' = qs_items s
     \<or> (\<exists>c r. caller_of (qs_pc s t) = Asked c \<and> caller_of p = Answered r
          \<and> atomic_call t c (free_queue (qs_items s)) = Done (r, free_queue (qs_items s')))
     \<or> (\<exists>r. caller_of (qs_pc s t) = Answered r \<and> p = Idle) \<and> qs_items s' = qs_items s" by blast
  have abs: "qsys_abs s' = (qsys_abs s)\<lparr>aq_queue := free_queue (qs_items s'),
      aq_caller := (aq_caller (qsys_abs s))(t := caller_of p)\<rparr>" using pc by (rule qsys_abs_upd)
  have at: "aq_caller (qsys_abs s) t = caller_of (qs_pc s t)" "aq_queue (qsys_abs s) = free_queue (qs_items s)"
    by (simp_all add: qsys_abs_def)
  from eff show ?thesis
  proof (elim disjE exE conjE)
    assume "caller_of p = caller_of (qs_pc s t)" "qs_items s' = qs_items s"
    then have "qsys_abs s' = qsys_abs s" unfolding abs by (rule same_caller)
    then show ?thesis ..
  next
    fix c r
    assume "caller_of (qs_pc s t) = Asked c" "caller_of p = Answered r"
      "atomic_call t c (free_queue (qs_items s)) = Done (r, free_queue (qs_items s'))"
    then show ?thesis unfolding abs
      using aq_step.perform [OF assms(1), of "qsys_abs s" c atomic_call r "free_queue (qs_items s')"] at by simp
  next
    fix r
    assume "qs_items s' = qs_items s" "caller_of (qs_pc s t) = Answered r" "p = Idle"
    then have "qsys_abs s' = qsys_abs (goto t Idle s)" using abs qsys_abs_upd [of "goto t Idle s" s t Idle] by simp
    with abs_return [OF assms(1) \<open>caller_of (qs_pc s t) = Answered r\<close>] show ?thesis by simp
  qed
qed

lemma abs_run:
  assumes "fifo_inv n s" "qsys_run n s s'"
  shows "qsys_abs s' = qsys_abs s \<or> aq_step atomic_call n (qsys_abs s) (qsys_abs s')"
  using assms(2)
proof cases
  case (exec t)
  moreover from exec(1) assms(1) have "knows (qs_items s) (qs_pc s t)" by (simp add: fifo_inv_def)
  ultimately show ?thesis by (rule abs_exec)
next
  case (signal t u)
  then have "qsys_abs (goto u P_Reacq (goto t Idle s)) = qsys_abs (goto t Idle s)" by (intro abs_goto) auto
  moreover have "aq_step atomic_call n (qsys_abs s) (qsys_abs (goto t Idle s))"
    using signal by (intro abs_return) simp_all
  ultimately show ?thesis using signal by simp
next
  case (no_signal t)
  then show ?thesis using abs_return [of t n s Pushed] by simp
qed

lemma abs_any_step:
  assumes "qsys_inv n s" "qsys_step n s s'"
  shows "qsys_abs s' = qsys_abs s \<or> aq_step atomic_call n (qsys_abs s) (qsys_abs s')"
  using assms(2)
proof cases
  case run
  with assms(1) show ?thesis by (intro abs_run) (simp_all add: qsys_inv_def)
next
  case (call t c)
  then have "qsys_abs s' = (qsys_abs s)\<lparr>aq_caller := (aq_caller (qsys_abs s))(t := Asked c)\<rparr>"
    by (auto simp: qsys_abs_def)
  with call aq_step.ask [of t n "qsys_abs s" atomic_call c] show ?thesis by (simp add: qsys_abs_def)
next
  case (spurious t)
  then have "qsys_abs s' = qsys_abs s" using abs_goto [of P_Reacq s t] by simp
  then show ?thesis ..
qed

interpretation qsys_atomic: refinement_system qsys_start "qsys_step n" "qsys_inv n" "aq_start tsq_ctor" "aq_step atomic_call n" qsys_abs
  for n
proof unfold_locales
  show "qsys_abs qsys_start = aq_start tsq_ctor"
    by (simp add: qsys_abs_def qsys_start_def aq_start_def tsq_ctor_def free_queue_def)
qed (rule abs_any_step)

section \<open>Properties\<close>

text \<open>
  C2: \<open>thread_safe_queue\<close> is linearizable. Each step of the threads inside its methods is, seen
  from outside, nothing, or the begin of a call, or a whole call done at once by the
  sequential method on an idle queue, or its end. So at any time the calls done so far, in
  some order, are a sequential run of the methods from the constructor on that leaves the
  items the queue has, and a call that is about to return returns what it got there.
\<close>

theorem queue_linearizable:
  assumes "reach qsys_start (qsys_step n) s"
  shows "(qsys_step n s s' \<longrightarrow> qsys_abs s' = qsys_abs s \<or> aq_step atomic_call n (qsys_abs s) (qsys_abs s'))
    \<and> reach (aq_start tsq_ctor) (aq_step atomic_call n) (qsys_abs s)
    \<and> (\<exists>log. replay atomic_call log tsq_ctor = Done (free_queue (qs_items s))
         \<and> (\<forall>t r. caller_of (qs_pc s t) = Answered r \<longrightarrow> (\<exists>c. last_call t log = Some (c, r))))"
proof (intro conjI impI)
  show abs: "reach (aq_start tsq_ctor) (aq_step atomic_call n) (qsys_abs s)" using assms by (rule qsys_atomic.reach_abs)
  show "qsys_abs s' = qsys_abs s \<or> aq_step atomic_call n (qsys_abs s) (qsys_abs s')" if "qsys_step n s s'"
    using qsys_sys.reach_inv [OF assms] that by (rule abs_any_step)
  show "\<exists>log. replay atomic_call log tsq_ctor = Done (free_queue (qs_items s))
      \<and> (\<forall>t r. caller_of (qs_pc s t) = Answered r \<longrightarrow> (\<exists>c. last_call t log = Some (c, r)))"
    using aq_replay [OF abs] by (simp add: qsys_abs_def)
qed

text \<open>A push by thread 0 that has put its item in and has still to signal.\<close>

theorem queue_linearizable_witness:
  "\<exists>log. replay atomic_call log tsq_ctor = Done (free_queue [7 :: int]) \<and> (\<exists>c. last_call 0 log = Some (c, Pushed))"
proof -
  let ?s1 = "goto 0 (tsq_entry (Call_push (7::int))) qsys_start"
  let ?m = "(mutex_init RECURSIVE)\<lparr>m_owner := Some 0, m_count := 1\<rparr>"
  let ?s2 = "(goto 0 (U_Enq 7) ?s1)\<lparr>qs_mtx := ?m\<rparr>"
  let ?s3 = "(goto 0 U_Unlock ?s2)\<lparr>qs_items := [7], qs_pushed := [7]\<rparr>"
  have "qsys_step 2 qsys_start ?s1" by (rule qsys_step.call) (simp_all add: qsys_start_def)
  moreover have "qsys_step 2 ?s1 ?s2"
    by (rule qsys_step.run, rule qsys_run.exec [of 0])
      (simp_all add: tsq_exec_def on_mutex_def qsys_start_def mutex_eval)
  moreover have "qsys_step 2 ?s2 ?s3"
    by (rule qsys_step.run, rule qsys_run.exec [of 0]) (simp_all add: tsq_exec_def qsys_start_def)
  ultimately have r: "reach qsys_start (qsys_step 2) ?s3" by (blast intro: reach_init reach_step)
  have "caller_of (qs_pc ?s3 0) = Answered Pushed" "qs_items ?s3 = [7]" by simp_all
  with queue_linearizable [OF r] show ?thesis by metis
qed

end
