(* ===== verification/Queue_Machine.thy ===== *)
theory Queue_Machine
  imports Thread_Pool Queue_Atomic
begin

text \<open>
  The pool's loop over a queue whose calls are not single steps: the threads are inside \<open>pop\<close>
  and \<open>push\<close> of a queue given by its steps (\<open>call_machine\<close>), interleaved anyhow. The system is
  shown to implement the pool of \<open>Thread_Pool\<close>, whose calls are single steps, and to end. It is
  proved once over the interface; the thread pool (\<open>Pool_Queue\<close>) and the active object
  (\<open>Active_Pool\<close>) are its two instances.
\<close>

section \<open>The workers, the owner and the queue\<close>

text \<open>
  What the queue says of a thread is its status: outside, inside a call that is still to take
  effect, or with a result it is about to return. The owner has the number \<open>n\<close>, after the
  workers'.
\<close>

type_synonym ('q, 'a) status = "tid \<Rightarrow> 'q \<Rightarrow> 'a caller"

record ('q, 'f) cpool =
  cp_queue :: 'q
  cp_worker :: "tid \<Rightarrow> 'f pool_worker_pc"
  cp_main :: "'f pool_main_pc"
  cp_log :: "(tid \<times> 'f) list"

text \<open>\<open>pop\<close> returns with a task, or with an empty one; \<open>push\<close> returns.\<close>

fun pop_returns :: "'f option caller \<Rightarrow> 'f pool_worker_pc \<Rightarrow> 'f pool_worker_pc" where
  "pop_returns (Answered (Popped (Some f))) w = K_Run f"
| "pop_returns (Answered (Popped None)) w = K_Exit"
| "pop_returns _ w = w"

fun push_returns :: "'f pool_main_pc \<Rightarrow> 'f pool_main_pc" where
  "push_returns (M_Add (f # fs)) = M_Add fs"
| "push_returns (M_Stop i) = M_Stop (Suc i)"
| "push_returns m = m"

text \<open>What the owner pushes next, if anything.\<close>

fun next_push :: "nat \<Rightarrow> 'f pool_main_pc \<Rightarrow> 'f option option" where
  "next_push n (M_Add (f # fs)) = Some (Some f)"
| "next_push n (M_Stop i) = (if i < n then Some None else None)"
| "next_push n _ = None"

text \<open>A thread inside a call has made a step, which has left the queue \<open>q\<close>: who is outside now has returned.\<close>

definition cpool_inside :: "('q, 'f option) status \<Rightarrow> nat \<Rightarrow> 'q \<Rightarrow> ('q, 'f) cpool \<Rightarrow> ('q, 'f) cpool" where
  "cpool_inside status n q s =
     s\<lparr>cp_queue := q,
       cp_worker := (\<lambda>t. if t < n \<and> status t q = Outside then pop_returns (status t (cp_queue s)) (cp_worker s t)
                         else cp_worker s t),
       cp_main := (if status n q = Outside \<and> status n (cp_queue s) \<noteq> Outside then push_returns (cp_main s)
                   else cp_main s)\<rparr>"

text \<open>A worker and the owner outside the queue; \<open>enter\<close> begins a call.\<close>

definition cpool_worker ::
  "(tid \<Rightarrow> 'f option tsq_call \<Rightarrow> 'q \<Rightarrow> 'q) \<Rightarrow> tid \<Rightarrow> ('q, 'f) cpool \<Rightarrow> ('q, 'f) cpool option" where
  "cpool_worker enter t s =
     (case cp_worker s t of
        K_Pop \<Rightarrow> Some (s\<lparr>cp_queue := enter t Call_pop (cp_queue s)\<rparr>)
      | K_Run f \<Rightarrow> Some (s\<lparr>cp_worker := (cp_worker s)(t := K_Pop), cp_log := cp_log s @ [(t, f)]\<rparr>)
      | K_Exit \<Rightarrow> None)"

definition cpool_owner ::
  "(tid \<Rightarrow> 'f option tsq_call \<Rightarrow> 'q \<Rightarrow> 'q) \<Rightarrow> nat \<Rightarrow> ('q, 'f) cpool \<Rightarrow> ('q, 'f) cpool option" where
  "cpool_owner enter n s =
     (case next_push n (cp_main s) of
        Some x \<Rightarrow> Some (s\<lparr>cp_queue := enter n (Call_push x) (cp_queue s)\<rparr>)
      | None \<Rightarrow>
          (case cp_main s of
             M_Add _ \<Rightarrow> Some (s\<lparr>cp_main := M_Stop 0\<rparr>)
           | M_Stop _ \<Rightarrow> Some (s\<lparr>cp_main := M_Join 0\<rparr>)
           | M_Join i \<Rightarrow>
               (if i < n
                then if cp_worker s i = K_Exit then Some (s\<lparr>cp_main := M_Join (Suc i)\<rparr>) else None
                else Some (s\<lparr>cp_main := M_Done\<rparr>))
           | M_Done \<Rightarrow> None))"

inductive queued_run ::
  "(nat \<Rightarrow> 'q \<Rightarrow> 'q \<Rightarrow> bool) \<Rightarrow> (tid \<Rightarrow> 'f option tsq_call \<Rightarrow> 'q \<Rightarrow> 'q) \<Rightarrow> ('q, 'f option) status \<Rightarrow> nat \<Rightarrow>
   ('q, 'f) cpool \<Rightarrow> ('q, 'f) cpool \<Rightarrow> bool" for qrun enter status n where
  inside: "qrun (Suc n) (cp_queue s) q \<Longrightarrow> queued_run qrun enter status n s (cpool_inside status n q s)"
| worker: "t < n \<Longrightarrow> status t (cp_queue s) = Outside \<Longrightarrow> cpool_worker enter t s = Some s' \<Longrightarrow>
    queued_run qrun enter status n s s'"
| owner: "status n (cp_queue s) = Outside \<Longrightarrow> cpool_owner enter n s = Some s' \<Longrightarrow>
    queued_run qrun enter status n s s'"

text \<open>All steps: also spurious wake-ups, which the queue has of itself.\<close>

inductive queued_step ::
  "(nat \<Rightarrow> 'q \<Rightarrow> 'q \<Rightarrow> bool) \<Rightarrow> (nat \<Rightarrow> 'q \<Rightarrow> 'q \<Rightarrow> bool) \<Rightarrow> (tid \<Rightarrow> 'f option tsq_call \<Rightarrow> 'q \<Rightarrow> 'q) \<Rightarrow>
   ('q, 'f option) status \<Rightarrow> nat \<Rightarrow> ('q, 'f) cpool \<Rightarrow> ('q, 'f) cpool \<Rightarrow> bool"
  for qrun spurious enter status n where
  run: "queued_run qrun enter status n s s' \<Longrightarrow> queued_step qrun spurious enter status n s s'"
| spurious: "spurious (Suc n) (cp_queue s) q \<Longrightarrow> queued_step qrun spurious enter status n s (s\<lparr>cp_queue := q\<rparr>)"

definition queued_start :: "'q \<Rightarrow> 'f list \<Rightarrow> ('q, 'f) cpool" where
  "queued_start q fs = \<lparr>cp_queue = q, cp_worker = (\<lambda>t. K_Pop), cp_main = M_Add fs, cp_log = []\<rparr>"

definition cpool_closed :: "('q, 'f) cpool \<Rightarrow> bool" where
  "cpool_closed s \<longleftrightarrow> cp_main s = M_Done"

section \<open>The abstraction\<close>

definition tasks_of :: "'f option list \<Rightarrow> 'f list" where
  "tasks_of xs = concat (map (\<lambda>x. case x of None \<Rightarrow> [] | Some f \<Rightarrow> [f]) xs)"

definition cpool_view ::
  "('q, 'f option) status \<Rightarrow> ('q \<Rightarrow> 'f option list) \<Rightarrow> ('q \<Rightarrow> 'f option list) \<Rightarrow> ('f option list \<Rightarrow> 'p) \<Rightarrow> nat \<Rightarrow>
   ('q, 'f) cpool \<Rightarrow> ('p, 'f) pool" where
  "cpool_view status items popped free n s =
     \<lparr>pl_queue = free (items (cp_queue s)),
      pl_worker = (\<lambda>t. pop_returns (status t (cp_queue s)) (cp_worker s t)),
      pl_main = (if status n (cp_queue s) = Answered Pushed then push_returns (cp_main s) else cp_main s),
      pl_taken = tasks_of (popped (cp_queue s)),
      pl_log = cp_log s\<rparr>"

text \<open>A worker inside a call is in \<open>pop\<close>; the owner pushes what \<open>cp_main\<close> says.\<close>

definition in_pop :: "'a caller \<Rightarrow> bool" where
  "in_pop p \<longleftrightarrow> p = Asked Call_pop \<or> (\<exists>x. p = Answered (Popped x))"

definition in_push :: "'a option \<Rightarrow> 'a caller \<Rightarrow> bool" where
  "in_push nx p \<longleftrightarrow> (\<exists>x. nx = Some x \<and> (p = Asked (Call_push x) \<or> p = Answered Pushed))"

definition calls_ok :: "('q, 'f option) status \<Rightarrow> nat \<Rightarrow> ('q, 'f) cpool \<Rightarrow> bool" where
  "calls_ok status n s \<longleftrightarrow>
     (\<forall>t < n. status t (cp_queue s) = Outside \<or> in_pop (status t (cp_queue s)) \<and> cp_worker s t = K_Pop)
     \<and> (status n (cp_queue s) = Outside \<or> in_push (next_push n (cp_main s)) (status n (cp_queue s)))"

definition queued_inv :: "(nat \<Rightarrow> 'q \<Rightarrow> bool) \<Rightarrow> ('q, 'f option) status \<Rightarrow> nat \<Rightarrow> ('q, 'f) cpool \<Rightarrow> bool" where
  "queued_inv qinv status n s \<longleftrightarrow> qinv (Suc n) (cp_queue s) \<and> calls_ok status n s"

lemma cpool_inside_simps [simp]:
  "cp_queue (cpool_inside status n q s) = q" "cp_log (cpool_inside status n q s) = cp_log s"
  by (simp_all add: cpool_inside_def)

lemma tasks_of_simps [simp]:
  "tasks_of [] = []" "tasks_of (xs @ [None]) = tasks_of xs" "tasks_of (xs @ [Some f]) = tasks_of xs @ [f]"
  by (simp_all add: tasks_of_def)

lemma pop_returns_asked [simp]: "pop_returns Outside w = w" "pop_returns (Asked c) w = w" "pop_returns (Answered Pushed) w = w"
  by simp_all

lemma inside_other:
  assumes "\<forall>u. u \<noteq> t \<longrightarrow> status u q = status u (cp_queue s)"
  shows "cp_worker (cpool_inside status n q s) =
      (if t < n \<and> status t q = Outside then (cp_worker s)(t := pop_returns (status t (cp_queue s)) (cp_worker s t))
       else cp_worker s)"
    and "cp_main (cpool_inside status n q s) =
      (if t = n \<and> status n q = Outside \<and> status n (cp_queue s) \<noteq> Outside then push_returns (cp_main s) else cp_main s)"
proof -
  show "cp_worker (cpool_inside status n q s) =
      (if t < n \<and> status t q = Outside then (cp_worker s)(t := pop_returns (status t (cp_queue s)) (cp_worker s t))
       else cp_worker s)"
  proof
    fix u
    show "cp_worker (cpool_inside status n q s) u =
      (if t < n \<and> status t q = Outside then (cp_worker s)(t := pop_returns (status t (cp_queue s)) (cp_worker s t))
       else cp_worker s) u"
    proof (cases "u = t")
      case False
      with assms have "status u q = status u (cp_queue s)" by blast
      with False show ?thesis by (simp add: cpool_inside_def)
    qed (simp add: cpool_inside_def)
  qed
qed (use assms in \<open>auto simp: cpool_inside_def\<close>)

text \<open>What the threads have still to do outside the queue: begin the next call.\<close>

definition outside_cost :: "nat \<Rightarrow> 'a caller \<times> 'f pool_worker_pc \<Rightarrow> nat" where
  "outside_cost cost pw = (if fst pw = Outside \<and> snd pw = K_Pop then Suc cost else 0)"

definition workers_cost :: "('q, 'f option) status \<Rightarrow> nat \<Rightarrow> nat \<Rightarrow> ('q, 'f) cpool \<Rightarrow> nat" where
  "workers_cost status cost n s =
     thread_sum n (outside_cost cost) (\<lambda>t. (status t (cp_queue s), cp_worker s t))"

definition owner_cost :: "('q, 'f option) status \<Rightarrow> nat \<Rightarrow> nat \<Rightarrow> ('q, 'f) cpool \<Rightarrow> nat" where
  "owner_cost status cost n s =
     (if status n (cp_queue s) = Outside \<and> next_push n (cp_main s) \<noteq> None then Suc cost else 0)"

text \<open>\<open>\<mu>\<close> measures the pool whose calls are single steps.\<close>

definition queued_measure ::
  "('q, 'f option) status \<Rightarrow> (nat \<Rightarrow> 'q \<Rightarrow> nat) \<Rightarrow> nat \<Rightarrow> (('q, 'f) cpool \<Rightarrow> nat) \<Rightarrow> nat \<Rightarrow> ('q, 'f) cpool \<Rightarrow> nat" where
  "queued_measure status qleft cost \<mu> n s =
     (cost + 2) * (main_left n (cp_main s) + \<mu> s) + qleft (Suc n) (cp_queue s)
     + workers_cost status cost n s + owner_cost status cost n s"

definition queued_ok ::
  "(('q, 'f) cpool \<Rightarrow> bool) \<Rightarrow> (('q, 'f) cpool \<Rightarrow> ('p, 'f) pool) \<Rightarrow> ('p \<Rightarrow> 'f option list) \<Rightarrow> ('p \<Rightarrow> bool) \<Rightarrow>
   nat \<Rightarrow> 'f list \<Rightarrow> ('q, 'f) cpool \<Rightarrow> bool" where
  "queued_ok calls view aitems idle n fs s \<longleftrightarrow>
     calls s \<and> pool_inv aitems idle n fs (view s) \<and> taken_inv n (view s)"

lemma workers_cost_upd:
  assumes "t < n" "\<And>u. u < n \<Longrightarrow> u \<noteq> t \<Longrightarrow> status u (cp_queue s') = status u (cp_queue s) \<and> cp_worker s' u = cp_worker s u"
  shows "workers_cost status cost n s' + outside_cost cost (status t (cp_queue s), cp_worker s t)
     = workers_cost status cost n s + outside_cost cost (status t (cp_queue s'), cp_worker s' t)"
proof -
  let ?f = "\<lambda>t. (status t (cp_queue s), cp_worker s t)"
  have "workers_cost status cost n s'
      = thread_sum n (outside_cost cost) (?f(t := (status t (cp_queue s'), cp_worker s' t)))"
    unfolding workers_cost_def thread_sum_def by (rule sum.cong) (use assms(2) in auto)
  with thread_sum_upd [OF assms(1), of "outside_cost cost" ?f] show ?thesis by (simp add: workers_cost_def)
qed

lemma workers_cost_same:
  assumes "\<And>u. u < n \<Longrightarrow> status u (cp_queue s') = status u (cp_queue s) \<and> cp_worker s' u = cp_worker s u"
  shows "workers_cost status cost n s' = workers_cost status cost n s"
  unfolding workers_cost_def thread_sum_def by (rule sum.cong) (use assms in auto)

lemma push_returns_left:
  "next_push n m \<noteq> None \<Longrightarrow> main_left n (push_returns m) + 3 \<le> main_left n m"
  by (cases m rule: push_returns.cases) (auto split: if_splits)

section \<open>The interface of a queue given by its steps\<close>

text \<open>
  What a step inside a call is seen to do: nothing, the return of a thread, or a call at the moment it
  takes effect, as first-in first-out.
\<close>

definition call_acts ::
  "('q, 'a) status \<Rightarrow> ('q \<Rightarrow> 'a list) \<Rightarrow> ('q \<Rightarrow> 'a list) \<Rightarrow> tid \<Rightarrow> 'q \<Rightarrow> 'q \<Rightarrow> bool" where
  "call_acts status items popped t q q' \<longleftrightarrow>
     (\<forall>u. u \<noteq> t \<longrightarrow> status u q' = status u q)
     \<and> (status t q' = status t q \<and> items q' = items q \<and> popped q' = popped q
        \<or> (\<exists>r. status t q = Answered r \<and> status t q' = Outside \<and> items q' = items q \<and> popped q' = popped q)
        \<or> (\<exists>c r. status t q = Asked c \<and> status t q' = Answered r
             \<and> (\<forall>x. c = Call_push x \<longrightarrow> r = Pushed \<and> items q' = items q @ [x] \<and> popped q' = popped q)
             \<and> (c = Call_pop \<longrightarrow> (\<exists>x. r = Popped x \<and> items q = x # items q' \<and> popped q' = popped q @ [x]))))"

text \<open>
  \<open>qrun\<close> are the steps of threads inside a call, \<open>qleft\<close> a bound on them when no call begins, and
  \<open>cost\<close> what a call adds to it. When no thread inside a call can go on, all that are inside wait in
  \<open>pop\<close> for an item of an empty queue.
\<close>

locale call_machine =
  fixes qrun :: "nat \<Rightarrow> 'q \<Rightarrow> 'q \<Rightarrow> bool"
    and spurious :: "nat \<Rightarrow> 'q \<Rightarrow> 'q \<Rightarrow> bool"
    and enter :: "tid \<Rightarrow> 'a tsq_call \<Rightarrow> 'q \<Rightarrow> 'q"
    and status :: "('q, 'a) status"
    and items :: "'q \<Rightarrow> 'a list"
    and popped :: "'q \<Rightarrow> 'a list"
    and qinv :: "nat \<Rightarrow> 'q \<Rightarrow> bool"
    and qleft :: "nat \<Rightarrow> 'q \<Rightarrow> nat"
    and cost :: nat
    and qstart :: 'q
  assumes starts: "qinv n qstart" "status t qstart = Outside" "items qstart = []" "popped qstart = []"
    and runs: "qinv n q \<Longrightarrow> qrun n q q' \<Longrightarrow> qinv n q' \<and> qleft n q' < qleft n q"
    and acts: "qinv n q \<Longrightarrow> qrun n q q' \<Longrightarrow> \<exists>t < n. call_acts status items popped t q q'"
    and wakes: "qinv n q \<Longrightarrow> spurious n q q' \<Longrightarrow>
      qinv n q' \<and> (\<forall>t. status t q' = status t q) \<and> items q' = items q \<and> popped q' = popped q"
    and enters: "qinv n q \<Longrightarrow> t < n \<Longrightarrow> status t q = Outside \<Longrightarrow> c = Call_pop \<or> c = Call_push x \<Longrightarrow>
      qinv n (enter t c q) \<and> (\<forall>u. status u (enter t c q) = (if u = t then Asked c else status u q))
      \<and> items (enter t c q) = items q \<and> popped (enter t c q) = popped q
      \<and> qleft n (enter t c q) \<le> qleft n q + cost"
    and waits: "qinv n q \<Longrightarrow> \<nexists>q'. qrun n q q' \<Longrightarrow> t < n \<Longrightarrow>
      status t q = Outside \<or> status t q = Asked Call_pop \<and> items q = []"

text \<open>The queue whose calls are single steps, in the states it has between them.\<close>

locale pool_machine =
  call_machine qrun spurious enter status items popped qinv qleft cost qstart
  + atomic: task_queue push pop aitems idle
  for qrun spurious enter and status :: "('q, 'f option) status" and items popped qinv qleft cost qstart
    and push :: "tid \<Rightarrow> 'f option \<Rightarrow> 'p \<Rightarrow> 'p outcome" and pop aitems idle +
  fixes free :: "'f option list \<Rightarrow> 'p"
  assumes free_idle: "idle (free xs)" "aitems (free xs) = xs"
    and free_push: "push t x (free xs) = Done (free (xs @ [x]))"
    and free_pop: "pop t (free (x # xs)) = Done (x, free xs)"
begin

text \<open>A thread returns from its call.\<close>

lemma return_sim:
  assumes inv: "queued_inv qinv status n s" and q: "qinv (Suc n) q" and t: "t < Suc n"
    and others: "\<forall>u. u \<noteq> t \<longrightarrow> status u q = status u (cp_queue s)"
    and st: "status t (cp_queue s) = Answered r" "status t q = Outside"
    and same: "items q = items (cp_queue s)" "popped q = popped (cp_queue s)"
  shows "queued_inv qinv status n (cpool_inside status n q s)
    \<and> cpool_view status items popped free n (cpool_inside status n q s) = cpool_view status items popped free n s"
proof (cases "t = n")
  case True
  have pcs: "status u q = (if u = t then Outside else status u (cp_queue s))" for u using others st by simp
  from True inv st have r: "r = Pushed" by (auto simp: queued_inv_def calls_ok_def in_push_def)
  have "cp_worker (cpool_inside status n q s) = cp_worker s" "cp_main (cpool_inside status n q s) = push_returns (cp_main s)"
    using inside_other [OF others, of n] st True by simp_all
  with inv q st same r True show ?thesis
    by (simp add: queued_inv_def calls_ok_def cpool_view_def fun_eq_iff pcs)
next
  case False
  with t have tn: "t < n" by simp
  with inv st have "in_pop (Answered r)" and w: "cp_worker s t = K_Pop" by (auto simp: queued_inv_def calls_ok_def)
  then obtain x where r: "r = Popped x" by (auto simp: in_pop_def)
  have c: "cp_worker (cpool_inside status n q s) = (cp_worker s)(t := pop_returns (Answered r) K_Pop)"
    "cp_main (cpool_inside status n q s) = cp_main s"
    using inside_other [OF others, of n] st tn w by simp_all
  have "status n q = status n (cp_queue s)" using others False by auto
  with inv q others st c tn have "queued_inv qinv status n (cpool_inside status n q s)"
    by (auto simp: queued_inv_def calls_ok_def)
  moreover have "pop_returns (status u q) (cp_worker (cpool_inside status n q s) u)
      = pop_returns (status u (cp_queue s)) (cp_worker s u)" for u
    using others st c w by (cases "u = t") simp_all
  ultimately show ?thesis
    using \<open>status n q = _\<close> same c by (simp add: cpool_view_def)
qed

text \<open>A call takes effect: a \<open>pop\<close> of a worker, or the \<open>push\<close> of the owner.\<close>

lemma pop_sim:
  assumes inv: "queued_inv qinv status n s" and q: "qinv (Suc n) q" and t: "t < n"
    and others: "\<forall>u. u \<noteq> t \<longrightarrow> status u q = status u (cp_queue s)"
    and st: "status t (cp_queue s) = Asked Call_pop" "status t q = Answered (Popped x)"
    and eff: "items (cp_queue s) = x # items q" "popped q = popped (cp_queue s) @ [x]"
  shows "queued_inv qinv status n (cpool_inside status n q s)
    \<and> pool_worker_step pop t (cpool_view status items popped free n s)
      = Some (cpool_view status items popped free n (cpool_inside status n q s))"
proof -
  have w: "cp_worker s t = K_Pop" using inv t st by (auto simp: queued_inv_def calls_ok_def)
  have c: "cp_worker (cpool_inside status n q s) = cp_worker s" "cp_main (cpool_inside status n q s) = cp_main s"
    using inside_other [OF others, of n] st t by simp_all
  have n: "status n q = status n (cp_queue s)" using others t by auto
  have pcs: "status u q = (if u = t then Answered (Popped x) else status u (cp_queue s))" for u using others st by simp
  have "queued_inv qinv status n (cpool_inside status n q s)"
    using inv q c w t by (simp add: queued_inv_def calls_ok_def in_pop_def pcs)
  moreover have "(\<lambda>u. pop_returns (status u q) (cp_worker s u))
      = (\<lambda>u. pop_returns (status u (cp_queue s)) (cp_worker s u))(t := pop_returns (Answered (Popped x)) K_Pop)"
    using st w by (auto simp: fun_eq_iff pcs)
  ultimately show ?thesis
    using st w c n eff free_pop [of t x "items q"]
    by (cases x) (simp_all add: pool_worker_step_def cpool_view_def)
qed

lemma push_sim:
  assumes inv: "queued_inv qinv status n s" and q: "qinv (Suc n) q"
    and others: "\<forall>u. u \<noteq> n \<longrightarrow> status u q = status u (cp_queue s)"
    and st: "status n (cp_queue s) = Asked (Call_push x)" "status n q = Answered Pushed"
    and eff: "items q = items (cp_queue s) @ [x]" "popped q = popped (cp_queue s)"
  shows "queued_inv qinv status n (cpool_inside status n q s)
    \<and> pool_owner_step push n (cpool_view status items popped free n s)
      = Some (cpool_view status items popped free n (cpool_inside status n q s))"
proof -
  have pcs: "status u q = (if u = n then Answered Pushed else status u (cp_queue s))" for u using others st by simp
  have nx: "next_push n (cp_main s) = Some x" using inv st by (auto simp: queued_inv_def calls_ok_def in_push_def)
  have c: "cp_worker (cpool_inside status n q s) = cp_worker s" "cp_main (cpool_inside status n q s) = cp_main s"
    using inside_other [OF others, of n] st by simp_all
  have "queued_inv qinv status n (cpool_inside status n q s)"
    using inv q c nx by (simp add: queued_inv_def calls_ok_def in_push_def pcs)
  moreover have "(\<lambda>u. pop_returns (status u q) (cp_worker s u)) = (\<lambda>u. pop_returns (status u (cp_queue s)) (cp_worker s u))"
    using others st by (metis pop_returns_asked(2,3))
  moreover have "pool_owner_step push n (cpool_view status items popped free n s) =
      Some ((cpool_view status items popped free n s)\<lparr>pl_queue := free (items (cp_queue s) @ [x]), pl_main := push_returns (cp_main s)\<rparr>)"
    using nx st free_push [of n x "items (cp_queue s)"]
    by (cases "cp_main s" rule: push_returns.cases)
      (auto simp: pool_owner_step_def add_task_def cpool_view_def split: if_splits)
  ultimately show ?thesis using st c eff by (simp add: cpool_view_def)
qed

lemma inside_sim:
  assumes inv: "queued_inv qinv status n s" and run: "qrun (Suc n) (cp_queue s) q"
  shows "queued_inv qinv status n (cpool_inside status n q s)
    \<and> (cpool_view status items popped free n (cpool_inside status n q s) = cpool_view status items popped free n s
       \<or> pool_step push pop n (cpool_view status items popped free n s)
           (cpool_view status items popped free n (cpool_inside status n q s)))"
proof -
  have qi: "qinv (Suc n) (cp_queue s)" and calls: "calls_ok status n s" using inv by (simp_all add: queued_inv_def)
  from runs [OF qi run] have q: "qinv (Suc n) q" by simp
  from acts [OF qi run, unfolded call_acts_def] obtain t where t: "t < Suc n" and others: "\<forall>u. u \<noteq> t \<longrightarrow> status u q = status u (cp_queue s)"
    and eff: "status t q = status t (cp_queue s) \<and> items q = items (cp_queue s) \<and> popped q = popped (cp_queue s)
       \<or> (\<exists>r. status t (cp_queue s) = Answered r \<and> status t q = Outside \<and> items q = items (cp_queue s)
            \<and> popped q = popped (cp_queue s))
       \<or> (\<exists>c r. status t (cp_queue s) = Asked c \<and> status t q = Answered r
            \<and> (\<forall>x. c = Call_push x \<longrightarrow> r = Pushed \<and> items q = items (cp_queue s) @ [x] \<and> popped q = popped (cp_queue s))
            \<and> (c = Call_pop \<longrightarrow> (\<exists>x. r = Popped x \<and> items (cp_queue s) = x # items q \<and> popped q = popped (cp_queue s) @ [x])))"
    by blast
  from eff show ?thesis
  proof (elim disjE exE conjE)
    assume same: "status t q = status t (cp_queue s)" "items q = items (cp_queue s)" "popped q = popped (cp_queue s)"
    with others have st: "status u q = status u (cp_queue s)" for u by (cases "u = t") auto
    then have "cp_worker (cpool_inside status n q s) = cp_worker s" "cp_main (cpool_inside status n q s) = cp_main s"
      by (auto simp: cpool_inside_def fun_eq_iff)
    with st same q calls show ?thesis by (simp add: queued_inv_def calls_ok_def cpool_view_def)
  next
    fix r
    assume "status t (cp_queue s) = Answered r" "status t q = Outside" "items q = items (cp_queue s)"
      "popped q = popped (cp_queue s)"
    from return_sim [OF inv q t others this] show ?thesis by simp
  next
    fix c r
    assume st: "status t (cp_queue s) = Asked c" "status t q = Answered r"
      and push: "\<forall>x. c = Call_push x \<longrightarrow> r = Pushed \<and> items q = items (cp_queue s) @ [x] \<and> popped q = popped (cp_queue s)"
      and pop: "c = Call_pop \<longrightarrow> (\<exists>x. r = Popped x \<and> items (cp_queue s) = x # items q \<and> popped q = popped (cp_queue s) @ [x])"
    show ?thesis
    proof (cases "t = n")
      case True
      with calls st obtain x where "c = Call_push x" by (auto simp: calls_ok_def in_push_def)
      with push_sim [OF inv q] True others st push show ?thesis by (blast intro: pool_step.owner)
    next
      case False
      with t have tn: "t < n" by simp
      with calls st have "c = Call_pop" by (auto simp: calls_ok_def in_pop_def)
      with pop_sim [OF inv q tn others] st pop show ?thesis by (blast intro: pool_step.worker [OF tn])
    qed
  qed
qed

text \<open>Steps outside the queue.\<close>

lemma enter_pop:
  assumes inv: "queued_inv qinv status n s" and t: "t < n" "status t (cp_queue s) = Outside" "cp_worker s t = K_Pop"
  shows "queued_inv qinv status n (s\<lparr>cp_queue := enter t Call_pop (cp_queue s)\<rparr>)
    \<and> cpool_view status items popped free n (s\<lparr>cp_queue := enter t Call_pop (cp_queue s)\<rparr>)
      = cpool_view status items popped free n s"
proof -
  have "qinv (Suc n) (cp_queue s)" using inv by (simp add: queued_inv_def)
  from enters [OF this less_SucI [OF t(1)] t(2), of Call_pop] have
    "qinv (Suc n) (enter t Call_pop (cp_queue s))"
    "\<And>u. status u (enter t Call_pop (cp_queue s)) = (if u = t then Asked Call_pop else status u (cp_queue s))"
    "items (enter t Call_pop (cp_queue s)) = items (cp_queue s)" "popped (enter t Call_pop (cp_queue s)) = popped (cp_queue s)"
    by simp_all
  with inv t show ?thesis
    by (auto simp: queued_inv_def calls_ok_def in_pop_def cpool_view_def fun_eq_iff)
qed

lemma enter_push:
  assumes inv: "queued_inv qinv status n s" and t: "status n (cp_queue s) = Outside" "next_push n (cp_main s) = Some x"
  shows "queued_inv qinv status n (s\<lparr>cp_queue := enter n (Call_push x) (cp_queue s)\<rparr>)
    \<and> cpool_view status items popped free n (s\<lparr>cp_queue := enter n (Call_push x) (cp_queue s)\<rparr>)
      = cpool_view status items popped free n s"
proof -
  have "qinv (Suc n) (cp_queue s)" using inv by (simp add: queued_inv_def)
  from enters [OF this _ t(1), of "Call_push x" x] have
    "qinv (Suc n) (enter n (Call_push x) (cp_queue s))"
    "\<And>u. status u (enter n (Call_push x) (cp_queue s)) = (if u = n then Asked (Call_push x) else status u (cp_queue s))"
    "items (enter n (Call_push x) (cp_queue s)) = items (cp_queue s)"
    "popped (enter n (Call_push x) (cp_queue s)) = popped (cp_queue s)"
    by simp_all
  with inv t show ?thesis
    by (auto simp: queued_inv_def calls_ok_def in_push_def cpool_view_def fun_eq_iff)
qed

lemma worker_outside:
  assumes inv: "queued_inv qinv status n s" and t: "t < n" "status t (cp_queue s) = Outside"
    and step: "cpool_worker enter t s = Some s'"
  shows "queued_inv qinv status n s'
    \<and> (cpool_view status items popped free n s' = cpool_view status items popped free n s \<and> cp_worker s t = K_Pop
       \<or> pool_worker_step pop t (cpool_view status items popped free n s) = Some (cpool_view status items popped free n s'))"
proof (cases "cp_worker s t")
  case K_Pop
  with step enter_pop [OF inv t] show ?thesis by (simp add: cpool_worker_def)
next
  case (K_Run f)
  with step have s': "s' = s\<lparr>cp_worker := (cp_worker s)(t := K_Pop), cp_log := cp_log s @ [(t, f)]\<rparr>"
    by (simp add: cpool_worker_def)
  with inv t have "queued_inv qinv status n s'" by (auto simp: queued_inv_def calls_ok_def)
  moreover have "pool_worker_step pop t (cpool_view status items popped free n s)
      = Some (cpool_view status items popped free n s')"
    using K_Run t by (auto simp: pool_worker_step_def cpool_view_def s')
  ultimately show ?thesis by blast
qed (use step in \<open>simp add: cpool_worker_def\<close>)

lemma owner_outside:
  assumes inv: "queued_inv qinv status n s" and pc: "status n (cp_queue s) = Outside"
    and step: "cpool_owner enter n s = Some s'"
  shows "queued_inv qinv status n s'
    \<and> (cpool_view status items popped free n s' = cpool_view status items popped free n s
       \<or> pool_owner_step push n (cpool_view status items popped free n s) = Some (cpool_view status items popped free n s'))"
proof (cases "next_push n (cp_main s)")
  case (Some x)
  with step enter_push [OF inv pc Some] show ?thesis by (simp add: cpool_owner_def)
next
  case None
  from step None have same: "cp_queue s' = cp_queue s" "cp_worker s' = cp_worker s" "cp_log s' = cp_log s"
    by (auto simp: cpool_owner_def split: pool_main_pc.splits if_splits)
  have "queued_inv qinv status n s'" using inv same pc by (simp add: queued_inv_def calls_ok_def)
  moreover have gone: "pop_returns (status t (cp_queue s)) K_Exit = K_Exit" if "t < n" "cp_worker s t = K_Exit" for t
    using inv that by (auto simp: queued_inv_def calls_ok_def)
  have "pool_owner_step push n (cpool_view status items popped free n s) = Some (cpool_view status items popped free n s')"
    using step pc None gone
    by (cases "cp_main s" rule: push_returns.cases)
      (auto simp: cpool_owner_def pool_owner_step_def cpool_view_def split: if_splits)
  ultimately show ?thesis by blast
qed

lemma run_sim:
  assumes inv: "queued_inv qinv status n s" and step: "queued_run qrun enter status n s s'"
  shows "queued_inv qinv status n s'
    \<and> (cpool_view status items popped free n s' = cpool_view status items popped free n s
       \<or> pool_step push pop n (cpool_view status items popped free n s) (cpool_view status items popped free n s'))"
  using step
proof cases
  case (inside q)
  with inside_sim [OF inv] show ?thesis by simp
next
  case (worker t)
  with worker_outside [OF inv worker] show ?thesis by (blast intro: pool_step.worker)
next
  case owner
  with owner_outside [OF inv owner] show ?thesis by (blast intro: pool_step.owner)
qed

lemma spurious_sim:
  assumes inv: "queued_inv qinv status n s" and "spurious (Suc n) (cp_queue s) q"
  shows "queued_inv qinv status n (s\<lparr>cp_queue := q\<rparr>)
    \<and> cpool_view status items popped free n (s\<lparr>cp_queue := q\<rparr>) = cpool_view status items popped free n s"
proof -
  have "qinv (Suc n) (cp_queue s)" using inv by (simp add: queued_inv_def)
  from wakes [OF this assms(2)] inv show ?thesis by (simp add: queued_inv_def calls_ok_def cpool_view_def)
qed

lemma start_sim:
  "queued_inv qinv status n (queued_start qstart fs)"
  "cpool_view status items popped free n (queued_start qstart fs) = pool_start (free []) fs"
  by (simp_all add: queued_inv_def queued_start_def calls_ok_def cpool_view_def pool_start_def starts)

lemma pool_refinement:
  "refinement_system (queued_start qstart fs) (queued_step qrun spurious enter status n) (queued_inv qinv status n)
     (pool_start (free []) fs) (pool_step push pop n) (cpool_view status items popped free n)"
proof unfold_locales
  show "queued_inv qinv status n (queued_start qstart fs)"
    "cpool_view status items popped free n (queued_start qstart fs) = pool_start (free []) fs"
    by (rule start_sim)+
next
  fix s t
  assume "queued_inv qinv status n s" "queued_step qrun spurious enter status n s t"
  from this(2) this(1) have "queued_inv qinv status n t
      \<and> (cpool_view status items popped free n t = cpool_view status items popped free n s
         \<or> pool_step push pop n (cpool_view status items popped free n s) (cpool_view status items popped free n t))"
    by cases (simp_all add: run_sim spurious_sim)
  then show "queued_inv qinv status n t"
    "cpool_view status items popped free n t = cpool_view status items popped free n s
      \<or> pool_step push pop n (cpool_view status items popped free n s) (cpool_view status items popped free n t)"
    by simp_all
qed

text \<open>Each step is not seen in the pool of single steps, or spends of its measure.\<close>

lemma start_ok:
  "queued_ok (queued_inv qinv status n) (cpool_view status items popped free n) aitems idle n fs (queued_start qstart fs)"
  using terminating_system.axioms(1) [OF atomic.pool_system [of "free []" fs n]] start_sim [of n fs] free_idle [of "[]"]
  by (simp add: queued_ok_def invariant_system_def)

lemma view_measure:
  assumes ok: "queued_ok (queued_inv qinv status n) (cpool_view status items popped free n) aitems idle n fs s"
    and step: "queued_run qrun enter status n s s'"
  shows "queued_ok (queued_inv qinv status n) (cpool_view status items popped free n) aitems idle n fs s'"
    and "pool_measure aitems n (cpool_view status items popped free n s')
      \<le> pool_measure aitems n (cpool_view status items popped free n s)"
    and "cpool_view status items popped free n s' \<noteq> cpool_view status items popped free n s \<Longrightarrow>
      pool_measure aitems n (cpool_view status items popped free n s')
      < pool_measure aitems n (cpool_view status items popped free n s)"
proof -
  let ?v = "cpool_view status items popped free n"
  have sys: "terminating_system (pool_start (free []) fs) (pool_step push pop n)
      (\<lambda>s. pool_inv aitems idle n fs s \<and> taken_inv n s) (pool_measure aitems n) pool_closed"
    by (rule atomic.pool_system) (simp_all add: free_idle)
  from run_sim [OF _ step] ok have c: "queued_inv qinv status n s'"
    and abs: "?v s' = ?v s \<or> pool_step push pop n (?v s) (?v s')" by (simp_all add: queued_ok_def)
  from ok have inv: "pool_inv aitems idle n fs (?v s) \<and> taken_inv n (?v s)" by (simp add: queued_ok_def)
  show "queued_ok (queued_inv qinv status n) ?v aitems idle n fs s'"
    using abs inv invariant_system.inv_step [OF terminating_system.axioms(1) [OF sys] inv] c by (auto simp: queued_ok_def)
  show less: "?v s' \<noteq> ?v s \<Longrightarrow> pool_measure aitems n (?v s') < pool_measure aitems n (?v s)"
    using abs terminating_system.decreases [OF sys inv] by blast
  then show "pool_measure aitems n (?v s') \<le> pool_measure aitems n (?v s)"
    by (cases "?v s' = ?v s") simp_all
qed

lemma inside_costs:
  assumes inv: "queued_inv qinv status n s" and run: "qrun (Suc n) (cp_queue s) q"
  shows "qleft (Suc n) q < qleft (Suc n) (cp_queue s)"
    and "workers_cost status cost n (cpool_inside status n q s) = workers_cost status cost n s"
    and "cp_main (cpool_inside status n q s) = cp_main s
        \<and> owner_cost status cost n (cpool_inside status n q s) = owner_cost status cost n s
      \<or> main_left n (cp_main (cpool_inside status n q s)) + 3 \<le> main_left n (cp_main s)"
proof -
  let ?s = "cpool_inside status n q s"
  have qi: "qinv (Suc n) (cp_queue s)" and calls: "calls_ok status n s" using inv by (simp_all add: queued_inv_def)
  from runs [OF qi run] show "qleft (Suc n) q < qleft (Suc n) (cp_queue s)" by simp
  from acts [OF qi run, unfolded call_acts_def] obtain t where t: "t < Suc n" and others: "\<forall>u. u \<noteq> t \<longrightarrow> status u q = status u (cp_queue s)"
    and eff: "status t q = status t (cp_queue s) \<or> (\<exists>r. status t (cp_queue s) = Answered r \<and> status t q = Outside)
      \<or> (\<exists>c r. status t (cp_queue s) = Asked c \<and> status t q = Answered r)" by blast
  note other = inside_other [OF others, of n]
  have went: "status t (cp_queue s) \<noteq> Outside \<and> cp_worker s t = K_Pop
      \<and> pop_returns (status t (cp_queue s)) (cp_worker s t) \<noteq> K_Pop"
    if "t < n" "status t q = Outside" "status t q \<noteq> status t (cp_queue s)"
  proof -
    from that eff obtain r where r: "status t (cp_queue s) = Answered r" by auto
    with calls that(1) have "in_pop (Answered r)" "cp_worker s t = K_Pop" by (auto simp: calls_ok_def)
    then obtain x where "r = Popped x" "cp_worker s t = K_Pop" by (auto simp: in_pop_def)
    with r show ?thesis by (cases x) simp_all
  qed
  show "workers_cost status cost n ?s = workers_cost status cost n s"
  proof (cases "t < n")
    case True
    have "outside_cost cost (status t q, cp_worker ?s t) = outside_cost cost (status t (cp_queue s), cp_worker s t)"
      using went [OF True] other(1) True eff by (cases "status t q = status t (cp_queue s)") (auto simp: outside_cost_def)
    moreover have "cp_worker ?s u = cp_worker s u" if "u \<noteq> t" for u using other(1) that by simp
    ultimately show ?thesis using workers_cost_upd [OF True, of status ?s s cost] others by simp
  next
    case False
    with others other(1) show ?thesis by (intro workers_cost_same) auto
  qed
  show "cp_main ?s = cp_main s \<and> owner_cost status cost n ?s = owner_cost status cost n s
      \<or> main_left n (cp_main ?s) + 3 \<le> main_left n (cp_main s)"
  proof (cases "t = n \<and> status n q \<noteq> status n (cp_queue s)")
    case False
    then have "status n q = status n (cp_queue s)" using others by metis
    with other(2) show ?thesis by (simp add: owner_cost_def)
  next
    case True
    show ?thesis
    proof (cases "status n q = Outside")
      case ret: True
      with True calls have "next_push n (cp_main s) \<noteq> None" by (auto simp: calls_ok_def in_push_def)
      then have "main_left n (push_returns (cp_main s)) + 3 \<le> main_left n (cp_main s)" by (rule push_returns_left)
      moreover have "status n (cp_queue s) \<noteq> Outside" using ret True by auto
      ultimately show ?thesis using ret True other(2) by simp
    next
      case False
      with True eff other(2) show ?thesis by (auto simp: owner_cost_def)
    qed
  qed
qed

lemma owner_cost_le: "owner_cost status cost n s \<le> Suc cost"
  by (simp add: owner_cost_def)

lemma run_decreases:
  assumes ok: "queued_ok (queued_inv qinv status n) (cpool_view status items popped free n) aitems idle n fs s"
    and step: "queued_run qrun enter status n s s'"
  shows "queued_measure status qleft cost (\<lambda>s. pool_measure aitems n (cpool_view status items popped free n s)) n s'
    < queued_measure status qleft cost (\<lambda>s. pool_measure aitems n (cpool_view status items popped free n s)) n s"
proof -
  let ?v = "cpool_view status items popped free n"
  have inv: "queued_inv qinv status n s" and qi: "qinv (Suc n) (cp_queue s)"
    using ok by (simp_all add: queued_ok_def queued_inv_def)
  define M where "M = main_left n (cp_main s) + pool_measure aitems n (?v s)"
  define M' where "M' = main_left n (cp_main s') + pool_measure aitems n (?v s')"
  note vm = view_measure(2,3) [OF ok step]
  have goal: ?thesis
    if "(cost + 2) * M' + (qleft (Suc n) (cp_queue s') + workers_cost status cost n s' + owner_cost status cost n s')
      < (cost + 2) * M + (qleft (Suc n) (cp_queue s) + workers_cost status cost n s + owner_cost status cost n s)"
    using that by (simp add: queued_measure_def M_def M'_def)
  have same_main: "(cost + 2) * M' \<le> (cost + 2) * M" if "main_left n (cp_main s') \<le> main_left n (cp_main s)"
    using that vm(1) by (intro mult_le_mono2) (simp add: M_def M'_def)
  have less_main: "(cost + 2) * M' + (cost + 2) \<le> (cost + 2) * M" if "M' < M"
    using mult_le_mono2 [of "Suc M'" M "cost + 2"] that by simp
  from step show ?thesis
  proof cases
    case (inside q)
    note c = inside_costs [OF inv inside(2)]
    from c(3) show ?thesis
    proof
      assume "cp_main (cpool_inside status n q s) = cp_main s
        \<and> owner_cost status cost n (cpool_inside status n q s) = owner_cost status cost n s"
      with c(1,2) same_main inside(1) show ?thesis by (intro goal) simp
    next
      assume "main_left n (cp_main (cpool_inside status n q s)) + 3 \<le> main_left n (cp_main s)"
      then have "M' < M" using vm(1) inside(1) by (simp add: M_def M'_def)
      with c(1,2) less_main owner_cost_le [of n s'] inside(1) show ?thesis by (intro goal) simp
    qed
  next
    case (worker t)
    have main: "cp_main s' = cp_main s"
      using worker(3) by (auto simp: cpool_worker_def split: pool_worker_pc.splits)
    show ?thesis
    proof (cases "cp_worker s t")
      case K_Pop
      with worker(3) have s': "s' = s\<lparr>cp_queue := enter t Call_pop (cp_queue s)\<rparr>" by (simp add: cpool_worker_def)
      from enters [OF qi less_SucI [OF worker(1)] worker(2), of Call_pop] have
        e: "\<And>u. status u (cp_queue s') = (if u = t then Asked Call_pop else status u (cp_queue s))"
        "qleft (Suc n) (cp_queue s') \<le> qleft (Suc n) (cp_queue s) + cost"
        by (simp_all add: s')
      have "workers_cost status cost n s' + Suc cost = workers_cost status cost n s"
        using workers_cost_upd [OF worker(1), of status s' s cost] K_Pop worker(2) e(1) by (simp add: s' outside_cost_def)
      moreover have "owner_cost status cost n s' = owner_cost status cost n s"
        using e(1) worker(1) main by (simp add: owner_cost_def)
      ultimately show ?thesis using e(2) same_main main by (intro goal) simp
    next
      case (K_Run f)
      with worker(3) have s': "s' = s\<lparr>cp_worker := (cp_worker s)(t := K_Pop), cp_log := cp_log s @ [(t, f)]\<rparr>"
        by (simp add: cpool_worker_def)
      have "workers_cost status cost n s' = workers_cost status cost n s + Suc cost"
        using workers_cost_upd [OF worker(1), of status s' s cost] K_Run worker(2) by (simp add: s' outside_cost_def)
      moreover have "owner_cost status cost n s' = owner_cost status cost n s" by (simp add: owner_cost_def s')
      moreover have "?v s' \<noteq> ?v s" by (simp add: cpool_view_def s')
      then have "M' < M" using vm(2) main by (simp add: M_def M'_def)
      moreover have "cp_queue s' = cp_queue s" by (simp add: s')
      ultimately show ?thesis using less_main by (intro goal) simp
    qed (use worker(3) in \<open>simp add: cpool_worker_def\<close>)
  next
    case owner
    show ?thesis
    proof (cases "next_push n (cp_main s)")
      case (Some x)
      with owner(2) have s': "s' = s\<lparr>cp_queue := enter n (Call_push x) (cp_queue s)\<rparr>" by (simp add: cpool_owner_def)
      from enters [OF qi _ owner(1), of "Call_push x" x] have
        e: "\<And>u. status u (cp_queue s') = (if u = n then Asked (Call_push x) else status u (cp_queue s))"
        "qleft (Suc n) (cp_queue s') \<le> qleft (Suc n) (cp_queue s) + cost"
        by (simp_all add: s')
      have "owner_cost status cost n s = Suc cost" "owner_cost status cost n s' = 0"
        using owner(1) Some e(1) by (simp_all add: owner_cost_def)
      moreover have "workers_cost status cost n s' = workers_cost status cost n s"
        using e(1) by (intro workers_cost_same) (simp add: s')
      moreover have "cp_main s' = cp_main s" by (simp add: s')
      ultimately show ?thesis using e(2) same_main by (intro goal) simp
    next
      case None
      from owner(2) None have same: "cp_queue s' = cp_queue s" "cp_worker s' = cp_worker s"
        and left: "main_left n (cp_main s') < main_left n (cp_main s)"
        by (cases "cp_main s" rule: push_returns.cases; auto simp: cpool_owner_def split: if_splits)+
      have "workers_cost status cost n s' = workers_cost status cost n s" by (intro workers_cost_same) (simp add: same)
      moreover have "M' < M" using left vm(1) by (simp add: M_def M'_def)
      ultimately show ?thesis using less_main owner_cost_le [of n s'] same by (intro goal) simp
    qed
  qed
qed

text \<open>
  Nobody is stuck: a worker that waits when the owner joins it would have found the empty task
  the owner pushed for it.
\<close>

lemma join_never_waits:
  assumes ok: "queued_ok (queued_inv qinv status n) (cpool_view status items popped free n) aitems idle n fs s"
    and none: "\<nexists>q. qrun (Suc n) (cp_queue s) q"
    and main: "cp_main s = M_Join i" "i < n" and "cp_worker s i \<noteq> K_Exit"
  shows "\<exists>t < n. status t (cp_queue s) = Outside \<and> (\<exists>s'. cpool_worker enter t s = Some s')"
proof (rule ccontr)
  assume stuck: "\<not> ?thesis"
  let ?v = "cpool_view status items popped free n"
  have qi: "qinv (Suc n) (cp_queue s)" and calls: "calls_ok status n s" and abs: "pool_inv aitems idle n fs (?v s)"
    using ok by (simp_all add: queued_ok_def queued_inv_def)
  have out: "status t (cp_queue s) = Asked Call_pop \<and> items (cp_queue s) = []
      \<or> status t (cp_queue s) = Outside \<and> cp_worker s t = K_Exit" if "t < n" for t
    using waits [OF qi none less_SucI [OF that]] stuck that
    by (cases "cp_worker s t") (auto simp: cpool_worker_def)
  with main(2) \<open>cp_worker s i \<noteq> K_Exit\<close> have blocked: "status i (cp_queue s) = Asked Call_pop" "items (cp_queue s) = []"
    by blast+
  have "status n (cp_queue s) = Outside"
    using calls main by (auto simp: calls_ok_def in_push_def)
  with abs main blocked(2) have "thread_sum n exited (pl_worker (?v s)) = n"
    by (auto simp: pool_inv_def cpool_view_def free_idle)
  moreover have worker: "pl_worker (?v s) i = K_Pop"
    using calls main(2) blocked(1) by (auto simp: calls_ok_def cpool_view_def)
  have "thread_sum n exited (pl_worker (?v s)) < n"
  proof -
    let ?w = "pl_worker (?v s)"
    have "\<forall>t<n. exited ((?w(i := K_Exit)) t) \<le> 1" by (metis exited.elims order_refl zero_le)
    then have "thread_sum n exited (?w(i := K_Exit)) \<le> n * 1" by (rule thread_sum_le)
    with thread_sum_upd [OF main(2), of exited ?w K_Exit] worker show ?thesis by simp
  qed
  ultimately show False by simp
qed

lemma run_progress:
  assumes ok: "queued_ok (queued_inv qinv status n) (cpool_view status items popped free n) aitems idle n fs s"
    and "\<not> cpool_closed s"
  shows "\<exists>s'. queued_run qrun enter status n s s'"
proof (cases "\<exists>q. qrun (Suc n) (cp_queue s) q")
  case True
  then show ?thesis by (blast intro: queued_run.inside)
next
  case False
  have qi: "qinv (Suc n) (cp_queue s)" and calls: "calls_ok status n s"
    using ok by (simp_all add: queued_ok_def queued_inv_def)
  from waits [OF qi False, of n] calls have idle: "status n (cp_queue s) = Outside"
    by (auto simp: calls_ok_def in_push_def)
  show ?thesis
  proof (cases "\<exists>i. cp_main s = M_Join i \<and> i < n \<and> cp_worker s i \<noteq> K_Exit")
    case True
    with join_never_waits [OF ok False] show ?thesis by (blast intro: queued_run.worker)
  next
    case no_join: False
    with assms(2) have "\<exists>s'. cpool_owner enter n s = Some s'"
      by (cases "cp_main s") (auto simp: cpool_owner_def cpool_closed_def split: option.split)
    with idle show ?thesis by (blast intro: queued_run.owner)
  qed
qed

lemma queued_system:
  "terminating_system (queued_start qstart fs) (queued_run qrun enter status n)
     (queued_ok (queued_inv qinv status n) (cpool_view status items popped free n) aitems idle n fs)
     (queued_measure status qleft cost (\<lambda>s. pool_measure aitems n (cpool_view status items popped free n s)) n) cpool_closed"
  by unfold_locales (use start_ok view_measure(1) run_decreases run_progress in blast)+

text \<open>A worker that has left does not come back, and the owner has joined only those.\<close>

lemma left_stays:
  assumes inv: "queued_inv qinv status n s" and step: "queued_step qrun spurious enter status n s s'"
    and t: "cp_worker s t = K_Exit" "t < n"
  shows "cp_worker s' t = K_Exit"
proof -
  have out: "status t (cp_queue s) = Outside" using inv t by (auto simp: queued_inv_def calls_ok_def)
  from step show ?thesis
  proof cases
    case run
    then show ?thesis
    proof cases
      case (inside q)
      with out t show ?thesis by (simp add: cpool_inside_def)
    next
      case (worker u)
      with t show ?thesis by (cases "u = t") (auto simp: cpool_worker_def split: pool_worker_pc.splits)
    next
      case owner
      with t show ?thesis by (auto simp: cpool_owner_def split: if_splits option.splits pool_main_pc.splits)
    qed
  qed (use t in simp)
qed

lemma joined_step:
  assumes step: "queued_step qrun spurious enter status n s s'"
    and t: "t < joined n (cp_main s')" "\<not> t < joined n (cp_main s)"
  shows "cp_worker s t = K_Exit"
  using step
proof cases
  case run
  then show ?thesis
  proof cases
    case (inside q)
    with t show ?thesis by (cases "cp_main s" rule: push_returns.cases) (auto simp: cpool_inside_def split: if_splits)
  next
    case (worker u)
    then have "cp_main s' = cp_main s" by (auto simp: cpool_worker_def split: pool_worker_pc.splits)
    with t show ?thesis by simp
  next
    case owner
    with t show ?thesis
      by (auto simp: cpool_owner_def less_Suc_eq split: if_splits option.splits pool_main_pc.splits)
  qed
qed (use t in simp)

lemma queued_reach_ok:
  assumes "reach (queued_start qstart fs) (queued_step qrun spurious enter status n) s"
  shows "queued_ok (queued_inv qinv status n) (cpool_view status items popped free n) aitems idle n fs s"
    and "reach (pool_start (free []) fs) (pool_step push pop n) (cpool_view status items popped free n s)"
proof -
  have "terminating_system (pool_start (free []) fs) (pool_step push pop n)
      (\<lambda>s. pool_inv aitems idle n fs s \<and> taken_inv n s) (pool_measure aitems n) pool_closed"
    by (rule atomic.pool_system) (simp_all add: free_idle)
  note abs = invariant_system.reach_inv [OF terminating_system.axioms(1) [OF this]]
  show r: "reach (pool_start (free []) fs) (pool_step push pop n) (cpool_view status items popped free n s)"
    using refinement_system.reach_abs [OF pool_refinement assms] .
  show "queued_ok (queued_inv qinv status n) (cpool_view status items popped free n) aitems idle n fs s"
    using abs [OF r] invariant_system.reach_inv [OF refinement_system.axioms(1) [OF pool_refinement] assms]
    by (simp add: queued_ok_def)
qed

lemma joined_left:
  assumes "reach (queued_start qstart fs) (queued_step qrun spurious enter status n) s"
  shows "joined n (cp_main s) \<le> n \<and> (\<forall>t < joined n (cp_main s). cp_worker s t = K_Exit)"
  using assms
proof (induction rule: reach.induct)
  case reach_init
  show ?case by (simp add: queued_start_def)
next
  case (reach_step s s')
  have le: "joined n (pl_main (cpool_view status items popped free n s')) = joined n (cp_main s')"
    by (cases "cp_main s'" rule: push_returns.cases) (simp_all add: cpool_view_def)
  from queued_reach_ok(1) [OF reach.reach_step [OF reach_step(1,2)]] le have "joined n (cp_main s') \<le> n"
    by (simp add: queued_ok_def pool_inv_def)
  moreover from queued_reach_ok(1) [OF reach_step(1)] have "queued_inv qinv status n s" by (simp add: queued_ok_def)
  ultimately show ?case
    using left_stays joined_step reach_step(2,3) by (metis order_less_le_trans)
qed

text \<open>What the pool promises, whatever its queue does inside a call.\<close>

lemma queued_closed_result:
  assumes r: "reach (queued_start qstart fs) (queued_step qrun spurious enter status n) s"
    and "cpool_closed s" and "0 < n"
  shows "tasks_of (popped (cp_queue s)) = fs \<and> mset (map snd (cp_log s)) = mset fs
    \<and> items (cp_queue s) = [] \<and> (\<forall>t < n. cp_worker s t = K_Exit)"
proof -
  note ok = queued_reach_ok(1) [OF r]
  have "status n (cp_queue s) = Outside"
    using ok assms(2) by (auto simp: queued_ok_def queued_inv_def calls_ok_def in_push_def cpool_closed_def)
  with assms(2) have closed: "pool_closed (cpool_view status items popped free n s)"
    by (simp add: pool_closed_def cpool_view_def cpool_closed_def)
  from ok have "pool_inv aitems idle n fs (cpool_view status items popped free n s)"
    "taken_inv n (cpool_view status items popped free n s)" by (simp_all add: queued_ok_def)
  from atomic.pool_closed_result [OF this closed assms(3)] joined_left [OF r] assms(2) show ?thesis
    by (simp add: cpool_view_def cpool_closed_def free_idle)
qed

lemma queued_result:
  assumes r: "reach (queued_start qstart fs) (queued_step qrun spurious enter status n) s"
  shows "(\<exists>f. reach s (queued_run qrun enter status n) f \<and> cpool_closed f)
    \<and> ((queued_run qrun enter status n ^^ m) s g \<longrightarrow>
         m \<le> queued_measure status qleft cost (\<lambda>s. pool_measure aitems n (cpool_view status items popped free n s)) n s)
    \<and> ((\<nexists>s'. queued_run qrun enter status n s s') \<longrightarrow> cpool_closed s)"
  using terminating_system.inv_reaches_final [OF queued_system queued_reach_ok(1) [OF r]]
    terminating_system.run_measure [OF queued_system _ queued_reach_ok(1) [OF r]]
    run_progress [OF queued_reach_ok(1) [OF r]]
  by fastforce

end

end
