(* ===== verification/Pool_Queue.thy ===== *)
theory Pool_Queue
  imports Queue_Machine
begin

text \<open>
  The thread pool over the queue as its threads really run it: the workers' calls of \<open>pop\<close>
  and the owner's calls of \<open>push\<close> are the statements of \<open>Queue_Threads\<close>, interleaved anyhow.
  The system implements the pool of \<open>Thread_Pool\<close>, whose calls are single steps, so that what
  is proved there of the tasks holds here; and it ends, although a worker may now be anywhere
  inside \<open>pop\<close> when the owner stops the pool. Both come from \<open>Queue_Machine\<close>: here the statements
  of \<open>thread_safe_queue\<close> are shown to be such a machine.
\<close>

section \<open>The queue's statements as a machine\<close>

definition tsq_enter :: "tid \<Rightarrow> 'a tsq_call \<Rightarrow> 'a qsys \<Rightarrow> 'a qsys" where
  "tsq_enter t c q = goto t (tsq_entry c) q"

definition tsq_status :: "('a qsys, 'a) status" where
  "tsq_status t q = caller_of (qs_pc q t)"

text \<open>A spurious wake-up of a thread that waits for an item.\<close>

definition tsq_spurious :: "nat \<Rightarrow> 'a qsys \<Rightarrow> 'a qsys \<Rightarrow> bool" where
  "tsq_spurious n q q' \<longleftrightarrow> (\<exists>t<n. qs_pc q t = P_Blocked \<and> q' = goto t P_Reacq q)"

text \<open>A statement takes effect at most where it changes the items.\<close>

lemma tsq_exec_acts:
  assumes "tsq_exec t q = Some q'" and "knows (qs_items q) (qs_pc q t)"
  shows "call_acts tsq_status qs_items qs_popped t q q'"
  unfolding call_acts_def using assms
  by (cases "qs_pc q t")
    (auto simp: tsq_status_def tsq_exec_def on_mutex_def split: outcome.splits list.splits)

lemma tsq_run_acts:
  assumes inv: "qsys_inv n q" and run: "qsys_run n q q'"
  shows "\<exists>t<n. call_acts tsq_status qs_items qs_popped t q q'"
  using run
proof cases
  case (exec t)
  moreover have "knows (qs_items q) (qs_pc q t)" using inv exec(1) by (simp add: qsys_inv_def fifo_inv_def)
  ultimately show ?thesis using tsq_exec_acts [of t q q'] by blast
next
  case (signal t u)
  then have "u \<noteq> t" by auto
  with signal show ?thesis by (intro exI [of _ t]) (simp add: call_acts_def tsq_status_def)
next
  case (no_signal t)
  then show ?thesis by (intro exI [of _ t]) (simp add: call_acts_def tsq_status_def)
qed

lemma tsq_enters:
  assumes inv: "qsys_inv n q" and t: "t < n" "tsq_status t q = Outside"
  shows "qsys_inv n (tsq_enter t c q)" and "qsys_measure n (tsq_enter t c q) \<le> qsys_measure n q + 11"
proof -
  have idle: "qs_pc q t = Idle"
    using t(2) by (cases "qs_pc q t") (auto simp: tsq_status_def split: if_splits)
  with inv t(1) show "qsys_inv n (tsq_enter t c q)"
    using qsys_sys.inv_step [OF inv] by (auto simp: tsq_enter_def intro: qsys_step.call)
  have "steps_left (tsq_entry c) \<le> 11" by (cases c) simp_all
  with steps_left_upd [OF t(1), of "qs_pc q" "tsq_entry c"] idle
  show "qsys_measure n (tsq_enter t c q) \<le> qsys_measure n q + 11" by (simp add: qsys_measure_def tsq_enter_def)
qed

lemma tsq_waits:
  assumes inv: "qsys_inv n q" and none: "\<nexists>q'. qsys_run n q q'" and t: "t < n"
  shows "tsq_status t q = Outside \<or> tsq_status t q = Asked Call_pop \<and> qs_items q = []"
proof -
  from qsys_progress [OF inv] none have s: "settled n q" by blast
  with t consider "qs_pc q t = Idle" | "qs_pc q t = P_Blocked" by (auto simp: settled_def)
  then show ?thesis
  proof cases
    case 2
    with settled_empty [OF _ s t] inv show ?thesis by (simp add: tsq_status_def qsys_inv_def)
  qed (simp add: tsq_status_def)
qed

interpretation tsq_machine: pool_machine qsys_run tsq_spurious tsq_enter tsq_status qs_items qs_popped
    qsys_inv qsys_measure 11 qsys_start tsq_push tsq_pop tq_items tsq_idle free_queue
proof unfold_locales
  show "qsys_inv n qsys_start" "tsq_status t qsys_start = Outside" "qs_items qsys_start = []" "qs_popped qsys_start = []" for n t
    by (simp_all add: qsys_inv_start) (simp_all add: qsys_start_def tsq_status_def)
  show "tsq_idle (free_queue xs)" "tq_items (free_queue xs) = xs" for xs
    by (simp_all add: free_queue_def tsq_idle_def)
  fix n and q q' :: "'b option qsys" and t c x
  show "qsys_inv n q \<Longrightarrow> tsq_spurious n q q' \<Longrightarrow>
      qsys_inv n q' \<and> (\<forall>t. tsq_status t q' = tsq_status t q) \<and> qs_items q' = qs_items q \<and> qs_popped q' = qs_popped q"
    using qsys_sys.inv_step [of n q] by (auto simp: tsq_spurious_def tsq_status_def intro: qsys_step.spurious)
  show "qsys_inv n q \<Longrightarrow> t < n \<Longrightarrow> tsq_status t q = Outside \<Longrightarrow> c = Call_pop \<or> c = Call_push x \<Longrightarrow>
      qsys_inv n (tsq_enter t c q) \<and> (\<forall>u. tsq_status u (tsq_enter t c q) = (if u = t then Asked c else tsq_status u q))
      \<and> qs_items (tsq_enter t c q) = qs_items q \<and> qs_popped (tsq_enter t c q) = qs_popped q
      \<and> qsys_measure n (tsq_enter t c q) \<le> qsys_measure n q + 11"
    using tsq_enters [of n q t c] by (simp add: tsq_enter_def tsq_status_def)
qed (simp_all add: tsq_run_acts tsq_waits free_queue_calls qsys_inv_run qsys_measure_run)

section \<open>The pool\<close>

type_synonym 'f tsq_cpool = "('f option qsys, 'f) cpool"

definition cpool_start :: "'f list \<Rightarrow> 'f tsq_cpool" where
  "cpool_start fs = queued_start qsys_start fs"

text \<open>Steps of the program, the signal at the end of a \<open>push\<close> among them; and spurious wake-ups.\<close>

definition cpool_run :: "nat \<Rightarrow> 'f tsq_cpool \<Rightarrow> 'f tsq_cpool \<Rightarrow> bool" where
  "cpool_run n = queued_run qsys_run tsq_enter tsq_status n"

definition cpool_step :: "nat \<Rightarrow> 'f tsq_cpool \<Rightarrow> 'f tsq_cpool \<Rightarrow> bool" where
  "cpool_step n = queued_step qsys_run tsq_spurious tsq_enter tsq_status n"

definition cpool_abs :: "nat \<Rightarrow> 'f tsq_cpool \<Rightarrow> ('f option tsq, 'f) pool" where
  "cpool_abs n = cpool_view tsq_status qs_items qs_popped free_queue n"

definition cpool_measure :: "nat \<Rightarrow> 'f tsq_cpool \<Rightarrow> nat" where
  "cpool_measure n = queued_measure tsq_status qsys_measure 11 (\<lambda>s. pool_measure tq_items n (cpool_abs n s)) n"

lemmas cpool_defs = cpool_start_def cpool_run_def cpool_step_def cpool_abs_def cpool_measure_def

lemma free_queue_empty: "free_queue [] = tsq_ctor"
  by (simp add: free_queue_def tsq_ctor_def)

section \<open>Properties\<close>

text \<open>
  C5: The thread pool over the real queue, every statement of \<open>pop\<close> and \<open>push\<close> a step of its
  own, with at least one worker: from any state, left to itself, it reaches in a bounded number of steps the end of the
  destructor and is never stuck before it; every state is, seen from outside, one of the pool
  whose calls are atomic; and at the end the tasks were taken in the order they were submitted,
  each was run exactly once, in whatever order the workers that took them ran them, and every
  worker has left.
\<close>

theorem pool_over_queue_runs_every_task:
  assumes "reach (cpool_start fs) (cpool_step n) s" and "0 < n"
  shows "(\<exists>f. reach s (cpool_run n) f \<and> cpool_closed f)
    \<and> ((cpool_run n ^^ m) s g \<longrightarrow> m \<le> cpool_measure n s)
    \<and> ((\<nexists>s'. cpool_run n s s') \<longrightarrow> cpool_closed s)
    \<and> reach (pool_start tsq_ctor fs) (pool_step tsq_push tsq_pop n) (cpool_abs n s)
    \<and> (cpool_closed s \<longrightarrow> tasks_of (qs_popped (cp_queue s)) = fs \<and> mset (map snd (cp_log s)) = mset fs
         \<and> (\<forall>t<n. cp_worker s t = K_Exit))"
proof -
  note r = assms(1) [unfolded cpool_defs]
  show ?thesis
    using tsq_machine.queued_result [OF r] tsq_machine.queued_reach_ok(2) [OF r]
      tsq_machine.queued_closed_result [OF r _ assms(2)]
    by (simp add: cpool_defs free_queue_empty)
qed

theorem pool_over_queue_runs_every_task_witness:
  "\<exists>f. reach (cpool_start [''a'', ''b'']) (cpool_run 2) f \<and> cpool_closed f
     \<and> mset (map snd (cp_log f)) = {#''a'', ''b''#}"
proof -
  let ?s = "cpool_start [''a'', ''b'']"
  obtain f where f: "reach ?s (cpool_run 2) f" "cpool_closed f"
    using pool_over_queue_runs_every_task [OF reach_init [of ?s "cpool_step 2"]] by force
  have "cpool_run 2 s s' \<Longrightarrow> cpool_step 2 s s'" for s s' :: "string tsq_cpool"
    unfolding cpool_run_def cpool_step_def by (rule queued_step.run)
  then have "reach ?s (cpool_step 2) f" by (rule reach_mono [OF f(1)])
  from pool_over_queue_runs_every_task [OF this] f(2) have "mset (map snd (cp_log f)) = {#''a'', ''b''#}" by simp
  with f show ?thesis by blast
qed

end
