(* ===== verification/Server_Threads.thy ===== *)
theory Server_Threads
  imports Net_Programs
begin

text \<open>
  The threaded server of \<open>day3/socknet\<close> with its threads interleaved call by call: the loop of
  \<open>main\<close> that accepts, and a detached thread for each connection that runs \<open>handle_client\<close>.
  Each step makes one call of the system, which gives it an answer; the descriptor table and
  what was sent are those of \<open>Net_System\<close>. An exception that leaves a thread ends the
  process. What matters is who owns a descriptor: a number that was closed is given to the
  next connection.
\<close>

section \<open>The program\<close>

text \<open>
  A thread prints, sends, looks whether the peer is gone, disconnects, and closes in the
  destructor of its socket.
\<close>

datatype client_pc = C_Print | C_Send | C_Report | C_Disconnect | C_Close | C_End

datatype accept_pc = S_Accept | S_Launch int

datatype process = Serving | Returned int | Aborted | Broken

record server =
  sv_world :: world
  sv_main :: accept_pc
  sv_clients :: "(int \<times> client_pc) list"
  sv_process :: process

definition client_goto :: "nat \<Rightarrow> client_pc \<Rightarrow> world \<Rightarrow> server \<Rightarrow> server" where
  "client_goto i pc w s = s\<lparr>sv_world := w, sv_clients := (sv_clients s)[i := (fst (sv_clients s ! i), pc)]\<rparr>"

definition print_line :: "string \<Rightarrow> world \<Rightarrow> world" where
  "print_line msg w = w\<lparr>w_out := w_out w @ [msg]\<rparr>"

text \<open>
  \<open>handle_client\<close> in thread \<open>i\<close>; \<open>a\<close> is the answer to its call. \<open>send\<close> and \<open>close\<close> are called
  again after \<open>EINTR\<close>, as \<open>TEMP_FAILURE_RETRY\<close> has it.
\<close>

definition client_step :: "answer \<Rightarrow> nat \<Rightarrow> server \<Rightarrow> server option" where
  "client_step a i s =
     (case sv_clients s ! i of (handle, pc) \<Rightarrow>
        (case pc of
           C_Print \<Rightarrow> Some (client_goto i C_Send (print_line (''client '' @ show_int handle) (sv_world s)) s)
         | C_Send \<Rightarrow>
             (case c_send handle send_msg a (sv_world s) of (sent, w) \<Rightarrow>
                Some (if 0 \<le> sent then client_goto i C_Report w s
                      else if w_errno w = EINTR then client_goto i C_Send w s
                      else if w_errno w = ECONNRESET \<or> w_errno w = ECONNREFUSED then client_goto i C_Close w s
                      else s\<lparr>sv_world := w, sv_process := Aborted\<rparr>))
         | C_Report \<Rightarrow>
             Some (client_goto i C_Disconnect
               (print_line ''TCP server sucessfully sent data to the client.'' (sv_world s)) s)
         | C_Disconnect \<Rightarrow>
             (case c_connect handle Unnamed a (sv_world s) of (r, w) \<Rightarrow>
                Some (if 0 \<le> r \<or> w_errno w = ECONNRESET then client_goto i C_Close w s
                      else s\<lparr>sv_world := w, sv_process := Aborted\<rparr>))
         | C_Close \<Rightarrow>
             (case c_close handle a (sv_world s) of (r, w) \<Rightarrow>
                Some (client_goto i (if r = -1 \<and> w_errno w = EINTR then C_Close else C_End) w s))
         | C_End \<Rightarrow> None))"

text \<open>
  The loop of \<open>main\<close> over the listening descriptor \<open>fd\<close>. A failure of \<open>accept\<close> is thrown, and
  \<open>main\<close> returns 1; \<open>launch_thread\<close> overlooks that of \<open>pthread_create\<close> and detaches an
  identifier that was not assigned.
\<close>

definition accept_step :: "int \<Rightarrow> answer \<Rightarrow> server \<Rightarrow> server" where
  "accept_step fd a s =
     (case sv_main s of
        S_Accept \<Rightarrow>
          (case c_accept fd a (sv_world s) of (handle, w) \<Rightarrow>
             if handle \<le> 0 then s\<lparr>sv_world := w, sv_process := Returned 1\<rparr>
             else s\<lparr>sv_world := w, sv_main := S_Launch handle\<rparr>)
      | S_Launch handle \<Rightarrow>
          (case a of
             Ok n bs x \<Rightarrow> s\<lparr>sv_main := S_Accept, sv_clients := sv_clients s @ [(handle, C_Print)]\<rparr>
           | Err e \<Rightarrow> s\<lparr>sv_process := Broken\<rparr>))"

text \<open>\<open>errs\<close>: the errors \<open>close\<close> may report.\<close>

definition allowed :: "errno set \<Rightarrow> nat \<Rightarrow> server \<Rightarrow> answer \<Rightarrow> bool" where
  "allowed errs i s a \<longleftrightarrow> snd (sv_clients s ! i) = C_Close \<longrightarrow> (\<forall>e. a = Err e \<longrightarrow> e \<in> errs)"

inductive server_step :: "int \<Rightarrow> errno set \<Rightarrow> server \<Rightarrow> server \<Rightarrow> bool" for fd errs where
  main: "sv_process s = Serving \<Longrightarrow> server_step fd errs s (accept_step fd a s)"
| client: "sv_process s = Serving \<Longrightarrow> i < length (sv_clients s) \<Longrightarrow> allowed errs i s a \<Longrightarrow>
    client_step a i s = Some s' \<Longrightarrow> server_step fd errs s s'"

inductive_cases server_stepE: "server_step fd errs s s'"

text \<open>The server is in its loop: it listens on \<open>fd\<close>, and has no connection yet.\<close>

definition server_start :: "int \<Rightarrow> world \<Rightarrow> server" where
  "server_start fd w = \<lparr>sv_world = w\<lparr>w_open := fd # w_open w\<rparr>, sv_main = S_Accept, sv_clients = [], sv_process = Serving\<rparr>"

section \<open>Who owns a descriptor\<close>

fun live :: "client_pc \<Rightarrow> bool" where
  "live C_End = False"
| "live _ = True"

definition handle_of :: "server \<Rightarrow> nat \<Rightarrow> int" where
  "handle_of s i = fst (sv_clients s ! i)"

text \<open>Thread \<open>i\<close> has a connection it has not closed.\<close>

definition serves_client :: "server \<Rightarrow> nat \<Rightarrow> bool" where
  "serves_client s i \<longleftrightarrow> i < length (sv_clients s) \<and> live (snd (sv_clients s ! i))"

text \<open>What a thread has sent so far: nothing before its \<open>send\<close>, then a beginning of the message.\<close>

fun sent_ok :: "client_pc \<Rightarrow> u8 list \<Rightarrow> bool" where
  "sent_ok C_Print bs \<longleftrightarrow> bs = []"
| "sent_ok C_Send bs \<longleftrightarrow> bs = []"
| "sent_ok C_End bs \<longleftrightarrow> True"
| "sent_ok _ bs \<longleftrightarrow> (\<exists>k. bs = take k send_msg)"

definition base_fds :: "int \<Rightarrow> world \<Rightarrow> int set" where
  "base_fds fd w0 = insert fd (set (w_open w0))"

definition clients_inv :: "int \<Rightarrow> world \<Rightarrow> server \<Rightarrow> bool" where
  "clients_inv fd w0 s \<longleftrightarrow>
     (\<forall>i. serves_client s i \<longrightarrow> handle_of s i \<in> set (w_open (sv_world s)) - base_fds fd w0
        \<and> sent_ok (snd (sv_clients s ! i)) (w_sent (sv_world s) (handle_of s i)))
     \<and> (\<forall>i j. serves_client s i \<longrightarrow> serves_client s j \<longrightarrow> handle_of s i = handle_of s j \<longrightarrow> i = j)"

definition pending_inv :: "int \<Rightarrow> world \<Rightarrow> server \<Rightarrow> bool" where
  "pending_inv fd w0 s \<longleftrightarrow>
     (\<forall>h. sv_main s = S_Launch h \<longrightarrow> h \<in> set (w_open (sv_world s)) - base_fds fd w0
        \<and> w_sent (sv_world s) h = [] \<and> (\<forall>i. serves_client s i \<longrightarrow> handle_of s i \<noteq> h))"

definition open_inv :: "int \<Rightarrow> world \<Rightarrow> server \<Rightarrow> bool" where
  "open_inv fd w0 s \<longleftrightarrow>
     base_fds fd w0 \<subseteq> set (w_open (sv_world s))
     \<and> (\<forall>h \<in> set (w_open (sv_world s)). h \<in> base_fds fd w0 \<or> sv_main s = S_Launch h
          \<or> (\<exists>i. serves_client s i \<and> handle_of s i = h))"

definition server_inv :: "int \<Rightarrow> world \<Rightarrow> server \<Rightarrow> bool" where
  "server_inv fd w0 s \<longleftrightarrow> clients_inv fd w0 s \<and> pending_inv fd w0 s \<and> open_inv fd w0 s"

lemmas server_inv_defs = server_inv_def clients_inv_def pending_inv_def open_inv_def

text \<open>The calls of a thread on its open descriptor: what they leave.\<close>

lemma c_send_open:
  assumes "h \<in> set (w_open w)" "c_send h buf a w = (k, w')"
  shows "w_open w' = w_open w
    \<and> (if 0 \<le> k then \<exists>j. w_sent w' = (w_sent w)(h := w_sent w h @ take j buf) else w_sent w' = w_sent w)"
  using assms by (auto simp: c_send_def on_fd_def on_answer_def Let_def split: answer.splits)

lemma c_connect_same: "c_connect h x a w = (k, w') \<Longrightarrow> w_open w' = w_open w \<and> w_sent w' = w_sent w"
  by (auto simp: c_connect_def on_fd_def on_answer_def split: answer.splits if_splits)

lemma c_close_open:
  assumes "h \<in> set (w_open w)" "c_close h a w = (k, w')"
  shows "w_open w' = removeAll h (w_open w) \<and> w_sent w' = w_sent w
    \<and> (k = -1 \<and> w_errno w' = EINTR \<longrightarrow> a = Err EINTR)"
  using assms by (auto simp: c_close_def on_answer_def split: answer.splits)

lemma c_accept_result:
  assumes "c_accept fd a w = (h, w')" "fd \<in> set (w_open w)"
  shows "h < 0 \<and> w_open w' = w_open w \<and> w_sent w' = w_sent w
    \<or> 0 \<le> h \<and> h \<notin> set (w_open w) \<and> w_open w' = h # w_open w \<and> w_sent w' = (w_sent w)(h := [])"
  using assms lowest_free_new [of "w_open w"]
  by (auto simp: c_accept_def on_fd_def on_answer_def new_fd_def Let_def split: answer.splits)

text \<open>A thread that moves on within its connection, and one that has closed it.\<close>

lemma client_goto_simps [simp]:
  "sv_main (client_goto i pc w s) = sv_main s" "sv_world (client_goto i pc w s) = w"
  "sv_process (client_goto i pc w s) = sv_process s"
  "length (sv_clients (client_goto i pc w s)) = length (sv_clients s)"
  by (simp_all add: client_goto_def)

lemma handle_of_goto [simp]: "handle_of (client_goto i pc w s) j = handle_of s j"
proof (cases "i < length (sv_clients s)")
  case True
  then show ?thesis by (simp add: client_goto_def handle_of_def nth_list_update)
qed (simp add: client_goto_def handle_of_def list_update_beyond)

lemma client_goto_pc:
  "i < length (sv_clients s) \<Longrightarrow>
   snd (sv_clients (client_goto i pc w s) ! j) = (if j = i then pc else snd (sv_clients s ! j))"
  by (simp add: client_goto_def nth_list_update)

lemma serves_goto:
  "i < length (sv_clients s) \<Longrightarrow>
   serves_client (client_goto i pc w s) j \<longleftrightarrow> (if j = i then live pc else serves_client s j)"
  by (auto simp: serves_client_def client_goto_pc)

lemma inv_goto:
  assumes inv: "server_inv fd w0 s" and i: "serves_client s i" and "live pc"
    and "w_open w = w_open (sv_world s)" "\<forall>h. h \<noteq> handle_of s i \<longrightarrow> w_sent w h = w_sent (sv_world s) h"
    and "sent_ok pc (w_sent w (handle_of s i))"
  shows "server_inv fd w0 (client_goto i pc w s)"
proof -
  have l: "i < length (sv_clients s)" using i by (simp add: serves_client_def)
  have other: "handle_of s j \<noteq> handle_of s i" if "serves_client s j" "j \<noteq> i" for j
    using inv i that by (auto simp: server_inv_def clients_inv_def)
  have serves: "serves_client (client_goto i pc w s) j \<longleftrightarrow> serves_client s j" for j
    using l i assms(3) by (simp add: serves_goto)
  have "clients_inv fd w0 (client_goto i pc w s)"
    using inv l assms(4,5,6) other
    by (auto simp: server_inv_def clients_inv_def serves client_goto_pc)
  moreover have "pending_inv fd w0 (client_goto i pc w s)"
    using inv i assms(4,5) by (fastforce simp: server_inv_def pending_inv_def serves)
  moreover have "open_inv fd w0 (client_goto i pc w s)"
    using inv assms(4) by (simp add: server_inv_def open_inv_def serves)
  ultimately show ?thesis by (simp add: server_inv_def)
qed

lemma inv_close:
  assumes inv: "server_inv fd w0 s" and i: "serves_client s i"
    and "w_open w = removeAll (handle_of s i) (w_open (sv_world s))" "w_sent w = w_sent (sv_world s)"
  shows "server_inv fd w0 (client_goto i C_End w s)"
proof -
  have l: "i < length (sv_clients s)" using i by (simp add: serves_client_def)
  have other: "handle_of s j \<noteq> handle_of s i" if "serves_client s j" "j \<noteq> i" for j
    using inv i that by (auto simp: server_inv_def clients_inv_def)
  have serves: "serves_client (client_goto i C_End w s) j \<longleftrightarrow> serves_client s j \<and> j \<noteq> i" for j
    using l by (auto simp: serves_goto)
  have mine: "handle_of s i \<notin> base_fds fd w0" using inv i by (auto simp: server_inv_def clients_inv_def)
  have "clients_inv fd w0 (client_goto i C_End w s)"
    using inv l assms(3,4) other
    by (auto simp: server_inv_def clients_inv_def serves client_goto_pc)
  moreover have "pending_inv fd w0 (client_goto i C_End w s)"
    using inv i assms(3,4) by (auto simp: server_inv_def pending_inv_def serves)
  moreover have "open_inv fd w0 (client_goto i C_End w s)"
    using inv mine assms(3) other by (auto simp: server_inv_def open_inv_def serves)
  ultimately show ?thesis by (simp add: server_inv_def)
qed

text \<open>One step of a thread, of \<open>main\<close>, and the end of the process, which changes no descriptor.\<close>

lemma inv_process: "server_inv fd w0 s \<Longrightarrow> w_open w = w_open (sv_world s) \<Longrightarrow> w_sent w = w_sent (sv_world s) \<Longrightarrow>
   server_inv fd w0 (s\<lparr>sv_world := w, sv_process := p\<rparr>)"
  by (simp add: server_inv_defs serves_client_def handle_of_def)

lemma client_step_inv:
  assumes inv: "server_inv fd w0 s" and i: "i < length (sv_clients s)"
    and ok: "allowed errs i s a" "EINTR \<notin> errs" and step: "client_step a i s = Some s'"
  shows "server_inv fd w0 s'"
proof -
  obtain h pc where c: "sv_clients s ! i = (h, pc)" by fastforce
  then have h: "handle_of s i = h" by (simp add: handle_of_def)
  have live: "pc \<noteq> C_End" using step c by (auto simp: client_step_def)
  then have i': "serves_client s i" using i c by (cases pc) (simp_all add: serves_client_def)
  with inv h have op: "h \<in> set (w_open (sv_world s))" and sent: "sent_ok pc (w_sent (sv_world s) h)"
    using c by (auto simp: server_inv_def clients_inv_def)
  show ?thesis
  proof (cases pc)
    case C_Send
    obtain k w where k: "c_send h send_msg a (sv_world s) = (k, w)" by fastforce
    note w = c_send_open [OF op k]
    from step c C_Send k have "s' = client_goto i C_Report w s \<and> 0 \<le> k
        \<or> (\<exists>p \<in> {C_Send, C_Close}. s' = client_goto i p w s) \<and> k < 0
        \<or> s' = s\<lparr>sv_world := w, sv_process := Aborted\<rparr> \<and> k < 0"
      by (auto simp: client_step_def split: if_splits)
    then show ?thesis
    proof (elim disjE conjE bexE)
      assume "s' = client_goto i C_Report w s" "0 \<le> k"
      moreover with w sent C_Send obtain j where "w_sent w = (w_sent (sv_world s))(h := take j send_msg)" by auto
      ultimately show ?thesis
        using inv_goto [OF inv i', of C_Report w] h w by (auto intro: exI [of _ j])
    next
      fix p
      assume "p \<in> {C_Send, C_Close}" "s' = client_goto i p w s" "k < 0"
      moreover have "[] = take 0 send_msg" by simp
      ultimately show ?thesis
        using inv_goto [OF inv i', of p w] h w sent C_Send by (auto intro: exI [of _ 0])
    next
      assume "s' = s\<lparr>sv_world := w, sv_process := Aborted\<rparr>" "k < 0"
      with w inv_process [OF inv] show ?thesis by simp
    qed
  next
    case C_Disconnect
    obtain r w where r: "c_connect h Unnamed a (sv_world s) = (r, w)" by fastforce
    note w = c_connect_same [OF r]
    from step c C_Disconnect r have "s' = client_goto i C_Close w s \<or> s' = s\<lparr>sv_world := w, sv_process := Aborted\<rparr>"
      by (auto simp: client_step_def split: if_splits)
    with w sent C_Disconnect h show ?thesis
      using inv_goto [OF inv i', of C_Close w] inv_process [OF inv, of w Aborted] by auto
  next
    case C_Close
    obtain r w where r: "c_close h a (sv_world s) = (r, w)" by fastforce
    note w = c_close_open [OF op r]
    have "a \<noteq> Err EINTR" using ok c C_Close by (auto simp: allowed_def)
    with step c C_Close r w have "s' = client_goto i C_End w s" by (auto simp: client_step_def)
    with w h show ?thesis using inv_close [OF inv i', of w] by simp
  next
    case C_Report
    with step c sent h show ?thesis
      using inv_goto [OF inv i', of C_Disconnect "print_line ''TCP server sucessfully sent data to the client.'' (sv_world s)"]
      by (simp add: client_step_def print_line_def)
  next
    case C_Print
    with step c sent h show ?thesis
      using inv_goto [OF inv i', of C_Send "print_line (''client '' @ show_int h) (sv_world s)"]
      by (simp add: client_step_def print_line_def)
  qed (use live in simp)
qed

lemma accept_step_inv:
  assumes inv: "server_inv fd w0 s" and zero: "0 \<in> base_fds fd w0"
  shows "server_inv fd w0 (accept_step fd a s)"
proof (cases "sv_main s")
  case S_Accept
  obtain h w where h: "c_accept fd a (sv_world s) = (h, w)" by fastforce
  have "fd \<in> set (w_open (sv_world s))" "0 \<in> set (w_open (sv_world s))"
    using inv zero by (auto simp: server_inv_def open_inv_def base_fds_def)
  with c_accept_result [OF h] consider "h < 0" "w_open w = w_open (sv_world s)" "w_sent w = w_sent (sv_world s)"
    | "0 < h" "h \<notin> set (w_open (sv_world s))" "w_open w = h # w_open (sv_world s)" "w_sent w = (w_sent (sv_world s))(h := [])"
    by (metis order_le_less)
  then show ?thesis
  proof cases
    case 1
    with S_Accept h inv_process [OF inv] show ?thesis by (simp add: accept_step_def)
  next
    case 2
    then have s': "accept_step fd a s = s\<lparr>sv_world := w, sv_main := S_Launch h\<rparr>"
      using S_Accept h by (simp add: accept_step_def)
    have new: "h \<notin> base_fds fd w0" using inv 2(2) by (auto simp: server_inv_def open_inv_def)
    have other: "handle_of s i \<noteq> h" if "serves_client s i" for i
      using inv that 2(2) by (auto simp: server_inv_def clients_inv_def)
    show ?thesis
      using inv 2 new other S_Accept
      by (fastforce simp: server_inv_defs s' serves_client_def handle_of_def)
  qed
next
  case (S_Launch h)
  show ?thesis
  proof (cases a)
    case (Err e)
    with S_Launch inv_process [OF inv, of "sv_world s" Broken] show ?thesis by (simp add: accept_step_def)
  next
    case (Ok n bs x)
    let ?s = "s\<lparr>sv_main := S_Accept, sv_clients := sv_clients s @ [(h, C_Print)]\<rparr>"
    let ?n = "length (sv_clients s)"
    have s': "accept_step fd a s = ?s" using S_Launch Ok by (simp add: accept_step_def)
    have serves: "serves_client ?s i \<longleftrightarrow> serves_client s i \<or> i = ?n" for i
      by (auto simp: serves_client_def nth_append less_Suc_eq)
    have handle: "handle_of ?s i = (if i = ?n then h else handle_of s i)" if "serves_client ?s i" for i
      using that by (auto simp: serves_client_def handle_of_def nth_append less_Suc_eq)
    have pc: "snd (sv_clients ?s ! i) = (if i = ?n then C_Print else snd (sv_clients s ! i))" if "serves_client ?s i" for i
      using that by (auto simp: serves_client_def nth_append less_Suc_eq)
    have pend: "h \<in> set (w_open (sv_world s)) - base_fds fd w0" "w_sent (sv_world s) h = []"
      "\<And>i. serves_client s i \<Longrightarrow> handle_of s i \<noteq> h"
      using inv S_Launch by (auto simp: server_inv_def pending_inv_def)
    have not_n: "\<not> serves_client s ?n" by (simp add: serves_client_def)
    have old: "handle_of s i \<in> set (w_open (sv_world s)) - base_fds fd w0
        \<and> sent_ok (snd (sv_clients s ! i)) (w_sent (sv_world s) (handle_of s i))" if "serves_client s i" for i
      using inv that by (simp add: server_inv_def clients_inv_def)
    have one: "i = j" if "serves_client s i" "serves_client s j" "handle_of s i = handle_of s j" for i j
      using inv that by (simp add: server_inv_def clients_inv_def)
    have "clients_inv fd w0 ?s"
      unfolding clients_inv_def
    proof (intro conjI allI impI)
      fix i assume i: "serves_client ?s i"
      then have "i = ?n \<or> serves_client s i \<and> i \<noteq> ?n" using serves not_n by auto
      then show "handle_of ?s i \<in> set (w_open (sv_world ?s)) - base_fds fd w0"
        and "sent_ok (snd (sv_clients ?s ! i)) (w_sent (sv_world ?s) (handle_of ?s i))"
        using handle [OF i] pc [OF i] pend(1,2) old [of i] by auto
    next
      fix i j assume i: "serves_client ?s i" and j: "serves_client ?s j" and "handle_of ?s i = handle_of ?s j"
      then show "i = j"
        using handle [OF i] handle [OF j] serves [of i] serves [of j] pend(3) [of i] pend(3) [of j] one
        by (auto split: if_splits)
    qed
    moreover have "pending_inv fd w0 ?s" by (simp add: pending_inv_def)
    moreover have "open_inv fd w0 ?s"
      unfolding open_inv_def
    proof (intro conjI ballI)
      show "base_fds fd w0 \<subseteq> set (w_open (sv_world ?s))" using inv by (simp add: server_inv_def open_inv_def)
      fix x assume "x \<in> set (w_open (sv_world ?s))"
      then have "x \<in> base_fds fd w0 \<or> x = h \<or> (\<exists>i. serves_client s i \<and> handle_of s i = x)"
        using inv S_Launch by (auto simp: server_inv_def open_inv_def)
      moreover have "serves_client ?s ?n" "handle_of ?s ?n = h" using serves [of ?n] handle [of ?n] by auto
      moreover have "serves_client ?s i \<and> handle_of ?s i = handle_of s i" if "serves_client s i" for i
        using that serves [of i] handle [of i] not_n by auto
      ultimately show "x \<in> base_fds fd w0 \<or> sv_main ?s = S_Launch x \<or> (\<exists>i. serves_client ?s i \<and> handle_of ?s i = x)"
        by blast
    qed
    ultimately show ?thesis unfolding s' by (simp add: server_inv_def)
  qed
qed


lemma zero_in_base: "0 \<in> base_fds (lowest_free (w_open w0)) w0"
  by (cases "0 \<in> set (w_open w0)") (simp_all add: base_fds_def lowest_free_def upt_conv_Cons del: upt_Suc)

text \<open>With a \<open>close\<close> that is never interrupted every step of the server keeps the owners apart.\<close>

interpretation server_sys: invariant_system "server_start (lowest_free (w_open w0)) w0"
  "server_step (lowest_free (w_open w0)) (errs - {EINTR})" "server_inv (lowest_free (w_open w0)) w0" for w0 errs
proof
  let ?fd = "lowest_free (w_open w0)"
  show "server_inv ?fd w0 (server_start ?fd w0)"
    by (auto simp: server_inv_defs server_start_def serves_client_def base_fds_def)
  show "server_inv ?fd w0 t" if "server_inv ?fd w0 s" "server_step ?fd (errs - {EINTR}) s t" for s t
    using that(2,1) zero_in_base by cases (auto intro: accept_step_inv client_step_inv)
qed

text \<open>A schedule: which thread makes the next call, \<open>main\<close> if none, and its answer.\<close>

definition server_act :: "int \<Rightarrow> errno list \<Rightarrow> nat option \<times> answer \<Rightarrow> server \<Rightarrow> server option" where
  "server_act fd errs l s =
     (if sv_process s \<noteq> Serving then None
      else case l of
        (None, a) \<Rightarrow> Some (accept_step fd a s)
      | (Some i, a) \<Rightarrow>
          if i < length (sv_clients s)
             \<and> (snd (sv_clients s ! i) = C_Close \<longrightarrow> (case a of Err e \<Rightarrow> e \<in> set errs | Ok n bs x \<Rightarrow> True))
          then client_step a i s else None)"

lemma server_act_step: "server_act fd errs l s = Some t \<Longrightarrow> server_step fd (set errs) s t"
  by (cases l; cases "fst l")
    (auto simp: server_act_def allowed_def split: if_splits answer.splits
      intro: server_step.main server_step.client [where a = "snd l"])

lemma server_threads_reach:
  assumes "reach (server_start fd w0) (server_step fd errs) s"
    and "fd = lowest_free (w_open w0)" "EINTR \<notin> errs"
  shows "server_inv fd w0 s"
proof -
  have "errs = errs - {EINTR}" using assms(3) by simp
  with assms(1,2) server_sys.reach_inv [of w0 errs s] show ?thesis by simp
qed

lemma server_inv_sent:
  assumes "server_inv fd w0 s" "serves_client s i"
  shows "\<exists>k. w_sent (sv_world s) (handle_of s i) = take k send_msg"
proof -
  from assms have "sent_ok (snd (sv_clients s ! i)) (w_sent (sv_world s) (handle_of s i))" "live (snd (sv_clients s ! i))"
    by (auto simp: server_inv_def clients_inv_def serves_client_def)
  then show ?thesis by (cases "snd (sv_clients s ! i)") (auto intro: exI [of _ 0])
qed

section \<open>Two connections at a time\<close>

text \<open>
  C6: In the threaded server, in every interleaving of its threads and with every answer of the
  system to its calls but an interrupted \<open>close\<close>, a thread that has not closed its
  connection has a descriptor that is open and is neither the listening socket's nor one that
  was open before nor another thread's, and what was sent on it is a beginning of the message;
  and every descriptor that is open is the listening socket's, was open before, belongs to such
  a thread or is on its way to one, so that none leaks.
\<close>

theorem server_threads_own_descriptors:
  assumes "reach (server_start fd w0) (server_step fd errs) s"
    and "fd = lowest_free (w_open w0)" "EINTR \<notin> errs"
  shows "(\<forall>i. serves_client s i \<longrightarrow>
           handle_of s i \<in> set (w_open (sv_world s)) - insert fd (set (w_open w0))
           \<and> (snd (sv_clients s ! i) = C_Print \<or> snd (sv_clients s ! i) = C_Send \<longrightarrow> w_sent (sv_world s) (handle_of s i) = [])
           \<and> (\<exists>k. w_sent (sv_world s) (handle_of s i) = take k send_msg)
           \<and> (\<forall>j. serves_client s j \<longrightarrow> j \<noteq> i \<longrightarrow> handle_of s j \<noteq> handle_of s i))
     \<and> insert fd (set (w_open w0)) \<subseteq> set (w_open (sv_world s))
     \<and> (\<forall>h \<in> set (w_open (sv_world s)). h \<in> insert fd (set (w_open w0)) \<or> sv_main s = S_Launch h
          \<or> (\<exists>i. serves_client s i \<and> handle_of s i = h))"
proof -
  note inv = server_threads_reach [OF assms]
  have none: "bs = []" if "sent_ok pc bs" "pc = C_Print \<or> pc = C_Send" for pc bs
    using that by auto
  show ?thesis
  proof (intro conjI allI impI)
    fix i assume i: "serves_client s i"
    with inv have "sent_ok (snd (sv_clients s ! i)) (w_sent (sv_world s) (handle_of s i))"
      and "handle_of s i \<in> set (w_open (sv_world s)) - base_fds fd w0"
      by (simp_all add: server_inv_def clients_inv_def)
    then show "\<exists>k. w_sent (sv_world s) (handle_of s i) = take k send_msg"
      and "handle_of s i \<in> set (w_open (sv_world s)) - insert fd (set (w_open w0))"
      and "snd (sv_clients s ! i) = C_Print \<or> snd (sv_clients s ! i) = C_Send \<Longrightarrow> w_sent (sv_world s) (handle_of s i) = []"
      using none server_inv_sent [OF inv i] by (auto simp: base_fds_def)
    show "handle_of s j \<noteq> handle_of s i" if "serves_client s j" "j \<noteq> i" for j
      using inv i that by (auto simp: server_inv_def clients_inv_def)
  qed (use inv in \<open>simp_all add: server_inv_def open_inv_def base_fds_def\<close>)
qed

text \<open>Two connections; the first has been served and closed, and its number is given away again.\<close>

definition two_clients :: "(nat option \<times> answer) list" where
  "two_clients =
     (let ok = Ok 0 [] Unnamed
      in [(None, ok), (None, ok), (None, ok), (None, ok), (Some 0, ok), (Some 1, ok), (Some 0, Ok 27 [] Unnamed),
          (Some 0, ok), (Some 0, ok), (Some 0, ok), (None, ok), (Some 1, Ok 9 [] Unnamed), (None, ok)])"

lemma two_clients_run:
  "case follow (server_act 3 []) two_clients (server_start 3 (local_world [])) of
     None \<Rightarrow> False
   | Some s \<Rightarrow> map fst (sv_clients s) = [4, 5, 4] \<and> map snd (sv_clients s) = [C_End, C_Report, C_Print]
       \<and> w_sent (sv_world s) 5 = take 9 send_msg"
  by code_simp

theorem server_threads_own_descriptors_witness:
  "\<exists>s. reach (server_start 3 (local_world [])) (server_step 3 {}) s
     \<and> serves_client s 1 \<and> handle_of s 1 = 5 \<and> serves_client s 2 \<and> handle_of s 2 = 4
     \<and> 5 \<in> set (w_open (sv_world s)) \<and> (\<exists>k. w_sent (sv_world s) 5 = take k send_msg)"
proof -
  from two_clients_run obtain s
    where run: "follow (server_act 3 []) two_clients (server_start 3 (local_world [])) = Some s"
      and c: "map fst (sv_clients s) = [4, 5, 4]" "map snd (sv_clients s) = [C_End, C_Report, C_Print]"
    by (cases "follow (server_act 3 []) two_clients (server_start 3 (local_world []))") auto
  from run have r: "reach (server_start 3 (local_world [])) (server_step 3 {}) s"
    by (rule follow_reach) (use server_act_step [of 3 "[]"] in simp)
  have "lowest_free (w_open (local_world [])) = 3" by code_simp
  note all = server_threads_own_descriptors [OF r this [symmetric]]
  have "sv_clients s = [(4, C_End), (5, C_Report), (4, C_Print)]" using c by (auto simp: map_eq_Cons_conv)
  then have "serves_client s 1" "handle_of s 1 = 5" "serves_client s 2" "handle_of s 2 = 4"
    by (simp_all add: serves_client_def handle_of_def)
  with all r show ?thesis by (metis DiffD1 empty_iff)
qed

section \<open>An interrupted close\<close>

text \<open>
  The destructor closes the descriptor again after \<open>EINTR\<close>, but it is already released: by
  then its number may be another thread's.
\<close>

definition close_twice :: "(nat option \<times> answer) list" where
  "close_twice =
     (let ok = Ok 0 [] Unnamed
      in [(None, ok), (None, ok), (Some 0, ok), (Some 0, Ok 27 [] Unnamed), (Some 0, ok), (Some 0, ok),
          (Some 0, Err EINTR), (None, ok), (None, ok), (Some 1, ok), (Some 0, ok)])"

lemma close_twice_run:
  "case follow (server_act 3 [EINTR]) close_twice (server_start 3 (local_world [])) of
     None \<Rightarrow> False
   | Some s \<Rightarrow> sv_clients s = [(4, C_End), (4, C_Send)] \<and> 4 \<notin> set (w_open (sv_world s)) \<and> sv_process s = Serving"
  by code_simp

text \<open>
  When \<open>close\<close> may be interrupted, the destructor of one connection's socket can close
  the descriptor of another: a state can be reached in which the server runs, its second
  thread is about to send on a descriptor that it has not closed and that is not open any more,
  and whatever the system answers the send throws and the process is aborted.
\<close>

theorem interrupted_close_hits_another:
  "\<exists>s. reach (server_start 3 (local_world [])) (server_step 3 {EINTR}) s \<and> sv_process s = Serving
     \<and> serves_client s 1 \<and> handle_of s 1 \<notin> set (w_open (sv_world s))
     \<and> (\<forall>a. map_option sv_process (client_step a 1 s) = Some Aborted)"
proof -
  from close_twice_run obtain s
    where run: "follow (server_act 3 [EINTR]) close_twice (server_start 3 (local_world [])) = Some s"
      and c: "sv_clients s = [(4, C_End), (4, C_Send)]" "4 \<notin> set (w_open (sv_world s))" "sv_process s = Serving"
    by (cases "follow (server_act 3 [EINTR]) close_twice (server_start 3 (local_world []))") auto
  from run have "reach (server_start 3 (local_world [])) (server_step 3 {EINTR}) s"
    by (rule follow_reach) (use server_act_step [of 3 "[EINTR]"] in simp)
  moreover have "map_option sv_process (client_step a 1 s) = Some Aborted" for a
    using c by (simp add: client_step_def c_send_def on_fd_def)
  ultimately show ?thesis
    using c by (auto simp: serves_client_def handle_of_def)
qed

end
