(* ===== verification/Tcp_Exchange.thy ===== *)
theory Tcp_Exchange
  imports Server_Threads
begin

text \<open>
  The two ends of \<open>day3/socknet\<close> together: a TCP client of the threaded server, which receives a
  beginning of what the thread of its connection has sent so far.
\<close>

section \<open>What the client prints\<close>

lemma out_calls_keep [keeps_intros]:
  "ignores_answers w_out" "keeps_call w_out (c_connect fd addr)" "keeps_call w_out (c_close fd)"
  by (auto simp: ignores_answers_def keeps_call_def call_defs Let_def split: answer.split)

lemma out_keep [keeps_intros]: "keeps w_out (base_disconnect s)" "keeps w_out (base_socket_dtor s)"
  unfolding base_disconnect_def base_socket_dtor_def by (auto intro!: keeps_intros)

lemma prints_text:
  assumes "0 \<notin> set bs" "0 < z"
  shows "takeWhile (\<lambda>b. b \<noteq> 0) (take m (bs @ [0]) @ replicate z (0::u8)) = take m bs"
proof (cases "m \<le> length bs")
  case True
  have "\<forall>b \<in> set (take m bs). b \<noteq> 0" using assms(1) in_set_takeD by metis
  with True assms(2) show ?thesis by (cases z) simp_all
next
  case False
  then obtain n where n: "m - length bs = Suc n" by (cases "m - length bs") auto
  have "\<forall>b \<in> set bs. b \<noteq> 0" using assms(1) by metis
  then have "takeWhile (\<lambda>b. b \<noteq> 0) (bs @ 0 # replicate z 0) = bs" by (simp add: takeWhile_append2)
  with False n show ?thesis by simp
qed

lemma send_msg_text: "send_msg = bytes_of ''Shut up and take my money!'' @ [0]"
  "0 \<notin> set (bytes_of ''Shut up and take my money!'')"
  "map byte_char (bytes_of ''Shut up and take my money!'') = ''Shut up and take my money!''"
  by code_simp+

lemma send_msg_length: "length send_msg = 27"
  by code_simp

lemma client_rest_prints:
  assumes "client_rest s (take k send_msg) w = (r, w')"
  shows "w_out w' = w_out w @ (if take k send_msg = [] then []
      else [''Received data from server: '' @ take k ''Shut up and take my money!'']) \<and> r \<noteq> UB"
proof -
  let ?d = "take k send_msg"
  let ?z = "50 - length ?d"
  have z: "0 < ?z" using send_msg_length by simp
  have line: "map byte_char (takeWhile (\<lambda>b. b \<noteq> 0) (?d @ replicate ?z 0)) = take k ''Shut up and take my money!''"
    using prints_text [OF send_msg_text(2) z, of k] send_msg_text(1,3) by (simp add: take_map [symmetric])
  have tame: "tame UNIV (io_bind (base_disconnect s) (\<lambda>_. io_ret (0 :: int)))" by (auto intro!: tame_intros)
  have keep: "keeps w_out (io_bind (base_disconnect s) (\<lambda>_. io_ret (0 :: int)))" by (auto intro!: keeps_intros)
  show ?thesis
  proof (cases "?d = []")
    case True
    with assms have "io_bind (base_disconnect s) (\<lambda>_. io_ret 0) w = (r, w')"
      by (simp add: client_rest_def io_bind_def io_when_def io_ret_def)
    with keepsD [OF keep] tameD [OF tame] True show ?thesis by fastforce
  next
    case False
    have "0 \<in> set (?d @ replicate ?z 0)" using send_msg_length by simp
    with assms False line
    have "io_bind (base_disconnect s) (\<lambda>_. io_ret 0)
        (w\<lparr>w_out := w_out w @ [''Received data from server: '' @ take k ''Shut up and take my money!'']\<rparr>) = (r, w')"
      by (simp add: client_rest_def io_bind_def io_when_def print_buffer_def)
    with keepsD [OF keep] tameD [OF tame] False show ?thesis by fastforce
  qed
qed

lemma scope_report_out:
  assumes "m w = (r, u)" "r \<noteq> UB" and "keeps w_out dtor" "sure dtor"
  shows "fst (io_main (io_catch (io_scope dtor m) report) w) \<noteq> UB
    \<and> (\<exists>err. w_out (snd (io_main (io_catch (io_scope dtor m) report) w)) = w_out u @ err \<and> length err \<le> 1)"
proof -
  obtain q v where d: "dtor u = (q, v)" by fastforce
  with assms(3) have v: "w_out v = w_out u" by (auto dest: keepsD)
  have q: "q = Ret () \<or> q = Stop Blocked" using assms(4) d unfolding sure_def by (metis fst_conv)
  obtain p t where p: "io_scope dtor m w = (p, t)" by fastforce
  have t: "p \<noteq> UB" "w_out t = w_out u"
    using p assms(1,2) d v q by (auto simp: io_scope_def split: if_splits)
  show ?thesis
  proof (cases "\<exists>what e. p = Stop (Thrown what e)")
    case True
    then obtain what e where "p = Stop (Thrown what e)" by blast
    with p t have "io_main (io_catch (io_scope dtor m) report) w = (Ret 1, t\<lparr>w_out := w_out u @ [what]\<rparr>)"
      by (simp add: io_main_def io_catch_def report_def io_defs)
    then show ?thesis by simp
  next
    case False
    with p t show ?thesis
      by (cases p) (auto simp: io_main_def io_catch_def split: halt.split)
  qed
qed

section \<open>Client and server\<close>



end
