(* ===== verification/Boost_Priority.thy ===== *)
theory Boost_Priority
  imports Sched_Attribs
begin

text \<open>
  \<open>day1/04_boost_thread_priority/prio.cpp\<close>: the program shows its scheduling policy, takes a
  round-robin one, and starts a thread, whose inherited policy it shows and changes. The file
  also holds an unused class \<open>Foo\<close> with errors of syntax; the model is of the rest. The model
  keeps the policies and priorities of the two threads and the lines printed.
\<close>

record prio_state =
  pr_main :: "int \<times> int"
  pr_t1 :: "(int \<times> int) option"
  pr_out :: "string list"

text \<open>\<open>exit(EXIT_FAILURE)\<close>, or an exception of the constructor of \<open>boost::thread\<close>.\<close>

datatype prio_halt = Exit_failure | Uncaught

type_synonym prio_run = "prio_state \<Rightarrow> (prio_halt \<times> prio_state, prio_state) exec"

definition prio_print :: "string \<Rightarrow> prio_state \<Rightarrow> prio_state" where
  "prio_print line s = s\<lparr>pr_out := pr_out s @ [line]\<rparr>"

definition prio_exit :: "string \<Rightarrow> prio_run" where
  "prio_exit msg s = Stop (Exit_failure, prio_print msg s)"

definition policy_line :: "string \<Rightarrow> int \<times> int \<Rightarrow> string" where
  "policy_line what p =
     what @ ''policy=''
       @ (if fst p = SCHED_FIFO then ''SCHED_FIFO'' else if fst p = SCHED_RR then ''SCHED_RR''
          else if fst p = SCHED_OTHER then ''SCHED_OTHER'' else ''???'')
       @ '', priority='' @ show_int (snd p)"

text \<open>
  The thread is asked for its policy and is given another one; \<open>e_get\<close> and \<open>e_set\<close> are the
  results of the two calls. The last line shows the variables, not what the system answers.
\<close>

definition displayAndChange :: "int \<Rightarrow> int \<Rightarrow> prio_run" where
  "displayAndChange e_get e_set s =
     (case pr_t1 s of
        None \<Rightarrow> UB
      | Some inherited \<Rightarrow>
          if e_get \<noteq> 0 then prio_exit ''pthread_getschedparam'' s
          else
            let s1 = prio_print (policy_line ''INHERITED: '' inherited) s;
                param = (SCHED_FIFO, 4)
            in if e_set \<noteq> 0 then prio_exit ''pthread_setschedparam'' s1
               else Ret (prio_print (policy_line ''  CHANGED: '' param) (s1\<lparr>pr_t1 := Some param\<rparr>)))"

text \<open>
  \<open>main\<close>. The system answers \<open>e k\<close> to call \<open>k\<close>: \<open>sched_getscheduler\<close>, \<open>sched_getparam\<close>,
  \<open>sched_setscheduler\<close> (-1 when they fail), the creation of the thread, which inherits from
  the calling thread, and the two calls of \<open>displayAndChange\<close>. The join waits for a thread
  that sleeps for five seconds; then the program returns 0.
\<close>

definition prio_main :: "(nat \<Rightarrow> int) \<Rightarrow> prio_run" where
  "prio_main e s =
     (if e 0 = -1 then prio_exit ''sched_getscheduler'' s
      else if e 1 = -1 then prio_exit ''sched_getparam'' s
      else
        let s1 = prio_print (policy_line '' ORIGINAL: '' (pr_main s)) s;
            param = (SCHED_RR, 2)
        in if e 2 = -1 then prio_exit (''sched_setscheduler '' @ show_int (e 2)) s1
           else
             let s2 = s1\<lparr>pr_main := param\<rparr>
             in if e 3 \<noteq> 0 then Stop (Uncaught, s2)
                else displayAndChange (e 4) (e 5) (s2\<lparr>pr_t1 := Some (pr_main s2)\<rparr>))"

section \<open>What it shows\<close>

text \<open>
  The program ends well exactly when no call fails. Then it has shown the policy it was
  started with, that the thread inherited the round-robin policy and priority 2, and that it
  has \<open>SCHED_FIFO\<close> with priority 4, which are what the two threads have.
\<close>

lemma prio_main_shows:
  "prio_main e s = Ret s' \<longleftrightarrow>
     e 0 \<noteq> -1 \<and> e 1 \<noteq> -1 \<and> e 2 \<noteq> -1 \<and> e 3 = 0 \<and> e 4 = 0 \<and> e 5 = 0
     \<and> s' = \<lparr>pr_main = (SCHED_RR, 2), pr_t1 = Some (SCHED_FIFO, 4),
              pr_out = pr_out s @ [policy_line '' ORIGINAL: '' (pr_main s), ''INHERITED: policy=SCHED_RR, priority=2'',
                ''  CHANGED: policy=SCHED_FIFO, priority=4'']\<rparr>"
proof -
  have "policy_line ''INHERITED: '' (SCHED_RR, 2) = ''INHERITED: policy=SCHED_RR, priority=2''"
    "policy_line ''  CHANGED: '' (SCHED_FIFO, 4) = ''  CHANGED: policy=SCHED_FIFO, priority=4''"
    by code_simp+
  then show ?thesis
    by (auto simp: prio_main_def displayAndChange_def prio_exit_def prio_print_def Let_def)
qed

text \<open>
  A failed call ends the program, with status 1 or, when it is the creation of the thread,
  through an exception, and never with a thread whose policy was changed: the thread does not
  exist yet, or has what it inherited.
\<close>

lemma prio_main_fails:
  assumes "prio_main e s = Stop (h, s')" and "pr_t1 s = None"
  shows "(h = Uncaught \<longleftrightarrow> e 0 \<noteq> -1 \<and> e 1 \<noteq> -1 \<and> e 2 \<noteq> -1 \<and> e 3 \<noteq> 0)
    \<and> pr_t1 s' \<in> {None, Some (SCHED_RR, 2)}
    \<and> (pr_main s' = pr_main s \<or> pr_main s' = (SCHED_RR, 2))
    \<and> (pr_t1 s' = None \<longleftrightarrow> e 0 = -1 \<or> e 1 = -1 \<or> e 2 = -1 \<or> e 3 \<noteq> 0)"
  using assms
  by (auto simp: prio_main_def displayAndChange_def prio_exit_def prio_print_def Let_def split: if_splits)

lemma prio_main_defined: "pr_t1 s = None \<Longrightarrow> prio_main e s \<noteq> UB"
  by (simp add: prio_main_def displayAndChange_def prio_exit_def Let_def)

end
