(* ===== verification/Active_Queue.thy ===== *)
theory Active_Queue
  imports Queue_Atomic
begin

text \<open>
  The queue of \<open>day2/x_active_object\<close> under any number of threads that call its methods at
  will, one program counter per statement: a plain mutex, locked and unlocked by hand, the
  signal sent while it is held, \<open>is_empty\<close> without a lock. Called from outside, \<open>is_empty\<close> reads the
  queue while another thread may be changing it under the mutex; what it finds then is
  anything (to C++ that race is undefined altogether). A \<open>try_pop\<close> that finds the queue
  empty returns with the mutex locked; what that does to the other threads, and that nothing
  else goes wrong, is shown here.
\<close>

section \<open>Program counters of the methods\<close>

datatype 'a aoq_pc =
    A_Idle
  \<comment> \<open>\<open>pop\<close>\<close>
  | AP_Lock | AP_Test | AP_Wait | AP_Blocked | AP_Reacq | AP_Front | AP_Pop 'a | AP_Unlock 'a
  \<comment> \<open>\<open>try_pop\<close>, with its return of \<open>false\<close>\<close>
  | AT_Lock | AT_Test | AT_False | AT_Front | AT_Pop 'a | AT_Unlock 'a
  \<comment> \<open>\<open>push\<close>\<close>
  | AU_Lock 'a | AU_Enq 'a | AU_Signal | AU_Unlock
  \<comment> \<open>\<open>is_empty\<close> called from outside\<close>
  | AE_Test | AE_Return bool

fun aoq_entry :: "'a tsq_call \<Rightarrow> 'a aoq_pc" where
  "aoq_entry (Call_push x) = AU_Lock x"
| "aoq_entry Call_pop = AP_Lock"
| "aoq_entry Call_try_pop = AT_Lock"
| "aoq_entry Call_is_empty = AE_Test"

record 'a asys =
  as_items :: "'a list"
  as_mtx :: mutex
  as_pc :: "tid \<Rightarrow> 'a aoq_pc"
  as_pushed :: "'a list"
  as_popped :: "'a list"

definition asys_start :: "'a asys" where
  "asys_start = \<lparr>as_items = [], as_mtx = mutex_init NORMAL, as_pc = (\<lambda>t. A_Idle), as_pushed = [], as_popped = []\<rparr>"

abbreviation a_goto :: "tid \<Rightarrow> 'a aoq_pc \<Rightarrow> 'a asys \<Rightarrow> 'a asys" where
  "a_goto t p s \<equiv> s\<lparr>as_pc := (as_pc s)(t := p)\<rparr>"

text \<open>A call on the mutex, whose result the code does not look at.\<close>

definition a_mutex :: "mutex outcome \<Rightarrow> tid \<Rightarrow> 'a aoq_pc \<Rightarrow> 'a asys \<Rightarrow> 'a asys option" where
  "a_mutex r t p s =
     (case ignore_errno (as_mtx s) r of Done m \<Rightarrow> Some ((a_goto t p s)\<lparr>as_mtx := m\<rparr>) | _ \<Rightarrow> None)"

definition aoq_exec :: "tid \<Rightarrow> 'a asys \<Rightarrow> 'a asys option" where
  "aoq_exec t s =
     (let lock = mutex_lock t (as_mtx s); unlock = mutex_unlock t (as_mtx s)
      in case as_pc s t of
        AP_Lock \<Rightarrow> a_mutex lock t AP_Test s
      | AP_Test \<Rightarrow> Some (a_goto t (if as_items s = [] then AP_Wait else AP_Front) s)
      | AP_Wait \<Rightarrow> a_mutex unlock t AP_Blocked s
      | AP_Reacq \<Rightarrow> a_mutex lock t AP_Test s
      | AP_Front \<Rightarrow> (case as_items s of [] \<Rightarrow> None | x # _ \<Rightarrow> Some (a_goto t (AP_Pop x) s))
      | AP_Pop x \<Rightarrow>
          (case as_items s of
             [] \<Rightarrow> None
           | y # ys \<Rightarrow> Some ((a_goto t (AP_Unlock x) s)\<lparr>as_items := ys, as_popped := as_popped s @ [x]\<rparr>))
      | AP_Unlock x \<Rightarrow> a_mutex unlock t A_Idle s
      | AT_Lock \<Rightarrow> a_mutex lock t AT_Test s
      | AT_Test \<Rightarrow> Some (a_goto t (if as_items s = [] then AT_False else AT_Front) s)
      | AT_False \<Rightarrow> Some (a_goto t A_Idle s)
      | AT_Front \<Rightarrow> (case as_items s of [] \<Rightarrow> None | x # _ \<Rightarrow> Some (a_goto t (AT_Pop x) s))
      | AT_Pop x \<Rightarrow>
          (case as_items s of
             [] \<Rightarrow> None
           | y # ys \<Rightarrow> Some ((a_goto t (AT_Unlock x) s)\<lparr>as_items := ys, as_popped := as_popped s @ [x]\<rparr>))
      | AT_Unlock x \<Rightarrow> a_mutex unlock t A_Idle s
      | AU_Lock x \<Rightarrow> a_mutex lock t (AU_Enq x) s
      | AU_Enq x \<Rightarrow> Some ((a_goto t AU_Signal s)\<lparr>as_items := as_items s @ [x], as_pushed := as_pushed s @ [x]\<rparr>)
      | AU_Unlock \<Rightarrow> a_mutex unlock t A_Idle s
      | AE_Test \<Rightarrow> Some (a_goto t (AE_Return (as_items s = [])) s)
      | AE_Return e \<Rightarrow> Some (a_goto t A_Idle s)
      | _ \<Rightarrow> None)"

text \<open>Statements that change the queue, during which a read without the mutex finds anything.\<close>

fun changing :: "'a aoq_pc \<Rightarrow> bool" where
  "changing (AU_Enq x) = True" | "changing (AP_Pop x) = True" | "changing (AT_Pop x) = True"
| "changing _ = False"

inductive asys_run :: "nat \<Rightarrow> 'a asys \<Rightarrow> 'a asys \<Rightarrow> bool" for n where
  exec: "t < n \<Longrightarrow> aoq_exec t s = Some s' \<Longrightarrow> asys_run n s s'"
| signal: "t < n \<Longrightarrow> as_pc s t = AU_Signal \<Longrightarrow> u < n \<Longrightarrow> as_pc s u = AP_Blocked \<Longrightarrow>
    asys_run n s (a_goto u AP_Reacq (a_goto t AU_Unlock s))"
| no_signal: "t < n \<Longrightarrow> as_pc s t = AU_Signal \<Longrightarrow> \<forall>u<n. as_pc s u \<noteq> AP_Blocked \<Longrightarrow>
    asys_run n s (a_goto t AU_Unlock s)"
| race: "t < n \<Longrightarrow> as_pc s t = AE_Test \<Longrightarrow> u < n \<Longrightarrow> changing (as_pc s u) \<Longrightarrow>
    asys_run n s (a_goto t (AE_Return e) s)"

text \<open>All steps: also new calls, of the methods \<open>C\<close> in use, and spurious wake-ups.\<close>

inductive asys_step :: "'a tsq_call set \<Rightarrow> nat \<Rightarrow> 'a asys \<Rightarrow> 'a asys \<Rightarrow> bool" for C n where
  run: "asys_run n s s' \<Longrightarrow> asys_step C n s s'"
| call: "t < n \<Longrightarrow> as_pc s t = A_Idle \<Longrightarrow> c \<in> C \<Longrightarrow> asys_step C n s (a_goto t (aoq_entry c) s)"
| spurious: "t < n \<Longrightarrow> as_pc s t = AP_Blocked \<Longrightarrow> asys_step C n s (a_goto t AP_Reacq s)"

section \<open>The invariant\<close>

text \<open>A thread inside the critical section of a method, which will still unlock.\<close>

fun holds :: "'a aoq_pc \<Rightarrow> bool" where
  "holds AP_Test = True" | "holds AP_Wait = True" | "holds AP_Front = True"
| "holds (AP_Pop x) = True" | "holds (AP_Unlock x) = True"
| "holds AT_Test = True" | "holds AT_Front = True" | "holds (AT_Pop x) = True" | "holds (AT_Unlock x) = True"
| "holds (AU_Enq x) = True" | "holds AU_Signal = True" | "holds AU_Unlock = True"
| "holds _ = False"

text \<open>The mutex is locked by a thread that will not unlock it.\<close>

definition kept_by :: "tid \<Rightarrow> 'a asys \<Rightarrow> bool" where
  "kept_by t s \<longleftrightarrow> m_owner (as_mtx s) = Some t \<and> \<not> holds (as_pc s t)"

definition a_lock_inv :: "nat \<Rightarrow> 'a asys \<Rightarrow> bool" where
  "a_lock_inv n s \<longleftrightarrow> m_kind (as_mtx s) = NORMAL \<and> mutex_flat (as_mtx s)
     \<and> (\<forall>t<n. holds (as_pc s t) \<longrightarrow> m_owner (as_mtx s) = Some t)
     \<and> (case m_owner (as_mtx s) of None \<Rightarrow> True | Some t \<Rightarrow> t < n)"

fun a_knows :: "'a list \<Rightarrow> 'a aoq_pc \<Rightarrow> bool" where
  "a_knows xs AP_Wait \<longleftrightarrow> xs = []"
| "a_knows xs AP_Front \<longleftrightarrow> xs \<noteq> []"
| "a_knows xs AT_Front \<longleftrightarrow> xs \<noteq> []"
| "a_knows xs (AP_Pop x) \<longleftrightarrow> (\<exists>ys. xs = x # ys)"
| "a_knows xs (AT_Pop x) \<longleftrightarrow> (\<exists>ys. xs = x # ys)"
| "a_knows xs _ \<longleftrightarrow> True"

definition a_fifo_inv :: "nat \<Rightarrow> 'a asys \<Rightarrow> bool" where
  "a_fifo_inv n s \<longleftrightarrow> as_popped s @ as_items s = as_pushed s \<and> (\<forall>t<n. a_knows (as_items s) (as_pc s t))"

text \<open>Who answers for an item while some thread waits.\<close>

fun a_answers :: "'a aoq_pc \<Rightarrow> nat" where
  "a_answers AU_Signal = 1" | "a_answers AP_Reacq = 1" | "a_answers AP_Test = 1"
| "a_answers AP_Wait = 1" | "a_answers AP_Front = 1" | "a_answers (AP_Pop x) = 1"
| "a_answers _ = 0"

definition a_wake_inv :: "nat \<Rightarrow> 'a asys \<Rightarrow> bool" where
  "a_wake_inv n s \<longleftrightarrow>
     (\<exists>t<n. as_pc s t = AP_Blocked) \<longrightarrow> length (as_items s) \<le> thread_sum n a_answers (as_pc s)"

definition asys_inv :: "nat \<Rightarrow> 'a asys \<Rightarrow> bool" where
  "asys_inv n s \<longleftrightarrow> a_lock_inv n s \<and> a_fifo_inv n s \<and> a_wake_inv n s"

lemma a_mutex_lock:
  "m_kind (as_mtx s) = NORMAL \<Longrightarrow> a_mutex (mutex_lock t (as_mtx s)) u p s =
     (if m_owner (as_mtx s) = None
      then Some ((a_goto u p s)\<lparr>as_mtx := (as_mtx s)\<lparr>m_owner := Some t, m_count := 1\<rparr>\<rparr>) else None)"
  by (auto simp: a_mutex_def mutex_lock_def split: option.splits)

lemma a_mutex_unlock:
  "mutex_flat (as_mtx s) \<Longrightarrow> m_owner (as_mtx s) = Some t \<Longrightarrow> a_mutex (mutex_unlock t (as_mtx s)) u p s =
     Some ((a_goto u p s)\<lparr>as_mtx := (as_mtx s)\<lparr>m_owner := None, m_count := 0\<rparr>\<rparr>)"
  by (simp add: a_mutex_def mutex_unlock_def mutex_flat_def)

text \<open>What a statement does to the mutex: it takes it, releases it, or leaves it.\<close>

lemma aoq_exec_mutex:
  assumes inv: "a_lock_inv n s" and t: "t < n" and step: "aoq_exec t s = Some s'"
  shows "as_pc s' = (as_pc s)(t := as_pc s' t) \<and>
    (\<not> holds (as_pc s t) \<and> holds (as_pc s' t) \<and> m_owner (as_mtx s) = None
       \<and> as_mtx s' = (as_mtx s)\<lparr>m_owner := Some t, m_count := 1\<rparr>
     \<or> holds (as_pc s t) \<and> \<not> holds (as_pc s' t) \<and> as_mtx s' = (as_mtx s)\<lparr>m_owner := None, m_count := 0\<rparr>
     \<or> (holds (as_pc s' t) = holds (as_pc s t) \<or> holds (as_pc s t) \<and> as_pc s' t = AT_False) \<and> as_mtx s' = as_mtx s)"
proof -
  have m: "m_kind (as_mtx s) = NORMAL" "mutex_flat (as_mtx s)"
    and o: "holds (as_pc s t) \<Longrightarrow> m_owner (as_mtx s) = Some t" using inv t unfolding a_lock_inv_def by blast+
  note calls = a_mutex_lock [OF m(1)] a_mutex_unlock [OF m(2)]
  from step o show ?thesis
    by (cases "as_pc s t") (auto simp: aoq_exec_def calls split: if_splits list.splits)
qed

lemma a_lock_inv_exec:
  assumes inv: "a_lock_inv n s" and t: "t < n" and step: "aoq_exec t s = Some s'"
  shows "a_lock_inv n s'"
proof -
  note e = aoq_exec_mutex [OF assms]
  have pc: "as_pc s' u = as_pc s u" if "u \<noteq> t" for u using e that by (metis fun_upd_other)
  have m: "m_kind (as_mtx s) = NORMAL" "mutex_flat (as_mtx s)" "case m_owner (as_mtx s) of None \<Rightarrow> True | Some u \<Rightarrow> u < n"
    and o: "\<And>u. u < n \<Longrightarrow> holds (as_pc s u) \<Longrightarrow> m_owner (as_mtx s) = Some u"
    using inv unfolding a_lock_inv_def by blast+
  have held: "m_owner (as_mtx s') = Some u" if "u < n" "holds (as_pc s' u)" for u
    using e [THEN conjunct2] that o [of u] o [OF t] pc [of u] by (cases "u = t") auto
  moreover have "m_kind (as_mtx s') = NORMAL \<and> mutex_flat (as_mtx s')
      \<and> (case m_owner (as_mtx s') of None \<Rightarrow> True | Some u \<Rightarrow> u < n)"
    using e [THEN conjunct2] m t by (elim disjE conjE) (simp_all add: mutex_flat_def)
  ultimately show ?thesis unfolding a_lock_inv_def by blast
qed

lemma a_lock_inv_goto:
  "a_lock_inv n s \<Longrightarrow> t < n \<Longrightarrow> holds p = holds (as_pc s t) \<Longrightarrow> a_lock_inv n (a_goto t p s)"
  by (simp add: a_lock_inv_def)

text \<open>Only the thread that holds the mutex touches the items, and knows anything of them.\<close>

lemma a_knows_unheld: "\<not> holds p \<Longrightarrow> a_knows xs p"
  by (cases p) auto

lemma aoq_exec_fifo:
  assumes "aoq_exec t s = Some s'" and "a_knows (as_items s) (as_pc s t)" "as_popped s @ as_items s = as_pushed s"
  shows "as_popped s' @ as_items s' = as_pushed s' \<and> a_knows (as_items s') (as_pc s' t)
    \<and> (as_items s' = as_items s \<or> holds (as_pc s t))"
  using assms
  by (cases "as_pc s t")
    (auto simp: aoq_exec_def a_mutex_def neq_Nil_conv split: outcome.splits list.splits if_splits)

lemma a_fifo_inv_exec:
  assumes l: "a_lock_inv n s" and f: "a_fifo_inv n s" and t: "t < n" and step: "aoq_exec t s = Some s'"
  shows "a_fifo_inv n s'"
proof -
  have pc: "as_pc s' u = as_pc s u" if "u \<noteq> t" for u
    using aoq_exec_mutex [OF l t step] that by (metis fun_upd_other)
  from f t have e: "as_popped s' @ as_items s' = as_pushed s' \<and> a_knows (as_items s') (as_pc s' t)
    \<and> (as_items s' = as_items s \<or> holds (as_pc s t))"
    by (intro aoq_exec_fifo [OF step]) (simp_all add: a_fifo_inv_def)
  have "a_knows (as_items s') (as_pc s' u)" if u: "u < n" "u \<noteq> t" for u
  proof (cases "as_items s' = as_items s")
    case True
    with u pc f show ?thesis by (simp add: a_fifo_inv_def)
  next
    case False
    with e l t have "m_owner (as_mtx s) = Some t" by (simp add: a_lock_inv_def)
    with l u have "\<not> holds (as_pc s u)" unfolding a_lock_inv_def by fastforce
    with u pc show ?thesis by (simp add: a_knows_unheld)
  qed
  with e show ?thesis unfolding a_fifo_inv_def by metis
qed

lemma a_fifo_inv_goto: "a_fifo_inv n s \<Longrightarrow> \<not> holds p \<or> p = AU_Unlock \<Longrightarrow> a_fifo_inv n (a_goto t p s)"
  by (auto simp: a_fifo_inv_def a_knows_unheld)

lemma aoq_exec_answers:
  assumes "aoq_exec t s = Some s'" and "a_knows (as_items s) (as_pc s t)"
  shows "as_pc s t \<noteq> AP_Blocked \<and> (as_pc s' t = AP_Blocked \<and> as_items s' = []
     \<or> as_pc s' t \<noteq> AP_Blocked
       \<and> length (as_items s') + a_answers (as_pc s t) \<le> length (as_items s) + a_answers (as_pc s' t))"
  using assms
  by (cases "as_pc s t") (auto simp: aoq_exec_def a_mutex_def split: outcome.splits list.splits if_splits)

lemma a_wake_inv_exec:
  assumes l: "a_lock_inv n s" and f: "a_fifo_inv n s" and w: "a_wake_inv n s" and t: "t < n"
    and step: "aoq_exec t s = Some s'"
  shows "a_wake_inv n s'"
  unfolding a_wake_inv_def
proof
  assume "\<exists>u<n. as_pc s' u = AP_Blocked"
  then obtain u where u: "u < n" "as_pc s' u = AP_Blocked" by blast
  have pc: "as_pc s' = (as_pc s)(t := as_pc s' t)" using aoq_exec_mutex [OF l t step] ..
  from f t have "a_knows (as_items s) (as_pc s t)" by (simp add: a_fifo_inv_def)
  note e = aoq_exec_answers [OF step this]
  show "length (as_items s') \<le> thread_sum n a_answers (as_pc s')"
  proof (cases "as_pc s' t = AP_Blocked")
    case True
    with e show ?thesis by simp
  next
    case False
    with u pc have "as_pc s u = AP_Blocked" by (metis fun_upd_other)
    with u w have "length (as_items s) \<le> thread_sum n a_answers (as_pc s)" by (auto simp: a_wake_inv_def)
    moreover have "thread_sum n a_answers (as_pc s') + a_answers (as_pc s t)
        = thread_sum n a_answers (as_pc s) + a_answers (as_pc s' t)"
      using thread_sum_upd [OF t, of a_answers "as_pc s" "as_pc s' t"] pc by simp
    ultimately show ?thesis using False e by simp
  qed
qed

lemma a_inv_signal:
  assumes inv: "asys_inv n s" and t: "t < n" "as_pc s t = AU_Signal" and u: "u < n" "as_pc s u = AP_Blocked"
  shows "asys_inv n (a_goto u AP_Reacq (a_goto t AU_Unlock s))"
proof -
  have ut: "u \<noteq> t" using t u by auto
  have "a_lock_inv n (a_goto u AP_Reacq (a_goto t AU_Unlock s))"
    using inv t u ut by (intro a_lock_inv_goto) (simp_all add: asys_inv_def)
  moreover have "a_fifo_inv n (a_goto u AP_Reacq (a_goto t AU_Unlock s))"
    using inv by (intro a_fifo_inv_goto) (simp_all add: asys_inv_def)
  moreover have "length (as_items s) \<le> thread_sum n a_answers (as_pc s)"
    using inv u by (auto simp: asys_inv_def a_wake_inv_def)
  then have "a_wake_inv n (a_goto u AP_Reacq (a_goto t AU_Unlock s))"
    using thread_sum_upd [OF t(1), of a_answers "as_pc s" AU_Unlock] t u ut
      thread_sum_upd [OF u(1), of a_answers "(as_pc s)(t := AU_Unlock)" AP_Reacq]
    by (simp add: a_wake_inv_def)
  ultimately show ?thesis by (simp add: asys_inv_def)
qed

lemma a_inv_no_signal:
  assumes "asys_inv n s" "t < n" "as_pc s t = AU_Signal" "\<forall>u<n. as_pc s u \<noteq> AP_Blocked"
  shows "asys_inv n (a_goto t AU_Unlock s)"
proof -
  have "a_lock_inv n (a_goto t AU_Unlock s)" using assms by (intro a_lock_inv_goto) (simp_all add: asys_inv_def)
  moreover have "a_fifo_inv n (a_goto t AU_Unlock s)" using assms by (intro a_fifo_inv_goto) (simp_all add: asys_inv_def)
  moreover have "a_wake_inv n (a_goto t AU_Unlock s)" using assms(4) by (auto simp: a_wake_inv_def)
  ultimately show ?thesis by (simp add: asys_inv_def)
qed

lemma aoq_entry_simps [simp]: "\<not> holds (aoq_entry c)" "a_answers (aoq_entry c) = 0" "aoq_entry c \<noteq> AP_Blocked"
  by (cases c; simp)+

lemma a_inv_quiet:
  assumes inv: "asys_inv n s" and t: "t < n" "\<not> holds (as_pc s t)" "a_answers (as_pc s t) = 0"
    and p: "\<not> holds p" "p \<noteq> AP_Blocked"
  shows "asys_inv n (a_goto t p s)"
proof -
  have "a_lock_inv n (a_goto t p s)" using inv t p by (intro a_lock_inv_goto) (simp_all add: asys_inv_def)
  moreover have "a_fifo_inv n (a_goto t p s)" using inv p by (intro a_fifo_inv_goto) (simp_all add: asys_inv_def)
  moreover have "a_wake_inv n (a_goto t p s)"
    unfolding a_wake_inv_def
  proof
    assume "\<exists>u<n. as_pc (a_goto t p s) u = AP_Blocked"
    then have "\<exists>u<n. as_pc s u = AP_Blocked" using p(2) by (auto split: if_splits)
    then have "length (as_items s) \<le> thread_sum n a_answers (as_pc s)" using inv by (simp add: asys_inv_def a_wake_inv_def)
    then show "length (as_items (a_goto t p s)) \<le> thread_sum n a_answers (as_pc (a_goto t p s))"
      using thread_sum_upd [OF t(1), of a_answers "as_pc s" p] t(3) by simp
  qed
  ultimately show ?thesis by (simp add: asys_inv_def)
qed

lemma asys_inv_run:
  assumes inv: "asys_inv n s" and step: "asys_run n s s'"
  shows "asys_inv n s'"
  using step
proof cases
  case (exec t)
  then show ?thesis using inv a_lock_inv_exec a_fifo_inv_exec a_wake_inv_exec unfolding asys_inv_def by blast
next
  case (signal t u)
  then show ?thesis using a_inv_signal [OF inv] by simp
next
  case (no_signal t)
  then show ?thesis using a_inv_no_signal [OF inv] by simp
next
  case (race t u e)
  then show ?thesis using a_inv_quiet [OF inv, of t "AE_Return e"] by simp
qed

lemma asys_inv_step:
  assumes "asys_inv n s" "asys_step C n s s'"
  shows "asys_inv n s'"
  using assms(2)
proof cases
  case run
  with assms(1) show ?thesis by (rule asys_inv_run)
qed (use assms(1) in \<open>auto intro: a_inv_quiet\<close>)

lemma asys_inv_start: "asys_inv n asys_start"
  by (simp add: asys_inv_def a_lock_inv_def a_fifo_inv_def a_wake_inv_def asys_start_def mutex_init_def mutex_flat_def)

interpretation asys_sys: invariant_system asys_start "asys_step C n" "asys_inv n" for C n
  by unfold_locales (simp_all add: asys_inv_start asys_inv_step)

section \<open>Methods under way finish, wait for an item, or for a mutex that is kept\<close>

fun a_waits :: "'a aoq_pc \<Rightarrow> bool" where
  "a_waits AP_Lock = True" | "a_waits AP_Reacq = True" | "a_waits AT_Lock = True" | "a_waits (AU_Lock x) = True"
| "a_waits _ = False"

fun a_steps_left :: "'a aoq_pc \<Rightarrow> nat" where
  "a_steps_left A_Idle = 0" | "a_steps_left AP_Blocked = 0"
| "a_steps_left AP_Lock = 5" | "a_steps_left AP_Reacq = 5" | "a_steps_left AP_Test = 4"
| "a_steps_left AP_Wait = 1" | "a_steps_left AP_Front = 3" | "a_steps_left (AP_Pop x) = 2" | "a_steps_left (AP_Unlock x) = 1"
| "a_steps_left AT_Lock = 5" | "a_steps_left AT_Test = 4" | "a_steps_left AT_False = 1"
| "a_steps_left AT_Front = 3" | "a_steps_left (AT_Pop x) = 2" | "a_steps_left (AT_Unlock x) = 1"
| "a_steps_left (AU_Lock x) = 9" | "a_steps_left (AU_Enq x) = 8" | "a_steps_left AU_Signal = 7" | "a_steps_left AU_Unlock = 1"
| "a_steps_left AE_Test = 2" | "a_steps_left (AE_Return e) = 1"

definition asys_measure :: "nat \<Rightarrow> 'a asys \<Rightarrow> nat" where
  "asys_measure n s = thread_sum n a_steps_left (as_pc s)"

definition a_settled :: "nat \<Rightarrow> 'a asys \<Rightarrow> bool" where
  "a_settled n s \<longleftrightarrow> (\<forall>t<n. as_pc s t = A_Idle \<or> as_pc s t = AP_Blocked
     \<or> a_waits (as_pc s t) \<and> (\<exists>u<n. kept_by u s))"

lemma aoq_exec_steps_left:
  "aoq_exec t s = Some s' \<Longrightarrow> as_pc s' = (as_pc s)(t := as_pc s' t) \<and> a_steps_left (as_pc s' t) < a_steps_left (as_pc s t)"
  by (cases "as_pc s t") (auto simp: aoq_exec_def a_mutex_def split: outcome.splits list.splits)

lemma asys_measure_run:
  assumes "asys_run n s s'"
  shows "asys_measure n s' < asys_measure n s"
  using assms
proof cases
  case (exec t)
  with aoq_exec_steps_left [OF exec(2)] thread_sum_upd [OF exec(1), of a_steps_left "as_pc s" "as_pc s' t"]
  show ?thesis by (simp add: asys_measure_def)
next
  case (signal t u)
  then have "u \<noteq> t" by auto
  with signal thread_sum_upd [of t n a_steps_left "as_pc s" AU_Unlock]
    thread_sum_upd [of u n a_steps_left "(as_pc s)(t := AU_Unlock)" AP_Reacq]
  show ?thesis by (simp add: asys_measure_def)
next
  case (no_signal t)
  with thread_sum_upd [of t n a_steps_left "as_pc s" AU_Unlock] show ?thesis by (simp add: asys_measure_def)
next
  case (race t u e)
  with thread_sum_upd [of t n a_steps_left "as_pc s" "AE_Return e"] show ?thesis by (simp add: asys_measure_def)
qed

lemma a_holder_runs:
  assumes l: "a_lock_inv n s" and f: "a_fifo_inv n s" and t: "t < n" "holds (as_pc s t)"
  shows "\<exists>s'. asys_run n s s'"
proof -
  have m: "mutex_flat (as_mtx s)" "m_owner (as_mtx s) = Some t" and "a_knows (as_items s) (as_pc s t)"
    using l f t by (simp_all add: a_lock_inv_def a_fifo_inv_def)
  then have "as_pc s t = AU_Signal \<or> (\<exists>s'. aoq_exec t s = Some s')"
    using t(2) a_mutex_unlock [OF m]
    by (cases "as_pc s t") (auto simp: aoq_exec_def split: list.split)
  with t(1) show ?thesis by (blast intro: asys_run.intros)
qed

lemma a_outside_runs:
  assumes l: "a_lock_inv n s" and t: "\<not> holds (as_pc s t)" "as_pc s t \<noteq> A_Idle" "as_pc s t \<noteq> AP_Blocked"
    and "a_waits (as_pc s t) \<Longrightarrow> m_owner (as_mtx s) = None"
  shows "\<exists>s'. aoq_exec t s = Some s'"
proof -
  have "m_kind (as_mtx s) = NORMAL" using l by (simp add: a_lock_inv_def)
  note a_mutex_lock [OF this]
  with t assms(5) show ?thesis by (cases "as_pc s t") (auto simp: aoq_exec_def)
qed

lemma asys_progress:
  assumes inv: "asys_inv n s" and "\<not> a_settled n s"
  shows "\<exists>s'. asys_run n s s'"
proof (cases "\<exists>t<n. holds (as_pc s t)")
  case True
  with inv show ?thesis by (auto simp: asys_inv_def intro: a_holder_runs)
next
  case False
  from assms(2) obtain t where t: "t < n" "as_pc s t \<noteq> A_Idle" "as_pc s t \<noteq> AP_Blocked"
    and w: "a_waits (as_pc s t) \<Longrightarrow> \<not> (\<exists>u<n. kept_by u s)" by (auto simp: a_settled_def)
  have l: "a_lock_inv n s" using inv by (simp add: asys_inv_def)
  have "m_owner (as_mtx s) = None" if "a_waits (as_pc s t)"
  proof (rule ccontr)
    assume "m_owner (as_mtx s) \<noteq> None"
    then obtain u where "m_owner (as_mtx s) = Some u" by blast
    moreover from this l have "u < n" by (simp add: a_lock_inv_def)
    ultimately show False using False w [OF that] by (simp add: kept_by_def)
  qed
  then obtain s' where "aoq_exec t s = Some s'" using a_outside_runs [OF l _ t(2,3)] False t(1) by blast
  with t(1) show ?thesis by (blast intro: asys_run.exec)
qed

interpretation asys_quiesce: terminating_system asys_start "asys_run n" "asys_inv n" "asys_measure n" "a_settled n" for n
  by unfold_locales (auto simp: asys_inv_start intro: asys_inv_run asys_measure_run asys_progress)

lemma a_settled_empty:
  assumes "a_wake_inv n s" "a_settled n s" "t < n" "as_pc s t = AP_Blocked" "\<not> (\<exists>u<n. kept_by u s)"
  shows "as_items s = []"
proof -
  have "thread_sum n a_answers (as_pc s) = n * 0"
    using assms(2,5) by (intro thread_sum_const) (auto simp: a_settled_def)
  with assms show ?thesis by (auto simp: a_wake_inv_def)
qed

section \<open>A mutex that is kept\<close>

lemma aoq_exec_unheld:
  "aoq_exec t s = Some s' \<Longrightarrow> \<not> holds (as_pc s t) \<Longrightarrow>
   as_items s' = as_items s \<and> as_pushed s' = as_pushed s \<and> as_popped s' = as_popped s"
  by (cases "as_pc s t") (auto simp: aoq_exec_def a_mutex_def split: outcome.splits)

lemma changing_holds: "changing p \<Longrightarrow> holds p"
  by (cases p) simp_all

lemma kept_unheld: "a_lock_inv n s \<Longrightarrow> kept_by t s \<Longrightarrow> u < n \<Longrightarrow> \<not> holds (as_pc s u)"
  unfolding a_lock_inv_def kept_by_def by fastforce

text \<open>From then on no statement inside a critical section is reached, and nobody gets past a lock.\<close>

definition stuck_call :: "'a aoq_pc \<Rightarrow> bool" where
  "stuck_call p \<longleftrightarrow> a_waits p \<or> p = AP_Blocked"

lemma kept_stays:
  assumes inv: "asys_inv n s" and k: "kept_by t s" and step: "asys_step C n s s'"
  shows "kept_by t s' \<and> as_items s' = as_items s \<and> as_pushed s' = as_pushed s \<and> as_popped s' = as_popped s
    \<and> (\<forall>u. stuck_call (as_pc s u) \<longrightarrow> stuck_call (as_pc s' u))"
proof -
  have l: "a_lock_inv n s" using inv by (simp add: asys_inv_def)
  have no: "\<not> holds (as_pc s u)" if "u < n" for u using kept_unheld [OF l k that] .
  have o: "m_owner (as_mtx s) = Some t" "\<not> holds (as_pc s t)" using k by (simp_all add: kept_by_def)
  show ?thesis
    using step
  proof cases
    case run
    then show ?thesis
    proof cases
      case (exec u)
      note e = aoq_exec_mutex [OF l exec]
      have same: "as_mtx s' = as_mtx s" "\<not> holds (as_pc s' u)" using e no [OF exec(1)] o(1) by auto
      have pc: "as_pc s' v = as_pc s v" if "v \<noteq> u" for v using e that by (metis fun_upd_other)
      have "kept_by t s'" using same pc o unfolding kept_by_def by metis
      moreover have "m_kind (as_mtx s) = NORMAL" using l by (simp add: a_lock_inv_def)
      then have "\<not> stuck_call (as_pc s u)"
        using exec(2) o(1) by (cases "as_pc s u") (auto simp: stuck_call_def aoq_exec_def a_mutex_lock)
      then have "stuck_call (as_pc s v) \<longrightarrow> stuck_call (as_pc s' v)" for v using pc by metis
      ultimately show ?thesis using aoq_exec_unheld [OF exec(2) no [OF exec(1)]] by blast
    next
      case (race u v e)
      with no changing_holds show ?thesis by blast
    qed (use no in force)+
  next
    case (call u c)
    then show ?thesis using o by (auto simp: kept_by_def stuck_call_def)
  next
    case (spurious u)
    then show ?thesis using o by (auto simp: kept_by_def stuck_call_def)
  qed
qed

text \<open>Only a \<open>try_pop\<close> on an empty queue leaves the mutex locked.\<close>

lemma kept_arises:
  assumes inv: "asys_inv n s" and no: "\<not> kept_by t s" and step: "asys_step C n s s'" and k: "kept_by t s'"
  shows "as_pc s t = AT_Test \<and> as_items s = []"
proof -
  have l: "a_lock_inv n s" using inv by (simp add: asys_inv_def)
  show ?thesis
    using step
  proof cases
    case run
    then show ?thesis
    proof cases
      case (exec u)
      note e = aoq_exec_mutex [OF l exec]
      have "u = t"
      proof (rule ccontr)
        assume "u \<noteq> t"
        then have "as_pc s' t = as_pc s t" using e by (metis fun_upd_other)
        then show False using e no k \<open>u \<noteq> t\<close> by (auto simp: kept_by_def)
      qed
      with e no k have "holds (as_pc s t)" "as_pc s' t = AT_False" by (auto simp: kept_by_def)
      with exec(2) \<open>u = t\<close> show ?thesis
        by (cases "as_pc s t") (auto simp: aoq_exec_def a_mutex_def split: outcome.splits list.splits if_splits)
    next
      case (signal u v)
      then show ?thesis using no k l by (auto simp: kept_by_def split: if_splits)
    next
      case (no_signal u)
      then show ?thesis using no k l by (auto simp: kept_by_def split: if_splits)
    next
      case (race u v e)
      then show ?thesis using no k by (auto simp: kept_by_def split: if_splits)
    qed
  next
    case (call u c)
    then show ?thesis using no k by (auto simp: kept_by_def split: if_splits)
  next
    case (spurious u)
    then show ?thesis using no k by (auto simp: kept_by_def split: if_splits)
  qed
qed

fun in_try_pop :: "'a aoq_pc \<Rightarrow> bool" where
  "in_try_pop AT_Lock = True" | "in_try_pop AT_Test = True" | "in_try_pop AT_False = True"
| "in_try_pop AT_Front = True" | "in_try_pop (AT_Pop x) = True" | "in_try_pop (AT_Unlock x) = True"
| "in_try_pop _ = False"

lemma exec_in_try_pop: "aoq_exec t s = Some s' \<Longrightarrow> as_pc s' u \<noteq> A_Idle \<Longrightarrow> in_try_pop (as_pc s' u) = in_try_pop (as_pc s u)"
  by (cases "as_pc s t") (auto simp: aoq_exec_def a_mutex_def split: outcome.splits list.splits if_splits)

lemma entry_in_try_pop: "in_try_pop (aoq_entry c) \<longleftrightarrow> c = Call_try_pop"
  by (cases c) simp_all

definition unkept :: "'a asys \<Rightarrow> bool" where
  "unkept s \<longleftrightarrow> (\<forall>t. \<not> in_try_pop (as_pc s t)) \<and> (\<forall>t. \<not> kept_by t s)"

lemma unkept_step:
  assumes inv: "asys_inv n s" and u: "unkept s" and step: "asys_step C n s s'" and "Call_try_pop \<notin> C"
  shows "unkept s'"
proof -
  have "\<not> kept_by t s'" for t
    using kept_arises [OF inv _ step, of t] u by (metis in_try_pop.simps(2) unkept_def)
  moreover have "\<not> in_try_pop (as_pc s' t)" for t
    using step
  proof cases
    case run
    then show ?thesis
    proof cases
      case (exec u)
      with exec_in_try_pop [OF exec(2), of t] assms(2) show ?thesis
        by (cases "as_pc s' t = A_Idle") (auto simp: unkept_def)
    qed (use u in \<open>auto simp: unkept_def\<close>)
  qed (use u assms(4) in \<open>auto simp: entry_in_try_pop unkept_def\<close>)
  ultimately show ?thesis by (simp add: unkept_def)
qed

lemma unkept_start: "unkept asys_start"
  by (simp add: unkept_def asys_start_def kept_by_def mutex_init_def)

lemma never_kept: "reach asys_start (asys_step C n) s \<Longrightarrow> Call_try_pop \<notin> C \<Longrightarrow> unkept s"
proof (induction rule: reach.induct)
  case (reach_step s s')
  from asys_sys.reach_inv [OF reach_step(1)] reach_step show ?case by (blast intro: unkept_step)
qed (rule unkept_start)

section \<open>Calls in one step\<close>

text \<open>The methods as \<open>Safe_Queue\<close> has them.\<close>

definition aoq_call :: "'a methods" where
  "aoq_call t c q =
     (case c of
        Call_push x \<Rightarrow> and_then (aoq_push t x q) (\<lambda>q'. Done (Pushed, q'))
      | Call_pop \<Rightarrow> and_then (aoq_pop t q) (\<lambda>(x, q'). Done (Popped x, q'))
      | Call_try_pop \<Rightarrow> and_then (aoq_try_pop t q) (\<lambda>(r, q'). Done (Tried r, q'))
      | Call_is_empty \<Rightarrow> Done (Emptiness (aoq_is_empty q), q))"

fun a_caller_of :: "'a aoq_pc \<Rightarrow> 'a caller" where
  "a_caller_of A_Idle = Outside"
| "a_caller_of (AP_Unlock x) = Answered (Popped x)"
| "a_caller_of AT_Lock = Asked Call_try_pop" | "a_caller_of AT_Test = Asked Call_try_pop"
| "a_caller_of AT_Front = Asked Call_try_pop" | "a_caller_of (AT_Pop x) = Asked Call_try_pop"
| "a_caller_of AT_False = Answered (Tried None)" | "a_caller_of (AT_Unlock x) = Answered (Tried (Some x))"
| "a_caller_of (AU_Lock x) = Asked (Call_push x)" | "a_caller_of (AU_Enq x) = Asked (Call_push x)"
| "a_caller_of AU_Signal = Answered Pushed" | "a_caller_of AU_Unlock = Answered Pushed"
| "a_caller_of AE_Test = Asked Call_is_empty" | "a_caller_of (AE_Return e) = Answered (Emptiness e)"
| "a_caller_of _ = Asked Call_pop"

text \<open>As \<open>is_empty\<close> does not synchronise with the others, it is no call of the sequential queue.\<close>

fun a_seen :: "'a aoq_pc \<Rightarrow> 'a caller" where
  "a_seen AE_Test = Outside"
| "a_seen (AE_Return e) = Outside"
| "a_seen p = a_caller_of p"

text \<open>Seen from outside the mutex is free, unless it is kept.\<close>

definition outer_mutex :: "'a asys \<Rightarrow> mutex" where
  "outer_mutex s =
     (case m_owner (as_mtx s) of
        None \<Rightarrow> mutex_init NORMAL
      | Some t \<Rightarrow> if holds (as_pc s t) then mutex_init NORMAL else as_mtx s)"

definition asys_abs :: "'a asys \<Rightarrow> 'a aqueue" where
  "asys_abs s = \<lparr>aq_queue = \<lparr>tq_items = as_items s, tq_mtx = outer_mutex s\<rparr>, aq_caller = (\<lambda>t. a_seen (as_pc s t))\<rparr>"

definition kept_mutex :: "tid \<Rightarrow> mutex" where
  "kept_mutex t = \<lparr>m_kind = NORMAL, m_owner = Some t, m_count = 1\<rparr>"

lemma outer_mutex_goto:
  "\<not> holds (as_pc s t) \<Longrightarrow> \<not> holds p \<Longrightarrow> outer_mutex (a_goto t p s) = outer_mutex s"
  "holds (as_pc s t) \<Longrightarrow> holds p \<Longrightarrow> outer_mutex (a_goto t p s) = outer_mutex s"
  by (auto simp: outer_mutex_def split: option.splits)

lemma outer_mutex_exec:
  assumes l: "a_lock_inv n s" and t: "t < n" and step: "aoq_exec t s = Some s'"
  shows "outer_mutex s' = (if as_pc s' t = AT_False then kept_mutex t else outer_mutex s)
    \<and> (holds (as_pc s t) \<longrightarrow> outer_mutex s = mutex_init NORMAL)"
proof -
  note e = aoq_exec_mutex [OF assms]
  have pc: "as_pc s' u = as_pc s u" if "u \<noteq> t" for u using e that by (metis fun_upd_other)
  have m: "m_kind (as_mtx s) = NORMAL" "mutex_flat (as_mtx s)"
    and o: "holds (as_pc s t) \<Longrightarrow> m_owner (as_mtx s) = Some t" using l t unfolding a_lock_inv_def by blast+
  have f: "holds (as_pc s t) \<and> as_mtx s' = as_mtx s" if "as_pc s' t = AT_False"
    using step that by (cases "as_pc s t") (auto simp: aoq_exec_def a_mutex_def split: outcome.splits list.splits if_splits)
  have k: "as_mtx s = kept_mutex t" if "m_owner (as_mtx s) = Some t"
    using m that by (cases "as_mtx s") (simp add: kept_mutex_def mutex_flat_def)
  have r: "holds (as_pc s t) \<longrightarrow> outer_mutex s = mutex_init NORMAL" using o by (simp add: outer_mutex_def)
  from e [THEN conjunct2] show ?thesis
  proof (elim disjE conjE)
    assume "\<not> holds (as_pc s t)" "holds (as_pc s' t)" "m_owner (as_mtx s) = None"
      "as_mtx s' = (as_mtx s)\<lparr>m_owner := Some t, m_count := 1\<rparr>"
    then show ?thesis using f by (auto simp: outer_mutex_def)
  next
    assume a: "holds (as_pc s t)" "\<not> holds (as_pc s' t)" "as_mtx s' = (as_mtx s)\<lparr>m_owner := None, m_count := 0\<rparr>"
    then have "m_owner (as_mtx s') = None" by simp
    then have "as_pc s' t \<noteq> AT_False" using f o by fastforce
    then show ?thesis using a r by (simp add: outer_mutex_def)
  next
    assume a: "holds (as_pc s' t) = holds (as_pc s t)" "as_mtx s' = as_mtx s"
    have "as_pc s' t \<noteq> AT_False" using f a(1) by auto
    moreover have "outer_mutex s' = outer_mutex s"
      using a pc by (cases "m_owner (as_mtx s)") (auto simp: outer_mutex_def, metis+)
    ultimately show ?thesis using r by simp
  next
    assume a: "holds (as_pc s t)" "as_pc s' t = AT_False" "as_mtx s' = as_mtx s"
    then show ?thesis using o k r by (simp add: outer_mutex_def)
  qed
qed

text \<open>What a statement does to the thread and the items, seen from outside.\<close>

lemma aoq_calls:
  fixes q :: "'a tsq"
  assumes "q = \<lparr>tq_items = xs, tq_mtx = mutex_init NORMAL\<rparr>"
  shows "aoq_call t (Call_push x) q = Done (Pushed, q\<lparr>tq_items := xs @ [x]\<rparr>)"
    and "xs = y # ys \<Longrightarrow> aoq_call t Call_pop q = Done (Popped y, q\<lparr>tq_items := ys\<rparr>)"
    and "xs = y # ys \<Longrightarrow> aoq_call t Call_try_pop q = Done (Tried (Some y), q\<lparr>tq_items := ys\<rparr>)"
    and "xs = [] \<Longrightarrow> aoq_call t Call_try_pop q = Done (Tried None, q\<lparr>tq_mtx := kept_mutex t\<rparr>)"
  using assms
  by (simp_all add: aoq_call_def aoq_push_def aoq_pop_def aoq_try_pop_def aoq_is_empty_def queue_eval kept_mutex_def)

lemma aoq_exec_effect:
  assumes step: "aoq_exec t s = Some s'" and k: "a_knows (as_items s) (as_pc s t)"
    and q: "holds (as_pc s t) \<longrightarrow> m = mutex_init NORMAL"
  shows "a_seen (as_pc s' t) = a_seen (as_pc s t) \<and> as_items s' = as_items s \<and> as_pc s' t \<noteq> AT_False
    \<or> (\<exists>c r. a_seen (as_pc s t) = Asked c \<and> a_seen (as_pc s' t) = Answered r
         \<and> aoq_call t c \<lparr>tq_items = as_items s, tq_mtx = m\<rparr>
             = Done (r, \<lparr>tq_items = as_items s', tq_mtx = if as_pc s' t = AT_False then kept_mutex t else m\<rparr>))
    \<or> (\<exists>r. a_seen (as_pc s t) = Answered r \<and> as_pc s' t = A_Idle) \<and> as_items s' = as_items s"
  using step k q
  by (cases "as_pc s t")
    (auto simp: aoq_exec_def a_mutex_def neq_Nil_conv aoq_calls [OF refl]
      split: outcome.splits list.splits if_splits)

lemma asys_abs_exec:
  assumes inv: "asys_inv n s" and t: "t < n" and step: "aoq_exec t s = Some s'"
  shows "asys_abs s' = asys_abs s \<or> aq_step aoq_call n (asys_abs s) (asys_abs s')"
proof -
  have l: "a_lock_inv n s" and k: "a_knows (as_items s) (as_pc s t)"
    using inv t by (simp_all add: asys_inv_def a_fifo_inv_def)
  note m = outer_mutex_exec [OF l t step]
  have pc: "as_pc s' = (as_pc s)(t := as_pc s' t)" using aoq_exec_mutex [OF l t step] ..
  let ?m = "if as_pc s' t = AT_False then kept_mutex t else outer_mutex s"
  have abs: "asys_abs s' = (asys_abs s)\<lparr>aq_queue := \<lparr>tq_items = as_items s', tq_mtx = ?m\<rparr>,
      aq_caller := (aq_caller (asys_abs s))(t := a_seen (as_pc s' t))\<rparr>"
    unfolding asys_abs_def using m by (subst pc) (auto simp: fun_eq_iff)
  have at: "aq_caller (asys_abs s) t = a_seen (as_pc s t)"
    "aq_queue (asys_abs s) = \<lparr>tq_items = as_items s, tq_mtx = outer_mutex s\<rparr>"
    by (simp_all add: asys_abs_def)
  from aoq_exec_effect [OF step k m [THEN conjunct2]] show ?thesis
  proof (elim disjE exE conjE)
    assume "a_seen (as_pc s' t) = a_seen (as_pc s t)" "as_items s' = as_items s" "as_pc s' t \<noteq> AT_False"
    then have "asys_abs s' = asys_abs s" unfolding abs by (auto simp: asys_abs_def)
    then show ?thesis ..
  next
    fix c r
    assume "a_seen (as_pc s t) = Asked c" "a_seen (as_pc s' t) = Answered r"
      "aoq_call t c \<lparr>tq_items = as_items s, tq_mtx = outer_mutex s\<rparr> = Done (r, \<lparr>tq_items = as_items s', tq_mtx = ?m\<rparr>)"
    then show ?thesis unfolding abs
      using aq_step.perform [OF t, of "asys_abs s" c aoq_call r "\<lparr>tq_items = as_items s', tq_mtx = ?m\<rparr>"] at by simp
  next
    fix r
    assume a: "as_items s' = as_items s" "a_seen (as_pc s t) = Answered r" "as_pc s' t = A_Idle"
    then have "asys_abs s' = (asys_abs s)\<lparr>aq_caller := (aq_caller (asys_abs s))(t := Outside)\<rparr>"
      unfolding abs by (simp add: asys_abs_def)
    then show ?thesis using aq_step.answer [OF t, of "asys_abs s" r aoq_call] at a(2) by simp
  qed
qed

lemma asys_abs_quiet:
  assumes "holds p = holds (as_pc s t)" "a_seen p = a_seen (as_pc s t)"
  shows "asys_abs (a_goto t p s) = asys_abs s"
  using assms outer_mutex_goto [of s t p] by (cases "holds p") (auto simp: asys_abs_def fun_eq_iff)

lemma asys_abs_step:
  assumes inv: "asys_inv n s" and step: "asys_step C n s s'"
  shows "asys_abs s' = asys_abs s \<or> aq_step aoq_call n (asys_abs s) (asys_abs s')"
  using step
proof cases
  case run
  then show ?thesis
  proof cases
    case (exec t)
    then show ?thesis by (rule asys_abs_exec [OF inv])
  next
    case (signal t u)
    then have "u \<noteq> t" by auto
    with signal asys_abs_quiet [of AU_Unlock s t] asys_abs_quiet [of AP_Reacq "a_goto t AU_Unlock s" u]
    show ?thesis by simp
  next
    case (no_signal t)
    with asys_abs_quiet [of AU_Unlock s t] show ?thesis by simp
  next
    case (race t u e)
    with asys_abs_quiet [of "AE_Return e" s t] show ?thesis by simp
  qed
next
  case (call t c)
  have "a_seen (aoq_entry c) = (if c = Call_is_empty then Outside else Asked c)" by (cases c) simp_all
  moreover have "outer_mutex (a_goto t (aoq_entry c) s) = outer_mutex s" using call by (intro outer_mutex_goto) simp_all
  ultimately have "asys_abs s' = (asys_abs s)\<lparr>aq_caller := (aq_caller (asys_abs s))
      (t := if c = Call_is_empty then Outside else Asked c)\<rparr>"
    using call by (auto simp: asys_abs_def fun_eq_iff)
  with call aq_step.ask [of t n "asys_abs s" aoq_call c] show ?thesis
    by (cases "c = Call_is_empty") (auto simp: asys_abs_def fun_upd_idem)
next
  case (spurious t)
  with asys_abs_quiet [of AP_Reacq s t] show ?thesis by simp
qed

interpretation asys_atomic: refinement_system asys_start "asys_step C n" "asys_inv n"
  "aq_start aoq_ctor" "aq_step aoq_call n" asys_abs for C n
proof unfold_locales
  show "asys_abs asys_start = aq_start aoq_ctor"
    by (simp add: asys_abs_def asys_start_def aq_start_def aoq_ctor_def outer_mutex_def mutex_init_def)
qed (rule asys_abs_step)

text \<open>What \<open>is_empty\<close> answers: what the queue holds, unless a thread is changing it.\<close>

lemma is_empty_answer:
  assumes "asys_step C n s s'" and "as_pc s t = AE_Test" and "as_pc s' t = AE_Return e"
  shows "e = (as_items s = []) \<or> (\<exists>u<n. changing (as_pc s u))"
  using assms(1)
proof cases
  case run
  then show ?thesis
  proof cases
    case (exec u)
    then show ?thesis
      using assms(2,3) by (cases "u = t"; cases "as_pc s u")
        (auto simp: aoq_exec_def a_mutex_def split: outcome.splits list.splits)
  qed (use assms(2,3) in \<open>auto split: if_splits\<close>)
qed (use assms(2,3) in \<open>auto split: if_splits\<close>)

lemma is_empty_keeps:
  assumes "asys_step C n s s'" and "as_pc s t = AE_Test" and "as_pc s' t = AE_Return e"
  shows "as_items s' = as_items s"
  using assms(1)
proof cases
  case run
  then show ?thesis
  proof cases
    case (exec u)
    then show ?thesis
      using assms(2,3) by (cases "u = t"; cases "as_pc s u")
        (auto simp: aoq_exec_def a_mutex_def split: outcome.splits list.splits)
  qed simp_all
qed simp_all

text \<open>A queue that has held an item since the call began can be found empty.\<close>

lemma is_empty_may_lie:
  "\<exists>s s'. reach asys_start (asys_step UNIV 2) s \<and> as_items s = [7 :: int] \<and> as_pc s 1 = AE_Test
     \<and> asys_step UNIV 2 s s' \<and> as_items s' = [7] \<and> as_pc s' 1 = AE_Return True"
proof -
  let ?u = "asys_start\<lparr>as_items := [7 :: int], as_pushed := [7]\<rparr>"
  let ?own = "\<lparr>m_kind = NORMAL, m_owner = Some 0, m_count = 1\<rparr>"
  have call: "asys_step UNIV 2 s (a_goto t (aoq_entry c) s)" if "t < 2" "as_pc s t = A_Idle" for s t and c :: "int tsq_call"
    using that by (intro asys_step.call) simp_all
  have run: "asys_step UNIV 2 s s'" if "aoq_exec 0 s = Some s'" for s s' :: "int asys"
    using that by (intro asys_step.run asys_run.exec [of 0]) simp_all
  note ev = aoq_exec_def a_mutex_def asys_start_def mutex_init_def mutex_lock_def mutex_unlock_def
  have r1: "reach asys_start (asys_step UNIV 2) (a_goto 0 (AU_Lock (7 :: int)) asys_start)"
    by (rule reach_step [OF reach_init]) (use call [of 0 asys_start "Call_push 7"] in \<open>simp add: asys_start_def\<close>)
  have r2: "reach asys_start (asys_step UNIV 2) (a_goto 0 (AU_Enq (7 :: int)) (asys_start\<lparr>as_mtx := ?own\<rparr>))"
    by (rule reach_step [OF r1], rule run) (simp add: ev)
  have r3: "reach asys_start (asys_step UNIV 2) (a_goto 0 AU_Signal (?u\<lparr>as_mtx := ?own\<rparr>))"
    by (rule reach_step [OF r2], rule run) (simp add: ev)
  have r4: "reach asys_start (asys_step UNIV 2) (a_goto 0 AU_Unlock (?u\<lparr>as_mtx := ?own\<rparr>))"
    by (rule reach_step [OF r3], rule asys_step.run)
      (use asys_run.no_signal [of 0 2 "a_goto 0 AU_Signal (?u\<lparr>as_mtx := ?own\<rparr>)"] in \<open>simp add: asys_start_def\<close>)
  have r5: "reach asys_start (asys_step UNIV 2) ?u"
    by (rule reach_step [OF r4], rule run) (simp add: ev fun_eq_iff)
  have r6: "reach asys_start (asys_step UNIV 2) (a_goto 1 AE_Test ?u)"
    by (rule reach_step [OF r5]) (use call [of 1 ?u Call_is_empty] in \<open>simp add: asys_start_def\<close>)
  have r7: "reach asys_start (asys_step UNIV 2) (a_goto 0 (AU_Lock 8) (a_goto 1 AE_Test ?u))"
    by (rule reach_step [OF r6]) (use call [of 0 "a_goto 1 AE_Test ?u" "Call_push 8"] in \<open>simp add: asys_start_def\<close>)
  have r8: "reach asys_start (asys_step UNIV 2) (a_goto 0 (AU_Enq 8) ((a_goto 1 AE_Test ?u)\<lparr>as_mtx := ?own\<rparr>))"
    by (rule reach_step [OF r7], rule run) (simp add: ev)
  let ?s = "a_goto 0 (AU_Enq 8) ((a_goto 1 AE_Test ?u)\<lparr>as_mtx := ?own\<rparr>)"
  have "asys_step UNIV 2 ?s (a_goto 1 (AE_Return True) ?s)"
    by (rule asys_step.run, rule asys_run.race [of 1 2 ?s 0]) simp_all
  with r8 show ?thesis by (intro exI [of _ ?s] exI [of _ "a_goto 1 (AE_Return True) ?s"]) simp
qed

section \<open>Properties\<close>

text \<open>
  C9: The active object's queue, under any interleaving of any calls: it is first-in first-out;
  its methods come to rest in a bounded number of steps; at rest, unless the mutex is
  kept, a call has returned or is a \<open>pop\<close> that waits and the queue is empty, so that no wake-up
  is lost; and the mutex is never kept where \<open>try_pop\<close> is not used, as in the active object.
\<close>

theorem aoq_no_lost_wakeup:
  assumes "reach asys_start (asys_step C n) s"
  shows "as_popped s @ as_items s = as_pushed s
    \<and> (\<exists>f. reach s (asys_run n) f \<and> a_settled n f)
    \<and> ((asys_run n ^^ m) s g \<longrightarrow> m \<le> asys_measure n s)
    \<and> (a_settled n s \<and> (\<forall>u<n. \<not> kept_by u s) \<longrightarrow>
        (\<forall>t<n. as_pc s t = A_Idle \<or> as_pc s t = AP_Blocked \<and> as_items s = []))
    \<and> (Call_try_pop \<notin> C \<longrightarrow> (\<forall>u<n. \<not> kept_by u s))"
proof -
  have inv: "asys_inv n s" using assms by (rule asys_sys.reach_inv)
  have "as_pc s t = A_Idle \<or> as_pc s t = AP_Blocked \<and> as_items s = []"
    if "a_settled n s" "\<forall>u<n. \<not> kept_by u s" "t < n" for t
    using that a_settled_empty [of n s t] inv by (auto simp: asys_inv_def a_settled_def)
  moreover have "as_popped s @ as_items s = as_pushed s" using inv by (simp add: asys_inv_def a_fifo_inv_def)
  moreover have "\<exists>f. reach s (asys_run n) f \<and> a_settled n f" using inv by (rule asys_quiesce.inv_reaches_final)
  moreover have "(asys_run n ^^ m) s g \<longrightarrow> m \<le> asys_measure n s" using asys_quiesce.run_measure [OF _ inv] by fastforce
  ultimately show ?thesis using never_kept [OF assms] unfolding unkept_def by blast
qed

text \<open>A \<open>pop\<close> by thread 1 and a \<open>push\<close> by thread 0: at rest both have returned.\<close>

theorem aoq_no_lost_wakeup_witness:
  "\<exists>f. reach (a_goto 1 AP_Lock (a_goto 0 (AU_Lock (7 :: int)) asys_start)) (asys_run 2) f \<and> a_settled 2 f
     \<and> as_popped f @ as_items f = as_pushed f \<and> (\<forall>u<2. \<not> kept_by u f)"
proof -
  let ?C = "{Call_push (7 :: int), Call_pop}"
  let ?s1 = "a_goto 0 (AU_Lock (7 :: int)) asys_start"
  let ?s2 = "a_goto 1 AP_Lock ?s1"
  have 1: "asys_step ?C 2 asys_start ?s1"
    using asys_step.call [of 0 2 asys_start "Call_push 7" ?C] by (simp add: asys_start_def)
  have 2: "asys_step ?C 2 ?s1 ?s2"
    using asys_step.call [of 1 2 ?s1 Call_pop ?C] by (simp add: asys_start_def)
  have r: "reach asys_start (asys_step ?C 2) ?s2"
    by (rule reach_step, rule reach_step, rule reach_init, rule 1, rule 2)
  from aoq_no_lost_wakeup [OF r] obtain f where f: "reach ?s2 (asys_run 2) f" "a_settled 2 f" by blast
  have "reach asys_start (asys_step ?C 2) f"
    using reach_mono [OF f(1), of "asys_step ?C 2"] asys_step.run r by (blast intro: reach_extend)
  from aoq_no_lost_wakeup [OF this] f show ?thesis by auto
qed

text \<open>
  C38: Once a \<open>try_pop\<close> of the active object's queue has found it empty, which is the only way
  to it, the mutex stays locked for ever: no later step changes what the queue holds or what
  was pushed or popped, no thread gets past a lock again, and every call of \<open>push\<close>, \<open>pop\<close> or
  \<open>try_pop\<close> that waits for the lock or for an item waits on, whatever the others do.
\<close>

theorem aoq_try_pop_stops_the_queue:
  assumes "reach asys_start (asys_step C n) s" and "asys_step C n s s1"
    and "\<not> kept_by t s" "kept_by t s1" and "reach s1 (asys_step C n) s'"
  shows "as_pc s t = AT_Test \<and> as_items s = []
    \<and> kept_by t s' \<and> (\<forall>u<n. \<not> holds (as_pc s' u))
    \<and> as_items s' = as_items s1 \<and> as_pushed s' = as_pushed s1 \<and> as_popped s' = as_popped s1
    \<and> (\<forall>u. stuck_call (as_pc s1 u) \<longrightarrow> stuck_call (as_pc s' u))"
proof -
  have r1: "reach asys_start (asys_step C n) s1" using assms(1,2) by (rule reach_step)
  from assms(5) have stays: "asys_inv n s' \<and> kept_by t s' \<and> as_items s' = as_items s1 \<and> as_pushed s' = as_pushed s1
      \<and> as_popped s' = as_popped s1 \<and> (\<forall>u. stuck_call (as_pc s1 u) \<longrightarrow> stuck_call (as_pc s' u))"
  proof (induction rule: reach.induct)
    case reach_init
    show ?case using asys_sys.reach_inv [OF r1] assms(4) by simp
  next
    case (reach_step u v)
    then show ?case using kept_stays [of n u t C v] asys_inv_step [of n u C v] by metis
  qed
  then have "\<forall>u<n. \<not> holds (as_pc s' u)" using kept_unheld by (auto simp: asys_inv_def)
  with stays kept_arises [OF asys_sys.reach_inv [OF assms(1)] assms(3,2,4)] show ?thesis by blast
qed

text \<open>Thread 0 tries an empty queue, and thread 1 comes to push.\<close>

theorem aoq_try_pop_stops_the_queue_witness:
  "\<exists>s. reach asys_start (asys_step UNIV 2) s \<and> stuck_call (as_pc s 1) \<and> kept_by 0 s
     \<and> (\<forall>s'. reach s (asys_step UNIV 2) s' \<longrightarrow> stuck_call (as_pc s' 1) \<and> as_pushed s' = ([] :: int list))"
proof -
  let ?s1 = "a_goto 1 (AU_Lock (7 :: int)) (a_goto 0 AT_Lock asys_start)"
  let ?s2 = "(a_goto 0 AT_Test ?s1)\<lparr>as_mtx := kept_mutex 0\<rparr>"
  let ?s3 = "a_goto 0 AT_False ?s2"
  have 1: "asys_step UNIV 2 asys_start (a_goto 0 AT_Lock asys_start :: int asys)"
    using asys_step.call [of 0 2 asys_start "Call_try_pop :: int tsq_call" UNIV] by (simp add: asys_start_def)
  have 2: "asys_step UNIV 2 (a_goto 0 AT_Lock asys_start) ?s1"
    using asys_step.call [of 1 2 "a_goto 0 AT_Lock asys_start" "Call_push (7 :: int)" UNIV] by (simp add: asys_start_def)
  have 3: "asys_step UNIV 2 ?s1 ?s2"
    by (rule asys_step.run, rule asys_run.exec [of 0])
      (simp_all add: aoq_exec_def a_mutex_def asys_start_def mutex_init_def mutex_lock_def kept_mutex_def)
  have r2: "reach asys_start (asys_step UNIV 2) ?s2"
    by (rule reach_step, rule reach_step, rule reach_step, rule reach_init, rule 1, rule 2, rule 3)
  have step: "asys_step UNIV 2 ?s2 ?s3"
    by (rule asys_step.run, rule asys_run.exec [of 0]) (simp_all add: aoq_exec_def asys_start_def)
  have k: "\<not> kept_by 0 ?s2" "kept_by 0 ?s3" by (simp_all add: kept_by_def kept_mutex_def)
  have stuck: "stuck_call (as_pc ?s3 1)" by (simp add: stuck_call_def)
  have ever: "stuck_call (as_pc s' 1) \<and> as_pushed s' = []" if "reach ?s3 (asys_step UNIV 2) s'" for s'
  proof -
    from aoq_try_pop_stops_the_queue [OF r2 step k that]
    have "as_pushed s' = as_pushed ?s3" "\<forall>u. stuck_call (as_pc ?s3 u) \<longrightarrow> stuck_call (as_pc s' u)" by blast+
    moreover have "as_pushed ?s3 = []" by (simp add: asys_start_def)
    ultimately show ?thesis using stuck by metis
  qed
  have "reach asys_start (asys_step UNIV 2) ?s3" using r2 step by (rule reach_step)
  then show ?thesis
    by (intro exI [of _ ?s3] conjI allI impI) (use stuck k(2) ever in \<open>assumption | simp only:\<close>)+
qed

text \<open>
  C19: The active object's queue is linearizable for \<open>push\<close>, \<open>pop\<close> and \<open>try_pop\<close>: these calls,
  interleaved anyhow, also with calls of \<open>is_empty\<close>, are seen from outside calls of the
  sequential methods, each done at one moment; a \<open>try_pop\<close> that finds the queue empty leaves
  the sequential queue with the mutex locked too. \<open>is_empty\<close>, which takes no lock, changes
  nothing, and answers what the queue holds when no thread is in a statement that changes the
  queue; when one is, there are runs in which it finds a queue empty that is not.
\<close>

theorem aoq_linearizable:
  assumes "reach asys_start (asys_step C n) s"
  shows "(asys_step C n s s' \<longrightarrow> asys_abs s' = asys_abs s \<or> aq_step aoq_call n (asys_abs s) (asys_abs s'))
    \<and> (\<exists>log. replay aoq_call log aoq_ctor = Done \<lparr>tq_items = as_items s, tq_mtx = outer_mutex s\<rparr>
         \<and> (\<forall>t r. a_seen (as_pc s t) = Answered r \<longrightarrow> (\<exists>c. last_call t log = Some (c, r))))
    \<and> (asys_step C n s s' \<and> as_pc s t = AE_Test \<and> as_pc s' t = AE_Return e \<longrightarrow>
         as_items s' = as_items s \<and> (e = (as_items s = []) \<or> (\<exists>u<n. changing (as_pc s u))))
    \<and> (\<exists>v v'. reach asys_start (asys_step UNIV 2) v \<and> as_items v = [7 :: int] \<and> as_pc v 1 = AE_Test
         \<and> asys_step UNIV 2 v v' \<and> as_items v' = [7] \<and> as_pc v' 1 = AE_Return True)"
proof (intro conjI impI)
  note inv = asys_sys.reach_inv [OF assms]
  show "asys_abs s' = asys_abs s \<or> aq_step aoq_call n (asys_abs s) (asys_abs s')" if "asys_step C n s s'"
    using inv that by (rule asys_abs_step)
  show "\<exists>log. replay aoq_call log aoq_ctor = Done \<lparr>tq_items = as_items s, tq_mtx = outer_mutex s\<rparr>
      \<and> (\<forall>t r. a_seen (as_pc s t) = Answered r \<longrightarrow> (\<exists>c. last_call t log = Some (c, r)))"
    using aq_replay [OF asys_atomic.reach_abs [OF assms]] by (simp add: asys_abs_def)
  assume e: "asys_step C n s s' \<and> as_pc s t = AE_Test \<and> as_pc s' t = AE_Return e"
  then show "e = (as_items s = []) \<or> (\<exists>u<n. changing (as_pc s u))" using is_empty_answer by blast
  from e show "as_items s' = as_items s" using is_empty_keeps by blast
qed (rule is_empty_may_lie)

theorem aoq_linearizable_witness:
  "\<exists>log. replay aoq_call log aoq_ctor = Done \<lparr>tq_items = [] :: int list, tq_mtx = kept_mutex 0\<rparr>
     \<and> (\<exists>c. last_call 0 log = Some (c, Tried None))"
proof -
  let ?s1 = "a_goto 0 AT_Lock (asys_start :: int asys)"
  let ?s2 = "(a_goto 0 AT_Test ?s1)\<lparr>as_mtx := kept_mutex 0\<rparr>"
  let ?s3 = "a_goto 0 AT_False ?s2"
  have 1: "asys_step UNIV 2 asys_start ?s1"
    using asys_step.call [of 0 2 asys_start "Call_try_pop :: int tsq_call" UNIV] by (simp add: asys_start_def)
  have 2: "asys_step UNIV 2 ?s1 ?s2"
    by (rule asys_step.run, rule asys_run.exec [of 0])
      (simp_all add: aoq_exec_def a_mutex_def asys_start_def mutex_init_def mutex_lock_def kept_mutex_def)
  have 3: "asys_step UNIV 2 ?s2 ?s3"
    by (rule asys_step.run, rule asys_run.exec [of 0]) (simp_all add: aoq_exec_def asys_start_def)
  have r: "reach asys_start (asys_step UNIV 2) ?s3"
    by (rule reach_step, rule reach_step, rule reach_step, rule reach_init, rule 1, rule 2, rule 3)
  have "as_items ?s3 = []" "outer_mutex ?s3 = kept_mutex 0" "a_seen (as_pc ?s3 0) = Answered (Tried None)"
    by (simp_all add: asys_start_def outer_mutex_def kept_mutex_def)
  with aoq_linearizable [OF r] show ?thesis by metis
qed

end
