(* ===== verification/Inet_Server.thy ===== *)
theory Inet_Server
  imports Inet_Sockets Thread_Pool Server_Threads
begin

text \<open>
  The server of \<open>day3/16_sock_inet\<close>: a loop that accepts connections and hands each to a pool of
  ten threads. The file does not compile: it uses the class \<open>threadpool\<close> without a declaration,
  and its lambda uses the variable \<open>client_addr\<close>, which it does not capture. It is modelled with
  the pool of \<open>Thread_Pool\<close>, over any queue that provides its interface, and with the variable
  captured by value. That variable only names the client on the output: what \<open>getnameinfo\<close> makes
  of it is an argument of the step. The pool is never destroyed.
\<close>

section \<open>The program\<close>

text \<open>
  Where a thread of the pool stands: in \<open>pop\<close>, or in the task of the connection \<open>client_fd\<close>;
  once with what was received, once with what was sent.
\<close>

datatype inet_pc = I_Pop | I_Info int | I_Recv int | I_Report int int "u8 list" | I_Send int | I_Sent int int
  | I_Close int | I_Exit

datatype inet_main_pc = N_Accept | N_Push int

text \<open>\<open>is_accepted\<close>, \<open>is_taken\<close>: the descriptors given to the pool and those its threads took.\<close>

record 'q inet_server =
  is_world :: world
  is_queue :: 'q
  is_main :: inet_main_pc
  is_worker :: "tid \<Rightarrow> inet_pc"
  is_process :: process
  is_accepted :: "int list"
  is_taken :: "int list"

definition inet_goto :: "tid \<Rightarrow> inet_pc \<Rightarrow> world \<Rightarrow> 'q inet_server \<Rightarrow> 'q inet_server" where
  "inet_goto t pc w s = s\<lparr>is_world := w, is_worker := (is_worker s)(t := pc)\<rparr>"

definition inet_broken :: "world \<Rightarrow> 'q inet_server \<Rightarrow> 'q inet_server" where
  "inet_broken w s = s\<lparr>is_world := w, is_process := Broken\<rparr>"

text \<open>The buffer after \<open>recv\<close>: it was cleared before.\<close>

definition inet_buffer :: "u8 list \<Rightarrow> u8 list" where
  "inet_buffer data = data @ replicate (128 - length data) 0"

definition inet_reply :: "u8 list" where
  "inet_reply = map of_char (''abcdef'' @ [CHR 0x00])"

text \<open>
  A thread's loop, with the lambda of \<open>server\<close> as its task. Printing the buffer as a C string
  reads past its end when no zero byte is in it. A call that is not answered yet is a thread
  that makes no step.
\<close>

definition inet_worker_step ::
  "(tid \<Rightarrow> 'q \<Rightarrow> (int option \<times> 'q) outcome) \<Rightarrow> answer \<Rightarrow> (string \<times> string) option \<Rightarrow> tid \<Rightarrow>
   'q inet_server \<Rightarrow> 'q inet_server option" where
  "inet_worker_step pop a name t s =
     (case is_worker s t of
        I_Pop \<Rightarrow>
          (case pop t (is_queue s) of
             Done (Some client_fd, q) \<Rightarrow>
               Some ((inet_goto t (I_Info client_fd) (is_world s) s)
                       \<lparr>is_queue := q, is_taken := is_taken s @ [client_fd]\<rparr>)
           | Done (None, q) \<Rightarrow> Some ((inet_goto t I_Exit (is_world s) s)\<lparr>is_queue := q\<rparr>)
           | _ \<Rightarrow> None)
      | I_Info client_fd \<Rightarrow>
          (case print_client_info name ''New client - '' (is_world s) of
             (Ret _, w) \<Rightarrow> Some (inet_goto t (I_Recv client_fd) w s)
           | (_, w) \<Rightarrow> Some (inet_broken w s))
      | I_Recv client_fd \<Rightarrow>
          (case c_recv client_fd 128 a (is_world s) of ((num_recv, data), w) \<Rightarrow>
             Some (inet_goto t (I_Report client_fd num_recv (inet_buffer data)) w s))
      | I_Report client_fd num_recv buf \<Rightarrow>
          Some (if 0 \<in> set buf
                then inet_goto t (I_Send client_fd)
                       (print_line (''num_recv '' @ show_int num_recv @ '' ''
                          @ map byte_char (takeWhile (\<lambda>b. b \<noteq> 0) buf)) (is_world s)) s
                else inet_broken (is_world s) s)
      | I_Send client_fd \<Rightarrow>
          (case c_send client_fd inet_reply a (is_world s) of (num_sent, w) \<Rightarrow>
             Some (inet_goto t (I_Sent client_fd num_sent) w s))
      | I_Sent client_fd num_sent \<Rightarrow>
          Some (inet_goto t (I_Close client_fd) (print_line (''num_sent '' @ show_int num_sent) (is_world s)) s)
      | I_Close client_fd \<Rightarrow>
          (case c_close client_fd a (is_world s) of (_, w) \<Rightarrow> Some (inet_goto t I_Pop w s))
      | I_Exit \<Rightarrow> None)"

text \<open>
  The loop of \<open>server\<close>: the result of \<open>accept\<close> is not looked at, so that the task of a failed
  call is submitted too. The loop runs in thread \<open>n\<close>, after those of the pool.
\<close>

definition inet_main_step ::
  "(tid \<Rightarrow> int option \<Rightarrow> 'q \<Rightarrow> 'q outcome) \<Rightarrow> nat \<Rightarrow> int \<Rightarrow> answer \<Rightarrow> 'q inet_server \<Rightarrow> 'q inet_server option"
  where
  "inet_main_step push n server_fd a s =
     (case is_main s of
        N_Accept \<Rightarrow>
          (case c_accept server_fd a (is_world s) of (client_fd, w) \<Rightarrow>
             Some (s\<lparr>is_world := w, is_main := N_Push client_fd\<rparr>))
      | N_Push client_fd \<Rightarrow>
          (case push n (Some client_fd) (is_queue s) of
             Done q \<Rightarrow>
               Some (s\<lparr>is_queue := q, is_main := N_Accept, is_accepted := is_accepted s @ [client_fd]\<rparr>)
           | _ \<Rightarrow> None))"

inductive inet_step ::
  "(tid \<Rightarrow> int option \<Rightarrow> 'q \<Rightarrow> 'q outcome) \<Rightarrow> (tid \<Rightarrow> 'q \<Rightarrow> (int option \<times> 'q) outcome) \<Rightarrow> nat \<Rightarrow> int \<Rightarrow>
   'q inet_server \<Rightarrow> 'q inet_server \<Rightarrow> bool" for push pop n server_fd where
  main: "is_process s = Serving \<Longrightarrow> inet_main_step push n server_fd a s = Some s' \<Longrightarrow>
    inet_step push pop n server_fd s s'"
| worker: "is_process s = Serving \<Longrightarrow> t < n \<Longrightarrow> inet_worker_step pop a name t s = Some s' \<Longrightarrow>
    inet_step push pop n server_fd s s'"

text \<open>
  A thread in a call that waits for a client which never answers: \<open>recv\<close> when it sends nothing and
  keeps the connection, \<open>send\<close> when it does not read. \<open>silent\<close> are the connections of such clients.
\<close>

definition waits_for_client :: "int set \<Rightarrow> tid \<Rightarrow> 'q inet_server \<Rightarrow> bool" where
  "waits_for_client silent t s \<longleftrightarrow>
     (\<exists>h \<in> silent \<inter> set (w_open (is_world s)). is_worker s t = I_Recv h \<or> is_worker s t = I_Send h)"

text \<open>
  The steps when no client connects any more, so that \<open>accept\<close> does not return, and the silent ones
  stay silent.
\<close>

inductive inet_drain ::
  "(tid \<Rightarrow> int option \<Rightarrow> 'q \<Rightarrow> 'q outcome) \<Rightarrow> (tid \<Rightarrow> 'q \<Rightarrow> (int option \<times> 'q) outcome) \<Rightarrow> nat \<Rightarrow> int \<Rightarrow>
   int set \<Rightarrow> 'q inet_server \<Rightarrow> 'q inet_server \<Rightarrow> bool" for push pop n server_fd silent where
  submit: "is_process s = Serving \<Longrightarrow> is_main s \<noteq> N_Accept \<Longrightarrow> inet_main_step push n server_fd a s = Some s' \<Longrightarrow>
    inet_drain push pop n server_fd silent s s'"
| serve: "is_process s = Serving \<Longrightarrow> t < n \<Longrightarrow> \<not> waits_for_client silent t s \<Longrightarrow>
    inet_worker_step pop a name t s = Some s' \<Longrightarrow>
    inet_drain push pop n server_fd silent s s'"

lemma drain_is_step: "inet_drain push pop n fd silent s s' \<Longrightarrow> inet_step push pop n fd s s'"
  by (induction rule: inet_drain.induct) (auto intro: inet_step.intros)

definition inet_start :: "int \<Rightarrow> world \<Rightarrow> 'q \<Rightarrow> 'q inet_server" where
  "inet_start server_fd w q =
     \<lparr>is_world = w, is_queue = q, is_main = N_Accept, is_worker = (\<lambda>t. I_Pop),
      is_process = Serving, is_accepted = [], is_taken = []\<rparr>"

text \<open>
  \<open>server\<close> up to its loop: the exit status, or the descriptor the loop accepts on. And \<open>main\<close>,
  by the number of its arguments.
\<close>

definition inet_server_begin :: "lookup \<Rightarrow> (int + int) io" where
  "inet_server_begin getaddrinfo =
     io_bind (io_print ''Server'') (\<lambda>_.
     io_bind (sock_listen getaddrinfo ''12345'' 10) (\<lambda>(server_fd, _).
       if server_fd = -1 then
         io_bind (io_get (\<lambda>w. w_strerror w (w_errno w))) (\<lambda>msg.
         io_bind (io_print (''sock_listen error '' @ msg)) (\<lambda>_. io_ret (Inl 1)))
       else io_ret (Inr server_fd)))"

definition inet_main :: "lookup \<Rightarrow> string list \<Rightarrow> (int + int) io" where
  "inet_main getaddrinfo args =
     (if args \<noteq> [] then io_bind (inet_client getaddrinfo) (\<lambda>status. io_ret (Inl status))
      else inet_server_begin getaddrinfo)"

section \<open>Who has a connection\<close>

fun task_fd :: "inet_pc \<Rightarrow> int option" where
  "task_fd (I_Info h) = Some h"
| "task_fd (I_Recv h) = Some h"
| "task_fd (I_Report h k buf) = Some h"
| "task_fd (I_Send h) = Some h"
| "task_fd (I_Sent h k) = Some h"
| "task_fd (I_Close h) = Some h"
| "task_fd _ = None"

fun answered :: "inet_pc \<Rightarrow> bool" where
  "answered (I_Sent h k) = True"
| "answered (I_Close h) = True"
| "answered _ = False"

definition has :: "int \<Rightarrow> inet_pc \<Rightarrow> nat" where
  "has h p = (if task_fd p = Some h then 1 else 0)"

text \<open>How many there are that will close \<open>h\<close>: the loop, tasks in the queue, threads.\<close>

definition held :: "('q \<Rightarrow> int option list) \<Rightarrow> nat \<Rightarrow> 'q inet_server \<Rightarrow> int \<Rightarrow> nat" where
  "held items n s h =
     (if is_main s = N_Push h then 1 else 0) + count_list (items (is_queue s)) (Some h)
     + thread_sum n (has h) (is_worker s)"

definition order_inv :: "('q \<Rightarrow> int option list) \<Rightarrow> ('q \<Rightarrow> bool) \<Rightarrow> nat \<Rightarrow> 'q inet_server \<Rightarrow> bool" where
  "order_inv items idle n s \<longleftrightarrow>
     idle (is_queue s) \<and> map Some (is_accepted s) = map Some (is_taken s) @ items (is_queue s)
     \<and> (\<forall>t < n. is_worker s t \<noteq> I_Exit)"

definition held_inv :: "('q \<Rightarrow> int option list) \<Rightarrow> nat \<Rightarrow> int set \<Rightarrow> 'q inet_server \<Rightarrow> bool" where
  "held_inv items n base s \<longleftrightarrow>
     base \<subseteq> set (w_open (is_world s)) \<and> -1 \<notin> set (w_open (is_world s))
     \<and> (\<forall>h. h \<noteq> -1 \<longrightarrow> held items n s h = (if h \<in> set (w_open (is_world s)) - base then 1 else 0))"

definition reply_inv :: "nat \<Rightarrow> int set \<Rightarrow> 'q inet_server \<Rightarrow> bool" where
  "reply_inv n base s \<longleftrightarrow>
     (\<forall>h \<in> set (w_open (is_world s)) - base. w_sent (is_world s) h = []
        \<or> (\<exists>t < n. task_fd (is_worker s t) = Some h \<and> answered (is_worker s t)
             \<and> (\<exists>k. w_sent (is_world s) h = take k inet_reply)))"

definition inet_inv ::
  "('q \<Rightarrow> int option list) \<Rightarrow> ('q \<Rightarrow> bool) \<Rightarrow> nat \<Rightarrow> int set \<Rightarrow> 'q inet_server \<Rightarrow> bool" where
  "inet_inv items idle n base s \<longleftrightarrow> order_inv items idle n s \<and> held_inv items n base s \<and> reply_inv n base s"

lemma inet_goto_simps [simp]:
  "is_main (inet_goto t pc w s) = is_main s" "is_world (inet_goto t pc w s) = w"
  "is_queue (inet_goto t pc w s) = is_queue s" "is_process (inet_goto t pc w s) = is_process s"
  "is_worker (inet_goto t pc w s) = (is_worker s)(t := pc)"
  "is_accepted (inet_goto t pc w s) = is_accepted s" "is_taken (inet_goto t pc w s) = is_taken s"
  by (simp_all add: inet_goto_def)

text \<open>A thread has the one claim there is on its descriptor.\<close>

lemma held_worker:
  assumes "t < n" "task_fd (is_worker s t) = Some h"
  shows "1 \<le> thread_sum n (has h) (is_worker s)"
  using thread_sum_ge_one [OF assms(1), of "has h" "is_worker s"] assms(2) by (simp add: has_def)

lemma held_unique:
  assumes inv: "held_inv items n base s" and "t < n" "u < n" "t \<noteq> u"
    and "task_fd (is_worker s t) = Some h" "task_fd (is_worker s u) = Some h"
  shows "h = -1"
proof (rule ccontr)
  assume "h \<noteq> -1"
  with inv have "thread_sum n (has h) (is_worker s) \<le> 1"
    unfolding held_inv_def held_def by (metis (no_types, lifting) le_add2 zero_le order_trans)
  moreover have "thread_sum n (has h) ((is_worker s)(t := I_Pop)) + 1 = thread_sum n (has h) (is_worker s)"
    using thread_sum_upd [OF assms(2), of "has h" "is_worker s" I_Pop] assms(5) by (simp add: has_def)
  moreover have "1 \<le> thread_sum n (has h) ((is_worker s)(t := I_Pop))"
    using thread_sum_ge_one [OF assms(3), of "has h" "(is_worker s)(t := I_Pop)"] assms(4,6) by (simp add: has_def)
  ultimately show False by simp
qed

lemma worker_fd_open:
  assumes inv: "held_inv items n base s" and t: "t < n" "task_fd (is_worker s t) = Some h" and "h \<noteq> -1"
  shows "h \<in> set (w_open (is_world s)) - base"
proof -
  have "0 < held items n s h" using held_worker [OF t] by (simp add: held_def)
  with inv \<open>h \<noteq> -1\<close> show ?thesis by (auto simp: held_inv_def split: if_splits)
qed

text \<open>A thread goes on with its task; \<open>w\<close> is what the call left.\<close>

lemma goto_inv:
  assumes inv: "inet_inv items idle n base s" and t: "t < n" and fd: "task_fd (is_worker s t) = Some h"
    and pc: "task_fd pc = Some h" "answered (is_worker s t) \<longrightarrow> answered pc"
    and w: "w_open w = w_open (is_world s)" "\<forall>x. x \<noteq> h \<longrightarrow> w_sent w x = w_sent (is_world s) x"
    and sent: "h \<in> set (w_open w) \<Longrightarrow>
      if answered pc then \<exists>k. w_sent w h = take k inet_reply else w_sent w h = w_sent (is_world s) h"
  shows "inet_inv items idle n base (inet_goto t pc w s)"
proof -
  have "order_inv items idle n (inet_goto t pc w s)"
    using inv pc(1) by (auto simp: inet_inv_def order_inv_def)
  moreover have "thread_sum n (has x) ((is_worker s)(t := pc)) = thread_sum n (has x) (is_worker s)" for x
    using thread_sum_upd [OF t, of "has x" "is_worker s" pc] fd pc(1) by (simp add: has_def)
  then have "held_inv items n base (inet_goto t pc w s)"
    using inv w(1) by (simp add: inet_inv_def held_inv_def held_def)
  moreover have "reply_inv n base (inet_goto t pc w s)"
    unfolding reply_inv_def
  proof
    fix x assume x: "x \<in> set (w_open (is_world (inet_goto t pc w s))) - base"
    with w(1) have old: "w_sent (is_world s) x = []
        \<or> (\<exists>u < n. task_fd (is_worker s u) = Some x \<and> answered (is_worker s u)
             \<and> (\<exists>k. w_sent (is_world s) x = take k inet_reply))"
      using inv by (simp add: inet_inv_def reply_inv_def)
    show "w_sent (is_world (inet_goto t pc w s)) x = []
        \<or> (\<exists>u < n. task_fd (is_worker (inet_goto t pc w s) u) = Some x \<and> answered (is_worker (inet_goto t pc w s) u)
             \<and> (\<exists>k. w_sent (is_world (inet_goto t pc w s)) x = take k inet_reply))"
    proof (cases "x = h")
      case True
      with x sent have s: "if answered pc then \<exists>k. w_sent w h = take k inet_reply else w_sent w h = w_sent (is_world s) h"
        by simp
      show ?thesis
      proof (cases "answered pc")
        case True
        with s t pc(1) \<open>x = h\<close> show ?thesis by auto
      next
        case False
        with pc(2) have "\<not> answered (is_worker s t)" by simp
        moreover have "h \<noteq> -1" using x True inv w(1) by (auto simp: inet_inv_def held_inv_def)
        with inv fd t have "u = t" if "u < n" "task_fd (is_worker s u) = Some h" for u
          using held_unique [of items n base s u t h] that by (auto simp: inet_inv_def)
        ultimately have "w_sent (is_world s) h = []" using old True by auto
        with s False True show ?thesis by simp
      qed
    next
      case False
      have "u \<noteq> t" if "task_fd (is_worker s u) = Some x" for u using that fd False by auto
      with old w(2) False show ?thesis by fastforce
    qed
  qed
  ultimately show ?thesis by (simp add: inet_inv_def)
qed

section \<open>Every step keeps the claims\<close>

lemma c_close_any: "c_close h a w = (k, w') \<Longrightarrow> w_open w' = removeAll h (w_open w) \<and> w_sent w' = w_sent w"
  by (auto simp: c_close_def on_answer_def split: answer.splits if_splits)

lemma c_send_any:
  "c_send h buf a w = (k, w') \<Longrightarrow>
   w_open w' = w_open w \<and> (\<forall>x. x \<noteq> h \<longrightarrow> w_sent w' x = w_sent w x)
   \<and> (\<exists>j. w_sent w' h = w_sent w h @ take j buf)"
  by (auto simp: c_send_def on_fd_def on_answer_def Let_def split: answer.splits if_splits intro: exI [of _ 0])

lemma c_recv_any: "c_recv h len a w = (r, w') \<Longrightarrow> w_open w' = w_open w \<and> w_sent w' = w_sent w"
  by (auto simp: c_recv_def on_fd_def on_answer_def split: answer.splits if_splits)

lemma c_accept_any:
  "c_accept fd a w = (h, w') \<Longrightarrow>
   h = -1 \<and> w_open w' = w_open w \<and> w_sent w' = w_sent w
   \<or> 0 \<le> h \<and> h \<notin> set (w_open w) \<and> w_open w' = h # w_open w \<and> w_sent w' = (w_sent w)(h := [])"
  using lowest_free_new [of "w_open w"]
  by (auto simp: c_accept_def on_fd_def on_answer_def new_fd_def Let_def split: answer.splits if_splits)

lemma print_client_info_same:
  "print_client_info name info w = (r, w') \<Longrightarrow> w_open w' = w_open w \<and> w_sent w' = w_sent w"
  by (auto simp: print_client_info_def io_print_def split: if_splits)

text \<open>A state that differs in what the server does not look at.\<close>

lemma inet_inv_process: "inet_inv items idle n base s \<Longrightarrow> w_open w = w_open (is_world s) \<Longrightarrow>
   w_sent w = w_sent (is_world s) \<Longrightarrow> inet_inv items idle n base (inet_broken w s)"
  by (simp add: inet_broken_def inet_inv_def order_inv_def held_inv_def held_def reply_inv_def)

text \<open>The last thing a task does.\<close>

lemma close_inv:
  assumes inv: "inet_inv items idle n base s" and t: "t < n" and pc: "is_worker s t = I_Close h"
    and c: "c_close h a (is_world s) = (k, w)"
  shows "inet_inv items idle n base (inet_goto t I_Pop w s)"
proof -
  note w = c_close_any [OF c]
  have count: "thread_sum n (has x) ((is_worker s)(t := I_Pop)) + (if x = h then 1 else 0)
      = thread_sum n (has x) (is_worker s)" for x
    using thread_sum_upd [OF t, of "has x" "is_worker s" I_Pop] pc by (simp add: has_def eq_commute)
  have held: "held items n s x = (if x \<in> set (w_open (is_world s)) - base then 1 else 0)" if "x \<noteq> -1" for x
    using inv that by (simp add: inet_inv_def held_inv_def)
  have mine: "h \<in> set (w_open (is_world s)) - base" if "h \<noteq> -1"
    using worker_fd_open [of items n base s t h] inv t pc that by (simp add: inet_inv_def)
  have sub: "base \<subseteq> set (w_open (is_world s))" "-1 \<notin> set (w_open (is_world s))"
    using inv by (auto simp: inet_inv_def held_inv_def)
  have "held_inv items n base (inet_goto t I_Pop w s)"
    unfolding held_inv_def
  proof (intro conjI allI impI)
    show "base \<subseteq> set (w_open (is_world (inet_goto t I_Pop w s)))" using sub mine w by auto
    show "-1 \<notin> set (w_open (is_world (inet_goto t I_Pop w s)))" using sub w by simp
    fix x :: int assume x: "x \<noteq> -1"
    have "held items n (inet_goto t I_Pop w s) x + (if x = h then 1 else 0) = held items n s x"
      using count [of x] by (simp add: held_def)
    with held [OF x] mine x w
    show "held items n (inet_goto t I_Pop w s) x
        = (if x \<in> set (w_open (is_world (inet_goto t I_Pop w s))) - base then 1 else 0)"
      by (cases "x = h") auto
  qed
  moreover have "reply_inv n base (inet_goto t I_Pop w s)"
    unfolding reply_inv_def
  proof
    fix x assume "x \<in> set (w_open (is_world (inet_goto t I_Pop w s))) - base"
    with w have x: "x \<in> set (w_open (is_world s)) - base" "x \<noteq> h" by auto
    then have "w_sent (is_world s) x = [] \<or> (\<exists>u < n. task_fd (is_worker s u) = Some x \<and> answered (is_worker s u)
             \<and> (\<exists>k. w_sent (is_world s) x = take k inet_reply))"
      using inv by (simp add: inet_inv_def reply_inv_def)
    moreover have "u \<noteq> t" if "task_fd (is_worker s u) = Some x" for u using that pc x(2) by auto
    ultimately show "w_sent (is_world (inet_goto t I_Pop w s)) x = []
        \<or> (\<exists>u < n. task_fd (is_worker (inet_goto t I_Pop w s) u) = Some x \<and> answered (is_worker (inet_goto t I_Pop w s) u)
             \<and> (\<exists>k. w_sent (is_world (inet_goto t I_Pop w s)) x = take k inet_reply))"
      using w by fastforce
  qed
  ultimately show ?thesis using inv by (simp add: inet_inv_def order_inv_def)
qed

text \<open>The steps a thread has left in its task, and those of the server when no one connects.\<close>

fun task_left :: "inet_pc \<Rightarrow> nat" where
  "task_left (I_Info h) = 6"
| "task_left (I_Recv h) = 5"
| "task_left (I_Report h k buf) = 4"
| "task_left (I_Send h) = 3"
| "task_left (I_Sent h k) = 2"
| "task_left (I_Close h) = 1"
| "task_left _ = 0"

lemma task_left_le: "task_left p \<le> 6"
  by (cases p) simp_all

definition inet_measure :: "('q \<Rightarrow> int option list) \<Rightarrow> nat \<Rightarrow> 'q inet_server \<Rightarrow> nat" where
  "inet_measure items n s =
     (if is_process s = Serving then 1 else 0) + (if is_main s = N_Accept then 0 else 8)
     + 7 * length (items (is_queue s)) + thread_sum n task_left (is_worker s)"

definition inet_rest :: "('q \<Rightarrow> int option list) \<Rightarrow> nat \<Rightarrow> int set \<Rightarrow> 'q inet_server \<Rightarrow> bool" where
  "inet_rest items n silent s \<longleftrightarrow>
     is_process s \<noteq> Serving
     \<or> is_main s = N_Accept
       \<and> (\<forall>t < n. is_worker s t = I_Pop \<and> items (is_queue s) = [] \<or> waits_for_client silent t s)"

text \<open>The loop: a new connection, and its task submitted.\<close>

lemma accept_inv:
  assumes inv: "inet_inv items idle n base s" and main: "is_main s = N_Accept"
    and c: "c_accept fd a (is_world s) = (h, w)"
  shows "inet_inv items idle n base (s\<lparr>is_world := w, is_main := N_Push h\<rparr>)"
  using c_accept_any [OF c]
proof
  assume new: "0 \<le> h \<and> h \<notin> set (w_open (is_world s)) \<and> w_open w = h # w_open (is_world s)
    \<and> w_sent w = (w_sent (is_world s))(h := [])"
  let ?s = "s\<lparr>is_world := w, is_main := N_Push h\<rparr>"
  have held: "held items n s x = (if x \<in> set (w_open (is_world s)) - base then 1 else 0)" if "x \<noteq> -1" for x
    using inv that by (simp add: inet_inv_def held_inv_def)
  have "held items n ?s x = held items n s x + (if x = h then 1 else 0)" for x
    using main by (simp add: held_def)
  moreover have "h \<notin> base" using inv new by (auto simp: inet_inv_def held_inv_def)
  ultimately have "held_inv items n base ?s"
    using inv new held by (auto simp: inet_inv_def held_inv_def)
  moreover have "reply_inv n base ?s"
    using inv new unfolding inet_inv_def reply_inv_def by fastforce
  ultimately show ?thesis using inv by (simp add: inet_inv_def order_inv_def)
next
  assume "h = -1 \<and> w_open w = w_open (is_world s) \<and> w_sent w = w_sent (is_world s)"
  with inv main show ?thesis
    by (simp add: inet_inv_def order_inv_def held_inv_def held_def reply_inv_def)
qed

text \<open>The queue the server needs: the pool's, of tasks each given by its descriptor.\<close>

locale connection_queue = task_queue push pop items idle
  for push :: "tid \<Rightarrow> int option \<Rightarrow> 'q \<Rightarrow> 'q outcome"
    and pop :: "tid \<Rightarrow> 'q \<Rightarrow> (int option \<times> 'q) outcome"
    and items :: "'q \<Rightarrow> int option list"
    and idle :: "'q \<Rightarrow> bool"
begin

lemma take_inv:
  assumes inv: "inet_inv items idle n base s" and t: "t < n" and pc: "is_worker s t = I_Pop"
    and p: "pop t (is_queue s) = Done (r, q)"
  shows "\<exists>h. r = Some h \<and> inet_inv items idle n base
    ((inet_goto t (I_Info h) (is_world s) s)\<lparr>is_queue := q, is_taken := is_taken s @ [h]\<rparr>)"
proof -
  have q: "idle q" "items (is_queue s) = r # items q"
    using pop_Done [OF _ p] inv by (auto simp: inet_inv_def order_inv_def)
  have "r \<in> Some ` set (is_accepted s)"
    using inv q(2) by (metis (no_types, lifting) inet_inv_def order_inv_def in_set_conv_decomp list.set_map)
  then obtain h where h: "r = Some h" by blast
  let ?s = "(inet_goto t (I_Info h) (is_world s) s)\<lparr>is_queue := q, is_taken := is_taken s @ [h]\<rparr>"
  have "thread_sum n (has x) ((is_worker s)(t := I_Info h)) = thread_sum n (has x) (is_worker s) + (if x = h then 1 else 0)" for x
    using thread_sum_upd [OF t, of "has x" "is_worker s" "I_Info h"] pc by (simp add: has_def eq_commute)
  then have "held items n ?s x = held items n s x" for x
    using q(2) h by (simp add: held_def)
  then have "held_inv items n base ?s" using inv by (simp add: inet_inv_def held_inv_def)
  moreover have "order_inv items idle n ?s" using inv q h by (simp add: inet_inv_def order_inv_def)
  moreover have "u \<noteq> t" if "answered (is_worker s u)" for u using that pc by auto
  with inv have "reply_inv n base ?s" unfolding inet_inv_def reply_inv_def by fastforce
  ultimately have "inet_inv items idle n base ?s" by (simp add: inet_inv_def)
  with h show ?thesis by blast
qed

lemma submit_inv:
  assumes inv: "inet_inv items idle n base s" and main: "is_main s = N_Push h"
    and p: "push n (Some h) (is_queue s) = Done q"
  shows "inet_inv items idle n base
    (s\<lparr>is_queue := q, is_main := N_Accept, is_accepted := is_accepted s @ [h]\<rparr>)"
proof -
  let ?s = "s\<lparr>is_queue := q, is_main := N_Accept, is_accepted := is_accepted s @ [h]\<rparr>"
  have q: "idle q" "items q = items (is_queue s) @ [Some h]"
    using push_Done [OF _ p] inv by (auto simp: inet_inv_def order_inv_def)
  then have "held items n ?s x = held items n s x" for x using main by (simp add: held_def)
  with inv have "held_inv items n base ?s" by (simp add: inet_inv_def held_inv_def)
  moreover have "order_inv items idle n ?s" using inv q by (simp add: inet_inv_def order_inv_def)
  moreover have "reply_inv n base ?s" using inv by (simp add: inet_inv_def reply_inv_def)
  ultimately show ?thesis by (simp add: inet_inv_def)
qed

lemma inet_worker_inv:
  assumes inv: "inet_inv items idle n base s" and t: "t < n"
    and step: "inet_worker_step pop a name t s = Some s'"
  shows "inet_inv items idle n base s'"
proof (cases "is_worker s t")
  case I_Pop
  with step obtain r q where "pop t (is_queue s) = Done (r, q)"
    by (auto simp: inet_worker_step_def split: outcome.splits)
  with take_inv [OF inv t I_Pop this] I_Pop step show ?thesis by (auto simp: inet_worker_step_def)
next
  case (I_Info h)
  obtain r w where p: "print_client_info name ''New client - '' (is_world s) = (r, w)" by fastforce
  note w = print_client_info_same [OF p]
  from step I_Info p have "s' = inet_goto t (I_Recv h) w s \<or> s' = inet_broken w s"
    by (auto simp: inet_worker_step_def split: exec.splits)
  with goto_inv [OF inv t, of h "I_Recv h" w] inet_inv_process [OF inv, of w] w I_Info show ?thesis by auto
next
  case (I_Recv h)
  obtain k data w where c: "c_recv h 128 a (is_world s) = ((k, data), w)" by (metis prod.exhaust)
  from c_recv_any [OF c] goto_inv [OF inv t, of h "I_Report h k (inet_buffer data)" w] step I_Recv c show ?thesis
    by (simp add: inet_worker_step_def)
next
  case (I_Report h k buf)
  from goto_inv [OF inv t, of h "I_Send h"] inet_inv_process [OF inv, of "is_world s"] step I_Report show ?thesis
    by (auto simp: inet_worker_step_def print_line_def split: if_splits)
next
  case (I_Send h)
  obtain k w where c: "c_send h inet_reply a (is_world s) = (k, w)" by fastforce
  note w = c_send_any [OF c]
  have "w_sent (is_world s) h = []" if "h \<in> set (w_open (is_world s))"
  proof -
    have "h \<noteq> -1" using that inv by (auto simp: inet_inv_def held_inv_def)
    then have "h \<in> set (w_open (is_world s)) - base"
      using worker_fd_open [of items n base s t h] inv t I_Send by (simp add: inet_inv_def)
    then have "w_sent (is_world s) h = [] \<or> (\<exists>u < n. task_fd (is_worker s u) = Some h \<and> answered (is_worker s u))"
      using inv unfolding inet_inv_def reply_inv_def by blast
    moreover have "u = t" if "u < n" "task_fd (is_worker s u) = Some h" for u
      using held_unique [of items n base s u t h] that t I_Send \<open>h \<noteq> -1\<close> inv by (auto simp: inet_inv_def)
    ultimately show ?thesis using I_Send by auto
  qed
  with w have "\<exists>j. w_sent w h = take j inet_reply" if "h \<in> set (w_open w)" using that by auto
  with w goto_inv [OF inv t, of h "I_Sent h k" w] step I_Send c show ?thesis
    by (simp add: inet_worker_step_def)
next
  case (I_Sent h k)
  have "w_sent (is_world s) h = [] \<or> (\<exists>j. w_sent (is_world s) h = take j inet_reply)" if "h \<in> set (w_open (is_world s))"
  proof -
    have "h \<noteq> -1" using that inv by (auto simp: inet_inv_def held_inv_def)
    then have "h \<in> set (w_open (is_world s)) - base"
      using worker_fd_open [of items n base s t h] inv t I_Sent by (simp add: inet_inv_def)
    then show ?thesis using inv unfolding inet_inv_def reply_inv_def by blast
  qed
  then have "\<exists>j. w_sent (is_world s) h = take j inet_reply" if "h \<in> set (w_open (is_world s))"
    using that by (metis take0)
  with goto_inv [OF inv t, of h "I_Close h" "print_line (''num_sent '' @ show_int k) (is_world s)"] step I_Sent
  show ?thesis by (simp add: inet_worker_step_def print_line_def)
next
  case (I_Close h)
  obtain k w where c: "c_close h a (is_world s) = (k, w)" by fastforce
  with close_inv [OF inv t I_Close c] step I_Close show ?thesis by (simp add: inet_worker_step_def)
next
  case I_Exit
  with step show ?thesis by (simp add: inet_worker_step_def)
qed

lemma inet_main_inv:
  assumes inv: "inet_inv items idle n base s" and step: "inet_main_step push n fd a s = Some s'"
  shows "inet_inv items idle n base s'"
  using step accept_inv [OF inv] submit_inv [OF inv]
  by (cases "is_main s") (auto simp: inet_main_step_def split: outcome.splits prod.splits)

lemma inet_system:
  assumes "idle q" "items q = []" "-1 \<notin> set (w_open w)"
  shows "invariant_system (inet_start fd w q) (inet_step push pop n fd) (inet_inv items idle n (set (w_open w)))"
proof
  show "inet_inv items idle n (set (w_open w)) (inet_start fd w q)"
    using assms by (simp add: inet_inv_def order_inv_def held_inv_def held_def reply_inv_def inet_start_def
        thread_sum_def has_def)
  show "inet_inv items idle n (set (w_open w)) t"
    if "inet_inv items idle n (set (w_open w)) s" "inet_step push pop n fd s t" for s t
    using that(2,1) by cases (auto intro: inet_main_inv inet_worker_inv)
qed

text \<open>Without new connections the server comes to rest.\<close>

lemma drain_decreases:
  assumes inv: "inet_inv items idle n base s" and step: "inet_drain push pop n fd silent s s'"
  shows "inet_measure items n s' < inet_measure items n s"
  using step
proof cases
  case (submit a)
  then obtain h q where "is_main s = N_Push h" "push n (Some h) (is_queue s) = Done q"
    "s' = s\<lparr>is_queue := q, is_main := N_Accept, is_accepted := is_accepted s @ [h]\<rparr>"
    by (cases "is_main s") (auto simp: inet_main_step_def split: outcome.splits)
  with push_Done [of "is_queue s" n "Some h" q] inv show ?thesis
    by (simp add: inet_inv_def order_inv_def inet_measure_def)
next
  case (serve t a name)
  show ?thesis
  proof (cases "is_process s' = Serving")
    case True
    have "thread_sum n task_left (is_worker s') + task_left (is_worker s t)
        = thread_sum n task_left (is_worker s) + task_left (is_worker s' t)"
      using thread_sum_upd [OF serve(2), of task_left "is_worker s" "is_worker s' t"] serve(4) True
      by (auto simp: inet_worker_step_def inet_broken_def
          split: inet_pc.splits outcome.splits option.splits exec.splits prod.splits if_splits)
    moreover have "is_main s' = is_main s" "7 * length (items (is_queue s')) + task_left (is_worker s' t)
        < 7 * length (items (is_queue s)) + task_left (is_worker s t)"
      using serve(4) True pop_Done [of "is_queue s" t] inv
      by (auto simp: inet_worker_step_def inet_broken_def inet_inv_def order_inv_def
          split: inet_pc.splits outcome.splits option.splits exec.splits prod.splits if_splits)
    ultimately show ?thesis using True serve(1) by (simp add: inet_measure_def)
  next
    case False
    with serve(1,4) obtain w where "s' = inet_broken w s"
      by (auto simp: inet_worker_step_def
          split: inet_pc.splits outcome.splits option.splits exec.splits prod.splits if_splits)
    with serve(1) show ?thesis by (simp add: inet_measure_def inet_broken_def)
  qed
qed

lemma drain_goes_on:
  assumes inv: "inet_inv items idle n base s" and "\<not> inet_rest items n silent s"
  shows "\<exists>s'. inet_drain push pop n fd silent s s'"
proof (cases "is_main s")
  case (N_Push h)
  obtain q where "push n (Some h) (is_queue s) = Done q"
    using push_items [of "is_queue s" n "Some h"] inv by (auto simp: inet_inv_def order_inv_def)
  with assms(2) N_Push show ?thesis
    by (intro exI, intro inet_drain.submit) (auto simp: inet_rest_def inet_main_step_def)
next
  case N_Accept
  with assms(2) obtain t where t: "t < n" "\<not> waits_for_client silent t s"
      "is_worker s t = I_Pop \<Longrightarrow> items (is_queue s) \<noteq> []" and serving: "is_process s = Serving"
    by (auto simp: inet_rest_def)
  have "\<exists>s'. inet_worker_step pop a name t s = Some s'" for a name
  proof (cases "is_worker s t = I_Pop")
    case True
    with t obtain r q where "pop t (is_queue s) = Done (r, q)"
      using pop_enabled [of "is_queue s" t] inv by (auto simp: inet_inv_def order_inv_def)
    with True show ?thesis by (auto simp: inet_worker_step_def split: option.splits)
  next
    case False
    with inv t(1) show ?thesis
      by (cases "is_worker s t")
        (auto simp: inet_worker_step_def inet_inv_def order_inv_def split: exec.splits prod.splits)
  qed
  with t serving show ?thesis by (blast intro: inet_drain.serve)
qed

lemma drain_system:
  assumes "inet_inv items idle n base s"
  shows "terminating_system s (inet_drain push pop n fd silent) (inet_inv items idle n base) (inet_measure items n)
    (inet_rest items n silent)"
proof
  show "inet_inv items idle n base t" if "inet_inv items idle n base u" "inet_drain push pop n fd silent u t" for u t
    using that(2,1) by cases (auto intro: inet_main_inv inet_worker_inv)
qed (use assms drain_decreases drain_goes_on in blast)+

text \<open>With fewer silent clients than threads some thread does not wait for one.\<close>

lemma someone_free:
  assumes inv: "inet_inv items idle n base s" and c: "finite silent" "card silent < n"
  shows "\<exists>t < n. \<not> waits_for_client silent t s"
proof (rule ccontr)
  assume "\<not> ?thesis"
  then have "\<forall>t. \<exists>h. t < n \<longrightarrow> h \<in> silent \<and> h \<in> set (w_open (is_world s)) \<and> task_fd (is_worker s t) = Some h"
    by (fastforce simp: waits_for_client_def)
  then obtain h where h: "t < n \<Longrightarrow> h t \<in> silent \<and> h t \<in> set (w_open (is_world s)) \<and> task_fd (is_worker s t) = Some (h t)" for t
    by metis
  have held: "held_inv items n base s" using inv by (simp add: inet_inv_def)
  have "inj_on h {..<n}"
  proof (rule inj_onI)
    fix t u assume "t \<in> {..<n}" "u \<in> {..<n}" "h t = h u"
    then have tu: "t < n" "u < n" and same: "task_fd (is_worker s t) = Some (h t)" "task_fd (is_worker s u) = Some (h t)"
      using h by auto
    have "h t \<noteq> -1" using h [OF tu(1)] held by (auto simp: held_inv_def)
    with held_unique [OF held tu _ same] show "t = u" by blast
  qed
  moreover have "h ` {..<n} \<subseteq> silent" using h by auto
  ultimately have "card {..<n} \<le> card silent" using c(1) by (metis card_inj_on_le)
  with c(2) show False by simp
qed

text \<open>At rest every connection is closed but those of silent clients.\<close>

lemma rest_open:
  assumes inv: "inet_inv items idle n base s" and rest: "inet_rest items n silent s" "is_process s = Serving"
    and c: "finite silent" "card silent < n"
  shows "is_taken s = is_accepted s \<and> base \<subseteq> set (w_open (is_world s)) \<and> set (w_open (is_world s)) \<subseteq> base \<union> silent"
proof -
  from someone_free [OF inv c] rest have empty: "items (is_queue s) = []" and idle: "is_main s = N_Accept"
    by (auto simp: inet_rest_def)
  have "h \<in> silent" if h: "h \<in> set (w_open (is_world s)) - base" for h
  proof -
    have "h \<noteq> -1" using inv h by (auto simp: inet_inv_def held_inv_def)
    with inv h have "held items n s h = 1" by (simp add: inet_inv_def held_inv_def)
    with empty idle have "0 < thread_sum n (has h) (is_worker s)" by (simp add: held_def)
    then obtain t where t: "t < n" "task_fd (is_worker s t) = Some h"
      by (auto simp: thread_sum_pos has_def split: if_splits)
    with rest show ?thesis by (auto simp: inet_rest_def waits_for_client_def)
  qed
  with inv empty show ?thesis
    by (auto simp: inet_inv_def held_inv_def order_inv_def inj_map_eq_map)
qed

end

section \<open>The server over its queue\<close>

interpretation tsq_conn: connection_queue tsq_push tsq_pop tq_items tsq_idle
  by unfold_locales

interpretation inet_sys: invariant_system "inet_start fd w (tsq_ctor :: int option tsq)" "inet_step tsq_push tsq_pop n fd"
    "\<lambda>s. -1 \<notin> set (w_open w) \<longrightarrow> inet_inv tq_items tsq_idle n (set (w_open w)) s" for fd w n
proof -
  have "invariant_system (inet_start fd w (tsq_ctor :: int option tsq)) (inet_step tsq_push tsq_pop n fd)
      (inet_inv tq_items tsq_idle n (set (w_open w)))" if "-1 \<notin> set (w_open w)"
    using that by (intro tsq_conn.inet_system) (simp_all add: tsq_ctor_def tsq_idle_def)
  then show "invariant_system (inet_start fd w (tsq_ctor :: int option tsq)) (inet_step tsq_push tsq_pop n fd)
    (\<lambda>s. -1 \<notin> set (w_open w) \<longrightarrow> inet_inv tq_items tsq_idle n (set (w_open w)) s)"
    by (auto simp: invariant_system_def)
qed

text \<open>\<open>server\<close> enters its loop with one descriptor more, or exits with status 1.\<close>

lemma inet_server_begin_result:
  assumes "inet_server_begin getaddrinfo w = (r, w')"
  shows "r = Stop Blocked \<or> r = Ret (Inl 1) \<or>
    (\<exists>fd. r = Ret (Inr fd) \<and> 0 \<le> fd \<and> fd \<notin> set (w_open w) \<and> w_open w' = fd # w_open w)"
proof -
  let ?w = "w\<lparr>w_out := w_out w @ [''Server'']\<rparr>"
  obtain q u where run: "sock_listen getaddrinfo ''12345'' 10 ?w = (q, u)" by fastforce
  from sock_create_result [OF run [unfolded sock_listen_def]] assms run show ?thesis
    by (auto simp: inet_server_begin_def io_defs passive_result_def split: option.splits)
qed

lemma inet_reach_inv:
  assumes "inet_server_begin getaddrinfo w = (Ret (Inr fd), w0)" and "-1 \<notin> set (w_open w)"
    and "reach (inet_start fd w0 (tsq_ctor :: int option tsq)) (inet_step tsq_push tsq_pop n fd) s"
  shows "inet_inv tq_items tsq_idle n (insert fd (set (w_open w))) s"
proof -
  from inet_server_begin_result [OF assms(1)] have w0: "0 \<le> fd" "w_open w0 = fd # w_open w" by auto
  with assms(2) have "-1 \<notin> set (w_open w0)" by auto
  with inet_sys.reach_inv [OF assms(3)] w0 show ?thesis by simp
qed

text \<open>A schedule: who moves, the loop if none, and the answer to the call.\<close>

definition inet_act :: "nat \<Rightarrow> int \<Rightarrow> nat option \<times> answer \<Rightarrow> int option tsq inet_server \<Rightarrow> int option tsq inet_server option" where
  "inet_act n fd l s =
     (if is_process s \<noteq> Serving then None
      else case l of
        (None, a) \<Rightarrow> inet_main_step tsq_push n fd a s
      | (Some t, a) \<Rightarrow> if t < n then inet_worker_step tsq_pop a (Some (''host'', ''port'')) t s else None)"

lemma inet_act_step: "inet_act n fd l s = Some t \<Longrightarrow> inet_step tsq_push tsq_pop n fd s t"
  by (cases l; cases "fst l") (auto simp: inet_act_def split: if_splits intro: inet_step.intros)

section \<open>Properties\<close>

text \<open>
  C7: Once the server of \<open>16_sock_inet\<close> listens, in every interleaving of its loop and the ten
  threads of its pool and whatever the system answers: the pool takes the accepted descriptors
  in order, each once; a thread's connection is open, is not the listening socket, and no other
  thread's nor still queued; what was sent on a connection is a beginning of the reply; and
  every open descriptor is the listening socket, was open before, or is the loop's, queued or a
  thread's, so that none leaks.
\<close>

theorem inet_server_connections:
  assumes "inet_server_begin getaddrinfo w = (Ret (Inr fd), w0)" and "-1 \<notin> set (w_open w)"
    and "reach (inet_start fd w0 (tsq_ctor :: int option tsq)) (inet_step tsq_push tsq_pop 10 fd) s"
  shows "map Some (is_accepted s) = map Some (is_taken s) @ tq_items (is_queue s)
    \<and> (\<forall>t < 10. \<forall>h. task_fd (is_worker s t) = Some h \<longrightarrow> h \<noteq> -1 \<longrightarrow>
         h \<in> set (w_open (is_world s)) - insert fd (set (w_open w))
         \<and> Some h \<notin> set (tq_items (is_queue s))
         \<and> (\<forall>u < 10. u \<noteq> t \<longrightarrow> task_fd (is_worker s u) \<noteq> Some h))
    \<and> (\<forall>h \<in> set (w_open (is_world s)) - insert fd (set (w_open w)).
         (\<exists>k. w_sent (is_world s) h = take k inet_reply)
         \<and> (is_main s = N_Push h \<or> Some h \<in> set (tq_items (is_queue s)) \<or> (\<exists>t < 10. task_fd (is_worker s t) = Some h)))"
proof -
  let ?base = "insert fd (set (w_open w))"
  note inv = inet_reach_inv [OF assms]
  then have order: "order_inv tq_items tsq_idle 10 s" and held: "held_inv tq_items 10 ?base s"
    and reply: "reply_inv 10 ?base s" by (simp_all add: inet_inv_def)
  have one: "held tq_items 10 s h = 1" if "h \<in> set (w_open (is_world s)) - ?base" for h
  proof -
    have "h \<noteq> -1" using held that by (auto simp: held_inv_def)
    with held that show ?thesis by (simp add: held_inv_def)
  qed
  show ?thesis
  proof (intro conjI allI impI ballI)
    show "map Some (is_accepted s) = map Some (is_taken s) @ tq_items (is_queue s)"
      using order by (simp add: order_inv_def)
    fix t h assume t: "t < 10" "task_fd (is_worker s t) = Some h" "h \<noteq> -1"
    from worker_fd_open [OF held t] show mine: "h \<in> set (w_open (is_world s)) - ?base" .
    show "task_fd (is_worker s u) \<noteq> Some h" if "u < 10" "u \<noteq> t" for u
      using held_unique [OF held t(1) that(1)] that(2) t(2,3) by blast
    have "count_list (tq_items (is_queue s)) (Some h) = 0"
      using one [OF mine] held_worker [OF t(1,2)] by (simp add: held_def split: if_splits)
    then show "Some h \<notin> set (tq_items (is_queue s))" by (simp add: count_list_0_iff)
  next
    fix h assume h: "h \<in> set (w_open (is_world s)) - ?base"
    with reply show "\<exists>k. w_sent (is_world s) h = take k inet_reply"
      unfolding reply_inv_def by (metis take0)
    have "\<exists>t < 10. task_fd (is_worker s t) = Some h" if "0 < thread_sum 10 (has h) (is_worker s)"
      using that by (auto simp: thread_sum_pos has_def split: if_splits)
    then show "is_main s = N_Push h \<or> Some h \<in> set (tq_items (is_queue s)) \<or> (\<exists>t < 10. task_fd (is_worker s t) = Some h)"
      using one [OF h] by (cases "Some h \<in> set (tq_items (is_queue s))") (auto simp: held_def count_notin split: if_splits)
  qed
qed

text \<open>Two connections, the first served and closed, the second with its thread.\<close>

definition listening :: world where
  "listening = snd (inet_server_begin one_host (start_world (replicate 4 (Ok 0 [] Unnamed))))"

definition inet_schedule :: "(nat option \<times> answer) list" where
  "inet_schedule =
     (let ok = Ok 0 [] Unnamed
      in [(None, ok), (None, ok), (None, ok), (None, ok), (Some 0, ok), (Some 1, ok), (Some 0, ok),
          (Some 0, Ok 0 [104, 105, 0] Unnamed), (Some 0, ok), (Some 0, Ok 7 [] Unnamed), (Some 0, ok), (Some 0, ok),
          (Some 1, ok), (Some 1, ok), (Some 1, ok), (Some 1, Ok 2 [] Unnamed)])"

lemma inet_schedule_run:
  "case follow (inet_act 10 3) inet_schedule (inet_start 3 listening tsq_ctor) of
     None \<Rightarrow> False
   | Some s \<Rightarrow> is_worker s 0 = I_Pop \<and> is_worker s 1 = I_Sent 5 2 \<and> is_process s = Serving
       \<and> is_accepted s = [4, 5]"
  by code_simp

lemma listening_begin:
  "inet_server_begin one_host (start_world (replicate 4 (Ok 0 [] Unnamed))) = (Ret (Inr 3), listening)"
proof -
  have "fst (inet_server_begin one_host (start_world (replicate 4 (Ok 0 [] Unnamed)))) = Ret (Inr 3)" by code_simp
  then show ?thesis unfolding listening_def by (metis prod.collapse)
qed

lemma inet_schedule_reach:
  "\<exists>s. reach (inet_start 3 listening tsq_ctor) (inet_step tsq_push tsq_pop 10 3) s
     \<and> is_worker s 0 = I_Pop \<and> is_worker s 1 = I_Sent 5 2 \<and> is_process s = Serving \<and> is_accepted s = [4, 5]"
proof -
  from inet_schedule_run obtain s where run: "follow (inet_act 10 3) inet_schedule (inet_start 3 listening tsq_ctor) = Some s"
    and s: "is_worker s 0 = I_Pop \<and> is_worker s 1 = I_Sent 5 2 \<and> is_process s = Serving \<and> is_accepted s = [4, 5]"
    by (cases "follow (inet_act 10 3) inet_schedule (inet_start 3 listening tsq_ctor)") auto
  from run have "reach (inet_start 3 listening tsq_ctor) (inet_step tsq_push tsq_pop 10 3) s"
    by (rule follow_reach) (use inet_act_step in blast)
  with s show ?thesis by blast
qed

lemma inet_start_open: "w_open (start_world as) = [2, 1, 0]"
  by (simp add: start_world_def)

theorem inet_server_connections_witness:
  "\<exists>s. reach (inet_start 3 listening tsq_ctor) (inet_step tsq_push tsq_pop 10 3) s
     \<and> is_worker s 1 = I_Sent 5 2 \<and> 5 \<in> set (w_open (is_world s)) \<and> (\<exists>k. w_sent (is_world s) 5 = take k inet_reply)"
proof -
  from inet_schedule_reach obtain s
    where r: "reach (inet_start 3 listening tsq_ctor) (inet_step tsq_push tsq_pop 10 3) s" and s: "is_worker s 1 = I_Sent 5 2"
    by blast
  have "-1 \<notin> set (w_open (start_world (replicate 4 (Ok 0 [] Unnamed))))" by (simp add: inet_start_open)
  note all = inet_server_connections [OF listening_begin this r]
  from all [THEN conjunct2, THEN conjunct1, THEN spec [of _ 1], THEN mp, THEN spec [of _ 5]] s
  have h: "5 \<in> set (w_open (is_world s)) - insert 3 (set (w_open (start_world (replicate 4 (Ok 0 [] Unnamed)))))" by simp
  from all [THEN conjunct2, THEN conjunct2] h have "\<exists>k. w_sent (is_world s) 5 = take k inet_reply" by blast
  with r s h show ?thesis by blast
qed

text \<open>
  C8: What the server has accepted it finishes, but for clients that are silent: whatever they are,
  from every state it reaches and if no client connects any more, it makes a bounded number of steps
  and stops only at rest, where it is broken by the output of a task, or each thread waits in
  \<open>pop\<close> on an empty queue or in \<open>recv\<close> or \<open>send\<close> for a silent client; it reaches such a state. With
  fewer than ten silent clients its threads have by then taken every descriptor it accepted and closed
  every connection but those of the silent ones: all, when every client answers.
\<close>

theorem inet_server_finishes_connections:
  assumes "inet_server_begin getaddrinfo w = (Ret (Inr fd), w0)" and "-1 \<notin> set (w_open w)"
    and "reach (inet_start fd w0 (tsq_ctor :: int option tsq)) (inet_step tsq_push tsq_pop 10 fd) s"
  shows "((inet_drain tsq_push tsq_pop 10 fd silent ^^ k) s t \<longrightarrow>
           k \<le> 69 + 7 * length (tq_items (is_queue s))
           \<and> ((\<nexists>u. inet_drain tsq_push tsq_pop 10 fd silent t u) \<longrightarrow> inet_rest tq_items 10 silent t)
           \<and> (inet_rest tq_items 10 silent t \<and> is_process t = Serving \<and> finite silent \<and> card silent < 10 \<longrightarrow>
               is_taken t = is_accepted t
               \<and> insert fd (set (w_open w)) \<subseteq> set (w_open (is_world t))
               \<and> set (w_open (is_world t)) \<subseteq> insert fd (set (w_open w)) \<union> silent))
    \<and> (\<exists>t. reach s (inet_drain tsq_push tsq_pop 10 fd silent) t \<and> inet_rest tq_items 10 silent t)"
proof -
  note inv = inet_reach_inv [OF assms]
  have sys: "terminating_system s (inet_drain tsq_push tsq_pop 10 fd silent)
      (inet_inv tq_items tsq_idle 10 (insert fd (set (w_open w)))) (inet_measure tq_items 10) (inet_rest tq_items 10 silent)"
    by (rule tsq_conn.drain_system [OF inv])
  have bound: "inet_measure tq_items 10 s \<le> 69 + 7 * length (tq_items (is_queue s))"
    using thread_sum_le [of 10 task_left "is_worker s" 6] task_left_le by (simp add: inet_measure_def)
  show ?thesis
  proof (intro conjI impI)
    assume run: "(inet_drain tsq_push tsq_pop 10 fd silent ^^ k) s t"
    from terminating_system.run_bounded [OF sys run] bound
    show "k \<le> 69 + 7 * length (tq_items (is_queue s))" by simp
    from run have r: "reach s (inet_drain tsq_push tsq_pop 10 fd silent) t" by (rule reach_relpowp)
    show "inet_rest tq_items 10 silent t" if "\<nexists>u. inet_drain tsq_push tsq_pop 10 fd silent t u"
      using terminating_system.stuck_final [OF sys r that] .
    have t: "inet_inv tq_items tsq_idle 10 (insert fd (set (w_open w))) t"
      using terminating_system.inv_reach [OF sys r inv] .
    assume "inet_rest tq_items 10 silent t \<and> is_process t = Serving \<and> finite silent \<and> card silent < 10"
    with tsq_conn.rest_open [OF t] show "is_taken t = is_accepted t"
      "insert fd (set (w_open w)) \<subseteq> set (w_open (is_world t))"
      "set (w_open (is_world t)) \<subseteq> insert fd (set (w_open w)) \<union> silent" by blast+
  next
    show "\<exists>t. reach s (inet_drain tsq_push tsq_pop 10 fd silent) t \<and> inet_rest tq_items 10 silent t"
      by (rule terminating_system.reaches_final [OF sys reach_init])
  qed
qed

theorem inet_server_finishes_connections_witness:
  "\<exists>s t. reach (inet_start 3 listening tsq_ctor) (inet_step tsq_push tsq_pop 10 3) s \<and> is_worker s 1 = I_Sent 5 2
     \<and> reach s (inet_drain tsq_push tsq_pop 10 3 {4}) t \<and> inet_rest tq_items 10 {4} t"
proof -
  from inet_schedule_reach obtain s
    where r: "reach (inet_start 3 listening tsq_ctor) (inet_step tsq_push tsq_pop 10 3) s" and s: "is_worker s 1 = I_Sent 5 2"
    by blast
  have "-1 \<notin> set (w_open (start_world (replicate 4 (Ok 0 [] Unnamed))))" by (simp add: inet_start_open)
  from inet_server_finishes_connections [OF listening_begin this r, THEN conjunct2] r s show ?thesis by blast
qed

text \<open>Ten silent clients stop the server: at rest with all threads waiting for them, what is queued stays there.\<close>

lemma silent_clients_stop_it:
  assumes "is_main s = N_Accept" and "\<forall>t < n. waits_for_client silent t s"
  shows "inet_rest items n silent s \<and> \<not> inet_drain push pop n fd silent s s'"
  using assms by (auto simp: inet_rest_def elim: inet_drain.cases)

section \<open>What a client can do to it\<close>

text \<open>
  A client whose first 128 bytes have no zero among them makes the server read past its
  buffer: the two next steps of its thread break the process.
\<close>

lemma long_request_breaks:
  assumes "is_worker s t = I_Recv h" and "h \<in> set (w_open (is_world s))"
    and "128 \<le> length bs" and "0 \<notin> set (take 128 bs)"
  shows "\<exists>s1 s2. inet_worker_step pop (Ok n bs x) name t s = Some s1
    \<and> inet_worker_step pop a name t s1 = Some s2 \<and> is_process s2 = Broken"
  using assms
  by (simp add: inet_worker_step_def c_recv_def on_fd_def on_answer_def inet_buffer_def inet_broken_def)

text \<open>
  A failed \<open>accept\<close> is not seen: its -1 is submitted as a connection, and the task for it only
  prints.
\<close>

lemma failed_accept_submitted:
  assumes "is_main s = N_Accept"
  shows "\<exists>s'. inet_main_step push n fd (Err e) s = Some s' \<and> is_main s' = N_Push (-1)
    \<and> w_open (is_world s') = w_open (is_world s)"
  using assms by (simp add: inet_main_step_def c_accept_def on_fd_def on_answer_def)

lemma failed_task_only_prints:
  assumes "task_fd (is_worker s t) = Some (-1)" "-1 \<notin> set (w_open (is_world s))"
    and "inet_worker_step pop a name t s = Some s'"
  shows "w_open (is_world s') = w_open (is_world s) \<and> w_sent (is_world s') = w_sent (is_world s)"
  using assms print_client_info_same [of name "''New client - ''" "is_world s"]
  by (cases "is_worker s t")
    (auto simp: inet_worker_step_def c_recv_def c_send_def c_close_def on_fd_def print_line_def inet_broken_def
      split: exec.splits prod.splits if_splits)

end
