(* ===== verification/Abstract_Socket.thy ===== *)
theory Abstract_Socket
  imports Unix_Stream
begin

text \<open>
  \<open>day3/15_abstract_unix_socket/abstract_bind.c\<close>: a server on a socket with an abstract name that
  writes what its clients send to the standard output. The file does not compile: it uses
  \<open>sfd\<close>, \<open>cfd\<close>, \<open>numRead\<close>, \<open>buf\<close>, \<open>BACKLOG\<close>, \<open>BUF_SIZE\<close> and \<open>errExit\<close> without declaring them. Those it
  assigns are taken for variables; \<open>sfd\<close>, which it only reads, and \<open>BUF_SIZE\<close> are arguments;
  \<open>errExit\<close> is taken to end the program, whose result in the model is the argument of that call.
  \<open>write\<close> to a descriptor is \<open>send\<close>: \<open>w_sent\<close> of descriptor 1 is the standard output.
\<close>

section \<open>The name\<close>

text \<open>\<open>strncpy (path + at, s, n)\<close>: the characters of \<open>s\<close>, padded with zeros to \<open>n\<close>.\<close>

definition strncpy_at :: "string \<Rightarrow> nat \<Rightarrow> string \<Rightarrow> nat \<Rightarrow> string" where
  "strncpy_at path at s n =
     take at path @ take n (s @ replicate (n - length s) (CHR 0x00)) @ drop (at + n) path"

definition abstract_str :: string where
  "abstract_str = ''test''"

definition abstract_sun_path :: string where
  "abstract_sun_path = strncpy_at (replicate 108 (CHR 0x00)) 1 abstract_str (length abstract_str)"

text \<open>
  \<open>bind\<close> of an address of \<open>addrlen\<close> bytes, two of which are its family: when the path begins with
  a zero the name is all the bytes given, and no file is made.
\<close>

definition c_bind_path :: "int \<Rightarrow> string \<Rightarrow> nat \<Rightarrow> int call" where
  "c_bind_path fd path len =
     (let name = take (len - 2) path
      in if name \<noteq> [] \<and> hd name = CHR 0x00
         then on_fd fd (-1) (\<lambda>n bs x w. (0, w\<lparr>w_name := (w_name w)(fd := Path name)\<rparr>))
         else c_bind fd (if name = [] then Unnamed else Path (takeWhile (\<lambda>c. c \<noteq> CHR 0x00) name)))"

section \<open>The server\<close>

text \<open>The inner loop: \<open>None\<close> at the end of the input, or the argument of \<open>errExit\<close>.\<close>

lemma recv_answers: "c_recv fd len a v = (y, v') \<Longrightarrow> w_answers v' = w_answers v"
  by (auto simp: c_recv_def on_fd_def on_answer_def split: answer.splits if_splits)

definition copy_round :: "nat \<Rightarrow> int \<Rightarrow> (string option + unit) io" where
  "copy_round BUF_SIZE cfd =
     io_bind (sys (c_recv cfd BUF_SIZE)) (\<lambda>(numRead, buf).
       if 0 < numRead then
         io_bind (sys (c_send 1 buf)) (\<lambda>k.
           io_ret (if k \<noteq> numRead then Inl (Some ''partial/failed write'') else Inr ()))
       else io_ret (Inl (if numRead = -1 then Some ''read'' else None)))"

lemma copy_round_answers:
  assumes "copy_round B cfd w = (Ret x, w')"
  shows "length (w_answers w') < length (w_answers w)"
  using assms unfolding copy_round_def
proof (cases rule: sys_bind_cases)
  case (2 r u)
  obtain numRead buf where r: "r = (numRead, buf)" by fastforce
  have u: "length (w_answers u) < length (w_answers w)" by (rule sys_answers [OF 2(1) recv_answers])
  show ?thesis
  proof (cases "0 < numRead")
    case True
    with 2(2) r have "io_bind (sys (c_send 1 buf)) (\<lambda>k.
           io_ret (if k \<noteq> numRead then Inl (Some ''partial/failed write'') else Inr ())) u = (Ret x, w')" by simp
    then show ?thesis
      by (cases rule: sys_bind_cases) (use u sys_answers [OF _ send_answers] in \<open>fastforce simp: io_ret_def\<close>)+
  next
    case False
    with 2(2) r u show ?thesis by (simp add: io_ret_def)
  qed
qed simp

function copy_loop :: "nat \<Rightarrow> int \<Rightarrow> world \<Rightarrow> (halt, string option) exec \<times> world" where
  "copy_loop BUF_SIZE cfd w =
     (case copy_round BUF_SIZE cfd w of
        (Ret (Inr _), w') \<Rightarrow> copy_loop BUF_SIZE cfd w'
      | (Ret (Inl e), w') \<Rightarrow> (Ret e, w')
      | (Stop e, w') \<Rightarrow> (Stop e, w')
      | (UB, w') \<Rightarrow> (UB, w'))"
  by pat_completeness auto

termination
  by (relation "measure (\<lambda>(b, fd, w). length (w_answers w))") (auto dest: copy_round_answers [OF sym])

declare copy_loop.simps [simp del]

definition abstract_round :: "nat \<Rightarrow> int \<Rightarrow> string option io" where
  "abstract_round BUF_SIZE sfd =
     io_bind (sys (c_accept sfd)) (\<lambda>cfd.
       if cfd = -1 then io_ret (Some ''accept'')
       else io_bind (copy_loop BUF_SIZE cfd) (\<lambda>e.
         case e of
           Some msg \<Rightarrow> io_ret (Some msg)
         | None \<Rightarrow> io_bind (sys (c_close cfd)) (\<lambda>k. io_ret (if k = -1 then Some ''close'' else None))))"

lemma copy_loop_answers: "copy_loop b cfd w = (r, w') \<Longrightarrow> length (w_answers w') \<le> length (w_answers w)"
proof (induction b cfd w rule: copy_loop.induct)
  case (1 b cfd w)
  obtain q u where q: "copy_round b cfd w = (q, u)" by fastforce
  show ?case
  proof (cases "\<exists>x. q = Ret x")
    case True
    then obtain x where x: "q = Ret x" by blast
    with q copy_round_answers have "length (w_answers u) < length (w_answers w)" by blast
    with 1 q x show ?thesis
      by (cases x) (fastforce simp: copy_loop.simps [of b cfd w])+
  next
    case False
    with q have "length (w_answers u) \<le> length (w_answers w)"
      by (auto simp: copy_round_def io_bind_def sys_def io_ret_def c_recv_def c_send_def on_fd_def on_answer_def Let_def split: list.splits prod.splits answer.splits if_splits exec.splits)
    with 1(2) q False show ?thesis by (cases q) (auto simp: copy_loop.simps [of b cfd w])
  qed
qed

lemma abstract_round_answers:
  assumes "abstract_round b sfd w = (Ret x, w')"
  shows "length (w_answers w') < length (w_answers w)"
  using assms unfolding abstract_round_def
proof (cases rule: sys_bind_cases)
  case (2 cfd u)
  have u: "length (w_answers u) < length (w_answers w)" by (rule sys_answers [OF 2(1) accept_answers])
  show ?thesis
  proof (cases "cfd = -1")
    case True
    with 2(2) u show ?thesis by (simp add: io_ret_def)
  next
    case False
    with 2(2) have "io_bind (copy_loop b cfd) (\<lambda>e.
         case e of
           Some msg \<Rightarrow> io_ret (Some msg)
         | None \<Rightarrow> io_bind (sys (c_close cfd)) (\<lambda>k. io_ret (if k = -1 then Some ''close'' else None))) u = (Ret x, w')"
      by simp
    then show ?thesis
    proof (cases rule: io_bind_cases)
      case (1 e v)
      note v = copy_loop_answers [OF 1(1)]
      show ?thesis
      proof (cases e)
        case None
        with 1(2) have "io_bind (sys (c_close cfd)) (\<lambda>k. io_ret (if k = -1 then Some ''close'' else None)) v = (Ret x, w')"
          by simp
        then show ?thesis
          by (cases rule: sys_bind_cases) (use u v sys_answers [OF _ close_answers] in \<open>fastforce simp: io_ret_def\<close>)+
      qed (use 1(2) u v in \<open>simp add: io_ret_def\<close>)
    qed simp_all
  qed
qed simp

function abstract_loop :: "nat \<Rightarrow> int \<Rightarrow> world \<Rightarrow> (halt, string) exec \<times> world" where
  "abstract_loop BUF_SIZE sfd w =
     (case abstract_round BUF_SIZE sfd w of
        (Ret None, w') \<Rightarrow> abstract_loop BUF_SIZE sfd w'
      | (Ret (Some msg), w') \<Rightarrow> (Ret msg, w')
      | (Stop e, w') \<Rightarrow> (Stop e, w')
      | (UB, w') \<Rightarrow> (UB, w'))"
  by pat_completeness auto

termination
  by (relation "measure (\<lambda>(b, fd, w). length (w_answers w))") (auto dest: abstract_round_answers [OF sym])

declare abstract_loop.simps [simp del]

text \<open>\<open>listen\<close> and \<open>accept\<close> are given \<open>sfd\<close>, not the socket that was bound.\<close>

definition abstract_main :: "nat \<Rightarrow> int \<Rightarrow> string io" where
  "abstract_main BUF_SIZE sfd =
     io_bind (sys (c_socket UNIX STREAM 0)) (\<lambda>sockfd.
       if sockfd = -1 then io_ret ''socket''
       else io_bind (sys (c_bind_path sockfd abstract_sun_path (2 + length abstract_str + 1))) (\<lambda>b.
         if b = -1 then io_ret ''bind''
         else io_bind (sys (c_listen sfd)) (\<lambda>l.
           if l = -1 then io_ret ''listen'' else abstract_loop BUF_SIZE sfd)))"

section \<open>What is copied\<close>

text \<open>The bytes a client sends, by the answers to the calls: reads and writes in turn.\<close>

fun stream_in :: "nat \<Rightarrow> answer list \<Rightarrow> u8 list" where
  "stream_in b (Ok n bs x # as) = (if take b bs = [] then [] else take b bs @ stream_in b (tl as))"
| "stream_in b _ = []"

definition wrote :: "nat \<Rightarrow> world \<Rightarrow> world \<Rightarrow> nat \<Rightarrow> bool" where
  "wrote b w w' k \<longleftrightarrow>
     w_sent w' = (w_sent w)(1 := w_sent w 1 @ take k (stream_in b (w_answers w))) \<and> w_open w' = w_open w"

lemma copy_round_cases:
  assumes "copy_round b cfd w = (r, w')" and "cfd \<in> set (w_open w)" "1 \<in> set (w_open w)"
  obtains "r = Stop Blocked" "w_open w' = w_open w" "w_sent w' = w_sent w"
  | "r = Ret (Inl (Some ''read''))" "w_open w' = w_open w" "w_sent w' = w_sent w"
  | n bs x as where "w_answers w = Ok n bs x # as" "take b bs = []" "r = Ret (Inl None)"
      "w_open w' = w_open w" "w_sent w' = w_sent w"
  | n bs x a as k where "w_answers w = Ok n bs x # a # as" "take b bs \<noteq> []" "k \<le> length (take b bs)"
      "r = Ret (Inl (Some ''partial/failed write''))"
      "w_open w' = w_open w" "w_sent w' = (w_sent w)(1 := w_sent w 1 @ take k (take b bs))"
  | n bs x a as where "w_answers w = Ok n bs x # a # as" "take b bs \<noteq> []" "r = Ret (Inr ())" "w_answers w' = as"
      "w_open w' = w_open w" "w_sent w' = (w_sent w)(1 := w_sent w 1 @ take b bs)"
proof (cases "w_answers w")
  case Nil
  with assms that(1) show ?thesis by (simp add: copy_round_def io_bind_def sys_def)
next
  case (Cons a as)
  show ?thesis
  proof (cases a)
    case (Err e)
    with assms Cons that(2) show ?thesis
      by (auto simp: copy_round_def io_defs sys_def c_recv_def on_fd_def on_answer_def)
  next
    case (Ok n bs x)
    define data where "data = take b bs"
    let ?u = "w\<lparr>w_answers := as\<rparr>"
    note that3 = that(3) [of n bs x, folded data_def] and that4 = that(4) [of n bs x, folded data_def]
      and that5 = that(5) [of n bs x, folded data_def]
    have "sys (c_recv cfd b) w = (Ret (int (length data), data), ?u)"
      using assms(2) Cons Ok
      by (simp add: sys_def c_recv_def on_fd_def on_answer_def data_def)
    with assms(1) have run: "(if data \<noteq> [] then
         io_bind (sys (c_send 1 data)) (\<lambda>k.
           io_ret (if k \<noteq> int (length data) then Inl (Some ''partial/failed write'') else Inr ()))
       else io_ret (Inl None)) ?u = (r, w')"
      by (cases "data = []") (simp_all add: copy_round_def io_bind_def)
    show ?thesis
    proof (cases "data = []")
      case True
      with run Cons Ok that3 show ?thesis by (auto simp: io_ret_def)
    next
      case False
      with run have w: "io_bind (sys (c_send 1 data)) (\<lambda>k.
           io_ret (if k \<noteq> int (length data) then Inl (Some ''partial/failed write'') else Inr ())) ?u = (r, w')"
        by simp
      show ?thesis
      proof (cases as)
        case Nil
        with w that(1) show ?thesis by (auto simp: io_bind_def sys_def)
      next
        case as: (Cons a' as')
        obtain k v where s: "c_send 1 data a' (w\<lparr>w_answers := as'\<rparr>) = (k, v)" by fastforce
        with w as have r: "r = Ret (if k \<noteq> int (length data) then Inl (Some ''partial/failed write'') else Inr ())" "w' = v"
          by (simp_all add: io_bind_def sys_def io_ret_def)
        from s assms(3) consider "k = -1" "w_sent v = w_sent w" "w_open v = w_open w"
          | m where "k = int m" "m \<le> length data" "w_sent v = (w_sent w)(1 := w_sent w 1 @ take m data)"
              "w_open v = w_open w" "w_answers v = as'"
          by (auto simp: c_send_def on_fd_def on_answer_def Let_def split: answer.splits)
        then show ?thesis
        proof cases
          case 1
          with r False that4 [of a' as' 0] Cons Ok as show ?thesis by simp
        next
          case (2 m)
          with r False that4 [of a' as' m] that5 [of a' as'] Cons Ok as show ?thesis
            by (cases "m = length data") simp_all
        qed
      qed
    qed
  qed
qed

lemma copy_loop_result:
  "copy_loop b cfd w = (r, w') \<Longrightarrow> cfd \<in> set (w_open w) \<Longrightarrow> 1 \<in> set (w_open w) \<Longrightarrow>
   (\<exists>k. wrote b w w' k \<and> (r = Ret None \<longrightarrow> length (stream_in b (w_answers w)) \<le> k))
   \<and> (r = Stop Blocked \<or> r = Ret None \<or> r = Ret (Some ''read'') \<or> r = Ret (Some ''partial/failed write''))"
proof (induction b cfd w rule: copy_loop.induct)
  case (1 b cfd w)
  obtain q u where q: "copy_round b cfd w = (q, u)" by fastforce
  from q "1.prems"(2,3) show ?case
  proof (cases rule: copy_round_cases)
    case (5 n bs x a as)
    with "1.prems"(1) q have "copy_loop b cfd u = (r, w')" by (simp add: copy_loop.simps [of b cfd w])
    with "1.IH" [OF q [symmetric] 5(3)] "1.prems"(2,3) 5(5)
    have IH: "(\<exists>k. wrote b u w' k \<and> (r = Ret None \<longrightarrow> length (stream_in b (w_answers u)) \<le> k))
      \<and> (r = Stop Blocked \<or> r = Ret None \<or> r = Ret (Some ''read'') \<or> r = Ret (Some ''partial/failed write''))" by simp
    then obtain k where "wrote b u w' k" "r = Ret None \<longrightarrow> length (stream_in b as) \<le> k" using 5(4) by auto
    moreover define d where "d = take b bs"
    then have "stream_in b (w_answers w) = d @ stream_in b as" using 5(1,2) by simp
    ultimately have "wrote b w w' (length d + k) \<and> (r = Ret None \<longrightarrow> length (stream_in b (w_answers w)) \<le> length d + k)"
      using 5(4,5) 5(6) [folded d_def] by (simp add: wrote_def)
    with IH show ?thesis by blast
  next
    case (4 n bs x a as k)
    define d where "d = take b bs"
    then have "stream_in b (w_answers w) = d @ stream_in b as" using 4(1,2) by simp
    with 4(3,5,6) have "wrote b w u k" unfolding wrote_def d_def [symmetric] by simp
    with "1.prems"(1) q 4(4) show ?thesis by (auto simp: copy_loop.simps [of b cfd w])
  qed (use "1.prems"(1) q in \<open>auto simp: copy_loop.simps [of b cfd w] wrote_def intro: exI [of _ 0]\<close>)
qed

section \<open>Properties\<close>

lemma abstract_name: "take 5 abstract_sun_path = CHR 0x00 # ''test''" "hd abstract_sun_path = CHR 0x00"
  by code_simp+

lemma abstract_round_result:
  assumes "abstract_round b sfd w = (r, w')" and "1 \<in> set (w_open w)"
  shows "(r = Ret None \<longrightarrow> w_open w' = w_open w \<and> w_sent w' 1 = w_sent w 1 @ stream_in b (tl (w_answers w)))
    \<and> (r \<noteq> Ret None \<longrightarrow> (\<exists>k. w_sent w' 1 = w_sent w 1 @ take k (stream_in b (tl (w_answers w)))))
    \<and> (r = Stop Blocked \<or> r = Ret None \<or> (\<exists>msg. r = Ret (Some msg)
          \<and> msg \<in> {''accept'', ''read'', ''partial/failed write'', ''close''}))
    \<and> 1 \<in> set (w_open w')"
  using assms(1) unfolding abstract_round_def
proof (cases rule: sys_bind_cases)
  case (2 cfd u)
  have one_used: "lowest_free (w_open w) \<noteq> 1" using assms(2) lowest_free_new(1) [of "w_open w"] by auto
  from 2(1) have u: "new_or_none cfd w u" "w_answers u = tl (w_answers w)" "w_sent u 1 = w_sent w 1"
    using one_used
    by (auto simp: sys_def c_accept_def on_fd_def on_answer_def new_fd_def Let_def new_or_none_def
        lowest_free_new split: list.splits answer.splits if_splits)
  show ?thesis
  proof (cases "cfd = -1")
    case True
    with 2(2) u assms(2) show ?thesis by (auto simp: io_ret_def new_or_none_def intro: exI [of _ 0])
  next
    case False
    with u(1) have open_u: "w_open u = cfd # w_open w" "cfd \<notin> set (w_open w)" by (simp_all add: new_or_none_def)
    with assms(2) have one: "cfd \<noteq> 1" by auto
    from False 2(2) have "io_bind (copy_loop b cfd) (\<lambda>e.
         case e of
           Some msg \<Rightarrow> io_ret (Some msg)
         | None \<Rightarrow> io_bind (sys (c_close cfd)) (\<lambda>k. io_ret (if k = -1 then Some ''close'' else None))) u = (r, w')"
      by simp
    then show ?thesis
    proof (cases rule: io_bind_cases)
      case (1 e v)
      from copy_loop_result [OF 1(1)] open_u assms(2) obtain k
        where k: "wrote b u v k" "e = None \<longrightarrow> length (stream_in b (w_answers u)) \<le> k"
          and e: "e = None \<or> e = Some ''read'' \<or> e = Some ''partial/failed write''" by auto
      show ?thesis
      proof (cases e)
        case None
        with 1(2) have "io_bind (sys (c_close cfd)) (\<lambda>k. io_ret (if k = -1 then Some ''close'' else None)) v = (r, w')"
          by simp
        then show ?thesis
        proof (cases rule: sys_bind_cases)
          case 1
          with k u open_u assms(2) show ?thesis by (auto simp: wrote_def)
        next
          case (2 m t)
          then have "w_open t = w_open w" "w_sent t = w_sent v"
            using k(1) open_u close_new [OF 2(1), of "w_open w"]
            by (auto simp: wrote_def sys_def c_close_def on_answer_def split: list.splits answer.splits if_splits)
          with 2(2) k None u open_u assms(2) show ?thesis
            by (auto simp: wrote_def io_ret_def intro: exI [of _ k])
        qed
      next
        case (Some msg)
        with 1(2) e k u open_u assms(2) show ?thesis by (auto simp: wrote_def io_ret_def)
      qed
    next
      case (2 h)
      from copy_loop_result [OF 2(1)] 2(2) open_u u assms(2) show ?thesis by (auto simp: wrote_def)
    next
      case 3
      from copy_loop_result [OF 3(1)] open_u assms(2) show ?thesis by auto
    qed
  qed
next
  case 1
  with assms show ?thesis by (auto intro: exI [of _ 0])
qed

text \<open>
  C29: Each connection of the abstract socket server is copied to the standard output byte
  by byte in the order it is read, whatever pieces it comes in, and closed at its end; when a
  call fails, or a piece is not written as a whole, a beginning of it has been copied and the
  program leaves by \<open>errExit\<close> with the name of the call, the only way it ever ends.
\<close>

theorem abstract_server_copies:
  assumes "abstract_round BUF_SIZE sfd w = (r, w')" and "1 \<in> set (w_open w)"
  shows "(r = Ret None \<longrightarrow> w_open w' = w_open w
        \<and> w_sent w' 1 = w_sent w 1 @ stream_in BUF_SIZE (tl (w_answers w)))
    \<and> (r \<noteq> Ret None \<longrightarrow> (\<exists>k. w_sent w' 1 = w_sent w 1 @ take k (stream_in BUF_SIZE (tl (w_answers w)))))
    \<and> (r = Stop Blocked \<or> r = Ret None \<or> (\<exists>msg. r = Ret (Some msg)
          \<and> msg \<in> {''accept'', ''read'', ''partial/failed write'', ''close''}))"
  using abstract_round_result [OF assms] by blast

definition abstract_answers :: "answer list" where
  "abstract_answers =
     [Ok 0 [] Unnamed, Ok 0 [1, 2, 3] Unnamed, Ok 3 [] Unnamed, Ok 0 [4] Unnamed, Ok 1 [] Unnamed,
      Ok 0 [] Unnamed, Ok 0 [] Unnamed]"

theorem abstract_server_copies_witness:
  "\<exists>w'. abstract_round 8 2 (start_world abstract_answers) = (Ret None, w')
     \<and> w_sent w' 1 = [1, 2, 3, 4] \<and> w_open w' = [2, 1, 0]"
proof -
  let ?w = "start_world abstract_answers"
  obtain r w' where run: "abstract_round 8 2 ?w = (r, w')" by (rule prod.exhaust)
  have "fst (abstract_round 8 2 ?w) = Ret None" "stream_in 8 (tl (w_answers ?w)) = [1, 2, 3, 4]" by code_simp+
  with run have r: "r = Ret None" "stream_in 8 (tl (w_answers ?w)) = [1, 2, 3, 4]" by simp_all
  have w: "w_open ?w = [2, 1, 0]" "w_sent ?w 1 = []" by (simp_all add: start_world_def)
  from abstract_server_copies [OF run] r w have "w_sent w' 1 = [1, 2, 3, 4]" "w_open w' = [2, 1, 0]" by simp_all
  with run r show ?thesis by blast
qed

text \<open>
  The loop as a whole; and the program, whose socket has the name it should, but which
  listens on whatever \<open>sfd\<close> is: unless that is the new socket, or another one that is open,
  nothing is ever served.
\<close>

lemma abstract_loop_result:
  "abstract_loop b sfd w = (r, w') \<Longrightarrow> 1 \<in> set (w_open w) \<Longrightarrow>
   r = Stop Blocked \<or> (\<exists>msg \<in> {''accept'', ''read'', ''partial/failed write'', ''close''}. r = Ret msg)"
proof (induction b sfd w rule: abstract_loop.induct)
  case (1 b sfd w)
  obtain q u where q: "abstract_round b sfd w = (q, u)" by fastforce
  note res = abstract_round_result [OF q "1.prems"(2)]
  show ?case
  proof (cases "q = Ret None")
    case True
    with "1.prems"(1) q have "abstract_loop b sfd u = (r, w')" by (simp add: abstract_loop.simps [of b sfd w])
    from "1.IH" [OF q [symmetric] True refl this] res show ?thesis by blast
  next
    case False
    with "1.prems"(1) q res show ?thesis by (auto simp: abstract_loop.simps [of b sfd w])
  qed
qed

lemma abstract_bind_name:
  assumes "sys (c_bind_path fd abstract_sun_path (2 + length abstract_str + 1)) w = (Ret k, w')" and "k \<noteq> -1"
  shows "w_name w' fd = Path (CHR 0x00 # ''test'') \<and> w_open w' = w_open w \<and> w_files w' = w_files w"
proof -
  have five: "2 + length abstract_str + 1 - 2 = 5" by (simp add: abstract_str_def)
  with assms abstract_name show ?thesis
    by (auto simp: c_bind_path_def Let_def sys_def on_fd_def on_answer_def split: list.splits answer.splits if_splits)
qed

lemma abstract_other_socket:
  assumes "abstract_main b sfd w = (r, w')" and "sfd \<notin> set (w_open w)" "sfd \<noteq> lowest_free (w_open w)"
  shows "r = Stop Blocked \<or> r \<in> Ret ` {''socket'', ''bind'', ''listen''}"
  using assms(1) unfolding abstract_main_def
proof (cases rule: sys_bind_cases)
  case (2 fd u)
  then have u: "fd = -1 \<or> w_open u = lowest_free (w_open w) # w_open w"
    by (auto simp: sys_def c_socket_def on_answer_def new_fd_def Let_def split: list.splits answer.splits)
  show ?thesis
  proof (cases "fd = -1")
    case False
    with 2(2) have "io_bind (sys (c_bind_path fd abstract_sun_path (2 + length abstract_str + 1))) (\<lambda>b'.
         if b' = -1 then io_ret ''bind''
         else io_bind (sys (c_listen sfd)) (\<lambda>l.
           if l = -1 then io_ret ''listen'' else abstract_loop b sfd)) u = (r, w')" by simp
    then show ?thesis
    proof (cases rule: sys_bind_cases)
      case (2 k v)
      show ?thesis
      proof (cases "k = -1")
        case True
        with 2(2) show ?thesis by (simp add: io_ret_def)
      next
        case bound: False
        have "sfd \<notin> set (w_open v)"
          using abstract_bind_name [OF 2(1) bound] u False assms(2,3) by auto
        then have "l = -1" if "sys (c_listen sfd) v = (Ret l, t)" for l t
          using that by (auto simp: sys_def c_listen_def on_fd_def split: list.splits)
        moreover from 2(2) bound have "io_bind (sys (c_listen sfd)) (\<lambda>l.
           if l = -1 then io_ret ''listen'' else abstract_loop b sfd) v = (r, w')" by simp
        ultimately show ?thesis by (auto elim!: sys_bind_cases simp: io_ret_def)
      qed
    qed simp
  qed (use 2(2) in \<open>simp add: io_ret_def\<close>)
qed simp

end
