(* ===== verification/Launch_Many.thy ===== *)
theory Launch_Many
  imports Launch
begin

text \<open>
  The programs that launch several threads and join them: the constructor and the destructor of
  \<open>threadpool\<close>, \<open>ActiveObject\<close>, \<open>calculate_threaded\<close> of \<open>ex_pi\<close>, \<open>main_example_02\<close> of the search
  tree, and the program of \<open>x_abstract_launcher\<close>. What the threads do is in the theories of these
  programs, which take their creation to succeed; here is what becomes of identifiers and function
  objects when it does not. An identifier is \<open>None\<close> while it is no thread's: not assigned, or
  zero.
\<close>

section \<open>Launching and joining\<close>

fun launch_each :: "int list \<Rightarrow> 'f list \<Rightarrow> 'f launcher \<Rightarrow> ('f launcher, nat option list \<times> 'f launcher) exec" where
  "launch_each (err # errs) (f # fs) s =
     exec_bind (launch_thread err f (s\<lparr>ln_id := None\<rparr>)) (\<lambda>s1.
     exec_bind (launch_each errs fs s1) (\<lambda>(ids, s2). Ret (ln_id s1 # ids, s2)))"
| "launch_each errs fs s = Ret ([], s)"

text \<open>When a thread is joined it has run its function object.\<close>

fun join_each :: "nat option list \<Rightarrow> 'f launcher \<Rightarrow> ('f launcher, 'f launcher) exec" where
  "join_each [] s = Ret s"
| "join_each (i # ids) s =
     exec_bind (use_var i) (\<lambda>k.
     exec_bind (thread_routine (ln_threads s ! k) s) (\<lambda>s1. join_each ids s1))"

definition launch_join :: "int list \<Rightarrow> 'f list \<Rightarrow> 'f launcher \<Rightarrow> ('f launcher, 'f launcher) exec" where
  "launch_join errs fs s = exec_bind (launch_each errs fs s) (\<lambda>(ids, s1). join_each ids s1)"

section \<open>The programs\<close>

text \<open>The result of the \<open>i\<close>-th \<open>pthread_create\<close> is \<open>err i\<close>.\<close>

definition threadpool_threads :: "nat \<Rightarrow> (nat \<Rightarrow> int) \<Rightarrow> 'f \<Rightarrow> 'f launcher \<Rightarrow> ('f launcher, 'f launcher) exec" where
  "threadpool_threads pool_size err worker =
     launch_join (map err [0..<pool_size]) (replicate pool_size worker)"

definition ActiveObject_thread :: "int \<Rightarrow> 'f \<Rightarrow> 'f launcher \<Rightarrow> ('f launcher, 'f launcher) exec" where
  "ActiveObject_thread err worker = launch_join [err] [worker]"

definition pi_launches :: "(nat \<Rightarrow> int) \<Rightarrow> (nat \<Rightarrow> 'f) \<Rightarrow> 'f launcher \<Rightarrow> ('f launcher, 'f launcher) exec" where
  "pi_launches err darts = launch_join (map err [0..<2]) (map darts [0..<2])"

datatype tree_task = Tree_writer | Tree_reader

definition tree_threads :: "int \<Rightarrow> int \<Rightarrow> int \<Rightarrow> tree_task launcher \<Rightarrow> (tree_task launcher, tree_task launcher) exec"
  where
  "tree_threads e1 e2 e3 = launch_join [e1, e2, e3] [Tree_writer, Tree_reader, Tree_reader]"

text \<open>
  \<open>x_abstract_launcher\<close>: the output of \<open>main\<close> and its thread. The missing \<open>return\<close> of its
  \<open>launch_thread\<close> is overlooked here.
\<close>

definition abstract_launcher_main :: "int \<Rightarrow> string launcher \<Rightarrow> (string launcher, string list) exec" where
  "abstract_launcher_main err s =
     (let s1 = launch_abstract err ''Hello from thread'' (s\<lparr>ln_id := None\<rparr>)
      in exec_bind (use_var (ln_id s1)) (\<lambda>k.
         exec_bind (thread_routine (ln_threads s1 ! k) s1) (\<lambda>s2. Ret (''Hello World!'' # ln_ran s2))))"

section \<open>What launching leaves\<close>

definition fresh :: "'f launcher \<Rightarrow> bool" where
  "fresh s \<longleftrightarrow> (\<forall>a \<ge> ln_next s. ln_cells s a = None) \<and> (\<forall>a \<in> set (ln_threads s). a < ln_next s)"

text \<open>The identifiers assigned, for the threads from number \<open>k\<close> on.\<close>

fun ids_from :: "nat \<Rightarrow> int list \<Rightarrow> nat option list" where
  "ids_from k [] = []"
| "ids_from k (e # es) = (if e = 0 then Some k # ids_from (Suc k) es else None # ids_from k es)"

text \<open>The objects handed to those threads, by their addresses from \<open>a\<close> on.\<close>

fun started_from :: "nat \<Rightarrow> int list \<Rightarrow> nat list" where
  "started_from a [] = []"
| "started_from a (e # es) = (if e = 0 then [a] else []) @ started_from (Suc a) es"

lemma launch_each_result:
  "length errs = length fs \<Longrightarrow> \<forall>e \<in> set errs. 0 \<le> e \<Longrightarrow>
   \<exists>s1. launch_each errs fs s = Ret (ids_from (length (ln_threads s)) errs, s1)
     \<and> ln_threads s1 = ln_threads s @ started_from (ln_next s) errs
     \<and> ln_next s1 = ln_next s + length fs \<and> ln_ran s1 = ln_ran s
     \<and> (\<forall>a. ln_cells s1 a =
          (if ln_next s \<le> a \<and> a < ln_next s + length fs then Some (fs ! (a - ln_next s)) else ln_cells s a))"
proof (induction errs fs arbitrary: s rule: list_induct2')
  case (4 err errs f fs)
  let ?p = "ln_next s"
  let ?s = "s\<lparr>ln_cells := (ln_cells s)(?p \<mapsto> f), ln_next := Suc ?p,
    ln_id := if err = 0 then Some (length (ln_threads s)) else None,
    ln_threads := ln_threads s @ (if err = 0 then [?p] else [])\<rparr>"
  have one: "launch_thread err f (s\<lparr>ln_id := None\<rparr>) = Ret ?s"
    using "4.prems"(2) by (auto simp: launch_thread_def new_task_def pthread_create_def Let_def)
  from "4.IH" [of ?s] "4.prems" obtain s1 where s1:
    "launch_each errs fs ?s = Ret (ids_from (length (ln_threads ?s)) errs, s1)"
    "ln_threads s1 = ln_threads ?s @ started_from (ln_next ?s) errs"
    "ln_next s1 = ln_next ?s + length fs" "ln_ran s1 = ln_ran ?s"
    "\<forall>a. ln_cells s1 a =
       (if ln_next ?s \<le> a \<and> a < ln_next ?s + length fs then Some (fs ! (a - ln_next ?s)) else ln_cells ?s a)"
    by auto
  have "launch_each (err # errs) (f # fs) s = Ret (ids_from (length (ln_threads s)) (err # errs), s1)"
    using one s1(1) by simp
  moreover have "ln_cells s1 a =
      (if ?p \<le> a \<and> a < ?p + length (f # fs) then Some ((f # fs) ! (a - ?p)) else ln_cells s a)" for a
    using s1(5) by (auto simp: nth_Cons' Suc_diff_le not_less_eq_eq)
  ultimately show ?case using s1(2-4) by auto
qed (auto dest: leD)

section \<open>What joining needs\<close>

lemma join_unassigned: "None \<in> set ids \<Longrightarrow> join_each ids s = UB"
proof (induction ids arbitrary: s)
  case (Cons i ids)
  show ?case
  proof (cases i)
    case (Some k)
    with Cons show ?thesis
      by (cases "thread_routine (ln_threads s ! k) s") (auto simp: use_var_def thread_routine_def split: option.splits)
  qed (simp add: use_var_def)
qed simp

lemma join_each_runs:
  "length ks = length fs \<Longrightarrow> \<forall>i < length fs. ln_cells s (ln_threads s ! (ks ! i)) = Some (fs ! i) \<Longrightarrow>
   distinct (map (\<lambda>k. ln_threads s ! k) ks) \<Longrightarrow>
   \<exists>s'. join_each (map Some ks) s = Ret s' \<and> ln_ran s' = ln_ran s @ fs
     \<and> ln_cells s' = (\<lambda>a. if a \<in> set (map (\<lambda>k. ln_threads s ! k) ks) then None else ln_cells s a)"
proof (induction ks fs arbitrary: s rule: list_induct2')
  case (4 k ks f fs)
  let ?s = "delete_task (ln_threads s ! k) (s\<lparr>ln_ran := ln_ran s @ [f]\<rparr>)"
  from "4.prems"(2) have "ln_cells s (ln_threads s ! k) = Some f" by auto
  then have one: "thread_routine (ln_threads s ! k) s = Ret ?s" by (simp add: thread_routine_def)
  have "ln_cells ?s (ln_threads ?s ! (ks ! i)) = Some (fs ! i)" if "i < length fs" for i
  proof -
    have "ks ! i \<in> set ks" using "4.prems"(1) that by simp
    then have "ln_threads s ! (ks ! i) \<in> (\<lambda>k. ln_threads s ! k) ` set ks" by (rule imageI)
    moreover have "ln_threads s ! k \<notin> (\<lambda>k. ln_threads s ! k) ` set ks" using "4.prems"(3) by simp
    ultimately have "ln_threads s ! (ks ! i) \<noteq> ln_threads s ! k" by metis
    moreover have "ln_cells s (ln_threads s ! (ks ! i)) = Some (fs ! i)" using "4.prems"(2) that by auto
    ultimately show ?thesis by (simp add: delete_task_def)
  qed
  with "4.IH" [of ?s] "4.prems"(1,3) obtain s' where s': "join_each (map Some ks) ?s = Ret s'" "ln_ran s' = ln_ran ?s @ fs"
    "ln_cells s' = (\<lambda>a. if a \<in> set (map (\<lambda>k. ln_threads ?s ! k) ks) then None else ln_cells ?s a)"
    by (auto simp: delete_task_def)
  with one show ?case by (auto simp: use_var_def delete_task_def fun_eq_iff)
qed simp_all

lemma ids_all: "\<forall>e \<in> set errs. e = 0 \<Longrightarrow> ids_from k errs = map Some [k..<k + length errs]"
  by (induction errs arbitrary: k) (simp_all add: upt_conv_Cons del: upt_Suc)

lemma started_all: "\<forall>e \<in> set errs. e = 0 \<Longrightarrow> started_from a errs = [a..<a + length errs]"
  by (induction errs arbitrary: a) (simp_all add: upt_conv_Cons del: upt_Suc)

lemma ids_missing: "\<exists>e \<in> set errs. e \<noteq> 0 \<Longrightarrow> None \<in> set (ids_from k errs)"
  by (induction errs arbitrary: k) auto

lemma launch_join_result:
  assumes "fresh s" and "length errs = length fs" "\<forall>e \<in> set errs. 0 \<le> e"
  shows "if \<forall>e \<in> set errs. e = 0
    then \<exists>s'. launch_join errs fs s = Ret s' \<and> ln_ran s' = ln_ran s @ fs \<and> ln_cells s' = ln_cells s
    else launch_join errs fs s = UB"
proof -
  let ?n = "length (ln_threads s)"
  obtain s1 where s1: "launch_each errs fs s = Ret (ids_from ?n errs, s1)"
    "ln_threads s1 = ln_threads s @ started_from (ln_next s) errs" "ln_ran s1 = ln_ran s"
    "\<forall>a. ln_cells s1 a =
      (if ln_next s \<le> a \<and> a < ln_next s + length fs then Some (fs ! (a - ln_next s)) else ln_cells s a)"
    using launch_each_result [OF assms(2,3), of s] by blast
  show ?thesis
  proof (cases "\<forall>e \<in> set errs. e = 0")
    case True
    have at: "ln_threads s1 ! (?n + i) = ln_next s + i" if "i < length fs" for i
      using s1(2) started_all [OF True] assms(2) that by (simp add: nth_append)
    then have addr: "map (\<lambda>k. ln_threads s1 ! k) [?n..<?n + length fs] = [ln_next s..<ln_next s + length fs]"
      by (intro nth_equalityI) simp_all
    then obtain s' where s': "join_each (map Some [?n..<?n + length fs]) s1 = Ret s'" "ln_ran s' = ln_ran s1 @ fs"
      "ln_cells s' = (\<lambda>a. if a \<in> set [ln_next s..<ln_next s + length fs] then None else ln_cells s1 a)"
      using join_each_runs [of "[?n..<?n + length fs]" fs s1] at s1(4) by auto
    have "ln_cells s' = ln_cells s"
      using s'(3) s1(4) assms(1) by (auto simp: fresh_def fun_eq_iff)
    with True s' s1(1,3) ids_all [OF True] assms(2) show ?thesis by (auto simp: launch_join_def)
  next
    case False
    with s1(1) ids_missing [of errs ?n] join_unassigned show ?thesis by (auto simp: launch_join_def)
  qed
qed

section \<open>Properties\<close>

lemma fresh_id: "fresh s \<Longrightarrow> fresh (s\<lparr>ln_id := i\<rparr>)"
  by (simp add: fresh_def)

text \<open>
  C39: The programs that launch threads and join them are defined exactly when every
  \<open>pthread_create\<close> succeeds, because \<open>launch_thread\<close> does not report that one failed: then each
  thread has run its function object, once, and no object is left; otherwise an identifier that
  is no thread's is joined. So it is for a pool of any size, the active object and the estimate of
  pi.
\<close>

theorem joins_need_every_thread:
  assumes "fresh s" and "\<forall>i. 0 \<le> err i"
  shows "(if \<forall>i < n. err i = 0
      then \<exists>s'. threadpool_threads n err f s = Ret s' \<and> ln_ran s' = ln_ran s @ replicate n f \<and> ln_cells s' = ln_cells s
      else threadpool_threads n err f s = UB)
    \<and> (if err 0 = 0
      then \<exists>s'. ActiveObject_thread (err 0) f s = Ret s' \<and> ln_ran s' = ln_ran s @ [f] \<and> ln_cells s' = ln_cells s
      else ActiveObject_thread (err 0) f s = UB)
    \<and> (if \<forall>i < 2. err i = 0
      then \<exists>s'. pi_launches err darts s = Ret s' \<and> ln_ran s' = ln_ran s @ [darts 0, darts 1] \<and> ln_cells s' = ln_cells s
      else pi_launches err darts s = UB)"
proof -
  have all: "(\<forall>e \<in> set (map err [0..<m]). e = 0) \<longleftrightarrow> (\<forall>i < m. err i = 0)" for m by auto
  have two: "[darts 0, darts 1] = map darts [0..<2]" by (simp add: numeral_2_eq_2)
  show ?thesis
  proof (intro conjI)
    show "if \<forall>i < n. err i = 0
      then \<exists>s'. threadpool_threads n err f s = Ret s' \<and> ln_ran s' = ln_ran s @ replicate n f \<and> ln_cells s' = ln_cells s
      else threadpool_threads n err f s = UB"
      using launch_join_result [OF assms(1), of "map err [0..<n]" "replicate n f"] assms(2)
      unfolding all threadpool_threads_def by simp
    show "if err 0 = 0
      then \<exists>s'. ActiveObject_thread (err 0) f s = Ret s' \<and> ln_ran s' = ln_ran s @ [f] \<and> ln_cells s' = ln_cells s
      else ActiveObject_thread (err 0) f s = UB"
      using launch_join_result [OF assms(1), of "[err 0]" "[f]"] assms(2) by (auto simp: ActiveObject_thread_def split: if_splits)
    show "if \<forall>i < 2. err i = 0
      then \<exists>s'. pi_launches err darts s = Ret s' \<and> ln_ran s' = ln_ran s @ [darts 0, darts 1] \<and> ln_cells s' = ln_cells s
      else pi_launches err darts s = UB"
      using launch_join_result [OF assms(1), of "map err [0..<2]" "map darts [0..<2]"] assms(2)
      unfolding all pi_launches_def two by simp
  qed
qed

theorem joins_need_every_thread_witness:
  "(\<exists>s'. threadpool_threads 3 (\<lambda>i. 0) ''worker'' \<lparr>ln_cells = (\<lambda>a. None), ln_next = 0, ln_threads = [], ln_id = None, ln_ran = []\<rparr>
      = Ret s' \<and> ln_ran s' = [''worker'', ''worker'', ''worker''])
   \<and> threadpool_threads 3 (\<lambda>i. if i = 1 then 11 else 0) ''worker''
      \<lparr>ln_cells = (\<lambda>a. None), ln_next = 0, ln_threads = [], ln_id = None, ln_ran = []\<rparr> = UB"
proof -
  let ?s = "\<lparr>ln_cells = (\<lambda>a. None), ln_next = 0, ln_threads = [], ln_id = None, ln_ran = []\<rparr> :: string launcher"
  have s: "fresh ?s" by (simp add: fresh_def)
  from joins_need_every_thread [OF s, of "\<lambda>i. 0" 3 "''worker''" "\<lambda>i. ''darts''"]
  have "\<exists>s'. threadpool_threads 3 (\<lambda>i. 0) ''worker'' ?s = Ret s' \<and> ln_ran s' = [''worker'', ''worker'', ''worker'']"
    by (auto simp: numeral_3_eq_3)
  moreover have "\<not> (\<forall>i < (3 :: nat). (if i = 1 then 11 else 0) = (0 :: int))" "\<forall>i. 0 \<le> (if i = (1 :: nat) then 11 else (0 :: int))"
    by (auto intro: exI [of _ "1 :: nat"])
  with joins_need_every_thread [OF s, of "\<lambda>i. if i = 1 then 11 else 0" 3 "''worker''" "\<lambda>i. ''darts''", THEN conjunct1]
  have "threadpool_threads 3 (\<lambda>i. if i = 1 then 11 else 0) ''worker'' ?s = UB" by (simp only: if_False simp_thms)
  ultimately show ?thesis by blast
qed

text \<open>The program over the tree, and the one of \<open>x_abstract_launcher\<close>.\<close>

lemma tree_threads_result:
  assumes "fresh s" "0 \<le> e1" "0 \<le> e2" "0 \<le> e3"
  shows "if e1 = 0 \<and> e2 = 0 \<and> e3 = 0
    then \<exists>s'. tree_threads e1 e2 e3 s = Ret s' \<and> ln_ran s' = ln_ran s @ [Tree_writer, Tree_reader, Tree_reader]
      \<and> ln_cells s' = ln_cells s
    else tree_threads e1 e2 e3 s = UB"
  using launch_join_result [OF assms(1), of "[e1, e2, e3]" "[Tree_writer, Tree_reader, Tree_reader]"] assms(2-4)
  by (auto simp: tree_threads_def split: if_splits)

lemma abstract_launcher_main_result:
  assumes "ln_ran s = []"
  shows "abstract_launcher_main err s =
    (if err = 0 then Ret [''Hello World!'', ''Hello from thread''] else UB)"
  using assms
  by (simp add: abstract_launcher_main_def launch_abstract_def new_task_def pthread_create_def thread_routine_def
      delete_task_def use_var_def Let_def)

end
