(* ===== verification/Mutex_Threads.thy ===== *)
theory Mutex_Threads
  imports Mutex_Type
begin

text \<open>
  The program of \<open>06_mutex_type\<close>, in the copy of \<open>day2\<close>, as its two threads run it, a statement at a
  time: \<open>main\<close> makes the mutex and the thread and joins it, the thread prints and calls. It
  always comes to the end that \<open>Mutex_Type\<close> computes in one go, with the same output.
\<close>

section \<open>The two threads\<close>

text \<open>The four numbered parts of \<open>watek\<close>.\<close>

definition watek_calls :: "tid \<Rightarrow> (string \<times> (mutex \<Rightarrow> mutex outcome)) list" where
  "watek_calls t =
     [(''pthread_mutex_lock (1)'', mutex_lock t), (''pthread_mutex_lock (2)'', mutex_lock t),
      (''pthread_mutex_unlock (2)'', mutex_unlock t), (''pthread_mutex_unlock (1)'', mutex_unlock t)]"

datatype watek_pc = W_Before nat | W_Call nat | W_After nat | W_Returned

datatype mt_main_pc = J_Init | J_Create | J_Join

record mt_state =
  mt_kind :: mutex_kind
  mt_mutex :: mutex
  mt_main :: mt_main_pc
  mt_watek :: watek_pc
  mt_out :: "string list"
  mt_end :: "program_end option"

definition mt_watek_step :: "tid \<Rightarrow> mt_state \<Rightarrow> mt_state option" where
  "mt_watek_step t s =
     (case mt_watek s of
        W_Before i \<Rightarrow>
          Some (if i < length (watek_calls t)
                then s\<lparr>mt_out := mt_out s @ [''before '' @ fst (watek_calls t ! i)], mt_watek := W_Call i\<rparr>
                else s\<lparr>mt_watek := W_Returned\<rparr>)
      | W_Call i \<Rightarrow>
          (case snd (watek_calls t ! i) (mt_mutex s) of
             Done m \<Rightarrow> Some (s\<lparr>mt_mutex := m, mt_watek := W_After i\<rparr>)
           | Fail e \<Rightarrow> Some (s\<lparr>mt_end := Some (Status 1)\<rparr>)
           | Block \<Rightarrow> None
           | Undefined \<Rightarrow> Some (s\<lparr>mt_end := Some Bad\<rparr>))
      | W_After i \<Rightarrow>
          Some (s\<lparr>mt_out := mt_out s @ [''after '' @ fst (watek_calls t ! i)], mt_watek := W_Before (Suc i)\<rparr>)
      | W_Returned \<Rightarrow> None)"

text \<open>The test after the join looks at the 0 \<open>pthread_create\<close> has left.\<close>

definition mt_main_step :: "int \<Rightarrow> int \<Rightarrow> mt_state \<Rightarrow> mt_state option" where
  "mt_main_step e_init e_create s =
     (case mt_main s of
        J_Init \<Rightarrow>
          Some (if e_init \<noteq> 0 then s\<lparr>mt_end := Some (Status 1)\<rparr>
                else s\<lparr>mt_mutex := mutex_init (mt_kind s), mt_main := J_Create\<rparr>)
      | J_Create \<Rightarrow>
          Some (if e_create \<noteq> 0 then s\<lparr>mt_end := Some (Status 1)\<rparr>
                else s\<lparr>mt_watek := W_Before 0, mt_main := J_Join\<rparr>)
      | J_Join \<Rightarrow> if mt_watek s = W_Returned then Some (s\<lparr>mt_end := Some (Status 0)\<rparr>) else None)"

inductive mt_step :: "int \<Rightarrow> int \<Rightarrow> mt_state \<Rightarrow> mt_state \<Rightarrow> bool" for e_init e_create where
  main: "mt_end s = None \<Longrightarrow> mt_main_step e_init e_create s = Some s' \<Longrightarrow> mt_step e_init e_create s s'"
| watek: "mt_end s = None \<Longrightarrow> mt_main s = J_Join \<Longrightarrow> mt_watek_step 1 s = Some s' \<Longrightarrow> mt_step e_init e_create s s'"

text \<open>\<open>main\<close> after its \<open>switch\<close>; a thread that is not yet made counts as not started.\<close>

definition mt_start :: "int \<Rightarrow> mt_state" where
  "mt_start n =
     (case chosen_kind n of (kind, msg) \<Rightarrow>
        \<lparr>mt_kind = kind, mt_mutex = mutex_init kind, mt_main = J_Init, mt_watek = W_Before 0,
         mt_out = [msg], mt_end = None\<rparr>)"

section \<open>What a state comes to\<close>

definition rest_of :: "tid \<Rightarrow> nat \<Rightarrow> string list \<times> watek_state \<Rightarrow> string list \<times> watek_state" where
  "rest_of t i st = foldl (\<lambda>st (name, call). locked_call name call st) st (drop i (watek_calls t))"

definition watek_end :: "string list \<times> watek_state \<Rightarrow> string list \<times> program_end" where
  "watek_end r =
     (fst r, case snd r of Going _ \<Rightarrow> Status 0 | Exited _ _ \<Rightarrow> Status 1 | Stuck \<Rightarrow> Never_ends | Undefd \<Rightarrow> Bad)"

definition watek_comes_to :: "tid \<Rightarrow> mt_state \<Rightarrow> string list \<times> watek_state" where
  "watek_comes_to t s =
     (case mt_watek s of
        W_Before i \<Rightarrow> rest_of t i (mt_out s, Going (mt_mutex s))
      | W_Call i \<Rightarrow>
          rest_of t (Suc i)
            (case snd (watek_calls t ! i) (mt_mutex s) of
               Done m \<Rightarrow> (mt_out s @ [''after '' @ fst (watek_calls t ! i)], Going m)
             | Fail e \<Rightarrow> (mt_out s, Exited (fst (watek_calls t ! i)) e)
             | Block \<Rightarrow> (mt_out s, Stuck)
             | Undefined \<Rightarrow> (mt_out s, Undefd))
      | W_After i \<Rightarrow> rest_of t (Suc i) (mt_out s @ [''after '' @ fst (watek_calls t ! i)], Going (mt_mutex s))
      | W_Returned \<Rightarrow> (mt_out s, Going (mt_mutex s)))"

definition comes_to :: "int \<Rightarrow> int \<Rightarrow> mt_state \<Rightarrow> string list \<times> program_end" where
  "comes_to e_init e_create s =
     (case mt_end s of
        Some e \<Rightarrow> (mt_out s, e)
      | None \<Rightarrow>
          (case mt_main s of
             J_Init \<Rightarrow>
               if e_init \<noteq> 0 \<or> e_create \<noteq> 0 then (mt_out s, Status 1)
               else watek_end (rest_of 1 0 (mt_out s, Going (mutex_init (mt_kind s))))
           | J_Create \<Rightarrow>
               if e_create \<noteq> 0 then (mt_out s, Status 1)
               else watek_end (rest_of 1 0 (mt_out s, Going (mt_mutex s)))
           | J_Join \<Rightarrow> watek_end (watek_comes_to 1 s)))"

lemma rest_of_step:
  "i < length (watek_calls t) \<Longrightarrow>
   rest_of t i st = rest_of t (Suc i) (locked_call (fst (watek_calls t ! i)) (snd (watek_calls t ! i)) st)"
  by (simp add: rest_of_def split_def flip: Cons_nth_drop_Suc)

lemma rest_of_end [simp]: "length (watek_calls t) \<le> i \<Longrightarrow> rest_of t i st = st"
  by (simp add: rest_of_def)

lemma rest_of_ended: "(\<And>m. snd st \<noteq> Going m) \<Longrightarrow> rest_of t i st = st"
proof -
  assume "\<And>m. snd st \<noteq> Going m"
  then have "locked_call n c st = st" for n c by (cases st; cases "snd st") auto
  then have "foldl (\<lambda>st (name, call). locked_call name call st) st cs = st" for cs
    by (induction cs) auto
  then show ?thesis by (simp add: rest_of_def)
qed

text \<open>What was printed before does not matter.\<close>

lemma rest_of_prefix: "rest_of t i (pre @ out, st) = (pre @ fst (rest_of t i (out, st)), snd (rest_of t i (out, st)))"
proof -
  have one: "locked_call n c (pre @ out, st) = (pre @ fst (locked_call n c (out, st)), snd (locked_call n c (out, st)))"
    for n c out st
    by (cases st) (simp_all add: Let_def split: outcome.split)
  have "foldl (\<lambda>st (name, call). locked_call name call st) (pre @ out, st) cs
      = (pre @ fst (foldl (\<lambda>st (name, call). locked_call name call st) (out, st) cs),
         snd (foldl (\<lambda>st (name, call). locked_call name call st) (out, st) cs))" for cs
  proof (induction cs arbitrary: out st)
    case (Cons c cs)
    obtain name call where c: "c = (name, call)" by (cases c)
    show ?case
      using Cons [of "fst (locked_call name call (out, st))" "snd (locked_call name call (out, st))"]
      by (simp add: c one)
  qed simp
  then show ?thesis by (simp add: rest_of_def)
qed

lemma rest_of_all: "rest_of t 0 ([], Going m) = watek t m"
  by (simp add: rest_of_def watek_calls_def watek_def)

lemma start_comes_to:
  assumes "atoi a = (Ret n :: (unit, int) exec)"
  shows "comes_to e_init e_create (mt_start n) = mutex_type_main e_init e_create (a # as)"
  using assms rest_of_prefix [of 1 0 "[snd (chosen_kind n)]" "[]"]
  by (cases "chosen_kind n")
    (auto simp: comes_to_def mt_start_def mutex_type_main_def rest_of_all watek_end_def split: prod.split)

section \<open>Every step leads there\<close>

fun part_of :: "watek_pc \<Rightarrow> nat option" where
  "part_of (W_Call i) = Some i"
| "part_of (W_After i) = Some i"
| "part_of _ = None"

fun watek_left :: "watek_pc \<Rightarrow> nat" where
  "watek_left (W_Before i) = 3 * (4 - i) + 1"
| "watek_left (W_Call i) = 3 * (4 - i)"
| "watek_left (W_After i) = 3 * (4 - i) - 1"
| "watek_left W_Returned = 0"

definition mt_measure :: "mt_state \<Rightarrow> nat" where
  "mt_measure s =
     (if mt_end s = None then 1 else 0) + (case mt_main s of J_Init \<Rightarrow> 2 | J_Create \<Rightarrow> 1 | J_Join \<Rightarrow> 0)
     + watek_left (mt_watek s)"

definition mt_inv :: "int \<Rightarrow> int \<Rightarrow> string list \<times> program_end \<Rightarrow> mt_state \<Rightarrow> bool" where
  "mt_inv e_init e_create r s \<longleftrightarrow>
     comes_to e_init e_create s = r \<and> (mt_main s \<noteq> J_Join \<longrightarrow> mt_watek s = W_Before 0)
     \<and> (case part_of (mt_watek s) of Some i \<Rightarrow> i < 4 | None \<Rightarrow> True)"

definition mt_stuck :: "int \<Rightarrow> int \<Rightarrow> mt_state \<Rightarrow> bool" where
  "mt_stuck e_init e_create s \<longleftrightarrow> (\<nexists>t. mt_step e_init e_create s t)"

lemma four_calls: "length (watek_calls t) = 4"
  by (simp add: watek_calls_def)

lemma mt_step_keeps:
  assumes inv: "mt_inv e_init e_create r s" and step: "mt_step e_init e_create s s'"
  shows "mt_inv e_init e_create r s' \<and> mt_measure s' < mt_measure s"
  using step
proof cases
  case main
  then show ?thesis
    using inv
    by (auto simp: mt_main_step_def mt_inv_def comes_to_def mt_measure_def watek_comes_to_def watek_end_def
        split: mt_main_pc.splits if_splits)
next
  case watek
  show ?thesis
  proof (cases "mt_watek s")
    case (W_Before i)
    with watek inv show ?thesis
      by (cases "i < 4")
        (auto simp: mt_watek_step_def mt_inv_def comes_to_def mt_measure_def watek_comes_to_def four_calls
          rest_of_step Let_def split: outcome.splits)
  next
    case (W_Call i)
    then have i: "i < 4" using inv by (simp add: mt_inv_def)
    show ?thesis
    proof (cases "snd (watek_calls 1 ! i) (mt_mutex s)")
      case (Done m)
      with watek W_Call inv i show ?thesis
        by (auto simp: mt_watek_step_def mt_inv_def comes_to_def mt_measure_def watek_comes_to_def)
    next
      case (Fail e)
      with watek W_Call inv i show ?thesis
        by (auto simp: mt_watek_step_def mt_inv_def comes_to_def mt_measure_def watek_comes_to_def rest_of_ended watek_end_def)
    next
      case Block
      with watek W_Call show ?thesis by (simp add: mt_watek_step_def)
    next
      case Undefined
      with watek W_Call inv i show ?thesis
        by (auto simp: mt_watek_step_def mt_inv_def comes_to_def mt_measure_def watek_comes_to_def rest_of_ended watek_end_def)
    qed
  next
    case (W_After i)
    then have "i < 4" using inv by (simp add: mt_inv_def)
    with watek W_After inv show ?thesis
      by (auto simp: mt_watek_step_def mt_inv_def comes_to_def mt_measure_def watek_comes_to_def)
  next
    case W_Returned
    with watek show ?thesis by (simp add: mt_watek_step_def)
  qed
qed

lemma mt_stuck_end:
  assumes inv: "mt_inv e_init e_create r s" and "mt_stuck e_init e_create s"
  shows "r = (mt_out s, case mt_end s of Some e \<Rightarrow> e | None \<Rightarrow> Never_ends)"
proof (cases "mt_end s")
  case (Some e)
  with inv show ?thesis by (simp add: mt_inv_def comes_to_def)
next
  case None
  with assms(2) have "mt_main_step e_init e_create s = None"
    and w: "mt_main s = J_Join \<Longrightarrow> mt_watek_step 1 s = None"
    unfolding mt_stuck_def by (metis mt_step.main [OF None] option.exhaust, metis mt_step.watek [OF None] option.exhaust)
  then have join: "mt_main s = J_Join" "mt_watek s \<noteq> W_Returned"
    by (auto simp: mt_main_step_def split: mt_main_pc.splits if_splits)
  with w obtain i where "mt_watek s = W_Call i" "snd (watek_calls 1 ! i) (mt_mutex s) = Block"
    by (auto simp: mt_watek_step_def split: watek_pc.splits outcome.splits)
  with inv None join show ?thesis
    by (simp add: mt_inv_def comes_to_def watek_comes_to_def rest_of_ended watek_end_def)
qed

interpretation mt_sys: terminating_system "mt_start n" "mt_step e_init e_create"
    "mt_inv e_init e_create (comes_to e_init e_create (mt_start n))" mt_measure "mt_stuck e_init e_create"
  for n e_init e_create
proof
  show "mt_inv e_init e_create (comes_to e_init e_create (mt_start n)) (mt_start n)"
    by (simp add: mt_inv_def mt_start_def split: prod.split)
qed (use mt_step_keeps in \<open>auto simp: mt_stuck_def\<close>)

section \<open>Properties\<close>

text \<open>What the program prints and how it ends, by the number on the command line.\<close>

lemma mutex_type_main_value:
  assumes "atoi a = (Ret n :: (unit, int) exec)"
  shows "mutex_type_main e_init e_create (a # as) =
    (if e_init \<noteq> 0 \<or> e_create \<noteq> 0 then ([snd (chosen_kind n)], Status 1)
     else if n = 1 then
       ([''mutex typu PTHREAD_MUTEX_ERRORCHECK'',
         ''before pthread_mutex_lock (1)'', ''after pthread_mutex_lock (1)'', ''before pthread_mutex_lock (2)''],
        Status 1)
     else if n = 2 then
       ([''mutex typu PTHREAD_MUTEX_RECURSIVE'',
         ''before pthread_mutex_lock (1)'', ''after pthread_mutex_lock (1)'',
         ''before pthread_mutex_lock (2)'', ''after pthread_mutex_lock (2)'',
         ''before pthread_mutex_unlock (2)'', ''after pthread_mutex_unlock (2)'',
         ''before pthread_mutex_unlock (1)'', ''after pthread_mutex_unlock (1)''], Status 0)
     else
       ([''mutex typu PTHREAD_MUTEX_NORMAL'',
         ''before pthread_mutex_lock (1)'', ''after pthread_mutex_lock (1)'', ''before pthread_mutex_lock (2)''],
        Never_ends))"
  using assms by (simp add: mutex_type_main_def chosen_kind_def watek_recursive watek_not_recursive)

text \<open>
  C21: The two threads of the mutex type program, a statement at a time and with any results of
  \<open>pthread_mutex_init\<close> and \<open>pthread_create\<close>, come to rest after at most 16 steps. If one of
  these calls failed, the program has printed the type of its mutex and ended with status 1.
  Otherwise, with 1 on the command line it has named the error checking type and ended with
  status 1 in the thread's second lock; with 2 it has named the recursive type, the thread has
  locked twice and unlocked twice, and the status is 0; with anything else it has named the
  normal type and has not ended: the thread is in its second lock for ever, and \<open>main\<close> in its
  join. This is also what \<open>mutex_type_main\<close> computes as one function.
\<close>

theorem mutex_threads_equal_main:
  assumes "atoi a = (Ret n :: (unit, int) exec)"
    and "reach (mt_start n) (mt_step e_init e_create) s"
  shows "((\<nexists>t. mt_step e_init e_create s t) \<longrightarrow>
        (mt_out s, case mt_end s of Some e \<Rightarrow> e | None \<Rightarrow> Never_ends) =
          (if e_init \<noteq> 0 \<or> e_create \<noteq> 0 then ([snd (chosen_kind n)], Status 1)
           else if n = 1 then
             ([''mutex typu PTHREAD_MUTEX_ERRORCHECK'',
               ''before pthread_mutex_lock (1)'', ''after pthread_mutex_lock (1)'', ''before pthread_mutex_lock (2)''],
              Status 1)
           else if n = 2 then
             ([''mutex typu PTHREAD_MUTEX_RECURSIVE'',
               ''before pthread_mutex_lock (1)'', ''after pthread_mutex_lock (1)'',
               ''before pthread_mutex_lock (2)'', ''after pthread_mutex_lock (2)'',
               ''before pthread_mutex_unlock (2)'', ''after pthread_mutex_unlock (2)'',
               ''before pthread_mutex_unlock (1)'', ''after pthread_mutex_unlock (1)''], Status 0)
           else
             ([''mutex typu PTHREAD_MUTEX_NORMAL'',
               ''before pthread_mutex_lock (1)'', ''after pthread_mutex_lock (1)'', ''before pthread_mutex_lock (2)''],
              Never_ends))
        \<and> (mt_out s, case mt_end s of Some e \<Rightarrow> e | None \<Rightarrow> Never_ends) = mutex_type_main e_init e_create (a # as))
    \<and> (\<exists>f. reach s (mt_step e_init e_create) f \<and> (\<nexists>t. mt_step e_init e_create f t))
    \<and> ((mt_step e_init e_create ^^ k) (mt_start n) t \<longrightarrow> k \<le> 16)"
proof -
  note inv = mt_sys.reach_inv [OF assms(2)]
  have "(mt_out s, case mt_end s of Some e \<Rightarrow> e | None \<Rightarrow> Never_ends) = mutex_type_main e_init e_create (a # as)"
    if "\<nexists>t. mt_step e_init e_create s t"
    using mt_stuck_end [OF inv] start_comes_to [OF assms(1), of e_init e_create as] that
    by (simp add: mt_stuck_def)
  moreover have "\<exists>f. reach s (mt_step e_init e_create) f \<and> (\<nexists>t. mt_step e_init e_create f t)"
    using mt_sys.reaches_final [OF assms(2)] by (simp add: mt_stuck_def)
  moreover have "k \<le> 16" if "(mt_step e_init e_create ^^ k) (mt_start n) t"
    using mt_sys.run_bounded [OF that] by (simp add: mt_measure_def mt_start_def split: prod.splits)
  ultimately show ?thesis unfolding mutex_type_main_value [OF assms(1)] by blast
qed

theorem mutex_threads_equal_main_witness:
  "\<exists>f. reach (mt_start 1) (mt_step 0 0) f \<and> mt_end f = Some (Status 1) \<and> length (mt_out f) = 4"
proof -
  have a: "atoi ''1'' = (Ret 1 :: (unit, int) exec)" by code_simp
  from mutex_threads_equal_main [OF a reach_init, of 0 0] obtain f
    where f: "reach (mt_start 1) (mt_step 0 0) f" "\<nexists>t. mt_step 0 0 f t" by blast
  have "mutex_type_main 0 0 [''1''] =
      ([''mutex typu PTHREAD_MUTEX_ERRORCHECK'', ''before pthread_mutex_lock (1)'', ''after pthread_mutex_lock (1)'',
        ''before pthread_mutex_lock (2)''], Status 1)" by code_simp
  with mutex_threads_equal_main [OF a f(1), of "[]"] f(2)
  have "mt_out f = [''mutex typu PTHREAD_MUTEX_ERRORCHECK'', ''before pthread_mutex_lock (1)'',
        ''after pthread_mutex_lock (1)'', ''before pthread_mutex_lock (2)'']"
    "(case mt_end f of Some e \<Rightarrow> e | None \<Rightarrow> Never_ends) = Status 1" by simp_all
  with f(1) show ?thesis by (auto split: option.splits)
qed

end
