(* ===== verification/Active_Pool.thy ===== *)
theory Active_Pool
  imports Active_Object Active_Queue Queue_Machine
begin

text \<open>
  The active object over its queue as the threads really run it: the worker's calls of \<open>pop\<close> and
  the owner's calls of \<open>push\<close> are the statements of \<open>Active_Queue\<close>, interleaved anyhow. They are a
  second instance of \<open>Queue_Machine\<close>, as neither of them calls \<open>try_pop\<close>, so that the mutex is
  never kept. What the asynchronous logger prints is carried over to this system.
\<close>

section \<open>The queue's statements as a machine\<close>

definition aoq_enter :: "tid \<Rightarrow> 'a tsq_call \<Rightarrow> 'a asys \<Rightarrow> 'a asys" where
  "aoq_enter t c q = a_goto t (aoq_entry c) q"

definition aoq_status :: "('a asys, 'a) status" where
  "aoq_status t q = a_caller_of (as_pc q t)"

text \<open>A spurious wake-up of a thread that waits for an item.\<close>

definition aoq_spurious :: "nat \<Rightarrow> 'a asys \<Rightarrow> 'a asys \<Rightarrow> bool" where
  "aoq_spurious n q q' \<longleftrightarrow> (\<exists>t<n. as_pc q t = AP_Blocked \<and> q' = a_goto t AP_Reacq q)"

definition aoq_free :: "'a list \<Rightarrow> 'a tsq" where
  "aoq_free xs = \<lparr>tq_items = xs, tq_mtx = mutex_init NORMAL\<rparr>"

definition unkept_inv :: "nat \<Rightarrow> 'a asys \<Rightarrow> bool" where
  "unkept_inv n q \<longleftrightarrow> asys_inv n q \<and> unkept q"

lemma unkept_inv_step:
  "unkept_inv n q \<Longrightarrow> asys_step C n q q' \<Longrightarrow> Call_try_pop \<notin> C \<Longrightarrow> unkept_inv n q'"
  by (auto simp: unkept_inv_def intro: asys_sys.inv_step unkept_step)

lemma unkept_inv_run: "unkept_inv n q \<Longrightarrow> asys_run n q q' \<Longrightarrow> unkept_inv n q'"
  by (rule unkept_inv_step [of n q "{}"]) (simp_all add: asys_step.run)

lemma aoq_free_calls:
  "aoq_push t x (aoq_free xs) = Done (aoq_free (xs @ [x]))"
  "aoq_pop t (aoq_free (x # xs)) = Done (x, aoq_free xs)"
  by (simp_all add: aoq_free_def aoq_push_def aoq_pop_def aoq_is_empty_def queue_eval)

lemma aoq_exec_acts:
  assumes "aoq_exec t q = Some q'" and "a_knows (as_items q) (as_pc q t)"
  shows "call_acts aoq_status as_items as_popped t q q'"
  unfolding call_acts_def using assms
  by (cases "as_pc q t")
    (auto simp: aoq_status_def aoq_exec_def a_mutex_def split: outcome.splits list.splits if_splits)

lemma aoq_run_acts:
  assumes inv: "unkept_inv n q" and run: "asys_run n q q'"
  shows "\<exists>t<n. call_acts aoq_status as_items as_popped t q q'"
  using run
proof cases
  case (exec t)
  moreover have "a_knows (as_items q) (as_pc q t)"
    using inv exec(1) by (simp add: unkept_inv_def asys_inv_def a_fifo_inv_def)
  ultimately show ?thesis using aoq_exec_acts [of t q q'] by blast
next
  case (signal t u)
  then have "u \<noteq> t" by auto
  with signal show ?thesis by (intro exI [of _ t]) (simp add: call_acts_def aoq_status_def)
next
  case (no_signal t)
  then show ?thesis by (intro exI [of _ t]) (simp add: call_acts_def aoq_status_def)
next
  case (race t u e)
  then show ?thesis by (intro exI [of _ t]) (simp add: call_acts_def aoq_status_def)
qed

lemma aoq_enters:
  assumes inv: "unkept_inv n q" and t: "t < n" "aoq_status t q = Outside" and c: "c \<noteq> Call_try_pop"
  shows "unkept_inv n (aoq_enter t c q)" and "asys_measure n (aoq_enter t c q) \<le> asys_measure n q + 9"
proof -
  have idle: "as_pc q t = A_Idle"
    using t(2) by (cases "as_pc q t") (auto simp: aoq_status_def)
  have "asys_step {c} n q (aoq_enter t c q)"
    unfolding aoq_enter_def using t(1) idle by (rule asys_step.call) simp
  with inv c show "unkept_inv n (aoq_enter t c q)" by (auto intro: unkept_inv_step)
  have "a_steps_left (aoq_entry c) \<le> 9" by (cases c) simp_all
  with thread_sum_upd [OF t(1), of a_steps_left "as_pc q" "aoq_entry c"] idle
  show "asys_measure n (aoq_enter t c q) \<le> asys_measure n q + 9" by (simp add: asys_measure_def aoq_enter_def)
qed

lemma aoq_waits:
  assumes inv: "unkept_inv n q" and none: "\<nexists>q'. asys_run n q q'" and t: "t < n"
  shows "aoq_status t q = Outside \<or> aoq_status t q = Asked Call_pop \<and> as_items q = []"
proof -
  have a: "asys_inv n q" and k: "\<not> (\<exists>u<n. kept_by u q)" using inv by (simp_all add: unkept_inv_def unkept_def)
  from asys_progress [OF a] none have s: "a_settled n q" by blast
  with t k consider "as_pc q t = A_Idle" | "as_pc q t = AP_Blocked" by (auto simp: a_settled_def)
  then show ?thesis
  proof cases
    case 2
    with a_settled_empty [OF _ s t _ k] a show ?thesis by (simp add: aoq_status_def asys_inv_def)
  qed (simp add: aoq_status_def)
qed

interpretation aoq_machine: pool_machine asys_run aoq_spurious aoq_enter aoq_status as_items as_popped
    unkept_inv asys_measure 9 asys_start aoq_push aoq_pop tq_items aoq_idle aoq_free
proof unfold_locales
  show "unkept_inv n asys_start" "aoq_status t asys_start = Outside" "as_items asys_start = []" "as_popped asys_start = []" for n t
    by (simp_all add: unkept_inv_def asys_inv_start unkept_start) (simp_all add: asys_start_def aoq_status_def)
  show "aoq_idle (aoq_free xs)" "tq_items (aoq_free xs) = xs" for xs
    by (simp_all add: aoq_free_def aoq_idle_def)
  fix n and q q' :: "'b option asys" and t c x
  show "unkept_inv n q \<Longrightarrow> aoq_spurious n q q' \<Longrightarrow>
      unkept_inv n q' \<and> (\<forall>t. aoq_status t q' = aoq_status t q) \<and> as_items q' = as_items q \<and> as_popped q' = as_popped q"
    using unkept_inv_step [of n q "{}"] by (auto simp: aoq_spurious_def aoq_status_def intro: asys_step.spurious)
  show "unkept_inv n q \<Longrightarrow> t < n \<Longrightarrow> aoq_status t q = Outside \<Longrightarrow> c = Call_pop \<or> c = Call_push x \<Longrightarrow>
      unkept_inv n (aoq_enter t c q) \<and> (\<forall>u. aoq_status u (aoq_enter t c q) = (if u = t then Asked c else aoq_status u q))
      \<and> as_items (aoq_enter t c q) = as_items q \<and> as_popped (aoq_enter t c q) = as_popped q
      \<and> asys_measure n (aoq_enter t c q) \<le> asys_measure n q + 9"
    using aoq_enters [of n q t c] by (auto simp: aoq_enter_def aoq_status_def)
qed (simp_all add: aoq_run_acts aoq_waits aoq_free_calls unkept_inv_run asys_measure_run)

section \<open>The active object\<close>

type_synonym 'f aoq_cpool = "('f option asys, 'f) cpool"

definition apool_start :: "'f list \<Rightarrow> 'f aoq_cpool" where
  "apool_start fs = queued_start asys_start fs"

definition apool_run :: "'f aoq_cpool \<Rightarrow> 'f aoq_cpool \<Rightarrow> bool" where
  "apool_run = queued_run asys_run aoq_enter aoq_status 1"

definition apool_step :: "'f aoq_cpool \<Rightarrow> 'f aoq_cpool \<Rightarrow> bool" where
  "apool_step = queued_step asys_run aoq_spurious aoq_enter aoq_status 1"

definition apool_abs :: "'f aoq_cpool \<Rightarrow> ('f option tsq, 'f) pool" where
  "apool_abs = cpool_view aoq_status as_items as_popped aoq_free 1"

definition apool_measure :: "'f aoq_cpool \<Rightarrow> nat" where
  "apool_measure = queued_measure aoq_status asys_measure 9 (\<lambda>s. pool_measure tq_items 1 (apool_abs s)) 1"

lemmas apool_defs = apool_start_def apool_run_def apool_step_def apool_abs_def apool_measure_def

lemma aoq_free_empty: "aoq_free [] = aoq_ctor"
  by (simp add: aoq_free_def aoq_ctor_def)

lemma apool_ends:
  assumes r: "reach (apool_start fs) apool_step s"
  shows "(\<exists>f. reach s apool_run f \<and> cpool_closed f)
    \<and> ((apool_run ^^ m) s g \<longrightarrow> m \<le> apool_measure s)
    \<and> ((\<nexists>s'. apool_run s s') \<longrightarrow> cpool_closed s)"
  using aoq_machine.queued_result [OF r [unfolded apool_defs]] by (simp add: apool_defs)

lemma apool_reach_abs: "reach (apool_start fs) apool_step s \<Longrightarrow> reach (ao_start fs) ao_step (apool_abs s)"
  using aoq_machine.queued_reach_ok(2) [of fs 1 s] by (simp add: apool_defs ao_start_def ao_step_def aoq_free_empty)

text \<open>At the end the abstract owner is at its end too: it is not inside a call.\<close>

lemma apool_closed_abs:
  assumes r: "reach (apool_start fs) apool_step s" and "cpool_closed s"
  shows "pool_closed (apool_abs s)" and "cp_worker s 0 = K_Exit"
proof -
  note c = aoq_machine.queued_closed_result [OF r [unfolded apool_defs] assms(2)]
  from c show "cp_worker s 0 = K_Exit" by simp
  from assms(2) show "pool_closed (apool_abs s)"
    by (simp add: apool_abs_def cpool_view_def pool_closed_def cpool_closed_def)
qed

section \<open>Properties\<close>

text \<open>
  C18: The asynchronous logger over the real queue, every statement of \<open>pop\<close> and \<open>push\<close> a step of its
  own. From any state the destructor is reached in a bounded number of steps and is never stuck
  before; the lines printed are at any time the first of those submitted, in order; and once it
  returns the worker has left and the output is what the plain logger would have printed for the
  same calls. Every state is, seen from outside, one of the active object whose calls are atomic.
\<close>

theorem async_logger_over_queue:
  assumes "async_tasks ms = Some fs" and "reach (apool_start fs) apool_step s"
  shows "(\<exists>f. reach s apool_run f \<and> cpool_closed f)
    \<and> ((apool_run ^^ m) s g \<longrightarrow> m \<le> apool_measure s)
    \<and> ((\<nexists>s'. apool_run s s') \<longrightarrow> cpool_closed s)
    \<and> reach (ao_start fs) ao_step (apool_abs s)
    \<and> (\<exists>rest. map snd (cp_log s) @ rest = fs)
    \<and> (cpool_closed s \<longrightarrow> cp_worker s 0 = K_Exit \<and> logger_run ms [] = Some (async_output (cp_log s)))"
proof -
  note a = apool_reach_abs [OF assms(2)]
  have "pl_log (apool_abs s) = cp_log s" by (simp add: apool_abs_def cpool_view_def)
  with async_logger_refines_logger [OF assms(1) a] apool_closed_abs [OF assms(2)] apool_ends [OF assms(2)] a
  show ?thesis by simp
qed

theorem async_logger_over_queue_witness:
  "\<exists>f. reach (apool_start [(''Mon'', ''hi'')]) apool_run f \<and> cpool_closed f
     \<and> async_output (cp_log f) = ''Mon >> hi'' @ [CHR ''\<newline>'']"
proof -
  let ?ms = "[(''Mon'' @ [CHR ''\<newline>''], ''hi'')]" and ?s = "apool_start [(''Mon'', ''hi'')]"
  have ms: "async_tasks ?ms = Some [(''Mon'', ''hi'')]" by (simp add: chop_newline_def)
  obtain f where f: "reach ?s apool_run f" "cpool_closed f"
    using async_logger_over_queue [OF ms reach_init] by blast
  have "apool_run s s' \<Longrightarrow> apool_step s s'" for s s' :: "(string \<times> string) aoq_cpool"
    unfolding apool_run_def apool_step_def by (rule queued_step.run)
  then have "reach ?s apool_step f" by (rule reach_mono [OF f(1)])
  from async_logger_over_queue [OF ms this] f(2) have "logger_run ?ms [] = Some (async_output (cp_log f))" by blast
  then have "async_output (cp_log f) = ''Mon >> hi'' @ [CHR ''\<newline>'']"
    by (simp add: chop_newline_def log_line_def)
  with f show ?thesis by blast
qed

end
