(* ===== verification/Spec2Isabelle.thy ===== *)
theory Spec2Isabelle
  imports Prelude Pthread Lock_Counter Counter_Main Safe_Queue Queue_Threads Thread_Pool Active_Object
    RW_Tree RW_Threads Prod_Cons TSQ_Exercise Mutex_Type Accumulate Launch Futures
    C_Stdio Appm Appm_Files Appm_Ascii Appm_Raw Appm_Errors Histogram
    Net_System Net_Scopes Base_Socket Tcp_Socket Internet_Socket Unix_Socket Net_Programs
    Inet_Sockets Unix_Stream Pi_Darts Barrier_Threads Tss_Threads Sched_Attribs Cancel_Thread
    Signals Thread_Basics Thread_Ends Appm_Types Queue_Atomic Pool_Queue Server_Threads Tcp_Exchange
    Boost_Priority Active_Queue Inet_Server Abstract_Socket
    Launch_Many Mutex_Threads Queue_Machine Active_Pool
begin

text \<open>
  Verification library for a course on threads and sockets in C and C++: three days of
  examples and exercises under \<open>src/day1\<close>, \<open>src/day2\<close> and \<open>src/day3\<close>, each a small program of
  its own, and two libraries they share in copies, the thread-safe queue with its pool and
  the socket classes of \<open>day3/socknet\<close>.

  \<^bold>\<open>Parts of the program and the theories that model them.\<close> A definition has the name of the
  function, method or class it translates, with a prefix where several programs use one name.

  \<^item> Launching threads, \<open>launch_thread.cpp\<close> in its copies, \<open>x_abstract_launcher\<close> and
    \<open>x_c11_launcher\<close>: \<open>Launch\<close>, and \<open>Launch_Many\<close> for the programs that launch several threads and
    join them. First programs (\<open>01_simple_thread\<close>, \<open>02_arguments_adv\<close>,
    \<open>03_exit\<close>, \<open>x_check_nptl_lt\<close>): \<open>Thread_Basics\<close>.
  \<^item> Locks: counters under a mutex and under a spin lock (\<open>05_mutex\<close>, \<open>08_spin\<close>): their threads
    in \<open>Lock_Counter\<close>, their \<open>main\<close> in \<open>Counter_Main\<close>; mutex types (\<open>06_mutex_type\<close>):
    \<open>Mutex_Type\<close> as one function, \<open>Mutex_Threads\<close> a statement at a time; the search tree behind a read-write lock (\<open>07a_rwlock_tree\<close>): the class in
    \<open>RW_Tree\<close>, the two programs in \<open>RW_Threads\<close>; the barrier (\<open>12_barrier\<close>): \<open>Barrier_Threads\<close>.
  \<^item> Queues: \<open>thread_safe_queue.h\<close> one call at a time in \<open>Safe_Queue\<close> and statement by statement
    in \<open>Queue_Threads\<close>, which is shown in \<open>Queue_Atomic\<close> to implement the former;
    \<open>threadpool.cpp\<close> over the operations of any blocking queue in \<open>Thread_Pool\<close>, over any queue
    given by its statements in \<open>Queue_Machine\<close>, and over those of its own in \<open>Pool_Queue\<close>;
    \<open>active_object.h\<close> in \<open>Active_Object\<close>, its queue, a variant of the class, statement by statement
    in \<open>Active_Queue\<close>, and the two together in \<open>Active_Pool\<close>; producer and consumer (\<open>08_prod_cons\<close>) in \<open>Prod_Cons\<close>; the queue
    exercise (\<open>ex_TSQ\<close>) in \<open>TSQ_Exercise\<close>.
  \<^item> The life of a thread: attributes and priorities (\<open>04_attribs\<close>, \<open>04_boost_thread_priority\<close>)
    in \<open>Sched_Attribs\<close> and \<open>Boost_Priority\<close>; signals
    (\<open>04a_signals\<close>) in \<open>Signals\<close>; cancellation (\<open>13_cancel\<close>) in \<open>Cancel_Thread\<close> and
    \<open>Thread_Ends\<close>, which also has \<open>00_clone-test\<close>; thread-specific data (\<open>14_tss\<close>) in
    \<open>Tss_Threads\<close>; futures (\<open>x_pthreads_future\<close>) in \<open>Futures\<close>.
  \<^item> Work divided among threads: sums (\<open>ex_accumulate\<close>) in \<open>Accumulate\<close>; the estimate of pi
    (\<open>ex_pi\<close>) in \<open>Pi_Darts\<close>; histograms of images (\<open>ex_histogram\<close>) in \<open>Histogram\<close>, over the
    image files of \<open>appm.cpp\<close> in \<open>Appm\<close>, with \<open>Appm_Files\<close>, \<open>Appm_Types\<close>, \<open>Appm_Raw\<close>,
    \<open>Appm_Ascii\<close> and \<open>Appm_Errors\<close>.
  \<^item> Sockets: the classes of \<open>socknet/net\<close> in \<open>Base_Socket\<close>, \<open>Tcp_Socket\<close>, \<open>Internet_Socket\<close> and
    \<open>Unix_Socket\<close>; the five programs over them in \<open>Net_Programs\<close>; the threads of the
    threaded server, interleaved with its loop, in \<open>Server_Threads\<close>, and a client of it in
    \<open>Tcp_Exchange\<close>; the helpers of \<open>16_sock_inet\<close> in \<open>Inet_Sockets\<close> and its server, over the
    threads of a pool, in \<open>Inet_Server\<close>; \<open>unix_stream_server\<close> in \<open>Unix_Stream\<close>;
    \<open>15_abstract_unix_socket\<close> in \<open>Abstract_Socket\<close>.
  \<^item> What they stand on: \<open>Prelude\<close> (machine types, reachable states, sums over threads),
    \<open>Pthread\<close> (mutexes, spin locks, lock guards, read-write locks, as POSIX documents them),
    \<open>C_Stdio\<close> (sequential C, characters, formatted numbers, files), \<open>Net_System\<close> (the system
    calls of the sockets) and \<open>Net_Scopes\<close> (descriptors held by local objects).

  \<^bold>\<open>How state and operations correspond.\<close> A sequential function is a HOL function into
  \<open>exec\<close> (it returns, ends the program, or is undefined) or \<open>outcome\<close> (it returns, blocks, fails
  with an error number, or is undefined). Undefined behaviour of the languages, a subscript out
  of range, an overflow of \<open>int\<close>, the use of an unassigned variable or of freed memory, is a
  value of its own, never a default. A program of several threads is a record of the shared
  variables and a program counter per thread; a step is one statement, or one call, of one
  thread; an \<open>inductive\<close> relation lets any thread move, and a theorem about all reachable states
  holds under every interleaving. A function of a component that several programs use takes
  its operations as arguments. A call that may fail is given its error number by the step, so that
  every branch of the sources on it is in the model.

  \<^bold>\<open>Interfaces.\<close> \<open>invariant_system\<close> (an inductive invariant), \<open>terminating_system\<close> (every step
  spends of a measure, only a final state is stuck), \<open>ending_phase\<close> (the same from the moment
  a program is told to stop) and \<open>refinement_system\<close> (the steps implement those of an abstract
  system) are what each concurrent component is proved through. The last makes the two queue classes
  ones whose calls are atomic. \<open>call_machine\<close> is a queue given by the steps of the threads inside its
  calls, \<open>pool_machine\<close> one that implements a queue of atomic calls: a pool over such a queue is shown
  once to implement the pool of \<open>Thread_Pool\<close> and to end; the statements of both queue classes provide it.
  \<open>exclusive_lock\<close> is what a critical section relies on; mutexes, lock guards and spin locks
  provide it, and the counters are proved over it once. \<open>fifo_queue\<close>, with \<open>task_queue\<close> at the
  type of tasks and \<open>connection_queue\<close> at that of connections, is what the pool, the active object and
  the pooled server rely on; both queue classes provide it.
  \<open>key_store\<close> is the contract of the tree: its heap refines a set of keys. \<open>socket_class\<close> is what
  a class that owns a descriptor promises; the socket classes provide it, and the programs are
  shown to release their descriptors by it.

  \<^bold>\<open>What the lemmas show.\<close> Mutual exclusion, order and the absence of lost wake-ups for the
  queues, whose calls take effect at one moment each; that programs end, under every interleaving and whatever their calls answer, with the
  right output (counters, sums, barrier, cancellation, signals, scheduling, thread-specific
  data); that pointer structures refine functional ones and free what they allocate; what an
  image file is read back as, for each of the six formats, and the exact conditions under which
  it is not; that a socket program closes what it opens, and what it does with every answer of
  the system; that the threads of a server keep to their own descriptors and finish what was accepted, and
  what a client of it prints; and the cases in which the code is undefined, hangs or loses data, each as a
  theorem about the model.

  \<^bold>\<open>Parameters.\<close> What is not under \<open>src\<close> and can answer in more than one way is an argument: the
  success of \<open>calloc\<close> and \<open>fopen\<close>, the date of \<open>ctime\<close>, the value an uninitialised counter happens to
  have, if it has one (\<open>None\<close> makes its use undefined), the floating-point tests of \<open>ex_pi\<close> and \<open>ex_histogram\<close>, the numbers of the random generator,
  the range of priorities, the tables of hosts, services and names, the signals from outside,
  the clients of the pooled server that never answer, and, for the sockets, the list of all answers the system will give.

  \<^bold>\<open>Termination and bounds.\<close> The loop of \<open>ReadPPM\<close> that skips comments and the recursions over the
  tree in the heap may not end: they are \<open>partial_function (option)\<close>, and that they return, or
  when they do not, is proved (in \<open>Appm_Errors\<close> and \<open>RW_Tree\<close>). No function has
  fuel. Loops over socket calls end because each call takes an answer from the list of the
  system, and a call without an answer blocks. The recursion of \<open>03_exit\<close> is bounded by the range
  of \<open>int\<close>. A concurrent program's bound is the measure of its \<open>terminating_system\<close>: for
  instance 25 * 500001 steps for the threads of \<open>08_spin\<close> and 17 steps after the flags of
  \<open>04_attribs\<close> are up. Integers are at their width where they wrap (\<open>64 word\<close> sums,
  \<open>32 word\<close> offsets, lengths of socket addresses) and checked against the range of \<open>int\<close> where
  an overflow would be undefined.

  \<^bold>\<open>Not modelled, and why.\<close>

  \<^item> The unused class of \<open>04_boost_thread_priority/prio.cpp\<close> does not parse. Two other sources
    do not compile and are modelled as they are meant: \<open>abstract_bind.c\<close>, which uses names it does not
    declare (variables, or arguments of the model), and the function \<open>server\<close> of
    \<open>16_sock_inet/main.cpp\<close>, whose lambda does not capture a variable it uses (captured by value).
  \<^item> Signals of the socket programs: the one a write to a closed connection raises is left out.
  \<^item> Time: \<open>sleep\<close>, clocks and durations only delay steps that may be delayed anyway. Floating
    point: kept as an argument or as the integers it is computed from.
  \<^item> Copies of a file are modelled once. What the threads of a program do is modelled for threads
    that could be created; what becomes of the others is in \<open>Launch_Many\<close>.
  \<^item> Memory other than sequentially consistent. The sources that share variables without a lock
    have a data race, undefined in C++. \<open>Sched_Attribs\<close> says what holds when each access is
    nevertheless atomic; in \<open>Pi_Darts\<close> a read and a write of the generator's position are, but
    not the two together, and what else a race may do to the generator is left out; in
    \<open>Active_Queue\<close> a read without the mutex finds anything while the queue is being changed;
    \<open>TSQ_Exercise\<close> shows the race itself.
\<close>

end
